(* ===== verification/Xv6_Prelude.thy ===== *)
theory Xv6_Prelude
  imports Main "HOL-Library.Word"
begin

text \<open>
  Prelude of the xv6 development: the outcome type of kernel operations, the
  state-passing combinators the models are written with, the theorem collections the
  component proofs feed, and the generic facts on words and lists they share.
\<close>

unbundle bit_operations_syntax

section \<open>Type names\<close>

type_synonym u8 = "8 word"
type_synonym u16 = "16 word"
type_synonym u32 = "32 word"
type_synonym u64 = "64 word"

text \<open>A C \<open>int\<close> is a 32-bit word, read with \<open>sint\<close> where the code compares it as signed.\<close>

type_synonym c_int = "32 word"

section \<open>Theorem collections\<close>

named_theorems kernel_simps \<open>equations of the outcome combinators and primitive operations\<close>
named_theorems keeps_rules \<open>operations that leave an observation of the state unchanged\<close>
named_theorems const_defs \<open>unfolding of the numeric constants of the headers\<close>

section \<open>Wait channels\<close>

text \<open>
  \<open>sleep(chan, lk)\<close> takes any address as its channel; these are the addresses the kernel
  uses, one constructor for each kind of object.
\<close>

datatype chan =
    ChLog | ChTicks | ChCons | ChTx | ChDisk
  | ChProc nat
  | ChBuf nat
  | ChBufLock nat
  | ChInodeLock nat
  | ChPipeRead u64
  | ChPipeWrite u64

section \<open>Outcomes of kernel operations\<close>

text \<open>
  A kernel operation is a function from the kernel state to an outcome. \<open>Ok\<close> is a normal
  return with a value and the new state; \<open>Panic\<close> is a call of \<open>panic(msg)\<close>, after which
  the machine spins for ever; \<open>Sleep\<close> is a thread that gives up the CPU in \<open>sched()\<close> (it
  carries the channel it waits on, if any, and the state it leaves behind); \<open>Diverge\<close> is a loop that has
  used up the iterations its bound allows; \<open>Undefined\<close> is an access outside an array, whose
  effect C leaves undefined.
\<close>

datatype ('a, 's) outcome =
    Ok 'a 's
  | Panic string
  | Sleep "chan option" 's
  | Diverge
  | Undefined

type_synonym ('s, 'a) op = "'s \<Rightarrow> ('a, 's) outcome"

definition ret :: "'a \<Rightarrow> ('s, 'a) op" where
  "ret x = (\<lambda>s. Ok x s)"

definition bnd :: "('s, 'a) op \<Rightarrow> ('a \<Rightarrow> ('s, 'b) op) \<Rightarrow> ('s, 'b) op" where
  "bnd m f = (\<lambda>s. case m s of
      Ok x s' \<Rightarrow> f x s'
    | Panic e \<Rightarrow> Panic e
    | Sleep c s' \<Rightarrow> Sleep c s'
    | Diverge \<Rightarrow> Diverge
    | Undefined \<Rightarrow> Undefined)"

definition seq :: "('s, 'a) op \<Rightarrow> ('s, 'b) op \<Rightarrow> ('s, 'b) op" where
  "seq m n = bnd m (\<lambda>_. n)"

definition gets :: "('s \<Rightarrow> 'a) \<Rightarrow> ('s, 'a) op" where
  "gets f = (\<lambda>s. Ok (f s) s)"

definition modify :: "('s \<Rightarrow> 's) \<Rightarrow> ('s, unit) op" where
  "modify f = (\<lambda>s. Ok () (f s))"

definition panic :: "string \<Rightarrow> ('s, 'a) op" where
  "panic e = (\<lambda>s. Panic e)"

definition skip :: "('s, unit) op" where
  "skip = ret ()"

definition diverge :: "('s, 'a) op" where
  "diverge = (\<lambda>s. Diverge)"

definition undefined_behaviour :: "('s, 'a) op" where
  "undefined_behaviour = (\<lambda>s. Undefined)"

lemma undefined_behaviour_run [simp, kernel_simps]: "undefined_behaviour s = Undefined"
  by (simp add: undefined_behaviour_def)

lemma ret_run [simp, kernel_simps]: "ret x s = Ok x s"
  by (simp add: ret_def)

lemma skip_run [simp, kernel_simps]: "skip s = Ok () s"
  by (simp add: skip_def)

lemma gets_run [simp, kernel_simps]: "gets f s = Ok (f s) s"
  by (simp add: gets_def)

lemma modify_run [simp, kernel_simps]: "modify f s = Ok () (f s)"
  by (simp add: modify_def)

lemma panic_run [simp, kernel_simps]: "panic e s = Panic e"
  by (simp add: panic_def)

lemma diverge_run [simp, kernel_simps]: "diverge s = Diverge"
  by (simp add: diverge_def)

lemma bnd_Ok [kernel_simps]: "m s = Ok x s' \<Longrightarrow> bnd m f s = f x s'"
  by (simp add: bnd_def)

lemma bnd_ret [simp, kernel_simps]: "bnd (ret x) f = f x"
  by (simp add: bnd_def fun_eq_iff)

lemma bnd_gets [simp, kernel_simps]: "bnd (gets g) f s = f (g s) s"
  by (simp add: bnd_def)

lemma bnd_modify [simp, kernel_simps]: "bnd (modify g) f s = f () (g s)"
  by (simp add: bnd_def)

lemma bnd_panic [simp, kernel_simps]: "bnd (panic e) f s = Panic e"
  by (simp add: bnd_def)

lemma seq_modify [simp, kernel_simps]: "seq (modify g) n s = n (g s)"
  by (simp add: seq_def)

lemma seq_skip [simp, kernel_simps]: "seq skip n = n"
  by (simp add: seq_def skip_def)

lemma bnd_Ok_const [simp, kernel_simps]: "bnd (Ok x) f = f x"
  by (simp add: bnd_def fun_eq_iff)

lemma seq_Ok_const [simp, kernel_simps]: "seq (Ok x) n = n"
  by (simp add: seq_def)

lemma seq_panic [simp, kernel_simps]: "seq (panic e) n s = Panic e"
  by (simp add: seq_def)

lemma seq_Ok [kernel_simps]: "m s = Ok x s' \<Longrightarrow> seq m n s = n s'"
  by (simp add: seq_def bnd_def)

lemma bnd_assoc: "bnd (bnd m f) g = bnd m (\<lambda>x. bnd (f x) g)"
  by (auto simp: bnd_def fun_eq_iff split: outcome.splits)

lemma bnd_seq [simp]: "bnd (seq m n) g = seq m (bnd n g)"
  by (simp add: seq_def bnd_assoc)

lemma seq_bnd [simp]: "seq (bnd m f) n = bnd m (\<lambda>x. seq (f x) n)"
  by (simp add: seq_def bnd_assoc)

lemma seq_assoc: "seq (seq a b) c = seq a (seq b c)"
  by (simp add: seq_def bnd_assoc)

lemma bnd_OkE:
  assumes "bnd m f s = Ok y t"
  obtains x u where "m s = Ok x u" and "f x u = Ok y t"
  using assms by (auto simp: bnd_def split: outcome.splits)

lemma seq_OkE:
  assumes "seq m n s = Ok y t"
  obtains x u where "m s = Ok x u" and "n u = Ok y t"
  using assms by (auto simp: seq_def elim: bnd_OkE)

section \<open>Observations an operation keeps\<close>

text \<open>
  \<open>keeps f m\<close>: whenever \<open>m\<close> returns, the observation \<open>f\<close> of the state is what it was before.
\<close>

definition keeps :: "('s \<Rightarrow> 'b) \<Rightarrow> ('s, 'a) op \<Rightarrow> bool" where
  "keeps f m \<longleftrightarrow> (\<forall>s x t. m s = Ok x t \<longrightarrow> f t = f s)"

lemma keepsD: "keeps f m \<Longrightarrow> m s = Ok x t \<Longrightarrow> f t = f s"
  by (auto simp: keeps_def)

lemma keeps_ret [keeps_rules]: "keeps f (ret x)"
  by (simp add: keeps_def)

lemma keeps_skip [keeps_rules]: "keeps f skip"
  by (simp add: keeps_def)

lemma keeps_gets [keeps_rules]: "keeps f (gets g)"
  by (simp add: keeps_def)

lemma keeps_panic [keeps_rules]: "keeps f (panic e)"
  by (simp add: keeps_def)

lemma keeps_diverge [keeps_rules]: "keeps f diverge"
  by (simp add: keeps_def)

lemma keeps_undefined [keeps_rules]: "keeps f undefined_behaviour"
  by (simp add: keeps_def)

lemma keeps_Sleep [keeps_rules]: "keeps f (Sleep c)"
  by (simp add: keeps_def)

lemma keeps_bnd [keeps_rules]: "keeps f m \<Longrightarrow> (\<And>x. keeps f (n x)) \<Longrightarrow> keeps f (bnd m n)"
  unfolding keeps_def by (metis bnd_OkE)

lemma keeps_seq [keeps_rules]: "keeps f m \<Longrightarrow> keeps f n \<Longrightarrow> keeps f (seq m n)"
  unfolding keeps_def by (metis seq_OkE)

lemma keeps_if [keeps_rules]: "keeps f m \<Longrightarrow> keeps f n \<Longrightarrow> keeps f (if b then m else n)"
  by simp

lemma keeps_case_option [keeps_rules]:
  "keeps f m \<Longrightarrow> (\<And>x. keeps f (n x)) \<Longrightarrow> keeps f (case y of None \<Rightarrow> m | Some x \<Rightarrow> n x)"
  by (cases y) simp_all

lemma keeps_case_prod [keeps_rules]:
  "(\<And>x y. keeps f (n x y)) \<Longrightarrow> keeps f (case p of (x, y) \<Rightarrow> n x y)"
  by (cases p) simp

lemma keeps_case_sum [keeps_rules]:
  "(\<And>x. keeps f (m x)) \<Longrightarrow> (\<And>x. keeps f (n x)) \<Longrightarrow> keeps f (case y of Inl x \<Rightarrow> m x | Inr x \<Rightarrow> n x)"
  by (cases y) simp_all

lemma keeps_Let [keeps_rules]: "(\<And>y. keeps f (n y)) \<Longrightarrow> keeps f (let x = v in n x)"
  by simp

lemma keeps_modify: "(\<And>s. f (g s) = f s) \<Longrightarrow> keeps f (modify g)"
  by (simp add: keeps_def)

section \<open>Partial correctness\<close>

text \<open>
  \<open>ensures P m Q\<close>: from a state that satisfies \<open>P\<close>, if \<open>m\<close> returns, its value and state satisfy
  \<open>Q\<close>. The rules named \<open>after_keeps\<close> step over operations that keep an observation.
\<close>

named_theorems ensures_rules \<open>structural rules of partial correctness\<close>

definition ensures :: "('s \<Rightarrow> bool) \<Rightarrow> ('s, 'a) op \<Rightarrow> ('a \<Rightarrow> 's \<Rightarrow> bool) \<Rightarrow> bool" where
  "ensures P m Q \<longleftrightarrow> (\<forall>s x t. P s \<longrightarrow> m s = Ok x t \<longrightarrow> Q x t)"

lemma ensuresD: "ensures P m Q \<Longrightarrow> P s \<Longrightarrow> m s = Ok x t \<Longrightarrow> Q x t"
  by (auto simp: ensures_def)

lemma ensuresI: "(\<And>s x t. P s \<Longrightarrow> m s = Ok x t \<Longrightarrow> Q x t) \<Longrightarrow> ensures P m Q"
  by (auto simp: ensures_def)

lemma ensures_bnd: "ensures P m R \<Longrightarrow> (\<And>x. ensures (R x) (n x) Q) \<Longrightarrow> ensures P (bnd m n) Q"
  unfolding ensures_def by (metis bnd_OkE)

lemma ensures_seq: "ensures P m R \<Longrightarrow> (\<And>x. ensures (R x) n Q) \<Longrightarrow> ensures P (seq m n) Q"
  unfolding ensures_def by (metis seq_OkE)

lemma ensures_after_keeps_bnd [ensures_rules]:
  "keeps f m \<Longrightarrow> (\<And>x. ensures (\<lambda>s. f s = c) (n x) Q) \<Longrightarrow> ensures (\<lambda>s. f s = c) (bnd m n) Q"
  by (rule ensures_bnd [where R = "\<lambda>_ s. f s = c"]) (auto simp: ensures_def dest: keepsD)

lemma ensures_after_keeps_seq [ensures_rules]:
  "keeps f m \<Longrightarrow> ensures (\<lambda>s. f s = c) n Q \<Longrightarrow> ensures (\<lambda>s. f s = c) (seq m n) Q"
  by (rule ensures_seq [where R = "\<lambda>_ s. f s = c"]) (auto simp: ensures_def dest: keepsD)

lemma ensures_if [ensures_rules]:
  "(b \<Longrightarrow> ensures P m Q) \<Longrightarrow> (\<not> b \<Longrightarrow> ensures P n Q) \<Longrightarrow> ensures P (if b then m else n) Q"
  by simp

lemma ensures_case_option [ensures_rules]:
  "(y = None \<Longrightarrow> ensures P m Q) \<Longrightarrow> (\<And>x. y = Some x \<Longrightarrow> ensures P (n x) Q) \<Longrightarrow>
   ensures P (case y of None \<Rightarrow> m | Some x \<Rightarrow> n x) Q"
  by (cases y) simp_all

lemma ensures_case_prod [ensures_rules]:
  "(\<And>x y. p = (x, y) \<Longrightarrow> ensures P (n x y) Q) \<Longrightarrow> ensures P (case p of (x, y) \<Rightarrow> n x y) Q"
  by (cases p) simp

lemma ensures_Let [ensures_rules]:
  "(\<And>y. y = v \<Longrightarrow> ensures P (n y) Q) \<Longrightarrow> ensures P (let x = v in n x) Q"
  by simp

lemma ensures_panic [ensures_rules]: "ensures P (panic e) Q"
  by (simp add: ensures_def)

lemma ensures_diverge [ensures_rules]: "ensures P diverge Q"
  by (simp add: ensures_def)

lemma ensures_weaken: "ensures P m Q \<Longrightarrow> (\<And>s. P' s \<Longrightarrow> P s) \<Longrightarrow> (\<And>x s. Q x s \<Longrightarrow> Q' x s) \<Longrightarrow> ensures P' m Q'"
  unfolding ensures_def by blast

end
