(* ===== verification/Xv6_Machine.thy ===== *)
theory Xv6_Machine
  imports Xv6_Prelude
begin

text \<open>
  The machine below the kernel: the numeric constants of \<open>riscv.h\<close>, \<open>memlayout.h\<close> and
  \<open>param.h\<close>, the page-table-entry macros of the Sv39 scheme with the swap extension, and
  physical memory as a function from 64-bit addresses to bytes, with little-endian
  accessors for the 32- and 64-bit fields the kernel reads and writes.
\<close>

section \<open>Constants\<close>

text \<open>kernel/riscv.h: pages.\<close>

definition PGSIZE :: u64 where [const_defs]: "PGSIZE = 4096"
definition PGSHIFT :: nat where [const_defs]: "PGSHIFT = 12"

definition PGROUNDUP :: "u64 \<Rightarrow> u64" where
  "PGROUNDUP sz = (sz + PGSIZE - 1) AND NOT (PGSIZE - 1)"

definition PGROUNDDOWN :: "u64 \<Rightarrow> u64" where
  "PGROUNDDOWN a = a AND NOT (PGSIZE - 1)"

text \<open>kernel/riscv.h: bits of a page-table entry; \<open>PTE_S\<close> is the swapped bit of this kernel.\<close>

definition PTE_V :: u64 where [const_defs]: "PTE_V = 1"
definition PTE_R :: u64 where [const_defs]: "PTE_R = 2"
definition PTE_W :: u64 where [const_defs]: "PTE_W = 4"
definition PTE_X :: u64 where [const_defs]: "PTE_X = 8"
definition PTE_U :: u64 where [const_defs]: "PTE_U = 16"
definition PTE_D :: u64 where [const_defs]: "PTE_D = 128"
definition PTE_S :: u64 where [const_defs]: "PTE_S = 256"

definition PA2PTE :: "u64 \<Rightarrow> u64" where
  "PA2PTE pa = push_bit 10 (drop_bit 12 pa)"

definition PTE2PA :: "u64 \<Rightarrow> u64" where
  "PTE2PA pte = push_bit 12 (drop_bit 10 pte)"

definition PTE_FLAGS :: "u64 \<Rightarrow> u64" where
  "PTE_FLAGS pte = pte AND 0x3FF"

definition PTE_SLOT :: "u64 \<Rightarrow> u64" where
  "PTE_SLOT pte = drop_bit 10 pte"

definition SLOT_PTE :: "u64 \<Rightarrow> u64" where
  "SLOT_PTE slot = push_bit 10 slot"

definition PXMASK :: u64 where [const_defs]: "PXMASK = 0x1FF"

definition PXSHIFT :: "nat \<Rightarrow> nat" where
  "PXSHIFT level = PGSHIFT + 9 * level"

definition PX :: "nat \<Rightarrow> u64 \<Rightarrow> u64" where
  "PX level va = drop_bit (PXSHIFT level) va AND PXMASK"

definition MAXVA :: u64 where [const_defs]: "MAXVA = push_bit (9 + 9 + 9 + 12 - 1) 1"

text \<open>kernel/memlayout.h.\<close>

definition KERNBASE :: u64 where [const_defs]: "KERNBASE = 0x80000000"
definition PHYSTOP :: u64 where [const_defs]: "PHYSTOP = KERNBASE + 128 * 1024 * 1024"
definition TRAMPOLINE :: u64 where [const_defs]: "TRAMPOLINE = MAXVA - PGSIZE"
definition TRAPFRAME :: u64 where [const_defs]: "TRAPFRAME = TRAMPOLINE - PGSIZE"

definition KSTACK :: "nat \<Rightarrow> u64" where
  "KSTACK p = TRAMPOLINE - (of_nat p + 1) * 2 * PGSIZE"

text \<open>kernel/param.h.\<close>

definition NPROC :: nat where [const_defs]: "NPROC = 64"
definition NOFILE :: nat where [const_defs]: "NOFILE = 16"
definition NFILE :: nat where [const_defs]: "NFILE = 100"
definition NINODE :: nat where [const_defs]: "NINODE = 50"
definition NDEV :: nat where [const_defs]: "NDEV = 10"
definition ROOTDEV :: u32 where [const_defs]: "ROOTDEV = 1"
definition MAXARG :: nat where [const_defs]: "MAXARG = 32"
definition MAXOPBLOCKS :: nat where [const_defs]: "MAXOPBLOCKS = 10"
definition LOGBLOCKS :: nat where [const_defs]: "LOGBLOCKS = MAXOPBLOCKS * 3"
definition NBUF :: nat where [const_defs]: "NBUF = MAXOPBLOCKS * 3"
definition FSSIZE :: nat where [const_defs]: "FSSIZE = 2000"
definition MAXPATH :: nat where [const_defs]: "MAXPATH = 128"

section \<open>Little-endian byte encodings\<close>

fun le_word :: "u8 list \<Rightarrow> 'a::len word" where
  "le_word [] = 0"
| "le_word (b # bs) = ucast b OR push_bit 8 (le_word bs)"

definition le_bytes :: "nat \<Rightarrow> 'a::len word \<Rightarrow> u8 list" where
  "le_bytes n w = map (\<lambda>i. ucast (drop_bit (8 * i) w)) [0..<n]"

lemma length_le_bytes [simp]: "length (le_bytes n w) = n"
  by (simp add: le_bytes_def)

lemma le_bytes_Suc: "le_bytes (Suc n) w = ucast w # le_bytes n (drop_bit 8 w)"
  unfolding le_bytes_def map_upt_Suc by (simp add: add.commute)

lemma le_word_le_bytes: "le_word (le_bytes n w) = take_bit (8 * n) (w :: 'a::len word)"
proof (induction n arbitrary: w)
  case 0
  then show ?case by (simp add: le_bytes_def)
next
  case (Suc n)
  show ?case
    by (rule bit_word_eqI)
       (auto simp: le_bytes_Suc Suc bit_simps not_less)
qed

lemma le_word_nth_bit:
  "n < LENGTH('a) \<Longrightarrow> bit (le_word bs :: 'a::len word) n =
    (n div 8 < length bs \<and> bit (bs ! (n div 8)) (n mod 8))"
proof (induction bs arbitrary: n)
  case Nil then show ?case by simp
next
  case (Cons b bs)
  show ?case
  proof (cases "n < 8")
    case True
    with Cons.prems show ?thesis by (simp add: bit_simps)
  next
    case False
    then have d: "n div 8 = Suc ((n - 8) div 8)" and m: "(n - 8) mod 8 = n mod 8"
      by (simp_all add: le_div_geq le_mod_geq not_less)
    have nb: "\<not> bit b n" using False by (auto dest: bit_imp_le_length)
    have "bit (le_word (b # bs) :: 'a word) n = bit (le_word bs :: 'a word) (n - 8)"
      using False Cons.prems nb by (auto simp: bit_simps not_less)
    also have "\<dots> = ((n - 8) div 8 < length bs \<and> bit (bs ! ((n - 8) div 8)) ((n - 8) mod 8))"
      using Cons.prems by (intro Cons.IH) simp
    finally show ?thesis using d m by simp
  qed
qed

lemma le_bytes_le_word:
  assumes "length bs * 8 \<le> LENGTH('a)"
  shows "le_bytes (length bs) (le_word bs :: 'a::len word) = bs"
proof (rule nth_equalityI)
  show "length (le_bytes (length bs) (le_word bs :: 'a word)) = length bs" by simp
next
  fix i assume "i < length (le_bytes (length bs) (le_word bs :: 'a word))"
  then have i: "i < length bs" by simp
  show "le_bytes (length bs) (le_word bs :: 'a word) ! i = bs ! i"
  proof (rule bit_word_eqI)
    fix n assume "n < LENGTH(8)"
    then have n: "n < 8" by simp
    have lt: "8 * i + n < LENGTH('a)" using assms i n by linarith
    have "bit (le_bytes (length bs) (le_word bs :: 'a word) ! i) n = bit (le_word bs :: 'a word) (8 * i + n)"
      using i n lt by (simp add: le_bytes_def bit_simps add.commute)
    also have "\<dots> = bit (bs ! i) n"
      using lt i n by (simp add: le_word_nth_bit)
    finally show "bit (le_bytes (length bs) (le_word bs :: 'a word) ! i) n = bit (bs ! i) n" .
  qed
qed


section \<open>Physical memory\<close>

type_synonym memory = "u64 \<Rightarrow> u8"
definition load_bytes :: "memory \<Rightarrow> u64 \<Rightarrow> nat \<Rightarrow> u8 list" where
  "load_bytes m a n = map (\<lambda>i. m (a + of_nat i)) [0..<n]"

definition store_bytes :: "memory \<Rightarrow> u64 \<Rightarrow> u8 list \<Rightarrow> memory" where
  "store_bytes m a bs = (\<lambda>x. if unat (x - a) < length bs then bs ! unat (x - a) else m x)"

definition read64 :: "memory \<Rightarrow> u64 \<Rightarrow> u64" where
  "read64 m a = le_word (load_bytes m a 8)"

definition write64 :: "memory \<Rightarrow> u64 \<Rightarrow> u64 \<Rightarrow> memory" where
  "write64 m a v = store_bytes m a (le_bytes 8 v)"

definition read32 :: "memory \<Rightarrow> u64 \<Rightarrow> u32" where
  "read32 m a = le_word (load_bytes m a 4)"

definition write32 :: "memory \<Rightarrow> u64 \<Rightarrow> u32 \<Rightarrow> memory" where
  "write32 m a v = store_bytes m a (le_bytes 4 v)"

definition page_aligned :: "u64 \<Rightarrow> bool" where
  "page_aligned p \<longleftrightarrow> p mod PGSIZE = 0"

definition aligned8 :: "u64 \<Rightarrow> bool" where
  "aligned8 a \<longleftrightarrow> unat a mod 8 = 0"

text \<open>Two memories that agree outside a set of pages.\<close>

definition same_except :: "u64 set \<Rightarrow> memory \<Rightarrow> memory \<Rightarrow> bool" where
  "same_except P m m' \<longleftrightarrow> (\<forall>x. PGROUNDDOWN x \<notin> P \<longrightarrow> m' x = m x)"

section \<open>Page arithmetic\<close>

lemma unat_u64: "unat (w :: u64) < 18446744073709551616"
  using unsigned_less [of w] by simp

lemma PGROUNDDOWN_push_drop: "PGROUNDDOWN a = push_bit 12 (drop_bit 12 a)"
proof -
  have "NOT (PGSIZE - 1) = NOT (mask 12)" by (simp add: PGSIZE_def mask_eq_exp_minus_1)
  then show ?thesis
    unfolding PGROUNDDOWN_def
    by (intro bit_word_eqI) (auto simp: bit_simps)
qed

lemma unat_PGROUNDDOWN: "unat (PGROUNDDOWN a) = unat a div 4096 * 4096"
proof -
  have "unat a div 4096 * 4096 < 18446744073709551616"
    using unat_u64 [of a] div_times_less_eq_dividend [of "unat a" 4096] by (simp del: div_times_less_eq_dividend)
  then show ?thesis
    by (simp add: PGROUNDDOWN_push_drop push_bit_eq_mult drop_bit_eq_div unat_word_ariths unat_div)
qed

lemma page_aligned_unat: "page_aligned p \<longleftrightarrow> unat p mod 4096 = 0"
  by (simp add: page_aligned_def PGSIZE_def unat_mod word_unat_eq_iff)

lemma PGROUNDDOWN_aligned [simp]: "page_aligned (PGROUNDDOWN a)"
  by (simp add: page_aligned_unat unat_PGROUNDDOWN)

lemma unat_sub_page: assumes "page_aligned p" "PGROUNDDOWN x = p" shows "unat (x - p) = unat x mod 4096"
proof -
  have "unat p = unat x div 4096 * 4096" using assms unat_PGROUNDDOWN by auto
  then have "unat p \<le> unat x" by simp
  then have "unat (x - p) = unat x - unat p" by (simp add: unat_sub_if_size)
  with \<open>unat p = _\<close> show ?thesis by (simp add: minus_div_mult_eq_mod)
qed

lemma PGROUNDDOWN_add: assumes "page_aligned p" "k < 4096"
  shows "PGROUNDDOWN (p + of_nat k) = p" and "unat (p + of_nat k) = unat p + k"
proof -
  have k: "unat (of_nat k :: u64) = k" using assms by (simp add: unat_of_nat)
  have "unat p mod 4096 = 0" using assms page_aligned_unat by simp
  then obtain q where q: "unat p = 4096 * q" by (metis mod_0_imp_dvd dvdE)
  have "unat p < 18446744073709551616" using unat_u64 [of p] by simp
  with q assms have "unat p + k < 18446744073709551616" by simp
  then show u: "unat (p + of_nat k) = unat p + k" by (simp add: unat_word_ariths k)
  show "PGROUNDDOWN (p + of_nat k) = p"
    using u q assms(2) by (simp add: word_unat_eq_iff unat_PGROUNDDOWN)
qed

lemma in_page_iff: assumes "page_aligned p" shows "PGROUNDDOWN x = p \<longleftrightarrow> unat (x - p) < 4096"
proof
  assume "PGROUNDDOWN x = p" then show "unat (x - p) < 4096" using unat_sub_page [OF assms] by simp
next
  assume a: "unat (x - p) < 4096"
  have "x = p + of_nat (unat (x - p))" by simp
  then show "PGROUNDDOWN x = p" using PGROUNDDOWN_add(1) [OF assms a] by simp
qed

lemma load_store_same: "length bs \<le> 4096 \<Longrightarrow> load_bytes (store_bytes m a bs) a (length bs) = bs"
  by (rule nth_equalityI) (auto simp: load_bytes_def store_bytes_def unat_of_nat)

lemma store_bytes_other_page:
  assumes "unat a mod 4096 + length bs \<le> 4096" and "PGROUNDDOWN x \<noteq> PGROUNDDOWN a"
  shows "store_bytes m a bs x = m x"
proof -
  have "\<not> unat (x - a) < length bs"
  proof
    assume l: "unat (x - a) < length bs"
    let ?p = "PGROUNDDOWN a" let ?k = "unat a mod 4096"
    have a: "a = ?p + of_nat ?k"
      using unat_sub_page [of ?p a] by (metis PGROUNDDOWN_aligned add.commute diff_add_cancel of_nat_unat ucast_id)
    have "x = a + of_nat (unat (x - a))" by simp
    then have "x = ?p + of_nat (?k + unat (x - a))" using a
      by (metis (no_types, opaque_lifting) add.assoc of_nat_add)
    moreover have "?k + unat (x - a) < 4096" using l assms(1) by simp
    ultimately have "PGROUNDDOWN x = ?p" by (metis PGROUNDDOWN_add(1) PGROUNDDOWN_aligned)
    with assms(2) show False by simp
  qed
  then show ?thesis by (simp add: store_bytes_def)
qed

lemma PGROUNDDOWN_add_word [simp]:
  "page_aligned p \<Longrightarrow> k < 4096 \<Longrightarrow> PGROUNDDOWN (p + k) = p"
  using PGROUNDDOWN_add(1) [of p "unat k"] by (simp add: word_less_nat_alt)

lemma unat_page_offset:
  "page_aligned p \<Longrightarrow> k < 4096 \<Longrightarrow> unat (p + k) = unat p + unat k"
  using PGROUNDDOWN_add(2) [of p "unat k"] by (simp add: word_less_nat_alt)

lemma PGROUNDDOWN_id [simp]: "page_aligned p \<Longrightarrow> PGROUNDDOWN p = p"
  using PGROUNDDOWN_add_word [of p 0] by simp

lemma page_aligned_dvd8: "page_aligned p \<Longrightarrow> 8 dvd unat p"
  unfolding page_aligned_unat
  by (rule dvd_trans [of 8 4096], simp, rule mod_0_imp_dvd)

lemma aligned8_page [simp]: "page_aligned p \<Longrightarrow> aligned8 p"
  unfolding aligned8_def by (rule dvd_imp_mod_0) (rule page_aligned_dvd8)

lemma and_mask_mod_8: "(k :: u64) AND 7 = k mod 8"
proof -
  have "k AND mask 3 = k mod 2 ^ 3" by (simp only: take_bit_eq_mod flip: take_bit_eq_mask)
  then show ?thesis by (simp add: mask_eq_exp_minus_1)
qed

lemma aligned8_page_offset [simp]:
  "page_aligned p \<Longrightarrow> k < 4096 \<Longrightarrow> k AND 7 = 0 \<Longrightarrow> aligned8 (p + k)"
proof -
  assume p: "page_aligned p" and k: "k < 4096" and "k AND 7 = 0"
  then have "k mod 8 = 0"
    by (metis and_mask_mod_8)
  then have "unat k mod 8 = 0"
    by (simp add: word_unat_eq_iff unat_mod)
  then have "8 dvd unat k" by (rule mod_0_imp_dvd)
  then have "8 dvd unat p + unat k" using page_aligned_dvd8 [OF p] by (rule dvd_add [rotated])
  then show "aligned8 (p + k)"
    unfolding aligned8_def unat_page_offset [OF p k] by (rule dvd_imp_mod_0)
qed

section \<open>Memory accessors\<close>

lemma read64_write64_same [simp]: "read64 (write64 m a v) a = v"
  using load_store_same [of "le_bytes 8 v" m a]
  by (simp add: read64_def write64_def le_word_le_bytes take_bit_word_eq_self)

lemma read32_write32_same [simp]: "read32 (write32 m a v) a = v"
  using load_store_same [of "le_bytes 4 v" m a]
  by (simp add: read32_def write32_def le_word_le_bytes take_bit_word_eq_self)

lemma load_bytes_cong:
  "(\<And>i. i < n \<Longrightarrow> m (a + of_nat i) = m' (a + of_nat i)) \<Longrightarrow> load_bytes m a n = load_bytes m' a n"
  by (simp add: load_bytes_def)

lemma store_bytes_outside:
  "length bs \<le> unat (x - a) \<Longrightarrow> store_bytes m a bs x = m x"
  by (simp add: store_bytes_def)

lemma unat_diff_disjoint:
  assumes "unat b + n \<le> unat a \<or> unat a + k \<le> unat b" and "i < k"
    and "unat a + k \<le> 18446744073709551616" and "unat b + n \<le> 18446744073709551616"
  shows "n \<le> unat (a + of_nat i - b :: u64)"
proof -
  have "unat a + i < 18446744073709551616" using assms by linarith
  then have u: "unat (a + of_nat i) = unat a + i"
    by (simp add: unat_word_ariths unat_of_nat)
  then show ?thesis
    using assms unat_u64 [of b] by (auto simp: unat_sub_if_size word_size u)
qed

lemma load_store_disjoint:
  assumes "unat b + length bs \<le> unat a \<or> unat a + k \<le> unat b"
    and "unat a + k \<le> 18446744073709551616" and "unat b + length bs \<le> 18446744073709551616"
  shows "load_bytes (store_bytes m b bs) a k = load_bytes m a k"
  by (rule load_bytes_cong) (rule store_bytes_outside, rule unat_diff_disjoint [OF assms(1) _ assms(2,3)])

lemma aligned8_bound: "aligned8 a \<Longrightarrow> unat a + 8 \<le> 18446744073709551616"
proof -
  assume "aligned8 a"
  then obtain q where "unat a = 8 * q" unfolding aligned8_def by (metis mod_0_imp_dvd dvdE)
  with unat_u64 [of a] show ?thesis by simp
qed

lemma aligned8_apart:
  assumes "aligned8 a" "aligned8 b" "a \<noteq> b"
  shows "unat b + 8 \<le> unat a \<or> unat a + 8 \<le> unat b"
proof -
  obtain p q where pq: "unat a = 8 * p" "unat b = 8 * q"
    using assms unfolding aligned8_def by (metis mod_0_imp_dvd dvdE)
  have "p \<noteq> q" using assms(3) pq by (metis word_unat_eq_iff)
  with pq show ?thesis by linarith
qed

lemma read64_write64_other [simp]:
  "aligned8 a \<Longrightarrow> aligned8 b \<Longrightarrow> a \<noteq> b \<Longrightarrow> read64 (write64 m b v) a = read64 m a"
  unfolding read64_def write64_def
  by (subst load_store_disjoint) (use aligned8_apart [of a b] aligned8_bound in auto)

lemma aligned8_in_page:
  assumes "aligned8 a" "i < 8" shows "PGROUNDDOWN (a + of_nat i) = PGROUNDDOWN a"
proof -
  obtain q where q: "unat a = 8 * q" using assms unfolding aligned8_def by (metis mod_0_imp_dvd dvdE)
  have "unat a + i < 18446744073709551616" using aligned8_bound [OF assms(1)] assms(2) by linarith
  then have u: "unat (a + of_nat i) = unat a + i"
    by (simp add: unat_word_ariths unat_of_nat)
  have "(8 * q + i) div 4096 = (8 * q + i) div 8 div 512" by (simp add: div_mult2_eq [symmetric])
  also have "\<dots> = q div 512" using assms(2) by simp
  also have "\<dots> = (8 * q) div 4096" by simp
  finally show ?thesis by (simp add: word_unat_eq_iff unat_PGROUNDDOWN u q)
qed

lemma read64_cong_page:
  assumes "aligned8 a" and "\<And>x. PGROUNDDOWN x = PGROUNDDOWN a \<Longrightarrow> m x = m' x"
  shows "read64 m a = read64 m' a"
  unfolding read64_def
  by (rule arg_cong [where f = le_word], rule load_bytes_cong) (simp add: assms aligned8_in_page)

lemma read32_cong_page:
  assumes "aligned8 a" and "\<And>x. PGROUNDDOWN x = PGROUNDDOWN a \<Longrightarrow> m x = m' x"
  shows "read32 m a = read32 m' a"
  unfolding read32_def
  by (rule arg_cong [where f = le_word], rule load_bytes_cong) (simp add: assms aligned8_in_page)

lemma aligned8_mod_page: "aligned8 a \<Longrightarrow> n \<le> 8 \<Longrightarrow> unat a mod 4096 + n \<le> 4096"
proof -
  assume "aligned8 a" "n \<le> 8"
  then obtain q where "unat a = 8 * q" unfolding aligned8_def by (metis mod_0_imp_dvd dvdE)
  then have "unat a mod 4096 = 8 * (q mod 512)" by (simp add: mult_mod_right)
  moreover have "q mod 512 < 512" by simp
  ultimately show ?thesis using \<open>n \<le> 8\<close> by linarith
qed

subsection \<open>Frames\<close>

lemma same_except_refl [simp]: "same_except P m m"
  by (simp add: same_except_def)

lemma same_except_trans:
  "same_except P m m' \<Longrightarrow> same_except Q m' m'' \<Longrightarrow> same_except (P \<union> Q) m m''"
  by (simp add: same_except_def)

lemma same_except_mono: "same_except P m m' \<Longrightarrow> P \<subseteq> Q \<Longrightarrow> same_except Q m m'"
  by (auto simp: same_except_def)

lemma same_except_write64: "aligned8 a \<Longrightarrow> same_except {PGROUNDDOWN a} m (write64 m a v)"
  unfolding same_except_def write64_def
  by (auto intro: store_bytes_other_page simp: aligned8_mod_page)

lemma same_except_write32: "aligned8 a \<Longrightarrow> same_except {PGROUNDDOWN a} m (write32 m a v)"
  unfolding same_except_def write32_def
  by (auto intro: store_bytes_other_page simp: aligned8_mod_page)

lemma same_except_store_page:
  "page_aligned p \<Longrightarrow> length bs \<le> 4096 \<Longrightarrow> same_except {p} m (store_bytes m p bs)"
  unfolding same_except_def
  by (auto intro: store_bytes_other_page simp: page_aligned_unat [THEN iffD1])

lemma read64_same_except:
  "same_except P m m' \<Longrightarrow> aligned8 a \<Longrightarrow> PGROUNDDOWN a \<notin> P \<Longrightarrow> read64 m' a = read64 m a"
  by (rule read64_cong_page) (auto simp: same_except_def)

lemma read32_same_except:
  "same_except P m m' \<Longrightarrow> aligned8 a \<Longrightarrow> PGROUNDDOWN a \<notin> P \<Longrightarrow> read32 m' a = read32 m a"
  by (rule read32_cong_page) (auto simp: same_except_def)

lemma write64_outside [simp]:
  "aligned8 a \<Longrightarrow> PGROUNDDOWN x \<noteq> PGROUNDDOWN a \<Longrightarrow> write64 m a v x = m x"
  using same_except_write64 [of a m v] by (simp add: same_except_def)

lemma read64_replicate:
  "page_aligned p \<Longrightarrow> k < 4096 \<Longrightarrow> aligned8 (p + k) \<Longrightarrow>
   read64 (store_bytes m p (replicate 4096 c)) (p + k) = le_word (replicate 8 c)"
proof -
  assume p: "page_aligned p" and k: "k < 4096" and a: "aligned8 (p + k)"
  have "store_bytes m p (replicate 4096 c) (p + k + of_nat i) = c" if "i < 8" for i
  proof -
    have "PGROUNDDOWN (p + k + of_nat i) = p"
      using aligned8_in_page [OF a that] p k by simp
    then have "unat (p + k + of_nat i - p) < 4096" using in_page_iff [OF p] by blast
    then show ?thesis by (simp add: store_bytes_def)
  qed
  then have "load_bytes (store_bytes m p (replicate 4096 c)) (p + k) 8 = replicate 8 c"
    by (intro nth_equalityI) (simp_all add: load_bytes_def)
  then show ?thesis by (simp add: read64_def)
qed

lemma le_word_zeros [simp]: "le_word (replicate n 0) = 0"
  by (induction n) simp_all

lemma read64_zero [simp]: "read64 (\<lambda>_. 0) a = 0"
proof -
  have "load_bytes (\<lambda>_. 0) a 8 = replicate 8 0" unfolding load_bytes_def by (simp add: map_replicate_const)
  then show ?thesis by (simp only: read64_def le_word_zeros)
qed

lemma PX_0 [simp]: "PX l 0 = 0"
  by (simp add: PX_def)

section \<open>Page-table entries and indices\<close>

lemma unat_p2: "n < 64 \<Longrightarrow> unat (2 ^ n :: u64) = 2 ^ n"
proof -
  assume "n < 64"
  then have "(2::nat) ^ n < 2 ^ 64" by (intro power_strict_increasing) simp_all
  then have "unat (of_nat (2 ^ n) :: u64) = 2 ^ n" by (subst unat_of_nat) simp
  then show ?thesis by simp
qed

lemma take_bit_less: "(w :: u64) < 2 ^ n \<Longrightarrow> n < 64 \<Longrightarrow> take_bit n w = w"
proof -
  assume w: "w < 2 ^ n" and n: "n < 64"
  have "unat (2 ^ n :: u64) = 2 ^ n" using n by (simp add: unat_p2)
  with w have "unat w < 2 ^ n" by (simp add: word_less_nat_alt)
  then show ?thesis by (simp add: word_unat_eq_iff unsigned_take_bit_eq take_bit_nat_eq_self)
qed

lemma bit_less: "(w :: u64) < 2 ^ n \<Longrightarrow> n < 64 \<Longrightarrow> bit w i \<Longrightarrow> i < n"
  by (metis bit_take_bit_iff take_bit_less)

lemma page_aligned_bits: "page_aligned p \<longleftrightarrow> take_bit 12 p = 0"
  by (simp add: page_aligned_def PGSIZE_def take_bit_eq_mod)

lemma page_aligned_bitD: "page_aligned p \<Longrightarrow> i < 12 \<Longrightarrow> \<not> bit p i"
  by (metis bit_0_eq bit_take_bit_iff bot_fun_def bot_bool_def page_aligned_bits)

lemma PTE2PA_aligned [simp]: "page_aligned (PTE2PA pte)"
  by (simp add: page_aligned_bits PTE2PA_def take_bit_push_bit)

lemma PTE2PA_PA2PTE:
  assumes "page_aligned pa" "pa < 2 ^ 56" "f < 2 ^ 10"
  shows "PTE2PA (PA2PTE pa OR f) = pa"
proof (rule bit_word_eqI)
  fix i assume "i < LENGTH(64)"
  have f: "\<not> bit f (i - 12 + 10)" using bit_less [OF assms(3)] by auto
  have p: "bit pa i \<Longrightarrow> 12 \<le> i \<and> i < 56"
    using page_aligned_bitD [OF assms(1)] bit_less [OF assms(2)] by (auto simp: not_less [symmetric])
  show "bit (PTE2PA (PA2PTE pa OR f)) i = bit pa i"
    using f p by (auto simp: PTE2PA_def PA2PTE_def bit_simps)
qed

lemma PA2PTE_flags:
  assumes "g < 2 ^ 10" shows "(PA2PTE pa OR f) AND g = f AND g"
  by (rule bit_word_eqI) (use bit_less [OF assms] in \<open>force simp: PA2PTE_def bit_simps\<close>)

lemma SLOT_PTE_flags:
  assumes "g < 2 ^ 10" shows "(SLOT_PTE n OR f) AND g = f AND g"
  by (rule bit_word_eqI) (use bit_less [OF assms] in \<open>force simp: SLOT_PTE_def bit_simps\<close>)

lemma PTE_SLOT_SLOT_PTE:
  assumes "n < 2 ^ 54" "f < 2 ^ 10" shows "PTE_SLOT (SLOT_PTE n OR f) = n"
proof (rule bit_word_eqI)
  fix i assume "i < LENGTH(64)"
  have f: "\<not> bit f (10 + i)" using bit_less [OF assms(2)] by auto
  show "bit (PTE_SLOT (SLOT_PTE n OR f)) i = bit n i"
    using f bit_less [OF assms(1)] by (auto simp: PTE_SLOT_def SLOT_PTE_def bit_simps)
qed

lemma PX_less: "PX l va < 512"
proof -
  have "PX l va \<le> PXMASK" unfolding PX_def by (rule word_and_le1)
  also have "PXMASK < 512" by (simp add: PXMASK_def)
  finally show ?thesis .
qed

lemma bit_PX: "bit (PX l va) i \<longleftrightarrow> i < 9 \<and> bit va (12 + 9 * l + i)"
proof -
  have m: "PXMASK = mask 9" by (simp add: PXMASK_def mask_eq_exp_minus_1)
  show ?thesis
    unfolding PX_def PXSHIFT_def PGSHIFT_def m by (auto simp: bit_simps)
qed

lemma MAXVA_exp: "MAXVA = 2 ^ 38"
  by (simp add: MAXVA_def)

lemma PX_page_inject:
  assumes "va < MAXVA" "va' < MAXVA"
    and "PX 2 va = PX 2 va'" "PX 1 va = PX 1 va'" "PX 0 va = PX 0 va'"
  shows "PGROUNDDOWN va = PGROUNDDOWN va'"
proof (rule bit_word_eqI)
  fix i assume "i < LENGTH(64)"
  have b: "bit va (12 + 9 * l + k) = bit va' (12 + 9 * l + k)" if "l \<in> {0, 1, 2}" "k < 9" for l k
    using that assms(3-5) bit_PX [of l va k] bit_PX [of l va' k] by auto
  have big: "\<not> bit va i \<and> \<not> bit va' i" if "38 \<le> i"
    using assms(1,2) that bit_less [of va 38 i] bit_less [of va' 38 i] unfolding MAXVA_exp by auto
  have "bit va i = bit va' i" if "12 \<le> i"
  proof (cases "38 \<le> i")
    case True with big show ?thesis by simp
  next
    case False
    define l k where "l = (i - 12) div 9" and "k = (i - 12) mod 9"
    have "i = 12 + 9 * l + k" "k < 9" using that by (simp_all add: l_def k_def)
    moreover have "l \<in> {0, 1, 2}" using False by (auto simp: l_def)
    ultimately show ?thesis using b by metis
  qed
  then show "bit (PGROUNDDOWN va) i = bit (PGROUNDDOWN va') i"
    by (auto simp: PGROUNDDOWN_push_drop bit_simps)
qed

lemma PX_PGROUNDDOWN [simp]: "PX l (PGROUNDDOWN va) = PX l va"
  by (rule bit_word_eqI)
     (auto simp: bit_PX PGROUNDDOWN_push_drop bit_simps add.assoc dest: bit_imp_le_length)

lemma PGROUNDDOWN_le: "PGROUNDDOWN va \<le> va"
  by (simp add: PGROUNDDOWN_def word_and_le2)

section \<open>Ring buffers indexed by wrapping counters\<close>

text \<open>
  A 32-bit counter that wraps around, taken modulo a size that divides \<open>2 ^ 32\<close>, goes through the slots
  in order; fewer steps than the size never come back to a slot.
\<close>

lemma ring_slot:
  assumes "N dvd 4294967296"
  shows "unat (n + of_nat i :: u32) mod N = (unat n + i) mod N"
  using assms by (simp add: unat_word_ariths unat_of_nat mod_mod_cancel mod_add_right_eq)

lemma ring_inject_le:
  assumes "i \<le> j" "j < (N :: nat)" "(a + i) mod N = (a + j) mod N"
  shows "i = j"
proof -
  have "N dvd (a + j) - (a + i)" using assms(1,3) mod_eq_dvd_iff_nat [of "a + i" "a + j" N] by simp
  then have "N dvd j - i" by simp
  then show ?thesis using assms(1,2) by (auto dest: dvd_imp_le)
qed

lemma ring_inject:
  assumes "i < N" "j < (N :: nat)" "(a + i) mod N = (a + j) mod N"
  shows "i = j"
  using ring_inject_le [of i j N a] ring_inject_le [of j i N a] assms by (cases "i \<le> j") auto

end
