(* ===== verification/Xv6_String.thy ===== *)
theory Xv6_String
  imports Xv6_Machine
begin

text \<open>
  kernel/string.c. The functions that write memory (\<open>memset\<close>, \<open>memmove\<close>) are byte loops on
  physical memory; a pointer that is only read is its view, the function that gives the
  byte at each offset, so that the same definitions serve memory, buffers and literals.
  The closed forms proved here (a loop is one \<open>store_bytes\<close>) are what the other components use.
\<close>

section \<open>Operations\<close>

function memset_loop :: "memory \<Rightarrow> u64 \<Rightarrow> u8 \<Rightarrow> nat \<Rightarrow> nat \<Rightarrow> memory" where
  "memset_loop m dst c i n =
     (if i < n then memset_loop (m(dst + of_nat i := c)) dst c (Suc i) n else m)"
  by pat_completeness auto
termination
  by (relation "measure (\<lambda>(m, dst, c, i, n). n - i)") auto

declare memset_loop.simps [simp del]

definition memset :: "memory \<Rightarrow> u64 \<Rightarrow> u8 \<Rightarrow> nat \<Rightarrow> memory" where
  "memset m dst c n = memset_loop m dst c 0 n"

fun memcmp :: "(nat \<Rightarrow> u8) \<Rightarrow> (nat \<Rightarrow> u8) \<Rightarrow> nat \<Rightarrow> int" where
  "memcmp s1 s2 0 = 0"
| "memcmp s1 s2 (Suc n) =
     (if s1 0 \<noteq> s2 0 then uint (s1 0) - uint (s2 0)
      else memcmp (\<lambda>i. s1 (Suc i)) (\<lambda>i. s2 (Suc i)) n)"

fun move_up :: "memory \<Rightarrow> u64 \<Rightarrow> u64 \<Rightarrow> nat \<Rightarrow> memory" where
  "move_up m d s 0 = m"
| "move_up m d s (Suc n) = move_up (m(d := m s)) (d + 1) (s + 1) n"

fun move_down :: "memory \<Rightarrow> u64 \<Rightarrow> u64 \<Rightarrow> nat \<Rightarrow> memory" where
  "move_down m d s 0 = m"
| "move_down m d s (Suc n) = move_down (m(d - 1 := m (s - 1))) (d - 1) (s - 1) n"

definition memmove :: "memory \<Rightarrow> u64 \<Rightarrow> u64 \<Rightarrow> nat \<Rightarrow> memory" where
  "memmove m dst src n =
     (if n = 0 then m
      else if src < dst \<and> dst < src + of_nat n
        then move_down m (dst + of_nat n) (src + of_nat n) n
        else move_up m dst src n)"

definition memcpy :: "memory \<Rightarrow> u64 \<Rightarrow> u64 \<Rightarrow> nat \<Rightarrow> memory" where
  "memcpy m dst src n = memmove m dst src n"

fun strncmp :: "(nat \<Rightarrow> u8) \<Rightarrow> (nat \<Rightarrow> u8) \<Rightarrow> nat \<Rightarrow> int" where
  "strncmp p q 0 = 0"
| "strncmp p q (Suc n) =
     (if p 0 \<noteq> 0 \<and> p 0 = q 0 then strncmp (\<lambda>i. p (Suc i)) (\<lambda>i. q (Suc i)) n
      else uint (p 0) - uint (q 0))"

text \<open>\<open>strncpy\<close> and \<open>safestrcpy\<close> as the list of bytes they store at the destination.\<close>

fun strncpy :: "(nat \<Rightarrow> u8) \<Rightarrow> nat \<Rightarrow> u8 list" where
  "strncpy t 0 = []"
| "strncpy t (Suc n) =
     (if t 0 \<noteq> 0 then t 0 # strncpy (\<lambda>i. t (Suc i)) n else replicate (Suc n) 0)"

fun safestrcpy_loop :: "(nat \<Rightarrow> u8) \<Rightarrow> nat \<Rightarrow> u8 list" where
  "safestrcpy_loop t 0 = [0]"
| "safestrcpy_loop t (Suc n) =
     (if t 0 \<noteq> 0 then t 0 # safestrcpy_loop (\<lambda>i. t (Suc i)) n else [0, 0])"

definition safestrcpy :: "(nat \<Rightarrow> u8) \<Rightarrow> nat \<Rightarrow> u8 list" where
  "safestrcpy t n = (if n = 0 then [] else safestrcpy_loop t (n - 1))"

partial_function (option) strlen_from :: "(nat \<Rightarrow> u8) \<Rightarrow> nat \<Rightarrow> nat option" where
  "strlen_from s n = (if s n \<noteq> 0 then strlen_from s (Suc n) else Some n)"

definition strlen :: "(nat \<Rightarrow> u8) \<Rightarrow> nat option" where
  "strlen s = strlen_from s 0"

definition view :: "memory \<Rightarrow> u64 \<Rightarrow> nat \<Rightarrow> u8" where
  "view m a = (\<lambda>i. m (a + of_nat i))"

definition lview :: "u8 list \<Rightarrow> nat \<Rightarrow> u8" where
  "lview bs = (\<lambda>i. if i < length bs then bs ! i else 0)"

section \<open>Closed forms of the memory loops\<close>

lemma unat_sub_Suc:
  assumes "x \<noteq> d" shows "unat (x - d :: u64) = Suc (unat (x - (d + 1)))"
proof -
  have "x - d = 1 + (x - (d + 1))" by simp
  moreover have "1 + (x - (d + 1)) \<noteq> 0" using assms by simp
  ultimately show ?thesis using unatSuc by metis
qed

lemma memset_loop_apply:
  assumes "n \<le> 18446744073709551616"
  shows "memset_loop m dst c i n x =
    (if i \<le> unat (x - dst) \<and> unat (x - dst) < n then c else m x)"
  using assms
proof (induction m dst c i n rule: memset_loop.induct)
  case (1 m dst c i n)
  show ?case
  proof (cases "i < n")
    case True
    have "x = dst + of_nat i \<longleftrightarrow> unat (x - dst) = i"
    proof
      assume "x = dst + of_nat i"
      then have "x - dst = of_nat i" by simp
      then show "unat (x - dst) = i" using True 1(2) by (simp add: unat_of_nat)
    next
      assume "unat (x - dst) = i"
      then have "x - dst = of_nat i" by auto
      then show "x = dst + of_nat i" by (simp add: diff_eq_eq add.commute)
    qed
    moreover have "memset_loop (m(dst + of_nat i := c)) dst c (Suc i) n x =
        (if Suc i \<le> unat (x - dst) \<and> unat (x - dst) < n then c else (m(dst + of_nat i := c)) x)"
      using 1 True by blast
    ultimately show ?thesis using True
      unfolding memset_loop.simps [of m dst c i n] by (auto simp: Suc_le_eq)
  next
    case False
    then show ?thesis by (auto simp: memset_loop.simps [of m dst c i n])
  qed
qed

lemma memset_eq:
  "n \<le> 18446744073709551616 \<Longrightarrow> memset m dst c n = store_bytes m dst (replicate n c)"
  by (rule ext) (simp add: memset_def memset_loop_apply store_bytes_def)

lemma memset_page: "memset m p c 4096 = store_bytes m p (replicate 4096 c)"
  by (rule memset_eq) simp

lemma move_up_apply:
  assumes "\<And>i j. i < j \<Longrightarrow> j < n \<Longrightarrow> d + of_nat i \<noteq> s + of_nat j"
    and "n \<le> 18446744073709551616"
  shows "move_up m d s n x = (if unat (x - d) < n then m (s + (x - d)) else m x)"
  using assms
proof (induction n arbitrary: m d s)
  case 0
  then show ?case by simp
next
  case (Suc n)
  let ?m = "m(d := m s)"
  have IH: "move_up ?m (d + 1) (s + 1) n x =
      (if unat (x - (d + 1)) < n then ?m (s + 1 + (x - (d + 1))) else ?m x)"
  proof (rule Suc.IH)
    show "d + 1 + of_nat i \<noteq> s + 1 + of_nat j" if "i < j" "j < n" for i j
      using Suc.prems(1) [of "Suc i" "Suc j"] that by (simp add: add.assoc)
  qed (use Suc.prems(2) in simp)
  show ?case
  proof (cases "x = d")
    case True
    have "unat (x - (d + 1)) = 18446744073709551615"
      using True by (simp add: unsigned_minus_1_eq_mask mask_eq_exp_minus_1)
    with Suc.prems(2) True IH show ?thesis by simp
  next
    case False
    then have u: "unat (x - d) = Suc (unat (x - (d + 1)))" by (rule unat_sub_Suc)
    have "s + (x - d) \<noteq> d" if "unat (x - d) < Suc n"
      using Suc.prems(1) [of 0 "unat (x - d)"] that u by auto
    with False IH u show ?thesis by (auto simp: algebra_simps)
  qed
qed

lemma move_down_apply:
  assumes "\<And>i j. i < j \<Longrightarrow> j < n \<Longrightarrow> d + of_nat j \<noteq> s + of_nat i"
    and "n \<le> 18446744073709551616"
  shows "move_down m (d + of_nat n) (s + of_nat n) n x =
    (if unat (x - d) < n then m (s + (x - d)) else m x)"
  using assms
proof (induction n arbitrary: m)
  case 0
  then show ?case by simp
next
  case (Suc n)
  let ?m = "m(d + of_nat n := m (s + of_nat n))"
  have e: "d + of_nat (Suc n) - 1 = d + of_nat n" "s + of_nat (Suc n) - 1 = s + of_nat n"
    by simp_all
  have IH: "move_down ?m (d + of_nat n) (s + of_nat n) n x =
      (if unat (x - d) < n then ?m (s + (x - d)) else ?m x)"
    by (rule Suc.IH) (use Suc.prems in auto)
  have n: "unat (of_nat n :: u64) = n" using Suc.prems(2) by (simp add: unat_of_nat)
  show ?case
  proof (cases "x = d + of_nat n")
    case True
    then have "unat (x - d) = n" using n by simp
    with True IH e show ?thesis by simp
  next
    case False
    have ne: "unat (x - d) \<noteq> n"
    proof
      assume "unat (x - d) = n"
      then have "x - d = of_nat n" by auto
      then have "x = d + of_nat n" by (simp add: diff_eq_eq add.commute)
      with False show False ..
    qed
    have "s + (x - d) \<noteq> d + of_nat n" if "unat (x - d) < n"
      using Suc.prems(1) [of "unat (x - d)" n] that by auto
    with ne False IH e show ?thesis by (auto simp: less_Suc_eq)
  qed
qed

lemma load_bytes_nth [simp]: "i < n \<Longrightarrow> load_bytes m a n ! i = m (a + of_nat i)"
  by (simp add: load_bytes_def)

lemma length_load_bytes [simp]: "length (load_bytes m a n) = n"
  by (simp add: load_bytes_def)

lemma offset_inject:
  "unat (a :: u64) + i < 18446744073709551616 \<Longrightarrow> unat (a + of_nat i) = unat a + i"
  by (simp add: unat_word_ariths unat_of_nat)

text \<open>Whichever way the byte loops run, the destination receives the bytes the source held before.\<close>

lemma memmove_eq:
  assumes "unat dst + n < 18446744073709551616" and "unat src + n < 18446744073709551616"
  shows "memmove m dst src n = store_bytes m dst (load_bytes m src n)"
proof (cases "n = 0")
  case True
  then show ?thesis by (auto simp: memmove_def store_bytes_def load_bytes_def)
next
  case False
  have su: "unat (src + of_nat n) = unat src + n" by (rule offset_inject [OF assms(2)])
  have off: "dst + of_nat i = src + of_nat j \<longleftrightarrow> unat dst + i = unat src + j" if "i < n" "j < n" for i j
  proof -
    have "unat (dst + of_nat i) = unat dst + i" "unat (src + of_nat j) = unat src + j"
      using that assms by (simp_all add: offset_inject)
    then show ?thesis by (metis word_unat_eq_iff)
  qed
  have n: "n \<le> 18446744073709551616" using assms by linarith
  have rhs: "store_bytes m dst (load_bytes m src n) x =
      (if unat (x - dst) < n then m (src + (x - dst)) else m x)" for x
    by (simp add: store_bytes_def)
  show ?thesis
  proof (cases "src < dst \<and> dst < src + of_nat n")
    case True
    then have "unat src < unat dst" by (simp add: word_less_nat_alt)
    then have "dst + of_nat j \<noteq> src + of_nat i" if "i < j" "j < n" for i j
      using that off [of j i] by simp
    then show ?thesis
      using True False n by (auto simp: memmove_def fun_eq_iff move_down_apply rhs)
  next
    case False2: False
    then have "unat dst \<le> unat src \<or> unat src + n \<le> unat dst"
      by (auto simp: word_less_nat_alt su)
    then have "dst + of_nat i \<noteq> src + of_nat j" if "i < j" "j < n" for i j
      using that off [of i j] by auto
    then show ?thesis
      using False2 False n by (auto simp: memmove_def fun_eq_iff move_up_apply rhs)
  qed
qed


text \<open>
  Property C28. \<open>memmove\<close> copies correctly for every pair of ranges, overlapping or not, in either
  direction: afterwards the destination holds the bytes the source held before, and no other
  byte has changed.
\<close>

theorem memmove_correct:
  assumes "unat dst + n < 18446744073709551616" and "unat src + n < 18446744073709551616"
  shows "load_bytes (memmove m dst src n) dst n = load_bytes m src n \<and>
    (\<forall>x. n \<le> unat (x - dst) \<longrightarrow> memmove m dst src n x = m x)"
proof -
  have "load_bytes (store_bytes m dst bs) dst (length bs) = bs" if "length bs = n" for bs
    using that assms(1) by (intro nth_equalityI) (simp_all add: store_bytes_def unat_of_nat)
  from this [of "load_bytes m src n"] show ?thesis
    using assms by (simp add: memmove_eq) (simp add: store_bytes_def)
qed

theorem memmove_correct_witness:
  "load_bytes (memmove (\<lambda>a. if a < 8 then ucast a else 0) 2 0 5) 2 5 = [0, 1, 2, 3, 4] \<and>
   memmove (\<lambda>a. if a < 8 then ucast a else 0) 2 0 5 7 = 7"
proof -
  have "load_bytes (\<lambda>a. if a < 8 then ucast a else 0) 0 5 = [0, 1, 2, 3, 4 :: u8]"
    by (simp add: load_bytes_def upt_rec)
  then show ?thesis
    using memmove_correct [where m = "\<lambda>a. if a < 8 then ucast a else 0" and dst = 2 and src = 0 and n = 5] by simp
qed

end
