(* ===== verification/Xv6_State.thy ===== *)
theory Xv6_State
  imports Xv6_String
begin

text \<open>
  The kernel's data: one record per C struct, with the struct's field names (prefixed by
  the struct's initial), and \<open>kstate\<close>, the kernel's global variables together with physical
  memory and the disk. A pointer to an element of a static array (\<open>proc[]\<close>, \<open>bcache.buf[]\<close>,
  \<open>itable.inode[]\<close>, \<open>ftable.file[]\<close>) is its index, the null pointer \<open>None\<close>; a pointer into
  physical memory (page tables, trapframes, tracking nodes, pipes) is a 64-bit address, with
  0 for null.
\<close>

section \<open>Structs\<close>

datatype procstate = UNUSED | USED | SLEEPING | RUNNABLE | RUNNING | ZOMBIE

record kcontext =
  ctx_ra :: u64
  ctx_sp :: u64
  ctx_s :: "u64 list"

record proc =
  p_state :: procstate
  p_chan :: "chan option"
  p_killed :: bool
  p_xstate :: c_int
  p_pid :: c_int
  p_parent :: "nat option"
  p_kstack :: u64
  p_sz :: u64
  p_pagetable :: u64
  p_trapframe :: u64
  p_context :: kcontext
  p_ofile :: "nat option list"
  p_cwd :: "nat option"
  p_name :: "u8 list"
  p_exe_inode :: "nat option"
  p_fifo_seq_num :: c_int
  p_exe_end :: u64
  p_resident_set_head :: u64
  p_resident_set_tail :: u64
  p_swap_inode :: "nat option"
  p_swap_slots :: "u8 list"

record sleeplock =
  sl_locked :: bool
  sl_pid :: c_int

record buf =
  b_valid :: bool
  b_dev :: u32
  b_blockno :: u32
  b_lock :: sleeplock
  b_refcnt :: u32
  b_prev :: nat
  b_next :: nat
  b_data :: "u8 list"

record inode =
  i_dev :: u32
  i_inum :: u32
  i_ref :: int
  i_lock :: sleeplock
  i_valid :: bool
  i_type :: u16
  i_major :: u16
  i_minor :: u16
  i_nlink :: u16
  i_size :: u32
  i_addrs :: "u32 list"

record superblock =
  sb_magic :: u32
  sb_size :: u32
  sb_nblocks :: u32
  sb_ninodes :: u32
  sb_nlog :: u32
  sb_logstart :: u32
  sb_inodestart :: u32
  sb_bmapstart :: u32

record log =
  l_start :: u32
  l_outstanding :: int
  l_committing :: bool
  l_dev :: u32
  l_n :: int
  l_block :: "u32 list"

datatype filetype = FD_NONE | FD_PIPE | FD_INODE | FD_DEVICE

record kfile =
  f_type :: filetype
  f_ref :: int
  f_readable :: bool
  f_writable :: bool
  f_pipe :: u64
  f_ip :: "nat option"
  f_off :: u32
  f_major :: u16

section \<open>Console messages\<close>

text \<open>
  The messages the demand-paging code prints, one constructor for each \<open>printf\<close> format;
  the last one is any other kernel message.
\<close>

datatype access = Aread | Awrite | Aexec
datatype cause = Cheap | Cstack | Cexec | Cswap | Cinvalid

datatype kmsg =
    MEMFULL "c_int option"
  | VICTIM c_int u64 c_int
  | EVICT c_int u64 bool
  | DISCARD c_int u64
  | SWAPFULL c_int
  | KILL_SWAP c_int
  | SWAPOUT c_int u64 nat
  | EVICT_NOSWAP c_int
  | PAGEFAULT c_int u64 access cause
  | SWAPIN c_int u64 u64
  | RESIDENT c_int u64 c_int
  | ALLOC c_int u64
  | LOADEXEC c_int u64
  | KILL_INVALID c_int u64 access
  | INIT_LAZYMAP c_int u64 u64 u64
  | SWAPCLEANUP c_int nat
  | PROCDUMP c_int procstate "u8 list"
  | UNEXPECTED_SCAUSE u64 c_int u64 u64
  | UNKNOWN_SYSCALL c_int "u8 list" c_int
  | UNEXPECTED_IRQ c_int
  | MSG string

section \<open>Locks\<close>

datatype lock =
    KmemLk | PidLk | WaitLk | TicksLk | BcacheLk | ItableLk | LogLk | FtableLk | ConsLk
  | VdiskLk | TxLk
  | ProcLk nat
  | PipeLk u64
  | BufSlk nat
  | InodeSlk nat

section \<open>The kernel state\<close>

text \<open>
  \<open>held\<close> is the list of spinlocks the running CPU holds, so \<open>mycpu()->noff\<close> is its length;
  \<open>curproc\<close> is \<open>mycpu()->proc\<close>. The addresses \<open>end\<close>, \<open>etext\<close>, \<open>trampoline\<close> and those
  of the functions whose address the code takes, which the linker chooses, are fields that no
  operation writes. \<open>bufs\<close> holds \<open>bcache.buf[]\<close> at the indices
  below \<open>NBUF\<close> and the list head \<open>bcache.head\<close> at \<open>NBUF\<close>. \<open>devsw_console\<close> says whether \<open>consoleinit\<close> has
  filled \<open>devsw[CONSOLE]\<close>; \<open>cons_buf\<close>, \<open>cons_r\<close>, \<open>cons_w\<close>, \<open>cons_e\<close> are \<open>cons\<close> of console.c; \<open>uart_out\<close> is the bytes
  written to the UART's transmit register; \<open>disk_writes\<close> is the history of the blocks written to the
  disk, in the order in which the device completed the requests; \<open>forkret_first\<close> is the static variable of \<open>forkret\<close>.
\<close>

record kstate =
  mem :: memory
  sym_end :: u64
  sym_etext :: u64
  sym_trampoline :: u64
  sym_uservec :: u64
  sym_usertrap :: u64
  sym_kernelvec :: u64
  sym_forkret :: u64
  freelist :: u64
  procs :: "nat \<Rightarrow> proc"
  curproc :: "nat option"
  initproc :: "nat option"
  nextpid :: c_int
  held :: "lock list"
  ticks :: u32
  klog :: "kmsg list"
  bufs :: "nat \<Rightarrow> buf"
  disk :: "u32 \<Rightarrow> u8 list"
  disk_writes :: "(u32 \<times> u8 list) list"
  sblk :: superblock
  lg :: log
  itable :: "nat \<Rightarrow> inode"
  ftable :: "nat \<Rightarrow> kfile"
  kernel_pagetable :: u64
  devsw_console :: bool
  cons_buf :: "u8 list"
  cons_r :: u32
  cons_w :: u32
  cons_e :: u32
  tx_busy :: bool
  uart_out :: "u8 list"
  forkret_first :: bool

text \<open>
  The state the boot loader leaves: static variables are zero (\<open>nextpid\<close> is initialised to 1),
  no process runs. The linker symbols are arguments, except the addresses of functions: \<open>uservec\<close> stands
  at the start of the trampoline page, the others are given as 0.
\<close>

definition boot_proc :: proc where
  "boot_proc = \<lparr>p_state = UNUSED, p_chan = None, p_killed = False, p_xstate = 0, p_pid = 0,
     p_parent = None, p_kstack = 0, p_sz = 0, p_pagetable = 0, p_trapframe = 0,
     p_context = \<lparr>ctx_ra = 0, ctx_sp = 0, ctx_s = replicate 12 0\<rparr>,
     p_ofile = replicate 16 None, p_cwd = None, p_name = replicate 16 0, p_exe_inode = None,
     p_fifo_seq_num = 0, p_exe_end = 0, p_resident_set_head = 0, p_resident_set_tail = 0,
     p_swap_inode = None, p_swap_slots = replicate 128 0\<rparr>"

definition boot_state :: "u64 \<Rightarrow> u64 \<Rightarrow> u64 \<Rightarrow> kstate" where
  "boot_state e t tr = \<lparr>mem = (\<lambda>_. 0), sym_end = e, sym_etext = t, sym_trampoline = tr,
     sym_uservec = tr, sym_usertrap = 0, sym_kernelvec = 0, sym_forkret = 0, freelist = 0,
     procs = (\<lambda>_. boot_proc), curproc = None, initproc = None, nextpid = 1, held = [], ticks = 0,
     klog = [],
     bufs = (\<lambda>_. \<lparr>b_valid = False, b_dev = 0, b_blockno = 0, b_lock = \<lparr>sl_locked = False, sl_pid = 0\<rparr>,
       b_refcnt = 0, b_prev = 0, b_next = 0, b_data = replicate 1024 0\<rparr>),
     disk = (\<lambda>_. replicate 1024 0), disk_writes = [],
     sblk = \<lparr>sb_magic = 0, sb_size = 0, sb_nblocks = 0, sb_ninodes = 0, sb_nlog = 0, sb_logstart = 0,
       sb_inodestart = 0, sb_bmapstart = 0\<rparr>,
     lg = \<lparr>l_start = 0, l_outstanding = 0, l_committing = False, l_dev = 0, l_n = 0,
       l_block = replicate 30 0\<rparr>,
     itable = (\<lambda>_. \<lparr>i_dev = 0, i_inum = 0, i_ref = 0, i_lock = \<lparr>sl_locked = False, sl_pid = 0\<rparr>,
       i_valid = False, i_type = 0, i_major = 0, i_minor = 0, i_nlink = 0, i_size = 0,
       i_addrs = replicate 13 0\<rparr>),
     ftable = (\<lambda>_. \<lparr>f_type = FD_NONE, f_ref = 0, f_readable = False, f_writable = False, f_pipe = 0,
       f_ip = None, f_off = 0, f_major = 0\<rparr>),
     kernel_pagetable = 0, devsw_console = False, cons_buf = replicate 128 0, cons_r = 0, cons_w = 0,
     cons_e = 0, tx_busy = False, uart_out = [], forkret_first = True\<rparr>"

type_synonym 'a kop = "(kstate, 'a) op"

section \<open>Access to the state\<close>

definition upd_proc :: "nat \<Rightarrow> (proc \<Rightarrow> proc) \<Rightarrow> kstate \<Rightarrow> kstate" where
  "upd_proc p f s = s\<lparr>procs := (procs s)(p := f (procs s p))\<rparr>"

definition upd_mem :: "(memory \<Rightarrow> memory) \<Rightarrow> kstate \<Rightarrow> kstate" where
  "upd_mem f s = s\<lparr>mem := f (mem s)\<rparr>"

definition upd_buf :: "nat \<Rightarrow> (buf \<Rightarrow> buf) \<Rightarrow> kstate \<Rightarrow> kstate" where
  "upd_buf b f s = s\<lparr>bufs := (bufs s)(b := f (bufs s b))\<rparr>"

definition upd_inode :: "nat \<Rightarrow> (inode \<Rightarrow> inode) \<Rightarrow> kstate \<Rightarrow> kstate" where
  "upd_inode i f s = s\<lparr>itable := (itable s)(i := f (itable s i))\<rparr>"

definition upd_file :: "nat \<Rightarrow> (kfile \<Rightarrow> kfile) \<Rightarrow> kstate \<Rightarrow> kstate" where
  "upd_file i f s = s\<lparr>ftable := (ftable s)(i := f (ftable s i))\<rparr>"

definition printk :: "kmsg \<Rightarrow> unit kop" where
  "printk x = modify (\<lambda>s. s\<lparr>klog := klog s @ [x]\<rparr>)"

text \<open>
  Dereferencing a null pointer in the kernel faults (page 0 is not mapped), and
  \<open>kerneltrap\<close> panics on a trap that is no device interrupt.
\<close>

definition nonnull :: "'a option \<Rightarrow> 'a kop" where
  "nonnull x = (case x of None \<Rightarrow> panic ''kerneltrap'' | Some y \<Rightarrow> ret y)"

definition myproc :: "nat option kop" where
  "myproc = gets curproc"

lemma myproc_run [simp, kernel_simps]: "myproc s = Ok (curproc s) s"
  by (simp add: myproc_def)

lemma bnd_myproc [simp, kernel_simps]: "bnd myproc f s = f (curproc s) s"
  by (simp add: myproc_def)

lemma nonnull_Some [simp, kernel_simps]: "nonnull (Some x) = ret x"
  by (simp add: nonnull_def)

lemma nonnull_None [simp, kernel_simps]: "nonnull None = panic ''kerneltrap''"
  by (simp add: nonnull_def)

lemma printk_run [simp, kernel_simps]: "printk x s = Ok () (s\<lparr>klog := klog s @ [x]\<rparr>)"
  by (simp add: printk_def)

lemma seq_printk [simp, kernel_simps]: "seq (printk x) n s = n (s\<lparr>klog := klog s @ [x]\<rparr>)"
  by (simp add: printk_def)

end
