(* ===== verification/Xv6_Locks.thy ===== *)
theory Xv6_Locks
  imports Xv6_State
begin

text \<open>
  kernel/spinlock.c, kernel/sleeplock.c and the sleep/wakeup part of kernel/proc.c, as the
  thread that runs on one CPU executes them. Spinlocks of other CPUs are released between
  the steps of this thread, so \<open>acquire\<close> fails only when this CPU already holds the lock, which
  panics; a thread that goes to sleep leaves with the outcome \<open>Sleep\<close>.
\<close>

section \<open>Spinlocks\<close>

definition holding :: "lock \<Rightarrow> bool kop" where
  "holding lk = gets (\<lambda>s. lk \<in> set (held s))"

definition acquire :: "lock \<Rightarrow> unit kop" where
  "acquire lk =
     bnd (holding lk) (\<lambda>h.
     if h then panic ''acquire''
     else modify (\<lambda>s. s\<lparr>held := lk # held s\<rparr>))"

definition release :: "lock \<Rightarrow> unit kop" where
  "release lk =
     bnd (holding lk) (\<lambda>h.
     if \<not> h then panic ''release''
     else modify (\<lambda>s. s\<lparr>held := remove1 lk (held s)\<rparr>))"

section \<open>Giving up the CPU\<close>

definition sched :: "chan option \<Rightarrow> 'a kop" where
  "sched ch =
     bnd myproc (\<lambda>mp. bnd (nonnull mp) (\<lambda>p.
     bnd (holding (ProcLk p)) (\<lambda>h.
     if \<not> h then panic ''sched p->lock'' else
     bnd (gets (\<lambda>s. length (held s))) (\<lambda>noff.
     if noff \<noteq> 1 then panic ''sched locks'' else
     bnd (gets (\<lambda>s. p_state (procs s p))) (\<lambda>st.
     if st = RUNNING then panic ''sched RUNNING''
     else (\<lambda>s. Sleep ch s))))))"

definition sleep :: "chan \<Rightarrow> lock \<Rightarrow> 'a kop" where
  "sleep ch lk =
     bnd myproc (\<lambda>mp. bnd (nonnull mp) (\<lambda>p.
     seq (acquire (ProcLk p)) (
     seq (release lk) (
     seq (modify (upd_proc p (\<lambda>q. q\<lparr>p_chan := Some ch, p_state := SLEEPING\<rparr>))) (
     sched (Some ch))))))"

definition wakeup1 :: "chan \<Rightarrow> nat \<Rightarrow> unit kop" where
  "wakeup1 ch p =
     bnd myproc (\<lambda>mp.
     if mp = Some p then skip else
     seq (acquire (ProcLk p)) (
     seq (modify (upd_proc p (\<lambda>q.
       if p_state q = SLEEPING \<and> p_chan q = Some ch then q\<lparr>p_state := RUNNABLE\<rparr> else q))) (
     release (ProcLk p))))"

fun each :: "('a \<Rightarrow> unit kop) \<Rightarrow> 'a list \<Rightarrow> unit kop" where
  "each f [] = skip"
| "each f (x # xs) = seq (f x) (each f xs)"

definition wakeup :: "chan \<Rightarrow> unit kop" where
  "wakeup ch = each (wakeup1 ch) [0..<NPROC]"

definition yield :: "'a kop" where
  "yield =
     bnd myproc (\<lambda>mp. bnd (nonnull mp) (\<lambda>p.
     seq (acquire (ProcLk p)) (
     seq (modify (upd_proc p (\<lambda>q. q\<lparr>p_state := RUNNABLE\<rparr>))) (
     sched None))))"

section \<open>Sleep locks\<close>

text \<open>
  A sleep lock is given by its inner spinlock, its wait channel and access to its two
  fields, so that one definition serves buffers and inodes.
\<close>

record slock =
  s_lk :: lock
  s_chan :: chan
  s_get :: "kstate \<Rightarrow> sleeplock"
  s_put :: "sleeplock \<Rightarrow> kstate \<Rightarrow> kstate"

definition buf_slock :: "nat \<Rightarrow> slock" where
  "buf_slock b = \<lparr>s_lk = BufSlk b, s_chan = ChBufLock b, s_get = (\<lambda>s. b_lock (bufs s b)),
     s_put = (\<lambda>l. upd_buf b (\<lambda>x. x\<lparr>b_lock := l\<rparr>))\<rparr>"

definition inode_slock :: "nat \<Rightarrow> slock" where
  "inode_slock i = \<lparr>s_lk = InodeSlk i, s_chan = ChInodeLock i, s_get = (\<lambda>s. i_lock (itable s i)),
     s_put = (\<lambda>l. upd_inode i (\<lambda>x. x\<lparr>i_lock := l\<rparr>))\<rparr>"

definition acquiresleep :: "slock \<Rightarrow> unit kop" where
  "acquiresleep k =
     seq (acquire (s_lk k)) (
     bnd (gets (s_get k)) (\<lambda>l.
     if sl_locked l then sleep (s_chan k) (s_lk k) else
     bnd myproc (\<lambda>mp. bnd (nonnull mp) (\<lambda>p.
     seq (modify (\<lambda>s. s_put k \<lparr>sl_locked = True, sl_pid = p_pid (procs s p)\<rparr> s)) (
     release (s_lk k))))))"

definition releasesleep :: "slock \<Rightarrow> unit kop" where
  "releasesleep k =
     seq (acquire (s_lk k)) (
     seq (modify (s_put k \<lparr>sl_locked = False, sl_pid = 0\<rparr>)) (
     seq (wakeup (s_chan k)) (
     release (s_lk k))))"

definition holdingsleep :: "slock \<Rightarrow> bool kop" where
  "holdingsleep k =
     seq (acquire (s_lk k)) (
     bnd (gets (s_get k)) (\<lambda>l.
     bnd myproc (\<lambda>mp. bnd (nonnull mp) (\<lambda>p.
     bnd (gets (\<lambda>s. sl_locked l \<and> sl_pid l = p_pid (procs s p))) (\<lambda>r.
     seq (release (s_lk k)) (ret r))))))"

section \<open>Equations\<close>

lemma acquire_run [kernel_simps]:
  "acquire lk s = (if lk \<in> set (held s) then Panic ''acquire'' else Ok () (s\<lparr>held := lk # held s\<rparr>))"
  by (simp add: acquire_def holding_def)

lemma release_run [kernel_simps]:
  "release lk s = (if lk \<in> set (held s) then Ok () (s\<lparr>held := remove1 lk (held s)\<rparr>) else Panic ''release'')"
  by (simp add: release_def holding_def)

lemma seq_acquire [simp, kernel_simps]:
  "lk \<notin> set (held s) \<Longrightarrow> seq (acquire lk) n s = n (s\<lparr>held := lk # held s\<rparr>)"
  by (simp add: seq_def bnd_def acquire_run)

lemma seq_acquire_held [simp, kernel_simps]:
  "lk \<in> set (held s) \<Longrightarrow> seq (acquire lk) n s = Panic ''acquire''"
  by (simp add: seq_def bnd_def acquire_run)

lemma seq_release [simp, kernel_simps]:
  "lk \<in> set (held s) \<Longrightarrow> seq (release lk) n s = n (s\<lparr>held := remove1 lk (held s)\<rparr>)"
  by (simp add: seq_def bnd_def release_run)

lemma bnd_holding [simp, kernel_simps]: "bnd (holding lk) f s = f (lk \<in> set (held s)) s"
  by (simp add: holding_def)

lemma each_append: "each f (xs @ ys) = seq (each f xs) (each f ys)"
  by (induction xs) (simp_all add: seq_assoc)

definition wake :: "chan \<Rightarrow> nat option \<Rightarrow> nat \<Rightarrow> (nat \<Rightarrow> proc) \<Rightarrow> nat \<Rightarrow> proc" where
  "wake ch me n ps p =
     (if p < n \<and> me \<noteq> Some p \<and> p_state (ps p) = SLEEPING \<and> p_chan (ps p) = Some ch
      then (ps p)\<lparr>p_state := RUNNABLE\<rparr> else ps p)"

lemma wakeup1_run:
  assumes "ProcLk p \<notin> set (held s)"
  shows "wakeup1 ch p s = Ok () (s\<lparr>procs := (procs s)(p :=
    if curproc s \<noteq> Some p \<and> p_state (procs s p) = SLEEPING \<and> p_chan (procs s p) = Some ch
    then (procs s p)\<lparr>p_state := RUNNABLE\<rparr> else procs s p)\<rparr>)"
  using assms by (simp add: wakeup1_def release_run upd_proc_def)

lemma wakeup_upto:
  assumes "\<forall>p. ProcLk p \<notin> set (held s)"
  shows "each (wakeup1 ch) [0..<n] s = Ok () (s\<lparr>procs := wake ch (curproc s) n (procs s)\<rparr>)"
proof (induction n)
  case 0
  have "wake ch (curproc s) 0 (procs s) = procs s" by (simp add: wake_def fun_eq_iff)
  then show ?case by simp
next
  case (Suc n)
  have "each (wakeup1 ch) [0..<Suc n] s =
      wakeup1 ch n (s\<lparr>procs := wake ch (curproc s) n (procs s)\<rparr>)"
    using Suc by (simp add: each_append seq_Ok) (simp add: seq_def bnd_def wakeup1_run assms)
  also have "\<dots> = Ok () (s\<lparr>procs := wake ch (curproc s) (Suc n) (procs s)\<rparr>)"
  proof -
    let ?w = "wake ch (curproc s) n (procs s)"
    have "wake ch (curproc s) (Suc n) (procs s) = ?w(n :=
        if curproc s \<noteq> Some n \<and> p_state (?w n) = SLEEPING \<and> p_chan (?w n) = Some ch
        then (?w n)\<lparr>p_state := RUNNABLE\<rparr> else ?w n)"
      by (rule ext) (simp add: wake_def less_Suc_eq)
    then show ?thesis using assms by (simp add: wakeup1_run del: fun_upd_apply)
  qed
  finally show ?case .
qed

lemma wakeup_run:
  assumes "\<forall>p. ProcLk p \<notin> set (held s)"
  shows "wakeup ch s = Ok () (s\<lparr>procs := wake ch (curproc s) NPROC (procs s)\<rparr>)"
  unfolding wakeup_def by (rule wakeup_upto [OF assms])

lemma seq_wakeup [simp]:
  "\<forall>p. ProcLk p \<notin> set (held s) \<Longrightarrow>
   seq (wakeup ch) n s = n (s\<lparr>procs := wake ch (curproc s) NPROC (procs s)\<rparr>)"
  by (simp add: seq_Ok wakeup_run)

section \<open>Sleeping never returns to the same run\<close>

lemma sched_not_Ok [simp]: "sched c s \<noteq> Ok x t"
  by (auto simp: sched_def nonnull_def elim!: bnd_OkE split: if_splits option.splits)

lemma sleep_not_Ok [simp]: "sleep c lk s \<noteq> Ok x t"
  by (auto simp: sleep_def elim!: bnd_OkE seq_OkE)

end
