(* ===== verification/Xv6_Bio.thy ===== *)
theory Xv6_Bio
  imports Xv6_Locks
begin

text \<open>
  kernel/bio.c, the buffer cache, over the block device of kernel/virtio_disk.c. The cache is
  the array \<open>bcache.buf[]\<close> with its doubly linked list of buffers, most recently used first,
  whose head is the entry \<open>NBUF\<close>. A transfer moves one whole block:
  the driver itself is in \<open>Xv6_Virtio\<close>, and \<open>Xv6_Rw\<close> shows that its transfers are atomic.
\<close>

definition BSIZE :: nat where [const_defs]: "BSIZE = 1024"

section \<open>Operations\<close>

text \<open>\<open>binit\<close>: each buffer in turn is put at the front of the list.\<close>

definition link_front :: "nat \<Rightarrow> (nat \<Rightarrow> buf) \<Rightarrow> nat \<Rightarrow> buf" where
  "link_front b bs =
     (let bs = bs(b := (bs b)\<lparr>b_next := b_next (bs NBUF)\<rparr>);
          bs = bs(b := (bs b)\<lparr>b_prev := NBUF\<rparr>);
          f = b_next (bs NBUF);
          bs = bs(f := (bs f)\<lparr>b_prev := b\<rparr>)
      in bs(NBUF := (bs NBUF)\<lparr>b_next := b\<rparr>))"

definition unlink :: "nat \<Rightarrow> (nat \<Rightarrow> buf) \<Rightarrow> nat \<Rightarrow> buf" where
  "unlink b bs =
     (let nx = b_next (bs b);
          bs = bs(nx := (bs nx)\<lparr>b_prev := b_prev (bs b)\<rparr>);
          pv = b_prev (bs b)
      in bs(pv := (bs pv)\<lparr>b_next := b_next (bs b)\<rparr>))"

definition binit_buf :: "nat \<Rightarrow> (nat \<Rightarrow> buf) \<Rightarrow> nat \<Rightarrow> buf" where
  "binit_buf b bs =
     link_front b (bs(b := (bs b)\<lparr>b_lock := \<lparr>sl_locked = False, sl_pid = 0\<rparr>\<rparr>))"

definition binit :: "unit kop" where
  "binit = modify (\<lambda>s. s\<lparr>bufs :=
     fold binit_buf [0..<NBUF] ((bufs s)(NBUF := (bufs s NBUF)\<lparr>b_prev := NBUF, b_next := NBUF\<rparr>))\<rparr>)"

text \<open>
  A walk along the list from \<open>b\<close> to the head: \<open>Some (Some c)\<close> is the first buffer that
  satisfies \<open>P\<close>, \<open>Some None\<close> is none, and \<open>None\<close> is a walk of more than \<open>fuel\<close> steps.
\<close>

fun bscan :: "(buf \<Rightarrow> nat) \<Rightarrow> (nat \<Rightarrow> buf) \<Rightarrow> (buf \<Rightarrow> bool) \<Rightarrow> nat \<Rightarrow> nat \<Rightarrow> nat option option" where
  "bscan nxt bs P 0 b = None"
| "bscan nxt bs P (Suc fuel) b =
     (if b = NBUF then Some None
      else if P (bs b) then Some (Some b)
      else bscan nxt bs P fuel (nxt (bs b)))"

definition bget :: "u32 \<Rightarrow> u32 \<Rightarrow> nat kop" where
  "bget dev blockno =
     seq (acquire BcacheLk) (
     bnd (gets bufs) (\<lambda>bs.
     case bscan b_next bs (\<lambda>b. b_dev b = dev \<and> b_blockno b = blockno) (Suc NBUF) (b_next (bs NBUF)) of
       None \<Rightarrow> diverge
     | Some (Some b) \<Rightarrow>
         seq (modify (upd_buf b (\<lambda>x. x\<lparr>b_refcnt := b_refcnt x + 1\<rparr>))) (
         seq (release BcacheLk) (
         seq (acquiresleep (buf_slock b)) (ret b)))
     | Some None \<Rightarrow>
        (case bscan b_prev bs (\<lambda>b. b_refcnt b = 0) (Suc NBUF) (b_prev (bs NBUF)) of
           None \<Rightarrow> diverge
         | Some (Some b) \<Rightarrow>
             seq (modify (upd_buf b (\<lambda>x. x\<lparr>b_dev := dev, b_blockno := blockno,
               b_valid := False, b_refcnt := 1\<rparr>))) (
             seq (release BcacheLk) (
             seq (acquiresleep (buf_slock b)) (ret b)))
         | Some None \<Rightarrow> panic ''bget: no buffers'')))"

text \<open>
  \<open>virtio_disk_rw\<close>: the request is queued and the thread sleeps on the buffer until the
  completion interrupt, so \<open>sched\<close>'s check that no other spinlock is held is always reached;
  then the device has moved the whole block.
\<close>

definition virtio_disk_rw :: "nat \<Rightarrow> bool \<Rightarrow> unit kop" where
  "virtio_disk_rw b write =
     seq (acquire VdiskLk) (
     bnd myproc (\<lambda>mp. bnd (nonnull mp) (\<lambda>p.
     seq (acquire (ProcLk p)) (
     seq (release VdiskLk) (
     bnd (gets (\<lambda>s. length (held s))) (\<lambda>noff.
     if noff \<noteq> 1 then panic ''sched locks'' else
     seq (modify (\<lambda>s.
       if write then s\<lparr>disk := (disk s)(b_blockno (bufs s b) := b_data (bufs s b)),
         disk_writes := disk_writes s @ [(b_blockno (bufs s b), b_data (bufs s b))]\<rparr>
       else upd_buf b (\<lambda>x. x\<lparr>b_data := disk s (b_blockno x)\<rparr>) s)) (
     seq (modify (upd_proc p (\<lambda>q. q\<lparr>p_chan := None\<rparr>))) (
     seq (release (ProcLk p)) (
     seq (acquire VdiskLk) (
     release VdiskLk))))))))))"

definition bread :: "u32 \<Rightarrow> u32 \<Rightarrow> nat kop" where
  "bread dev blockno =
     bnd (bget dev blockno) (\<lambda>b.
     bnd (gets (\<lambda>s. b_valid (bufs s b))) (\<lambda>v.
     if v then ret b else
     seq (virtio_disk_rw b False) (
     seq (modify (upd_buf b (\<lambda>x. x\<lparr>b_valid := True\<rparr>))) (
     ret b))))"

definition bwrite :: "nat \<Rightarrow> unit kop" where
  "bwrite b =
     bnd (holdingsleep (buf_slock b)) (\<lambda>h.
     if \<not> h then panic ''bwrite'' else virtio_disk_rw b True)"

definition brelse :: "nat \<Rightarrow> unit kop" where
  "brelse b =
     bnd (holdingsleep (buf_slock b)) (\<lambda>h.
     if \<not> h then panic ''brelse'' else
     seq (releasesleep (buf_slock b)) (
     seq (acquire BcacheLk) (
     seq (modify (upd_buf b (\<lambda>x. x\<lparr>b_refcnt := b_refcnt x - 1\<rparr>))) (
     seq (modify (\<lambda>s. if b_refcnt (bufs s b) = 0
       then s\<lparr>bufs := link_front b (unlink b (bufs s))\<rparr> else s)) (
     release BcacheLk)))))"

definition bpin :: "nat \<Rightarrow> unit kop" where
  "bpin b =
     seq (acquire BcacheLk) (
     seq (modify (upd_buf b (\<lambda>x. x\<lparr>b_refcnt := b_refcnt x + 1\<rparr>))) (
     release BcacheLk))"

definition bunpin :: "nat \<Rightarrow> unit kop" where
  "bunpin b =
     seq (acquire BcacheLk) (
     seq (modify (upd_buf b (\<lambda>x. x\<lparr>b_refcnt := b_refcnt x - 1\<rparr>))) (
     release BcacheLk))"

end
