(* ===== verification/Xv6_Log.thy ===== *)
theory Xv6_Log
  imports Xv6_Bio
begin

text \<open>
  kernel/log.c, the redo log. The in-memory header is the record \<open>log\<close>; on disk the header
  block holds the count and the block numbers as little-endian ints, followed by the logged
  blocks. \<open>begin_op\<close> leaves with \<open>Sleep\<close> where the C code waits for a commit.
\<close>

section \<open>Fields of a block\<close>

definition get16 :: "u8 list \<Rightarrow> nat \<Rightarrow> u16" where
  "get16 bs off = le_word (take 2 (drop off bs))"

definition get32 :: "u8 list \<Rightarrow> nat \<Rightarrow> u32" where
  "get32 bs off = le_word (take 4 (drop off bs))"

definition get64 :: "u8 list \<Rightarrow> nat \<Rightarrow> u64" where
  "get64 bs off = le_word (take 8 (drop off bs))"

definition splice :: "u8 list \<Rightarrow> nat \<Rightarrow> u8 list \<Rightarrow> u8 list" where
  "splice bs off xs = take off bs @ xs @ drop (off + length xs) bs"

definition put32 :: "u8 list \<Rightarrow> nat \<Rightarrow> u32 \<Rightarrow> u8 list" where
  "put32 bs off v = splice bs off (le_bytes 4 v)"

section \<open>Operations\<close>

definition upd_log :: "(log \<Rightarrow> log) \<Rightarrow> kstate \<Rightarrow> kstate" where
  "upd_log f s = s\<lparr>lg := f (lg s)\<rparr>"

definition install_block :: "bool \<Rightarrow> nat \<Rightarrow> unit kop" where
  "install_block recovering tail =
     bnd (gets lg) (\<lambda>l.
     seq (if recovering then printk (MSG ''recovering'') else skip) (
     bnd (bread (l_dev l) (l_start l + of_nat tail + 1)) (\<lambda>lbuf.
     bnd (bread (l_dev l) (l_block l ! tail)) (\<lambda>dbuf.
     seq (modify (\<lambda>s. upd_buf dbuf (\<lambda>x. x\<lparr>b_data := b_data (bufs s lbuf)\<rparr>) s)) (
     seq (bwrite dbuf) (
     seq (if recovering then skip else bunpin dbuf) (
     seq (brelse lbuf) (
     brelse dbuf))))))))"

definition install_trans :: "bool \<Rightarrow> unit kop" where
  "install_trans recovering =
     bnd (gets lg) (\<lambda>l.
     if l_n l > int LOGBLOCKS then undefined_behaviour
     else each (install_block recovering) [0..<nat (l_n l)])"

definition read_head :: "unit kop" where
  "read_head =
     bnd (gets lg) (\<lambda>l.
     bnd (bread (l_dev l) (l_start l)) (\<lambda>b.
     bnd (gets (\<lambda>s. b_data (bufs s b))) (\<lambda>d.
     (let n = sint (get32 d 0) in
     if n > int LOGBLOCKS then undefined_behaviour else
     seq (modify (upd_log (\<lambda>l. l\<lparr>l_n := n,
       l_block := map (\<lambda>i. get32 d (4 + 4 * i)) [0..<nat n] @ drop (nat n) (l_block l)\<rparr>))) (
     brelse b)))))"

definition write_head :: "unit kop" where
  "write_head =
     bnd (gets lg) (\<lambda>l.
     bnd (bread (l_dev l) (l_start l)) (\<lambda>b.
     if l_n l > int LOGBLOCKS then undefined_behaviour else
     seq (modify (upd_buf b (\<lambda>x. x\<lparr>b_data :=
       fold (\<lambda>i d. put32 d (4 + 4 * i) (l_block l ! i)) [0..<nat (l_n l)]
         (put32 (b_data x) 0 (word_of_int (l_n l)))\<rparr>))) (
     seq (bwrite b) (
     brelse b))))"

definition recover_from_log :: "unit kop" where
  "recover_from_log =
     seq read_head (
     seq (install_trans True) (
     seq (modify (upd_log (\<lambda>l. l\<lparr>l_n := 0\<rparr>))) (
     write_head)))"

definition initlog :: "u32 \<Rightarrow> superblock \<Rightarrow> unit kop" where
  "initlog dev sb =
     (if 4 + 4 * LOGBLOCKS \<ge> BSIZE then panic ''initlog: too big logheader'' else
     seq (modify (upd_log (\<lambda>l. l\<lparr>l_start := sb_logstart sb, l_dev := dev\<rparr>))) (
     recover_from_log))"

definition begin_op :: "unit kop" where
  "begin_op =
     seq (acquire LogLk) (
     bnd (gets lg) (\<lambda>l.
     if l_committing l then sleep ChLog LogLk
     else if l_n l + (l_outstanding l + 1) * int MAXOPBLOCKS > int LOGBLOCKS then sleep ChLog LogLk
     else
       seq (modify (upd_log (\<lambda>l. l\<lparr>l_outstanding := l_outstanding l + 1\<rparr>))) (
       release LogLk)))"

definition write_log_block :: "nat \<Rightarrow> unit kop" where
  "write_log_block tail =
     bnd (gets lg) (\<lambda>l.
     bnd (bread (l_dev l) (l_start l + of_nat tail + 1)) (\<lambda>to.
     bnd (bread (l_dev l) (l_block l ! tail)) (\<lambda>from.
     seq (modify (\<lambda>s. upd_buf to (\<lambda>x. x\<lparr>b_data := b_data (bufs s from)\<rparr>) s)) (
     seq (bwrite to) (
     seq (brelse from) (
     brelse to))))))"

definition write_log :: "unit kop" where
  "write_log =
     bnd (gets lg) (\<lambda>l.
     if l_n l > int LOGBLOCKS then undefined_behaviour
     else each write_log_block [0..<nat (l_n l)])"

definition commit :: "unit kop" where
  "commit =
     bnd (gets lg) (\<lambda>l.
     if l_n l > 0 then
       seq write_log (
       seq write_head (
       seq (install_trans False) (
       seq (modify (upd_log (\<lambda>l. l\<lparr>l_n := 0\<rparr>))) (
       write_head))))
     else skip)"

definition end_op :: "unit kop" where
  "end_op =
     seq (acquire LogLk) (
     seq (modify (upd_log (\<lambda>l. l\<lparr>l_outstanding := l_outstanding l - 1\<rparr>))) (
     bnd (gets lg) (\<lambda>l.
     if l_committing l then panic ''log.committing'' else
     if l_outstanding l = 0 then
       seq (modify (upd_log (\<lambda>l. l\<lparr>l_committing := True\<rparr>))) (
       seq (release LogLk) (
       seq commit (
       seq (acquire LogLk) (
       seq (modify (upd_log (\<lambda>l. l\<lparr>l_committing := False\<rparr>))) (
       seq (wakeup ChLog) (
       release LogLk))))))
     else
       seq (wakeup ChLog) (
       release LogLk))))"

text \<open>The index at which \<open>log_write\<close> records a block: an earlier entry (absorption) or the end.\<close>

fun log_slot :: "u32 list \<Rightarrow> u32 \<Rightarrow> nat \<Rightarrow> nat \<Rightarrow> nat" where
  "log_slot bl no i 0 = i"
| "log_slot bl no i (Suc k) = (if bl ! i = no then i else log_slot bl no (Suc i) k)"

definition log_write :: "nat \<Rightarrow> unit kop" where
  "log_write b =
     seq (acquire LogLk) (
     bnd (gets lg) (\<lambda>l.
     if l_n l \<ge> int LOGBLOCKS then panic ''too big a transaction'' else
     if l_outstanding l < 1 then panic ''log_write outside of trans'' else
     bnd (gets (\<lambda>s. b_blockno (bufs s b))) (\<lambda>no.
     (let i = log_slot (l_block l) no 0 (nat (l_n l)) in
     seq (modify (upd_log (\<lambda>l. l\<lparr>l_block := (l_block l)[i := no]\<rparr>))) (
     seq (if int i = l_n l
          then seq (bpin b) (modify (upd_log (\<lambda>l. l\<lparr>l_n := l_n l + 1\<rparr>)))
          else skip) (
     release LogLk))))))"

end
