(* ===== verification/Xv6_Fs.thy ===== *)
theory Xv6_Fs
  imports Xv6_Log
begin

text \<open>
  kernel/fs.c, from the block allocator to path lookup, and \<open>create\<close> of kernel/sysfile.c. The
  on-disk structures are byte lists of a block; \<open>readi\<close> and \<open>writei\<close> take the function that
  moves the bytes (\<open>either_copyout\<close>, \<open>either_copyin\<close>) as an argument, since the user-address
  variants of those live above the virtual-memory layer.
\<close>

section \<open>On-disk format (kernel/fs.h)\<close>

definition ROOTINO :: u32 where [const_defs]: "ROOTINO = 1"
definition FSMAGIC :: u32 where [const_defs]: "FSMAGIC = 0x10203040"
definition NDIRECT :: nat where [const_defs]: "NDIRECT = 12"
definition NINDIRECT :: nat where [const_defs]: "NINDIRECT = BSIZE div 4"
definition MAXFILE :: nat where [const_defs]: "MAXFILE = NDIRECT + NINDIRECT"
definition IPB :: nat where [const_defs]: "IPB = BSIZE div 64"
definition BPB :: nat where [const_defs]: "BPB = BSIZE * 8"
definition DIRSIZ :: nat where [const_defs]: "DIRSIZ = 14"
definition T_DIR :: u16 where [const_defs]: "T_DIR = 1"
definition T_FILE :: u16 where [const_defs]: "T_FILE = 2"
definition T_DEVICE :: u16 where [const_defs]: "T_DEVICE = 3"

definition IBLOCK :: "u32 \<Rightarrow> superblock \<Rightarrow> u32" where
  "IBLOCK i sb = i div of_nat IPB + sb_inodestart sb"

definition BBLOCK :: "u32 \<Rightarrow> superblock \<Rightarrow> u32" where
  "BBLOCK b sb = b div of_nat BPB + sb_bmapstart sb"

record dinode =
  d_type :: u16
  d_major :: u16
  d_minor :: u16
  d_nlink :: u16
  d_size :: u32
  d_addrs :: "u32 list"

definition decode_dinode :: "u8 list \<Rightarrow> nat \<Rightarrow> dinode" where
  "decode_dinode d k = \<lparr>d_type = get16 d (64 * k), d_major = get16 d (64 * k + 2),
     d_minor = get16 d (64 * k + 4), d_nlink = get16 d (64 * k + 6),
     d_size = get32 d (64 * k + 8),
     d_addrs = map (\<lambda>i. get32 d (64 * k + 12 + 4 * i)) [0..<NDIRECT + 1]\<rparr>"

definition encode_dinode :: "dinode \<Rightarrow> u8 list" where
  "encode_dinode di = le_bytes 2 (d_type di) @ le_bytes 2 (d_major di) @ le_bytes 2 (d_minor di)
     @ le_bytes 2 (d_nlink di) @ le_bytes 4 (d_size di) @ concat (map (le_bytes 4) (d_addrs di))"

record dirent =
  de_inum :: u16
  de_name :: "u8 list"

definition decode_dirent :: "u8 list \<Rightarrow> dirent" where
  "decode_dirent bs = \<lparr>de_inum = get16 bs 0, de_name = take DIRSIZ (drop 2 bs)\<rparr>"

definition encode_dirent :: "dirent \<Rightarrow> u8 list" where
  "encode_dirent de = le_bytes 2 (de_inum de) @ de_name de"

definition decode_superblock :: "u8 list \<Rightarrow> superblock" where
  "decode_superblock d = \<lparr>sb_magic = get32 d 0, sb_size = get32 d 4, sb_nblocks = get32 d 8,
     sb_ninodes = get32 d 12, sb_nlog = get32 d 16, sb_logstart = get32 d 20,
     sb_inodestart = get32 d 24, sb_bmapstart = get32 d 28\<rparr>"

section \<open>Blocks\<close>

definition bdata :: "nat \<Rightarrow> u8 list kop" where
  "bdata b = gets (\<lambda>s. b_data (bufs s b))"

definition set_bdata :: "nat \<Rightarrow> u8 list \<Rightarrow> unit kop" where
  "set_bdata b d = modify (upd_buf b (\<lambda>x. x\<lparr>b_data := d\<rparr>))"

definition readsb :: "u32 \<Rightarrow> unit kop" where
  "readsb dev =
     bnd (bread dev 1) (\<lambda>bp.
     bnd (bdata bp) (\<lambda>d.
     seq (modify (\<lambda>s. s\<lparr>sblk := decode_superblock d\<rparr>)) (
     brelse bp)))"

definition bzero :: "u32 \<Rightarrow> u32 \<Rightarrow> unit kop" where
  "bzero dev bno =
     bnd (bread dev bno) (\<lambda>bp.
     seq (set_bdata bp (replicate BSIZE 0)) (
     seq (log_write bp) (
     brelse bp)))"

text \<open>The first free bit of a bitmap block at or after index \<open>bi\<close>, among \<open>k\<close> bits.\<close>

fun free_bit :: "u8 list \<Rightarrow> nat \<Rightarrow> nat \<Rightarrow> nat option" where
  "free_bit d bi 0 = None"
| "free_bit d bi (Suc k) =
     (if (d ! (bi div 8)) AND push_bit (bi mod 8) 1 = 0 then Some bi else free_bit d (Suc bi) k)"

fun balloc_loop :: "u32 \<Rightarrow> nat list \<Rightarrow> u32 kop" where
  "balloc_loop dev [] = seq (printk (MSG ''balloc: out of blocks'')) (ret 0)"
| "balloc_loop dev (b # bs) =
     bnd (gets sblk) (\<lambda>sb.
     bnd (bread dev (BBLOCK (of_nat b) sb)) (\<lambda>bp.
     bnd (bdata bp) (\<lambda>d.
     case free_bit d 0 (min BPB (unat (sb_size sb) - b)) of
       Some bi \<Rightarrow>
         seq (set_bdata bp (d[bi div 8 := (d ! (bi div 8)) OR push_bit (bi mod 8) 1])) (
         seq (log_write bp) (
         seq (brelse bp) (
         seq (bzero dev (of_nat (b + bi))) (
         ret (of_nat (b + bi))))))
     | None \<Rightarrow>
         seq (brelse bp) (
         balloc_loop dev bs))))"

definition balloc :: "u32 \<Rightarrow> u32 kop" where
  "balloc dev =
     bnd (gets sblk) (\<lambda>sb.
     balloc_loop dev (map (\<lambda>k. k * BPB) [0..<(unat (sb_size sb) + BPB - 1) div BPB]))"

definition bfree :: "u32 \<Rightarrow> u32 \<Rightarrow> unit kop" where
  "bfree dev b =
     bnd (gets sblk) (\<lambda>sb.
     bnd (bread dev (BBLOCK b sb)) (\<lambda>bp.
     bnd (bdata bp) (\<lambda>d.
     (let bi = unat b mod BPB; m = push_bit (bi mod 8) 1 in
     if (d ! (bi div 8)) AND m = 0 then panic ''freeing free block'' else
     seq (set_bdata bp (d[bi div 8 := (d ! (bi div 8)) AND NOT m])) (
     seq (log_write bp) (
     brelse bp))))))"

section \<open>Inodes\<close>

definition iinit :: "unit kop" where
  "iinit = modify (\<lambda>s. s\<lparr>itable := (\<lambda>i. if i < NINODE
     then (itable s i)\<lparr>i_lock := \<lparr>sl_locked = False, sl_pid = 0\<rparr>\<rparr> else itable s i)\<rparr>)"

text \<open>
  \<open>iget\<close>'s loop: the entry that holds the inode, if any, else the first empty entry (\<open>Inr\<close>),
  if any.
\<close>

fun iget_scan :: "(nat \<Rightarrow> inode) \<Rightarrow> u32 \<Rightarrow> u32 \<Rightarrow> nat option \<Rightarrow> nat list \<Rightarrow> nat + nat option" where
  "iget_scan it dev inum slot [] = Inr slot"
| "iget_scan it dev inum slot (i # is) =
     (if i_ref (it i) > 0 \<and> i_dev (it i) = dev \<and> i_inum (it i) = inum then Inl i
      else iget_scan it dev inum
        (if slot = None \<and> i_ref (it i) = 0 then Some i else slot) is)"

definition iget :: "u32 \<Rightarrow> u32 \<Rightarrow> nat kop" where
  "iget dev inum =
     seq (acquire ItableLk) (
     bnd (gets itable) (\<lambda>it.
     case iget_scan it dev inum None [0..<NINODE] of
       Inl ip \<Rightarrow>
         seq (modify (upd_inode ip (\<lambda>x. x\<lparr>i_ref := i_ref x + 1\<rparr>))) (
         seq (release ItableLk) (
         ret ip))
     | Inr None \<Rightarrow> panic ''iget: no inodes''
     | Inr (Some ip) \<Rightarrow>
         seq (modify (upd_inode ip (\<lambda>x. x\<lparr>i_dev := dev, i_inum := inum, i_ref := 1,
           i_valid := False\<rparr>))) (
         seq (release ItableLk) (
         ret ip))))"

fun ialloc_loop :: "u32 \<Rightarrow> u16 \<Rightarrow> nat list \<Rightarrow> nat option kop" where
  "ialloc_loop dev type [] = seq (printk (MSG ''ialloc: no inodes'')) (ret None)"
| "ialloc_loop dev type (inum # is) =
     bnd (gets sblk) (\<lambda>sb.
     bnd (bread dev (IBLOCK (of_nat inum) sb)) (\<lambda>bp.
     bnd (bdata bp) (\<lambda>d.
     if d_type (decode_dinode d (inum mod IPB)) = 0 then
       seq (set_bdata bp (splice d (64 * (inum mod IPB)) (le_bytes 2 type @ replicate 62 0))) (
       seq (log_write bp) (
       seq (brelse bp) (
       bnd (iget dev (of_nat inum)) (\<lambda>ip. ret (Some ip)))))
     else
       seq (brelse bp) (
       ialloc_loop dev type is))))"

definition ialloc :: "u32 \<Rightarrow> u16 \<Rightarrow> nat option kop" where
  "ialloc dev type =
     bnd (gets sblk) (\<lambda>sb. ialloc_loop dev type [1..<unat (sb_ninodes sb)])"

definition iupdate :: "nat \<Rightarrow> unit kop" where
  "iupdate ip =
     bnd (gets (\<lambda>s. itable s ip)) (\<lambda>x.
     bnd (gets sblk) (\<lambda>sb.
     bnd (bread (i_dev x) (IBLOCK (i_inum x) sb)) (\<lambda>bp.
     bnd (bdata bp) (\<lambda>d.
     seq (set_bdata bp (splice d (64 * (unat (i_inum x) mod IPB))
       (encode_dinode \<lparr>d_type = i_type x, d_major = i_major x, d_minor = i_minor x,
          d_nlink = i_nlink x, d_size = i_size x, d_addrs = i_addrs x\<rparr>))) (
     seq (log_write bp) (
     brelse bp))))))"

definition idup :: "nat \<Rightarrow> nat kop" where
  "idup ip =
     seq (acquire ItableLk) (
     seq (modify (upd_inode ip (\<lambda>x. x\<lparr>i_ref := i_ref x + 1\<rparr>))) (
     seq (release ItableLk) (
     ret ip)))"

definition ilock :: "nat \<Rightarrow> unit kop" where
  "ilock ip =
     bnd (gets (\<lambda>s. i_ref (itable s ip))) (\<lambda>r.
     if r < 1 then panic ''ilock'' else
     seq (acquiresleep (inode_slock ip)) (
     bnd (gets (\<lambda>s. itable s ip)) (\<lambda>x.
     if i_valid x then skip else
     bnd (gets sblk) (\<lambda>sb.
     bnd (bread (i_dev x) (IBLOCK (i_inum x) sb)) (\<lambda>bp.
     bnd (bdata bp) (\<lambda>d.
     (let di = decode_dinode d (unat (i_inum x) mod IPB) in
     seq (modify (upd_inode ip (\<lambda>x. x\<lparr>i_type := d_type di, i_major := d_major di,
       i_minor := d_minor di, i_nlink := d_nlink di, i_size := d_size di,
       i_addrs := d_addrs di\<rparr>))) (
     seq (brelse bp) (
     seq (modify (upd_inode ip (\<lambda>x. x\<lparr>i_valid := True\<rparr>))) (
     if d_type di = 0 then panic ''ilock: no type'' else skip))))))))))"

definition iunlock :: "nat \<Rightarrow> unit kop" where
  "iunlock ip =
     bnd (holdingsleep (inode_slock ip)) (\<lambda>h.
     bnd (gets (\<lambda>s. i_ref (itable s ip))) (\<lambda>r.
     if \<not> h \<or> r < 1 then panic ''iunlock'' else
     releasesleep (inode_slock ip)))"

section \<open>Inode content\<close>

text \<open>\<open>bmap\<close> reads entry \<open>k\<close> of the indirect block, and allocates it when it is empty.\<close>

definition bmap_entry :: "u32 \<Rightarrow> u32 \<Rightarrow> nat \<Rightarrow> u32 kop" where
  "bmap_entry dev ind k =
     bnd (bread dev ind) (\<lambda>bp.
     bnd (bdata bp) (\<lambda>d.
     bnd (if get32 d (4 * k) \<noteq> 0 then ret (get32 d (4 * k)) else
          bnd (balloc dev) (\<lambda>addr.
          if addr = 0 then ret 0 else
          bnd (bdata bp) (\<lambda>d.
          seq (set_bdata bp (put32 d (4 * k) addr)) (
          seq (log_write bp) (
          ret addr))))) (\<lambda>addr.
     seq (brelse bp) (
     ret addr))))"

definition bmap :: "nat \<Rightarrow> u32 \<Rightarrow> u32 kop" where
  "bmap ip bn =
     bnd (gets (\<lambda>s. itable s ip)) (\<lambda>x.
     if unat bn < NDIRECT then
       (if i_addrs x ! unat bn \<noteq> 0 then ret (i_addrs x ! unat bn) else
        bnd (balloc (i_dev x)) (\<lambda>addr.
        if addr = 0 then ret 0 else
        seq (modify (upd_inode ip (\<lambda>x. x\<lparr>i_addrs := (i_addrs x)[unat bn := addr]\<rparr>))) (
        ret addr)))
     else if unat bn - NDIRECT < NINDIRECT then
       (let k = unat bn - NDIRECT in
        bnd (if i_addrs x ! NDIRECT \<noteq> 0 then ret (i_addrs x ! NDIRECT) else
             bnd (balloc (i_dev x)) (\<lambda>addr.
             if addr = 0 then ret 0 else
             seq (modify (upd_inode ip (\<lambda>x. x\<lparr>i_addrs := (i_addrs x)[NDIRECT := addr]\<rparr>))) (
             ret addr))) (\<lambda>ind.
        if ind = 0 then ret 0 else
        bmap_entry (i_dev x) ind k))
     else panic ''bmap: out of range'')"

definition itrunc_direct :: "nat \<Rightarrow> nat \<Rightarrow> unit kop" where
  "itrunc_direct ip i =
     bnd (gets (\<lambda>s. itable s ip)) (\<lambda>x.
     if i_addrs x ! i = 0 then skip else
     seq (bfree (i_dev x) (i_addrs x ! i)) (
     modify (upd_inode ip (\<lambda>x. x\<lparr>i_addrs := (i_addrs x)[i := 0]\<rparr>))))"

definition itrunc_indirect :: "nat \<Rightarrow> unit kop" where
  "itrunc_indirect ip =
     bnd (gets (\<lambda>s. itable s ip)) (\<lambda>x.
     if i_addrs x ! NDIRECT = 0 then skip else
     bnd (bread (i_dev x) (i_addrs x ! NDIRECT)) (\<lambda>bp.
     bnd (bdata bp) (\<lambda>d.
     seq (each (\<lambda>j. if get32 d (4 * j) = 0 then skip else bfree (i_dev x) (get32 d (4 * j)))
       [0..<NINDIRECT]) (
     seq (brelse bp) (
     seq (bfree (i_dev x) (i_addrs x ! NDIRECT)) (
     modify (upd_inode ip (\<lambda>x. x\<lparr>i_addrs := (i_addrs x)[NDIRECT := 0]\<rparr>))))))))"

definition itrunc :: "nat \<Rightarrow> unit kop" where
  "itrunc ip =
     seq (each (itrunc_direct ip) [0..<NDIRECT]) (
     seq (itrunc_indirect ip) (
     seq (modify (upd_inode ip (\<lambda>x. x\<lparr>i_size := 0\<rparr>))) (
     iupdate ip)))"

definition iput :: "nat \<Rightarrow> unit kop" where
  "iput ip =
     seq (acquire ItableLk) (
     bnd (gets (\<lambda>s. itable s ip)) (\<lambda>x.
     seq (if i_ref x = 1 \<and> i_valid x \<and> i_nlink x = 0 then
            seq (acquiresleep (inode_slock ip)) (
            seq (release ItableLk) (
            seq (itrunc ip) (
            seq (modify (upd_inode ip (\<lambda>x. x\<lparr>i_type := 0\<rparr>))) (
            seq (iupdate ip) (
            seq (modify (upd_inode ip (\<lambda>x. x\<lparr>i_valid := False\<rparr>))) (
            seq (releasesleep (inode_slock ip)) (
            acquire ItableLk)))))))
          else skip) (
     seq (modify (upd_inode ip (\<lambda>x. x\<lparr>i_ref := i_ref x - 1\<rparr>))) (
     release ItableLk))))"

definition iunlockput :: "nat \<Rightarrow> unit kop" where
  "iunlockput ip = seq (iunlock ip) (iput ip)"

definition ireclaim_inode :: "u32 \<Rightarrow> nat \<Rightarrow> unit kop" where
  "ireclaim_inode dev inum =
     bnd (gets sblk) (\<lambda>sb.
     bnd (bread dev (IBLOCK (of_nat inum) sb)) (\<lambda>bp.
     bnd (bdata bp) (\<lambda>d.
     (let di = decode_dinode d (inum mod IPB) in
     if d_type di \<noteq> 0 \<and> d_nlink di = 0 then
       seq (printk (MSG ''ireclaim: orphaned inode'')) (
       bnd (iget dev (of_nat inum)) (\<lambda>ip.
       seq (brelse bp) (
       seq begin_op (
       seq (ilock ip) (
       seq (iunlock ip) (
       seq (iput ip) (
       end_op)))))))
     else brelse bp))))"

definition ireclaim :: "u32 \<Rightarrow> unit kop" where
  "ireclaim dev =
     bnd (gets sblk) (\<lambda>sb. each (ireclaim_inode dev) [1..<unat (sb_ninodes sb)])"

definition fsinit :: "u32 \<Rightarrow> unit kop" where
  "fsinit dev =
     seq (readsb dev) (
     bnd (gets sblk) (\<lambda>sb.
     if sb_magic sb \<noteq> FSMAGIC then panic ''invalid file system'' else
     seq (initlog dev sb) (
     ireclaim dev)))"

text \<open>
  \<open>readi\<close>: \<open>cp acc tot bs\<close> moves the bytes \<open>bs\<close> to offset \<open>tot\<close> of the destination and gives
  \<open>None\<close> where \<open>either_copyout\<close> gives -1; \<open>acc\<close> accumulates a destination that is a local
  variable of the caller. Every turn of the loop moves at least one byte, so \<open>n\<close> turns suffice.
\<close>

fun readi_loop ::
  "nat \<Rightarrow> ('a \<Rightarrow> nat \<Rightarrow> u8 list \<Rightarrow> 'a option kop) \<Rightarrow> 'a \<Rightarrow> nat \<Rightarrow> u32 \<Rightarrow> u32 \<Rightarrow> u32 \<Rightarrow> (int \<times> 'a) kop" where
  "readi_loop 0 cp acc ip tot off n = (if tot < n then diverge else ret (sint tot, acc))"
| "readi_loop (Suc fuel) cp acc ip tot off n =
     (if tot < n then
        bnd (bmap ip (off div of_nat BSIZE)) (\<lambda>addr.
        if addr = 0 then ret (sint tot, acc) else
        bnd (gets (\<lambda>s. i_dev (itable s ip))) (\<lambda>dev.
        bnd (bread dev addr) (\<lambda>bp.
        bnd (bdata bp) (\<lambda>d.
        (let m = min (unat (n - tot)) (BSIZE - unat off mod BSIZE) in
        bnd (cp acc (unat tot) (take m (drop (unat off mod BSIZE) d))) (\<lambda>r.
        case r of
          None \<Rightarrow> seq (brelse bp) (ret (-1, acc))
        | Some acc' \<Rightarrow>
            seq (brelse bp) (
            readi_loop fuel cp acc' ip (tot + of_nat m) (off + of_nat m) n)))))))
      else ret (sint tot, acc))"

definition readi ::
  "('a \<Rightarrow> nat \<Rightarrow> u8 list \<Rightarrow> 'a option kop) \<Rightarrow> 'a \<Rightarrow> nat \<Rightarrow> u32 \<Rightarrow> u32 \<Rightarrow> (int \<times> 'a) kop" where
  "readi cp acc ip off n =
     bnd (gets (\<lambda>s. i_size (itable s ip))) (\<lambda>size.
     if off > size \<or> off + n < off then ret (0, acc) else
     (let n = (if off + n > size then size - off else n) in
      readi_loop (unat n) cp acc ip 0 off n))"

text \<open>\<open>either_copyout\<close> with \<open>user_dst = 0\<close>: into a local variable, and into memory at \<open>dst\<close>.\<close>

definition to_local :: "u8 list \<Rightarrow> nat \<Rightarrow> u8 list \<Rightarrow> u8 list option kop" where
  "to_local acc tot bs = ret (Some (acc @ bs))"

definition to_kernel :: "u64 \<Rightarrow> unit \<Rightarrow> nat \<Rightarrow> u8 list \<Rightarrow> unit option kop" where
  "to_kernel dst acc tot bs =
     seq (modify (upd_mem (\<lambda>m. store_bytes m (dst + of_nat tot) bs))) (ret (Some ()))"

text \<open>
  \<open>writei\<close>: \<open>src tot m\<close> gives the \<open>m\<close> bytes at offset \<open>tot\<close> of the source and \<open>True\<close>, or, where
  \<open>either_copyin\<close> gives -1, the bytes copied before the failure and \<open>False\<close>.
\<close>

fun writei_loop :: "nat \<Rightarrow> (nat \<Rightarrow> nat \<Rightarrow> (u8 list \<times> bool) kop) \<Rightarrow> nat \<Rightarrow> u32 \<Rightarrow> u32 \<Rightarrow> u32 \<Rightarrow> (u32 \<times> u32) kop" where
  "writei_loop 0 src ip tot off n = (if tot < n then diverge else ret (tot, off))"
| "writei_loop (Suc fuel) src ip tot off n =
     (if tot < n then
        bnd (bmap ip (off div of_nat BSIZE)) (\<lambda>addr.
        if addr = 0 then ret (tot, off) else
        bnd (gets (\<lambda>s. i_dev (itable s ip))) (\<lambda>dev.
        bnd (bread dev addr) (\<lambda>bp.
        (let m = min (unat (n - tot)) (BSIZE - unat off mod BSIZE) in
        bnd (src (unat tot) m) (\<lambda>(bs, ok).
        bnd (bdata bp) (\<lambda>d.
        seq (set_bdata bp (splice d (unat off mod BSIZE) bs)) (
        if \<not> ok then seq (brelse bp) (ret (tot, off)) else
        seq (log_write bp) (
        seq (brelse bp) (
        writei_loop fuel src ip (tot + of_nat m) (off + of_nat m) n)))))))))
      else ret (tot, off))"

definition writei :: "(nat \<Rightarrow> nat \<Rightarrow> (u8 list \<times> bool) kop) \<Rightarrow> nat \<Rightarrow> u32 \<Rightarrow> u32 \<Rightarrow> int kop" where
  "writei src ip off n =
     bnd (gets (\<lambda>s. i_size (itable s ip))) (\<lambda>size.
     if off > size \<or> off + n < off then ret (-1) else
     if unat (off + n) > MAXFILE * BSIZE then ret (-1) else
     bnd (writei_loop (unat n) src ip 0 off n) (\<lambda>(tot, off).
     seq (modify (upd_inode ip (\<lambda>x. if off > i_size x then x\<lparr>i_size := off\<rparr> else x))) (
     seq (iupdate ip) (
     ret (sint tot)))))"

definition from_local :: "u8 list \<Rightarrow> nat \<Rightarrow> nat \<Rightarrow> (u8 list \<times> bool) kop" where
  "from_local bs tot m = ret (take m (drop tot bs), True)"

definition from_kernel :: "u64 \<Rightarrow> nat \<Rightarrow> nat \<Rightarrow> (u8 list \<times> bool) kop" where
  "from_kernel src tot m = gets (\<lambda>s. (load_bytes (mem s) (src + of_nat tot) m, True))"

section \<open>Directories\<close>

definition namecmp :: "u8 list \<Rightarrow> u8 list \<Rightarrow> int" where
  "namecmp s t = strncmp (lview s) (lview t) DIRSIZ"

text \<open>The directory entry at \<open>off\<close>; the loops over a directory visit \<open>off = 0, 16, ...\<close> below its size.\<close>

definition read_dirent :: "string \<Rightarrow> nat \<Rightarrow> u32 \<Rightarrow> dirent kop" where
  "read_dirent err dp off =
     bnd (readi to_local [] dp off 16) (\<lambda>(n, bs).
     if n \<noteq> 16 then panic err else ret (decode_dirent bs))"

definition dir_offs :: "nat \<Rightarrow> u32 \<Rightarrow> u32 list" where
  "dir_offs first sz = map (\<lambda>k. of_nat (16 * k)) [first..<(unat sz + 15) div 16]"

fun dirlookup_loop :: "nat \<Rightarrow> u8 list \<Rightarrow> u32 list \<Rightarrow> (nat \<times> u32) option kop" where
  "dirlookup_loop dp name [] = ret None"
| "dirlookup_loop dp name (off # offs) =
     bnd (read_dirent ''dirlookup read'' dp off) (\<lambda>de.
     if de_inum de = 0 then dirlookup_loop dp name offs
     else if namecmp name (de_name de) = 0 then
       bnd (gets (\<lambda>s. i_dev (itable s dp))) (\<lambda>dev.
       bnd (iget dev (ucast (de_inum de))) (\<lambda>ip.
       ret (Some (ip, off))))
     else dirlookup_loop dp name offs)"

definition dirlookup :: "nat \<Rightarrow> u8 list \<Rightarrow> (nat \<times> u32) option kop" where
  "dirlookup dp name =
     bnd (gets (\<lambda>s. itable s dp)) (\<lambda>x.
     if i_type x \<noteq> T_DIR then panic ''dirlookup not DIR''
     else dirlookup_loop dp name (dir_offs 0 (i_size x)))"

fun empty_dirent :: "nat \<Rightarrow> u32 \<Rightarrow> u32 list \<Rightarrow> u32 kop" where
  "empty_dirent dp end_off [] = ret end_off"
| "empty_dirent dp end_off (off # offs) =
     bnd (read_dirent ''dirlink read'' dp off) (\<lambda>de.
     if de_inum de = 0 then ret off else empty_dirent dp end_off offs)"

definition dirlink :: "nat \<Rightarrow> u8 list \<Rightarrow> u32 \<Rightarrow> int kop" where
  "dirlink dp name inum =
     bnd (dirlookup dp name) (\<lambda>r.
     case r of
       Some (ip, off) \<Rightarrow> seq (iput ip) (ret (-1))
     | None \<Rightarrow>
         bnd (gets (\<lambda>s. i_size (itable s dp))) (\<lambda>size.
         bnd (empty_dirent dp (of_nat ((unat size + 15) div 16 * 16)) (dir_offs 0 size)) (\<lambda>off.
         bnd (writei (from_local (encode_dirent
                \<lparr>de_inum = ucast inum, de_name = strncpy (lview name) DIRSIZ\<rparr>)) dp off 16) (\<lambda>n.
         if n \<noteq> 16 then ret (-1) else ret 0))))"

section \<open>Paths\<close>

text \<open>A C string is the list of its bytes before the terminating NUL.\<close>

definition slash :: u8 where "slash = 47"

definition skipelem :: "u8 list \<Rightarrow> (u8 list \<times> u8 list) option" where
  "skipelem path =
     (let path = dropWhile (\<lambda>c. c = slash) path in
      if path = [] then None
      else let elem = takeWhile (\<lambda>c. c \<noteq> slash) path;
               rest = dropWhile (\<lambda>c. c \<noteq> slash) path
           in Some (dropWhile (\<lambda>c. c = slash) rest, take DIRSIZ elem))"

fun namex_loop :: "nat \<Rightarrow> nat \<Rightarrow> u8 list \<Rightarrow> bool \<Rightarrow> u8 list \<Rightarrow> (nat \<times> u8 list) option kop" where
  "namex_loop 0 ip path nameiparent name = diverge"
| "namex_loop (Suc fuel) ip path nameiparent name =
     (case skipelem path of
        None \<Rightarrow>
          if nameiparent then seq (iput ip) (ret None) else ret (Some (ip, name))
      | Some (path, name) \<Rightarrow>
          seq (ilock ip) (
          bnd (gets (\<lambda>s. i_type (itable s ip))) (\<lambda>ty.
          if ty \<noteq> T_DIR then seq (iunlockput ip) (ret None)
          else if nameiparent \<and> path = [] then seq (iunlock ip) (ret (Some (ip, name)))
          else
            bnd (dirlookup ip name) (\<lambda>r.
            case r of
              None \<Rightarrow> seq (iunlockput ip) (ret None)
            | Some (next, off) \<Rightarrow>
                seq (iunlockput ip) (
                namex_loop fuel next path nameiparent name)))))"

definition namex :: "u8 list \<Rightarrow> bool \<Rightarrow> (nat \<times> u8 list) option kop" where
  "namex path nameiparent =
     bnd (if path \<noteq> [] \<and> hd path = slash then iget ROOTDEV ROOTINO
          else bnd myproc (\<lambda>mp. bnd (nonnull mp) (\<lambda>p.
               bnd (gets (\<lambda>s. p_cwd (procs s p))) (\<lambda>cwd.
               bnd (nonnull cwd) idup)))) (\<lambda>ip.
     namex_loop (Suc (length path)) ip path nameiparent [])"

definition namei :: "u8 list \<Rightarrow> nat option kop" where
  "namei path = bnd (namex path False) (\<lambda>r. ret (map_option fst r))"

definition nameiparent :: "u8 list \<Rightarrow> (nat \<times> u8 list) option kop" where
  "nameiparent path = namex path True"

section \<open>create (kernel/sysfile.c)\<close>

definition create_fail :: "nat \<Rightarrow> nat \<Rightarrow> nat option kop" where
  "create_fail ip dp =
     seq (modify (upd_inode ip (\<lambda>x. x\<lparr>i_nlink := 0\<rparr>))) (
     seq (iupdate ip) (
     seq (iunlockput ip) (
     seq (iunlockput dp) (
     ret None))))"

definition create :: "u8 list \<Rightarrow> u16 \<Rightarrow> u16 \<Rightarrow> u16 \<Rightarrow> nat option kop" where
  "create path type major minor =
     bnd (nameiparent path) (\<lambda>r.
     case r of
       None \<Rightarrow> ret None
     | Some (dp, name) \<Rightarrow>
         seq (ilock dp) (
         bnd (dirlookup dp name) (\<lambda>r.
         case r of
           Some (ip, off) \<Rightarrow>
             seq (iunlockput dp) (
             seq (ilock ip) (
             bnd (gets (\<lambda>s. i_type (itable s ip))) (\<lambda>ty.
             if type = T_FILE \<and> (ty = T_FILE \<or> ty = T_DEVICE) then ret (Some ip)
             else seq (iunlockput ip) (ret None))))
         | None \<Rightarrow>
             bnd (gets (\<lambda>s. i_dev (itable s dp))) (\<lambda>dev.
             bnd (ialloc dev type) (\<lambda>r.
             case r of
               None \<Rightarrow> seq (iunlockput dp) (ret None)
             | Some ip \<Rightarrow>
                 seq (ilock ip) (
                 seq (modify (upd_inode ip (\<lambda>x. x\<lparr>i_major := major, i_minor := minor, i_nlink := 1\<rparr>))) (
                 seq (iupdate ip) (
                 bnd (gets (\<lambda>s. (i_inum (itable s ip), i_inum (itable s dp)))) (\<lambda>(inum, dinum).
                 bnd (if type = T_DIR then
                        bnd (dirlink ip [46] inum) (\<lambda>r.
                        if r < 0 then ret False else
                        bnd (dirlink ip [46, 46] dinum) (\<lambda>r. ret (\<not> r < 0)))
                      else ret True) (\<lambda>ok.
                 if \<not> ok then create_fail ip dp else
                 bnd (dirlink dp name inum) (\<lambda>r.
                 if r < 0 then create_fail ip dp else
                 seq (if type = T_DIR then
                        seq (modify (upd_inode dp (\<lambda>x. x\<lparr>i_nlink := i_nlink x + 1\<rparr>))) (iupdate dp)
                      else skip) (
                 seq (iunlockput dp) (
                 ret (Some ip)))))))))))))) "

end
