(* ===== verification/Xv6_Frame.thy ===== *)
theory Xv6_Frame
  imports Xv6_Fs
begin

text \<open>
  What the file system leaves alone. The locale \<open>fs_frame\<close> is the interface of an observation of
  the kernel state that does not look at the buffer cache, the disk, the inode table, the
  log's list of blocks, the console or the locks; every operation of the file system keeps such an
  observation. \<open>trans_frame\<close> adds that it does not look at the log's transaction count, and
  then \<open>begin_op\<close> and \<open>end_op\<close> keep it too.
\<close>

locale fs_frame =
  fixes f :: "kstate \<Rightarrow> 'b"
  assumes f_held: "f (s\<lparr>held := h\<rparr>) = f s"
    and f_klog: "f (s\<lparr>klog := k\<rparr>) = f s"
    and f_bufs: "f (s\<lparr>bufs := b\<rparr>) = f s"
    and f_disk: "f (s\<lparr>disk := d\<rparr>) = f s"
    and f_disk_writes: "f (s\<lparr>disk_writes := ws\<rparr>) = f s"
    and f_sblk: "f (s\<lparr>sblk := sb\<rparr>) = f s"
    and f_itable: "f (s\<lparr>itable := it\<rparr>) = f s"
    and f_log: "l_outstanding l = l_outstanding (lg s) \<Longrightarrow> f (s\<lparr>lg := l\<rparr>) = f s"
    and f_state: "f (upd_proc p (\<lambda>q. q\<lparr>p_state := st q, p_chan := ch q\<rparr>) s) = f s"
begin

lemmas f_simps = f_held f_klog f_bufs f_disk f_disk_writes f_sblk f_itable f_log

lemma f_upd_buf: "f (upd_buf b g s) = f s"
  by (simp add: upd_buf_def f_simps)

lemma f_upd_inode: "f (upd_inode i g s) = f s"
  by (simp add: upd_inode_def f_simps)

lemma f_wake: "f (upd_proc p (\<lambda>q. if P q then q\<lparr>p_state := st\<rparr> else q) s) = f s"
proof -
  have "(\<lambda>q::proc. if P q then q\<lparr>p_state := st\<rparr> else q) =
      (\<lambda>q. q\<lparr>p_state := if P q then st else p_state q, p_chan := p_chan q\<rparr>)"
    by auto
  then show ?thesis by (simp only: f_state)
qed

lemma f_chan: "f (upd_proc p (\<lambda>q. q\<lparr>p_chan := c\<rparr>) s) = f s"
  using f_state [where st = p_state and ch = "\<lambda>q. c"] by simp

lemma f_sleep: "f (upd_proc p (\<lambda>q. q\<lparr>p_chan := c, p_state := st\<rparr>) s) = f s"
proof -
  have "(\<lambda>q::proc. q\<lparr>p_chan := c, p_state := st\<rparr>) = (\<lambda>q. q\<lparr>p_state := st, p_chan := c\<rparr>)"
    by (intro ext proc.equality) simp_all
  then show ?thesis by (simp only: f_state)
qed

lemma f_upd_log: "(\<And>l. l_outstanding (g l) = l_outstanding l) \<Longrightarrow> f (upd_log g s) = f s"
  by (simp add: upd_log_def f_simps)

lemmas f_modify = f_simps f_upd_buf f_upd_inode f_wake f_chan f_upd_log

lemma keeps_printk [keeps_rules]: "keeps f (printk x)"
  unfolding printk_def by (rule keeps_modify) (simp add: f_modify)

lemma keeps_nonnull [keeps_rules]: "keeps f (nonnull x)"
  unfolding nonnull_def by (intro keeps_rules)

lemma keeps_myproc [keeps_rules]: "keeps f myproc"
  unfolding myproc_def by (intro keeps_rules)

lemma keeps_holding [keeps_rules]: "keeps f (holding lk)"
  unfolding holding_def by (intro keeps_rules)

lemma keeps_acquire [keeps_rules]: "keeps f (acquire lk)"
  unfolding acquire_def by (intro keeps_rules keeps_modify) (simp add: f_modify)

lemma keeps_release [keeps_rules]: "keeps f (release lk)"
  unfolding release_def by (intro keeps_rules keeps_modify) (simp add: f_modify)

lemma keeps_each [keeps_rules]: "(\<And>x. keeps f (g x)) \<Longrightarrow> keeps f (each g xs)"
  by (induction xs) (auto intro: keeps_rules)

lemma keeps_sched [keeps_rules]: "keeps f (sched c)"
  unfolding sched_def by (intro keeps_rules)

lemma keeps_sleep [keeps_rules]: "keeps f (sleep c lk)"
  unfolding sleep_def by (intro keeps_rules keeps_modify) (simp add: f_sleep)

lemma keeps_wakeup [keeps_rules]: "keeps f (wakeup c)"
  unfolding wakeup_def wakeup1_def by (intro keeps_rules keeps_modify) (simp add: f_modify)

lemma keeps_acquiresleep_buf [keeps_rules]: "keeps f (acquiresleep (buf_slock b))"
  unfolding acquiresleep_def buf_slock_def by (intro keeps_rules keeps_modify) (simp add: f_modify)

lemma keeps_acquiresleep_inode [keeps_rules]: "keeps f (acquiresleep (inode_slock b))"
  unfolding acquiresleep_def inode_slock_def by (intro keeps_rules keeps_modify) (simp add: f_modify)

lemma keeps_releasesleep_buf [keeps_rules]: "keeps f (releasesleep (buf_slock b))"
  unfolding releasesleep_def buf_slock_def by (intro keeps_rules keeps_modify) (simp add: f_modify)

lemma keeps_releasesleep_inode [keeps_rules]: "keeps f (releasesleep (inode_slock b))"
  unfolding releasesleep_def inode_slock_def by (intro keeps_rules keeps_modify) (simp add: f_modify)

lemma keeps_holdingsleep [keeps_rules]: "keeps f (holdingsleep k)"
  unfolding holdingsleep_def by (intro keeps_rules)

lemma keeps_bget [keeps_rules]: "keeps f (bget dev no)"
  unfolding bget_def by (intro keeps_rules keeps_modify) (simp_all add: f_modify)

lemma keeps_virtio_disk_rw [keeps_rules]: "keeps f (virtio_disk_rw b w)"
  unfolding virtio_disk_rw_def by (intro keeps_rules keeps_modify) (simp_all add: f_modify)

lemma keeps_bread [keeps_rules]: "keeps f (bread dev no)"
  unfolding bread_def by (intro keeps_rules keeps_modify) (simp_all add: f_modify)

lemma keeps_bwrite [keeps_rules]: "keeps f (bwrite b)"
  unfolding bwrite_def by (intro keeps_rules)

lemma keeps_brelse [keeps_rules]: "keeps f (brelse b)"
  unfolding brelse_def by (intro keeps_rules keeps_modify) (simp_all add: f_modify)

lemma keeps_bpin [keeps_rules]: "keeps f (bpin b)"
  unfolding bpin_def by (intro keeps_rules keeps_modify) (simp_all add: f_modify)

lemma keeps_bunpin [keeps_rules]: "keeps f (bunpin b)"
  unfolding bunpin_def by (intro keeps_rules keeps_modify) (simp_all add: f_modify)

lemma keeps_bdata [keeps_rules]: "keeps f (bdata b)"
  unfolding bdata_def by (intro keeps_rules)

lemma keeps_set_bdata [keeps_rules]: "keeps f (set_bdata b d)"
  unfolding set_bdata_def by (intro keeps_rules keeps_modify) (simp_all add: f_modify)

lemma keeps_log_write [keeps_rules]: "keeps f (log_write b)"
  unfolding log_write_def by (intro keeps_rules keeps_modify) (simp_all add: f_modify)

lemma keeps_bzero [keeps_rules]: "keeps f (bzero dev no)"
  unfolding bzero_def by (intro keeps_rules)

lemma keeps_balloc_loop: "keeps f (balloc_loop dev bs)"
  by (induction bs) (simp_all only: balloc_loop.simps, (intro keeps_rules | assumption)+)

lemma keeps_balloc [keeps_rules]: "keeps f (balloc dev)"
  unfolding balloc_def by (intro keeps_rules keeps_balloc_loop)

lemma keeps_bfree [keeps_rules]: "keeps f (bfree dev b)"
  unfolding bfree_def by (intro keeps_rules)

lemma keeps_iget [keeps_rules]: "keeps f (iget dev i)"
  unfolding iget_def by (intro keeps_rules keeps_modify) (simp_all add: f_modify)

lemma keeps_ialloc_loop: "keeps f (ialloc_loop dev ty is)"
  by (induction "is") (simp_all only: ialloc_loop.simps, (intro keeps_rules | assumption)+)

lemma keeps_ialloc [keeps_rules]: "keeps f (ialloc dev ty)"
  unfolding ialloc_def by (intro keeps_rules keeps_ialloc_loop)

lemma keeps_iupdate [keeps_rules]: "keeps f (iupdate ip)"
  unfolding iupdate_def by (intro keeps_rules)

lemma keeps_idup [keeps_rules]: "keeps f (idup ip)"
  unfolding idup_def by (intro keeps_rules keeps_modify) (simp_all add: f_modify)

lemma keeps_ilock [keeps_rules]: "keeps f (ilock ip)"
  unfolding ilock_def by (intro keeps_rules keeps_modify) (simp_all add: f_modify)

lemma keeps_iunlock [keeps_rules]: "keeps f (iunlock ip)"
  unfolding iunlock_def by (intro keeps_rules)

lemma keeps_bmap_entry [keeps_rules]: "keeps f (bmap_entry dev ind k)"
  unfolding bmap_entry_def by (intro keeps_rules)

lemma keeps_bmap [keeps_rules]: "keeps f (bmap ip bn)"
  unfolding bmap_def by (intro keeps_rules keeps_modify) (simp_all add: f_modify)

lemma keeps_itrunc [keeps_rules]: "keeps f (itrunc ip)"
  unfolding itrunc_def itrunc_direct_def itrunc_indirect_def
  by (intro keeps_rules keeps_modify) (simp_all add: f_modify)

lemma keeps_iput [keeps_rules]: "keeps f (iput ip)"
  unfolding iput_def by (intro keeps_rules keeps_modify) (simp_all add: f_modify)

lemma keeps_iunlockput [keeps_rules]: "keeps f (iunlockput ip)"
  unfolding iunlockput_def by (intro keeps_rules)

lemma keeps_readi_loop:
  assumes cp: "\<And>a t bs. keeps f (cp a t bs)"
  shows "keeps f (readi_loop fuel cp acc ip tot off n)"
  by (induction fuel arbitrary: acc tot off)
     (simp_all only: readi_loop.simps, (intro keeps_rules cp | assumption)+)

lemma keeps_readi [keeps_rules]:
  "(\<And>a t bs. keeps f (cp a t bs)) \<Longrightarrow> keeps f (readi cp acc ip off n)"
  unfolding readi_def by (intro keeps_rules keeps_readi_loop)

lemma keeps_to_local [keeps_rules]: "keeps f (to_local acc tot bs)"
  unfolding to_local_def by (intro keeps_rules)

lemma keeps_from_local [keeps_rules]: "keeps f (from_local bs tot m)"
  unfolding from_local_def by (intro keeps_rules)

lemma keeps_from_kernel [keeps_rules]: "keeps f (from_kernel a tot m)"
  unfolding from_kernel_def by (intro keeps_rules)

lemma keeps_writei_loop:
  assumes src: "\<And>t m. keeps f (src t m)"
  shows "keeps f (writei_loop fuel src ip tot off n)"
  by (induction fuel arbitrary: tot off)
     (simp_all only: writei_loop.simps, (intro keeps_rules src | assumption)+)

lemma keeps_writei [keeps_rules]:
  "(\<And>t m. keeps f (src t m)) \<Longrightarrow> keeps f (writei src ip off n)"
  unfolding writei_def by (intro keeps_rules keeps_modify keeps_writei_loop) (simp_all add: f_modify)

lemma keeps_read_dirent [keeps_rules]: "keeps f (read_dirent err dp off)"
  unfolding read_dirent_def by (intro keeps_rules)

lemma keeps_dirlookup_loop: "keeps f (dirlookup_loop dp name offs)"
  by (induction offs) (simp_all only: dirlookup_loop.simps, (intro keeps_rules | assumption)+)

lemma keeps_dirlookup [keeps_rules]: "keeps f (dirlookup dp name)"
  unfolding dirlookup_def by (intro keeps_rules keeps_dirlookup_loop)

lemma keeps_empty_dirent [keeps_rules]: "keeps f (empty_dirent dp e offs)"
  by (induction offs) (simp_all only: empty_dirent.simps, (intro keeps_rules | assumption)+)

lemma keeps_dirlink [keeps_rules]: "keeps f (dirlink dp name inum)"
  unfolding dirlink_def by (intro keeps_rules)

lemma keeps_namex_loop: "keeps f (namex_loop fuel ip path par name)"
  by (induction fuel arbitrary: ip path name)
     (simp_all only: namex_loop.simps, (intro keeps_rules | assumption)+)

lemma keeps_namex [keeps_rules]: "keeps f (namex path par)"
  unfolding namex_def by (intro keeps_rules keeps_namex_loop)

lemma keeps_namei [keeps_rules]: "keeps f (namei path)"
  unfolding namei_def by (intro keeps_rules)

lemma keeps_nameiparent [keeps_rules]: "keeps f (nameiparent path)"
  unfolding nameiparent_def by (intro keeps_rules)

lemma keeps_create [keeps_rules]: "keeps f (create path ty major minor)"
  unfolding create_def create_fail_def by (intro keeps_rules keeps_modify) (simp_all add: f_modify)

lemma keeps_install_trans [keeps_rules]: "keeps f (install_trans r)"
  unfolding install_trans_def install_block_def
  by (intro keeps_rules keeps_modify) (simp_all add: f_modify)

lemma keeps_write_head [keeps_rules]: "keeps f write_head"
  unfolding write_head_def by (intro keeps_rules keeps_modify) (simp_all add: f_modify)

lemma keeps_write_log [keeps_rules]: "keeps f write_log"
  unfolding write_log_def write_log_block_def
  by (intro keeps_rules keeps_modify) (simp_all add: f_modify)

lemma keeps_commit [keeps_rules]: "keeps f commit"
  unfolding commit_def by (intro keeps_rules keeps_modify) (simp_all add: f_modify)

end

locale trans_frame = fs_frame +
  assumes f_lg: "f (s\<lparr>lg := l\<rparr>) = f s"
begin

lemma f_upd_lg: "f (upd_log g s) = f s"
  by (simp add: upd_log_def f_lg)

lemma keeps_begin_op [keeps_rules]: "keeps f begin_op"
  unfolding begin_op_def by (intro keeps_rules keeps_modify) (simp_all add: f_upd_lg)

lemma keeps_end_op [keeps_rules]: "keeps f end_op"
  unfolding end_op_def by (intro keeps_rules keeps_modify) (simp_all add: f_upd_lg)

end

lemma seq_modify_keeps: "seq (modify g) m u = Ok x t \<Longrightarrow> keeps f m \<Longrightarrow> f t = f (g u)"
  by (auto dest: keepsD)

section \<open>The two observations\<close>

text \<open>
  The part of the kernel state the virtual-memory code works on: memory, the free list and
  every field of a process but its scheduling state.
\<close>

definition proc_core :: "proc \<Rightarrow> proc" where
  "proc_core q = q\<lparr>p_state := UNUSED, p_chan := None\<rparr>"

definition vm_view :: "kstate \<Rightarrow> memory \<times> u64 \<times> (nat \<Rightarrow> proc) \<times> nat option \<times> u64" where
  "vm_view s = (mem s, freelist s, \<lambda>p. proc_core (procs s p), curproc s, sym_end s)"

definition outstanding :: "kstate \<Rightarrow> int" where
  "outstanding s = l_outstanding (lg s)"

interpretation vmv: trans_frame vm_view
  by unfold_locales (auto simp: vm_view_def upd_proc_def proc_core_def)

interpretation out: fs_frame outstanding
  by unfold_locales (auto simp: outstanding_def upd_proc_def)

text \<open>A balanced pair of transaction calls leaves the count as it was.\<close>

lemma begin_op_outstanding:
  assumes "begin_op s = Ok x t" shows "outstanding t = outstanding s + 1"
proof -
  have "l_outstanding (lg t) = l_outstanding (lg s) + 1"
    using assms unfolding begin_op_def
    by (auto elim!: seq_OkE bnd_OkE simp: acquire_run release_run upd_log_def sleep_not_Ok
        split: if_splits)
  then show ?thesis by (simp add: outstanding_def)
qed

lemma end_op_outstanding:
  assumes "end_op s = Ok x t" shows "outstanding t = outstanding s - 1"
proof -
  have minus: "outstanding (upd_log (\<lambda>l. l\<lparr>l_outstanding := l_outstanding l - 1\<rparr>) u) = outstanding u - 1" for u
    by (simp add: outstanding_def upd_log_def)
  obtain u where u: "acquire LogLk s = Ok () u"
    and rest: "outstanding t = outstanding (upd_log (\<lambda>l. l\<lparr>l_outstanding := l_outstanding l - 1\<rparr>) u)"
    using assms unfolding end_op_def
    by (elim seq_OkE [of "acquire LogLk"])
       (drule seq_modify_keeps [where f = outstanding],
        (intro keeps_rules keeps_modify; simp add: out.f_modify), simp)
  have "outstanding u = outstanding s" using u by (rule keepsD [OF out.keeps_acquire])
  with rest minus show ?thesis by simp
qed

end
