(* ===== verification/Xv6_Kalloc.thy ===== *)
theory Xv6_Kalloc
  imports Xv6_Frame
begin

text \<open>
  The freeing half of kernel/kalloc.c: \<open>kfree\<close>, \<open>freerange\<close> and \<open>kinit\<close>, with the free list as
  the chain of \<open>run\<close> nodes that lives in the free pages themselves. \<open>kalloc\<close> calls the page
  replacement code and is in \<open>Xv6_Evict\<close>.
\<close>

section \<open>Access to memory\<close>

definition load64 :: "u64 \<Rightarrow> u64 kop" where
  "load64 a = gets (\<lambda>s. read64 (mem s) a)"

definition store64 :: "u64 \<Rightarrow> u64 \<Rightarrow> unit kop" where
  "store64 a v = modify (upd_mem (\<lambda>m. write64 m a v))"

definition load32 :: "u64 \<Rightarrow> u32 kop" where
  "load32 a = gets (\<lambda>s. read32 (mem s) a)"

definition store32 :: "u64 \<Rightarrow> u32 \<Rightarrow> unit kop" where
  "store32 a v = modify (upd_mem (\<lambda>m. write32 m a v))"

definition fill_page :: "u64 \<Rightarrow> u8 \<Rightarrow> unit kop" where
  "fill_page a c = modify (upd_mem (\<lambda>m. memset m a c (unat PGSIZE)))"

lemma unat_PGSIZE [simp]: "unat PGSIZE = 4096"
  by (simp add: PGSIZE_def)

lemma bnd_load64 [simp, kernel_simps]: "bnd (load64 a) f s = f (read64 (mem s) a) s"
  by (simp add: load64_def)

lemma bnd_load32 [simp, kernel_simps]: "bnd (load32 a) f s = f (read32 (mem s) a) s"
  by (simp add: load32_def)

lemma seq_store64 [simp, kernel_simps]:
  "seq (store64 a v) n s = n (s\<lparr>mem := write64 (mem s) a v\<rparr>)"
  by (simp add: store64_def upd_mem_def)

lemma store64_run [simp, kernel_simps]: "store64 a v s = Ok () (s\<lparr>mem := write64 (mem s) a v\<rparr>)"
  by (simp add: store64_def upd_mem_def)

lemma seq_store32 [simp, kernel_simps]:
  "seq (store32 a v) n s = n (s\<lparr>mem := write32 (mem s) a v\<rparr>)"
  by (simp add: store32_def upd_mem_def)

lemma seq_fill_page [simp, kernel_simps]:
  "seq (fill_page a c) n s = n (s\<lparr>mem := store_bytes (mem s) a (replicate 4096 c)\<rparr>)"
  by (simp add: fill_page_def upd_mem_def memset_page)

section \<open>Operations\<close>

definition kfree :: "u64 \<Rightarrow> unit kop" where
  "kfree pa =
     bnd (gets sym_end) (\<lambda>e.
     if pa mod PGSIZE \<noteq> 0 \<or> pa < e \<or> pa \<ge> PHYSTOP then panic ''kfree'' else
     seq (fill_page pa 1) (
     seq (acquire KmemLk) (
     bnd (gets freelist) (\<lambda>r.
     seq (store64 pa r) (
     seq (modify (\<lambda>s. s\<lparr>freelist := pa\<rparr>)) (
     release KmemLk))))))"

text \<open>
  \<open>freerange\<close>: the loop runs from \<open>p\<close> while \<open>p + PGSIZE <= pa_end\<close>; the count bounds the turns
  by the number of whole pages between the two addresses.
\<close>

fun freerange_loop :: "nat \<Rightarrow> u64 \<Rightarrow> u64 \<Rightarrow> unit kop" where
  "freerange_loop 0 p pa_end = (if p + PGSIZE \<le> pa_end then diverge else skip)"
| "freerange_loop (Suc k) p pa_end =
     (if p + PGSIZE \<le> pa_end then seq (kfree p) (freerange_loop k (p + PGSIZE) pa_end) else skip)"

definition freerange :: "u64 \<Rightarrow> u64 \<Rightarrow> unit kop" where
  "freerange pa_start pa_end =
     freerange_loop (unat (pa_end - PGROUNDUP pa_start) div 4096) (PGROUNDUP pa_start) pa_end"

definition kinit :: "unit kop" where
  "kinit = bnd (gets sym_end) (\<lambda>e. freerange e PHYSTOP)"

section \<open>The free list\<close>

text \<open>A physical page the allocator hands out.\<close>

definition ram_page :: "u64 \<Rightarrow> u64 \<Rightarrow> bool" where
  "ram_page e pa \<longleftrightarrow> page_aligned pa \<and> e \<le> pa \<and> pa < PHYSTOP \<and> pa \<noteq> 0"

text \<open>\<open>chain m p ps\<close>: from \<open>p\<close>, following the first word of each page, the pages are \<open>ps\<close>.\<close>

fun chain :: "memory \<Rightarrow> u64 \<Rightarrow> u64 list \<Rightarrow> bool" where
  "chain m p [] \<longleftrightarrow> p = 0"
| "chain m p (q # qs) \<longleftrightarrow> p = q \<and> q \<noteq> 0 \<and> page_aligned q \<and> chain m (read64 m q) qs"

definition free_pages :: "kstate \<Rightarrow> u64 list \<Rightarrow> bool" where
  "free_pages s ps \<longleftrightarrow> chain (mem s) (freelist s) ps \<and> distinct ps \<and> (\<forall>p \<in> set ps. ram_page (sym_end s) p)"

lemma chain_unique: "chain m p ps \<Longrightarrow> chain m p qs \<Longrightarrow> ps = qs"
  by (induction ps arbitrary: p qs) (case_tac qs; auto)+

lemma chain_frame:
  "chain m p ps \<Longrightarrow> same_except P m m' \<Longrightarrow> set ps \<inter> P = {} \<Longrightarrow> chain m' p ps"
  by (induction ps arbitrary: p) (auto simp: read64_same_except)

lemma chain_page: "chain m p ps \<Longrightarrow> q \<in> set ps \<Longrightarrow> page_aligned q \<and> q \<noteq> 0"
  by (induction ps arbitrary: p) auto

lemma free_pages_frame:
  "free_pages s ps \<Longrightarrow> same_except P (mem s) (mem t) \<Longrightarrow> set ps \<inter> P = {} \<Longrightarrow>
   freelist t = freelist s \<Longrightarrow> sym_end t = sym_end s \<Longrightarrow> free_pages t ps"
  by (auto simp: free_pages_def intro: chain_frame)

lemma kfree_run:
  assumes "ram_page (sym_end s) pa" "KmemLk \<notin> set (held s)"
  shows "kfree pa s = Ok () (s\<lparr>
    mem := write64 (store_bytes (mem s) pa (replicate 4096 1)) pa (freelist s), freelist := pa\<rparr>)"
  using assms by (simp add: kfree_def ram_page_def page_aligned_def release_run not_le not_less)

lemma kfree_panics:
  assumes "\<not> (page_aligned pa \<and> sym_end s \<le> pa \<and> pa < PHYSTOP)"
  shows "kfree pa s = Panic ''kfree''"
  using assms by (auto simp: kfree_def page_aligned_def not_le not_less)

definition freed :: "u64 \<Rightarrow> kstate \<Rightarrow> kstate" where
  "freed pa s = s\<lparr>mem := write64 (store_bytes (mem s) pa (replicate 4096 1)) pa (freelist s), freelist := pa\<rparr>"

lemma same_except_freed:
  assumes "page_aligned pa" shows "same_except {pa} (mem s) (mem (freed pa s))"
proof -
  have "same_except ({pa} \<union> {pa}) (mem s) (write64 (store_bytes (mem s) pa (replicate 4096 1)) pa (freelist s))"
    by (rule same_except_trans [OF same_except_store_page])
       (use assms same_except_write64 [of pa] in auto)
  then show ?thesis by (simp add: freed_def)
qed

lemma free_pages_freed:
  assumes "free_pages s ps" "ram_page (sym_end s) pa" "pa \<notin> set ps"
  shows "free_pages (freed pa s) (pa # ps)"
proof -
  have al: "page_aligned pa" "pa \<noteq> 0" using assms(2) by (auto simp: ram_page_def)
  have "chain (mem (freed pa s)) (freelist s) ps"
    using assms al by (intro chain_frame [OF _ same_except_freed]) (auto simp: free_pages_def)
  then show ?thesis
    using assms al by (auto simp: free_pages_def freed_def)
qed

lemma kfree_OkD:
  assumes "kfree pa s = Ok x t"
  shows "t = freed pa s" and "page_aligned pa" "sym_end s \<le> pa" "pa < PHYSTOP" "KmemLk \<notin> set (held s)"
proof -
  have r: "page_aligned pa \<and> sym_end s \<le> pa \<and> pa < PHYSTOP"
    using assms kfree_panics [of pa s] by force
  then show "page_aligned pa" "sym_end s \<le> pa" "pa < PHYSTOP" by auto
  show h: "KmemLk \<notin> set (held s)"
    using assms r by (auto simp: kfree_def page_aligned_def split: if_splits)
  show "t = freed pa s"
    using assms r h by (auto simp: kfree_def page_aligned_def release_run freed_def split: if_splits)
qed

section \<open>Filling the free list at boot\<close>

lemma unat_PGROUNDUP:
  assumes "unat a + 4095 < 18446744073709551616"
  shows "unat (PGROUNDUP a) = (unat a + 4095) div 4096 * 4096"
proof -
  have "a + PGSIZE - 1 = a + 4095" by (simp add: PGSIZE_def)
  then have "PGROUNDUP a = PGROUNDDOWN (a + 4095)" by (simp only: PGROUNDUP_def PGROUNDDOWN_def)
  moreover have "unat (a + 4095) = unat a + 4095" using assms by (simp add: unat_word_ariths)
  ultimately show ?thesis by (simp add: unat_PGROUNDDOWN)
qed

lemma page_aligned_mult: "page_aligned p \<Longrightarrow> \<exists>a. unat p = 4096 * a"
  unfolding page_aligned_unat by (auto dest: mod_0_imp_dvd)

lemma page_aligned_add_PGSIZE:
  assumes "page_aligned p" "unat p + 4096 < 18446744073709551616"
  shows "page_aligned (p + PGSIZE)" and "unat (p + PGSIZE) = unat p + 4096"
proof -
  show u: "unat (p + PGSIZE) = unat p + 4096" using assms(2) by (simp add: unat_word_ariths)
  show "page_aligned (p + PGSIZE)" using assms(1) by (simp add: page_aligned_unat u)
qed

lemma freerange_loop_run:
  assumes "page_aligned p" "p \<noteq> 0" "sym_end s \<le> p" "pa_end \<le> PHYSTOP" "unat p \<le> unat pa_end"
    and "(unat pa_end - unat p) div 4096 = k"
    and "free_pages s ps" "\<forall>q \<in> set ps. q < p" "KmemLk \<notin> set (held s)"
  shows "\<exists>t qs. freerange_loop k p pa_end s = Ok () t \<and> free_pages t qs \<and>
    set qs = set ps \<union> {q. page_aligned q \<and> p \<le> q \<and> unat q + 4096 \<le> unat pa_end}"
  using assms
proof (induction k arbitrary: p s ps)
  case 0
  have top: "unat pa_end \<le> 0x88000000"
    using "0.prems"(4) by (simp add: word_le_nat_alt PHYSTOP_def KERNBASE_def)
  have small: "unat pa_end < unat p + 4096" using "0.prems"(5,6) by (simp add: div_eq_0_iff)
  then have "\<not> p + PGSIZE \<le> pa_end"
    using "0.prems"(5) top by (simp add: word_le_nat_alt unat_word_ariths)
  moreover have "{q. page_aligned q \<and> p \<le> q \<and> unat q + 4096 \<le> unat pa_end} = {}"
    using small by (auto simp: word_le_nat_alt)
  ultimately show ?case using "0.prems"(7) by auto
next
  case (Suc k)
  have top: "unat pa_end \<le> 0x88000000"
    using Suc.prems(4) by (simp add: word_le_nat_alt PHYSTOP_def KERNBASE_def)
  have ge: "unat p + 4096 \<le> unat pa_end" using Suc.prems(5,6)
    by (metis add.commute div_less le_add_diff_inverse less_Suc_eq_0_disj nat.simps(3) nat_add_left_cancel_le not_le)
  have np: "page_aligned (p + PGSIZE)" "unat (p + PGSIZE) = unat p + 4096"
    using page_aligned_add_PGSIZE [OF Suc.prems(1)] ge top by auto
  have ram: "ram_page (sym_end s) p"
    using Suc.prems ge top by (auto simp: ram_page_def word_less_nat_alt PHYSTOP_def KERNBASE_def)
  have run: "kfree p s = Ok () (freed p s)"
    using kfree_run [OF ram Suc.prems(9)] by (simp add: freed_def)
  have fp: "free_pages (freed p s) (p # ps)"
    using free_pages_freed [OF Suc.prems(7) ram] Suc.prems(8) by force
  have cnt: "(unat pa_end - unat (p + PGSIZE)) div 4096 = k"
  proof -
    have "unat pa_end - unat p = 4096 + (unat pa_end - unat (p + PGSIZE))" using ge np by simp
    then show ?thesis using Suc.prems(6) by simp
  qed
  have "\<exists>t qs. freerange_loop k (p + PGSIZE) pa_end (freed p s) = Ok () t \<and> free_pages t qs \<and>
    set qs = set (p # ps) \<union> {q. page_aligned q \<and> p + PGSIZE \<le> q \<and> unat q + 4096 \<le> unat pa_end}"
  proof (rule Suc.IH [OF np(1) _ _ Suc.prems(4) _ cnt fp])
    show "p + PGSIZE \<noteq> 0" using np(2) by (auto simp: word_unat_eq_iff)
    show "sym_end (freed p s) \<le> p + PGSIZE"
      using Suc.prems(3) np(2) by (simp add: freed_def word_le_nat_alt)
    show "unat (p + PGSIZE) \<le> unat pa_end" using np ge by simp
    show "\<forall>q \<in> set (p # ps). q < p + PGSIZE"
      using Suc.prems(8) np(2) by (auto simp: word_less_nat_alt)
    show "KmemLk \<notin> set (held (freed p s))" using Suc.prems(9) by (simp add: freed_def)
  qed
  moreover have "{q. page_aligned q \<and> p \<le> q \<and> unat q + 4096 \<le> unat pa_end} =
    insert p {q. page_aligned q \<and> p + PGSIZE \<le> q \<and> unat q + 4096 \<le> unat pa_end}"
  proof -
    have "p + PGSIZE \<le> q" if qa: "page_aligned q" and "p \<le> q" "q \<noteq> p" for q
    proof -
      obtain a b where ab: "unat p = 4096 * a" "unat q = 4096 * b"
        using page_aligned_mult [OF Suc.prems(1)] page_aligned_mult [OF qa] by auto
      have "unat p < unat q" using that(2,3) by (simp add: word_le_nat_alt word_unat_eq_iff)
      then have "a < b" using ab by simp
      then show ?thesis using ab np(2) by (simp add: word_le_nat_alt)
    qed
    then show ?thesis using Suc.prems(1) ge np by (auto simp: word_le_nat_alt)
  qed
  moreover have "p + PGSIZE \<le> pa_end" using np ge by (simp add: word_le_nat_alt)
  ultimately show ?case using run by (auto simp: seq_Ok)
qed

lemma kinit_run:
  assumes "freelist s = 0" "KmemLk \<notin> set (held s)" "KERNBASE \<le> sym_end s" "PGROUNDUP (sym_end s) \<le> PHYSTOP"
    and "sym_end s \<le> PHYSTOP"
  shows "\<exists>t qs. kinit s = Ok () t \<and> free_pages t qs \<and>
    set qs = {q. page_aligned q \<and> sym_end s \<le> q \<and> unat q + 4096 \<le> unat PHYSTOP}"
proof -
  let ?e = "unat (sym_end s)" let ?p = "PGROUNDUP (sym_end s)"
  have e: "0x80000000 \<le> ?e" "?e \<le> 0x88000000"
    using assms(3,5) by (simp_all add: word_le_nat_alt PHYSTOP_def KERNBASE_def)
  have u: "unat ?p = (?e + 4095) div 4096 * 4096" using e by (intro unat_PGROUNDUP) simp
  have al: "page_aligned ?p" by (simp add: page_aligned_unat u)
  have d: "?e + 4095 = (?e + 4095) div 4096 * 4096 + (?e + 4095) mod 4096"
    and r: "(?e + 4095) mod 4096 < 4096"
    by simp_all
  have ge: "?e \<le> unat ?p" "unat ?p < ?e + 4096" unfolding u using d r by linarith+
  have "\<exists>t qs. freerange_loop ((unat PHYSTOP - unat ?p) div 4096) ?p PHYSTOP s = Ok () t \<and> free_pages t qs \<and>
    set qs = set [] \<union> {q. page_aligned q \<and> ?p \<le> q \<and> unat q + 4096 \<le> unat PHYSTOP}"
  proof (rule freerange_loop_run [OF al])
    show "?p \<noteq> 0" using ge e by (auto simp: word_unat_eq_iff)
    show "free_pages s []" using assms(1) by (simp add: free_pages_def)
  qed (use assms ge in \<open>auto simp: word_le_nat_alt\<close>)
  moreover have "page_aligned q \<Longrightarrow> ?p \<le> q \<longleftrightarrow> sym_end s \<le> q" for q
  proof -
    assume "page_aligned q"
    then obtain b where b: "unat q = 4096 * b" using page_aligned_mult by blast
    have "(?e + 4095) div 4096 \<le> b \<longleftrightarrow> ?e \<le> 4096 * b" using d r by (intro iffI; linarith)
    then show ?thesis using b u by (simp add: word_le_nat_alt)
  qed
  moreover have "unat (PHYSTOP - ?p) = unat PHYSTOP - unat ?p"
    using assms(4) by (simp add: unat_sub word_le_nat_alt)
  ultimately show ?thesis by (simp add: kinit_def freerange_def cong: conj_cong)
qed

end
