(* ===== verification/Xv6_Pagetable.thy ===== *)
theory Xv6_Pagetable
  imports Xv6_Kalloc
begin

text \<open>
  Looking up Sv39 page tables: \<open>walk\<close>, \<open>walkaddr\<close> and \<open>ismapped\<close> of kernel/vm.c, the tree of
  table pages they follow, and its well-formedness.
\<close>

section \<open>Walking a page table\<close>

text \<open>
  \<open>walk(pagetable, va, alloc)\<close> takes, in place of the flag, the allocator it may call: \<open>kalloc\<close>
  for \<open>alloc = 1\<close>, and \<open>ret 0\<close>, an allocator that has no page, for \<open>alloc = 0\<close>. A null result
  is the address 0.
\<close>

fun walk_level :: "u64 kop \<Rightarrow> u64 \<Rightarrow> u64 \<Rightarrow> nat \<Rightarrow> u64 kop" where
  "walk_level alloc pagetable va 0 = ret (pagetable + 8 * PX 0 va)"
| "walk_level alloc pagetable va (Suc level) =
     (let pte = pagetable + 8 * PX (Suc level) va in
     bnd (load64 pte) (\<lambda>e.
     if e AND PTE_V \<noteq> 0 then walk_level alloc (PTE2PA e) va level
     else
       bnd alloc (\<lambda>new.
       if new = 0 then ret 0 else
       seq (fill_page new 0) (
       seq (store64 pte (PA2PTE new OR PTE_V)) (
       walk_level alloc new va level)))))"

definition walk :: "u64 kop \<Rightarrow> u64 \<Rightarrow> u64 \<Rightarrow> u64 kop" where
  "walk alloc pagetable va =
     (if va \<ge> MAXVA then panic ''walk'' else walk_level alloc pagetable va 2)"

definition walk0 :: "u64 \<Rightarrow> u64 \<Rightarrow> u64 kop" where
  "walk0 = walk (ret 0)"

definition walkaddr :: "u64 \<Rightarrow> u64 \<Rightarrow> u64 kop" where
  "walkaddr pagetable va =
     (if va \<ge> MAXVA then ret 0 else
     bnd (walk0 pagetable va) (\<lambda>pte.
     if pte = 0 then ret 0 else
     bnd (load64 pte) (\<lambda>e.
     if e AND PTE_V = 0 then ret 0 else
     if e AND PTE_U = 0 then ret 0 else
     ret (PTE2PA e))))"

definition ismapped :: "u64 \<Rightarrow> u64 \<Rightarrow> bool kop" where
  "ismapped pagetable va =
     bnd (walk0 pagetable va) (\<lambda>pte.
     if pte = 0 then ret False else
     bnd (load64 pte) (\<lambda>e. ret (e AND PTE_V \<noteq> 0)))"


lemma walk0_level0 [simp]: "walk_level al pt va 0 s = Ok (pt + 8 * PX 0 va) s"
  by simp

section \<open>The tree of tables\<close>

definition pte_valid :: "u64 \<Rightarrow> bool" where
  "pte_valid e \<longleftrightarrow> e AND PTE_V \<noteq> 0"

definition child :: "memory \<Rightarrow> u64 \<Rightarrow> u64 \<Rightarrow> u64 option" where
  "child m t i = (let e = read64 m (t + 8 * i) in if pte_valid e then Some (PTE2PA e) else None)"

definition table1 :: "memory \<Rightarrow> u64 \<Rightarrow> u64 \<Rightarrow> u64 option" where
  "table1 m root va = child m root (PX 2 va)"

definition table0 :: "memory \<Rightarrow> u64 \<Rightarrow> u64 \<Rightarrow> u64 option" where
  "table0 m root va = (case table1 m root va of None \<Rightarrow> None | Some t \<Rightarrow> child m t (PX 1 va))"

text \<open>The address of the leaf entry of \<open>va\<close>, and the entry, 0 where a table is missing.\<close>

definition leaf :: "memory \<Rightarrow> u64 \<Rightarrow> u64 \<Rightarrow> u64 option" where
  "leaf m root va = map_option (\<lambda>t. t + 8 * PX 0 va) (table0 m root va)"

definition pte_of :: "memory \<Rightarrow> u64 \<Rightarrow> u64 \<Rightarrow> u64" where
  "pte_of m root va = (case leaf m root va of None \<Rightarrow> 0 | Some a \<Rightarrow> read64 m a)"

definition tables :: "memory \<Rightarrow> u64 \<Rightarrow> u64 set" where
  "tables m root = {root} \<union> {t. \<exists>va. table1 m root va = Some t} \<union> {t. \<exists>va. table0 m root va = Some t}"

text \<open>
  A well-formed page table: the tables are pages other than page 0, and each is reached
  by one path only.
\<close>

definition pt_wf :: "memory \<Rightarrow> u64 \<Rightarrow> bool" where
  "pt_wf m root \<longleftrightarrow> page_aligned root \<and> 0 \<notin> tables m root \<and>
     (\<forall>va t. table1 m root va = Some t \<longrightarrow> t \<noteq> root \<and>
       (\<forall>va'. table1 m root va' = Some t \<longrightarrow> PX 2 va' = PX 2 va)) \<and>
     (\<forall>va t. table0 m root va = Some t \<longrightarrow> t \<noteq> root \<and> (\<forall>va'. table1 m root va' \<noteq> Some t) \<and>
       (\<forall>va'. table0 m root va' = Some t \<longrightarrow> PX 2 va' = PX 2 va \<and> PX 1 va' = PX 1 va))"

lemma child_aligned: "child m t i = Some t' \<Longrightarrow> page_aligned t'"
  by (auto simp: child_def Let_def split: if_splits)

lemma tables_aligned: "page_aligned root \<Longrightarrow> t \<in> tables m root \<Longrightarrow> page_aligned t"
  by (auto simp: tables_def table1_def table0_def dest: child_aligned split: option.splits)

lemma PX8: "8 * PX l va < 4096" "(8 * PX l va) AND 7 = 0"
proof -
  have u: "unat (PX l va) < 512" using PX_less [of l va] by (simp add: word_less_nat_alt)
  have m: "unat (8 * PX l va) = 8 * unat (PX l va)"
    using u by (simp add: unat_word_ariths)
  show "8 * PX l va < 4096" using u m by (simp add: word_less_nat_alt)
  show "(8 * PX l va) AND 7 = 0" unfolding and_mask_mod_8
    by (simp add: word_unat_eq_iff unat_mod m)
qed

lemma entry_aligned [simp]: "page_aligned t \<Longrightarrow> aligned8 (t + 8 * PX l va)"
  by (intro aligned8_page_offset PX8)

lemma entry_page [simp]: "page_aligned t \<Longrightarrow> PGROUNDDOWN (t + 8 * PX l va) = t"
  by (intro PGROUNDDOWN_add_word PX8)

lemma entry_inject:
  assumes "page_aligned t" "page_aligned t'" "t + 8 * PX l va = t' + 8 * PX l' va'"
  shows "t = t' \<and> PX l va = PX l' va'"
proof -
  have "t = t'" using assms entry_page by metis
  moreover from this assms(3) have "8 * PX l va = 8 * PX l' va'" by simp
  then have "unat (8 * PX l va) = unat (8 * PX l' va')" by simp
  then have "unat (PX l va) = unat (PX l' va')"
    using PX_less [of l va] PX_less [of l' va'] by (simp add: unat_word_ariths word_less_nat_alt)
  ultimately show ?thesis by (simp add: word_unat_eq_iff)
qed

section \<open>walk finds the leaf\<close>

lemma walk0_run:
  assumes "va < MAXVA"
  shows "walk0 root va s = Ok (case leaf (mem s) root va of None \<Rightarrow> 0 | Some a \<Rightarrow> a) s"
  using assms [folded not_le]
  by (simp add: walk0_def walk_def leaf_def table0_def table1_def child_def pte_valid_def Let_def
      numeral_2_eq_2)

lemma bnd_walk0:
  "va < MAXVA \<Longrightarrow> bnd (walk0 root va) f s = f (case leaf (mem s) root va of None \<Rightarrow> 0 | Some a \<Rightarrow> a) s"
  by (simp add: bnd_Ok walk0_run)

lemma walk0_panics: "MAXVA \<le> va \<Longrightarrow> walk0 root va s = Panic ''walk''"
  by (simp add: walk0_def walk_def)

lemma walk0_pure: "walk0 root va s = Ok a t \<Longrightarrow> t = s"
  by (cases "va < MAXVA") (auto simp: walk0_run walk0_panics not_less)

lemma leafD:
  "leaf m root va = Some a \<Longrightarrow> \<exists>t. table0 m root va = Some t \<and> a = t + 8 * PX 0 va \<and> page_aligned t"
  by (auto simp: leaf_def table0_def split: option.splits dest: child_aligned)

lemma leaf_aligned: "leaf m root va = Some a \<Longrightarrow> aligned8 a"
  by (auto dest!: leafD)

lemma leaf_table: "leaf m root va = Some a \<Longrightarrow> table0 m root va = Some (PGROUNDDOWN a)"
  by (auto dest!: leafD)

lemma leaf_in_tables: "leaf m root va = Some a \<Longrightarrow> PGROUNDDOWN a \<in> tables m root"
  by (auto simp: tables_def dest: leaf_table)

lemma leaf_nonzero: "pt_wf m root \<Longrightarrow> leaf m root va = Some a \<Longrightarrow> a \<noteq> 0"
proof -
  assume w: "pt_wf m root" and a: "leaf m root va = Some a"
  have "PGROUNDDOWN a \<noteq> 0" using w leaf_in_tables [OF a] by (auto simp: pt_wf_def)
  moreover have "PGROUNDDOWN 0 = 0" by (simp add: PGROUNDDOWN_def)
  ultimately show "a \<noteq> 0" by auto
qed

lemma leaf_inject:
  assumes "pt_wf m root" "leaf m root va = Some a" "leaf m root va' = Some a" "va < MAXVA" "va' < MAXVA"
  shows "PGROUNDDOWN va = PGROUNDDOWN va'"
proof -
  obtain t where t: "table0 m root va = Some t" "a = t + 8 * PX 0 va" "page_aligned t"
    using leafD [OF assms(2)] by blast
  obtain t' where t': "table0 m root va' = Some t'" "a = t' + 8 * PX 0 va'" "page_aligned t'"
    using leafD [OF assms(3)] by blast
  have "t + 8 * PX 0 va = t' + 8 * PX 0 va'" using t(2) t'(2) by simp
  then have "t = t'" "PX 0 va = PX 0 va'" using entry_inject [OF t(3) t'(3)] by blast+
  moreover from this have "PX 2 va = PX 2 va'" "PX 1 va = PX 1 va'"
    using assms(1) t t' unfolding pt_wf_def by metis+
  ultimately show ?thesis using PX_page_inject assms(4,5) by blast
qed

section \<open>Frames\<close>

text \<open>A change of memory outside the root and the middle tables keeps the tree.\<close>

lemma child_cong: "page_aligned t \<Longrightarrow> same_except P m m' \<Longrightarrow> t \<notin> P \<Longrightarrow> child m' t (PX l va) = child m t (PX l va)"
  unfolding child_def by (simp add: read64_same_except)

lemma tree_frame:
  assumes "page_aligned root" "same_except P m m'" "root \<notin> P" "\<forall>va t. table1 m root va = Some t \<longrightarrow> t \<notin> P"
  shows "table1 m' root va = table1 m root va" and "table0 m' root va = table0 m root va"
proof -
  show 1: "table1 m' root va = table1 m root va"
    using child_cong [OF assms(1-3)] by (simp add: table1_def)
  show "table0 m' root va = table0 m root va"
  proof (cases "table1 m root va")
    case None then show ?thesis by (simp add: table0_def 1)
  next
    case (Some t)
    then have "page_aligned t" by (auto simp: table1_def dest: child_aligned)
    then show ?thesis using Some assms(2,4) by (simp add: table0_def 1 child_cong)
  qed
qed

lemma tree_frame_wf:
  assumes "page_aligned root" "same_except P m m'" "root \<notin> P" "\<forall>va t. table1 m root va = Some t \<longrightarrow> t \<notin> P"
  shows "leaf m' root va = leaf m root va" "tables m' root = tables m root" "pt_wf m' root = pt_wf m root"
  using tree_frame [OF assms] by (simp_all add: leaf_def tables_def pt_wf_def)

lemma pt_frame:
  assumes "page_aligned root" "same_except P m m'" "tables m root \<inter> P = {}"
  shows "leaf m' root va = leaf m root va" "tables m' root = tables m root" "pt_wf m' root = pt_wf m root"
    and "pte_of m' root va = pte_of m root va"
proof -
  have p: "root \<notin> P" "\<forall>va t. table1 m root va = Some t \<longrightarrow> t \<notin> P"
    using assms(3) by (auto simp: tables_def)
  show l: "leaf m' root va = leaf m root va"
    and "tables m' root = tables m root" "pt_wf m' root = pt_wf m root"
    using tree_frame_wf [OF assms(1,2) p] by auto
  show "pte_of m' root va = pte_of m root va"
  proof (cases "leaf m root va")
    case (Some a)
    then have "PGROUNDDOWN a \<notin> P" using leaf_in_tables assms(3) by blast
    then show ?thesis
      using Some read64_same_except [OF assms(2) leaf_aligned] by (simp add: pte_of_def l)
  qed (simp add: pte_of_def l)
qed

text \<open>Writing a leaf entry changes that page's entry and nothing else.\<close>

lemma leaf_not_upper:
  assumes "pt_wf m root" "leaf m root va = Some a"
  shows "root \<notin> {PGROUNDDOWN a}" "\<forall>va t. table1 m root va = Some t \<longrightarrow> t \<notin> {PGROUNDDOWN a}"
proof -
  have "PGROUNDDOWN a \<noteq> root \<and> (\<forall>va'. table1 m root va' \<noteq> Some (PGROUNDDOWN a))"
    using assms(1) leaf_table [OF assms(2)] unfolding pt_wf_def by blast
  then show "root \<notin> {PGROUNDDOWN a}" "\<forall>va t. table1 m root va = Some t \<longrightarrow> t \<notin> {PGROUNDDOWN a}"
    by auto
qed

lemma write_leaf:
  assumes "pt_wf m root" "leaf m root va = Some a"
  shows "leaf (write64 m a v) root va' = leaf m root va'" "tables (write64 m a v) root = tables m root"
    "pt_wf (write64 m a v) root"
proof -
  have al: "page_aligned root" using assms(1) by (simp add: pt_wf_def)
  note f = tree_frame_wf [OF al same_except_write64 [OF leaf_aligned [OF assms(2)]] leaf_not_upper [OF assms]]
  show "leaf (write64 m a v) root va' = leaf m root va'" "tables (write64 m a v) root = tables m root"
    "pt_wf (write64 m a v) root"
    using f assms(1) by simp_all
qed

lemma pte_of_write_leaf:
  assumes "pt_wf m root" "leaf m root va = Some a" "va < MAXVA" "va' < MAXVA"
  shows "pte_of (write64 m a v) root va' = (if PGROUNDDOWN va' = PGROUNDDOWN va then v else pte_of m root va')"
proof (cases "PGROUNDDOWN va' = PGROUNDDOWN va")
  case True
  then have px: "PX l va' = PX l va" for l by (metis PX_PGROUNDDOWN)
  have "leaf m root va' = Some a"
    using assms(2) unfolding leaf_def table0_def table1_def px .
  then show ?thesis using True by (simp add: pte_of_def write_leaf [OF assms(1,2)])
next
  case False
  then have "leaf m root va' \<noteq> Some a" using leaf_inject [OF assms(1,2) _ assms(3,4)] by metis
  then show ?thesis
    using False leaf_aligned assms(2)
    by (auto simp: pte_of_def write_leaf [OF assms(1,2)] split: option.splits)
qed

section \<open>Look-ups\<close>

lemma leaf_page: "PGROUNDDOWN va' = PGROUNDDOWN va \<Longrightarrow> leaf m root va' = leaf m root va"
proof -
  assume "PGROUNDDOWN va' = PGROUNDDOWN va"
  then have px: "PX l va' = PX l va" for l by (metis PX_PGROUNDDOWN)
  show ?thesis unfolding leaf_def table0_def table1_def px ..
qed

lemma pte_of_page: "PGROUNDDOWN va' = PGROUNDDOWN va \<Longrightarrow> pte_of m root va' = pte_of m root va"
proof -
  assume "PGROUNDDOWN va' = PGROUNDDOWN va"
  then have "leaf m root va' = leaf m root va" by (rule leaf_page)
  then show ?thesis by (simp add: pte_of_def)
qed

lemma walk0_pte:
  assumes "pt_wf (mem s) root" "va < MAXVA"
  shows "\<exists>a. walk0 root va s = Ok a s \<and>
    (if a = 0 then leaf (mem s) root va = None \<and> pte_of (mem s) root va = 0
     else leaf (mem s) root va = Some a \<and> read64 (mem s) a = pte_of (mem s) root va)"
proof (cases "leaf (mem s) root va")
  case None
  then show ?thesis using assms by (simp add: walk0_run pte_of_def)
next
  case (Some a)
  then show ?thesis using assms leaf_nonzero [OF assms(1) Some] by (simp add: walk0_run pte_of_def)
qed

lemma walkaddr_run:
  assumes "pt_wf (mem s) root" "va < MAXVA"
  shows "walkaddr root va s = Ok (let e = pte_of (mem s) root va in
    if pte_valid e \<and> e AND PTE_U \<noteq> 0 then PTE2PA e else 0) s"
proof (cases "leaf (mem s) root va")
  case None
  then show ?thesis using assms(2) [folded not_le]
    by (simp add: walkaddr_def bnd_walk0 assms(2) pte_of_def pte_valid_def)
next
  case (Some a)
  then show ?thesis using assms(2) [folded not_le] leaf_nonzero [OF assms(1) Some]
    by (simp add: walkaddr_def bnd_walk0 assms(2) pte_of_def pte_valid_def Let_def)
qed

lemma ismapped_run:
  assumes "pt_wf (mem s) root" "va < MAXVA"
  shows "ismapped root va s = Ok (pte_valid (pte_of (mem s) root va)) s"
proof (cases "leaf (mem s) root va")
  case None
  then show ?thesis by (simp add: ismapped_def bnd_walk0 assms(2) pte_of_def pte_valid_def)
next
  case (Some a)
  then show ?thesis using leaf_nonzero [OF assms(1) Some]
    by (simp add: ismapped_def bnd_walk0 assms(2) pte_of_def pte_valid_def)
qed

lemma or_flags: "f < 2 ^ 10 \<Longrightarrow> g < 2 ^ 10 \<Longrightarrow> f OR g < (2 ^ 10 :: u64)"
proof -
  assume "f < 2 ^ 10" "g < 2 ^ 10"
  then have "take_bit 10 (f OR g) = f OR g" by (simp add: take_bit_or take_bit_less)
  then have "unat (f OR g) = unat (take_bit 10 (f OR g))" by simp
  also have "\<dots> < 2 ^ 10" unfolding unsigned_take_bit_eq by (rule take_bit_nat_less_exp)
  finally show ?thesis by (simp add: word_less_nat_alt)
qed

end
