(* ===== verification/Xv6_Swap.thy ===== *)
theory Xv6_Swap
  imports Xv6_Frame
begin

text \<open>
  The swap-slot bitmap of kernel/proc.c: \<open>swap_slot_alloc\<close> and \<open>swap_slot_free\<close> on the 128 bytes
  of \<open>p->swap_slots\<close>. The abstract view of a bitmap is the set of slots in use; the locale
  \<open>slot_allocator\<close> is the contract the page-replacement code relies on.
\<close>

section \<open>Operations\<close>

text \<open>The loop over the bits of byte \<open>i\<close> from bit \<open>j\<close>, and the loop over the bytes from \<open>i\<close>.\<close>

fun slot_bits :: "u8 list \<Rightarrow> nat \<Rightarrow> nat \<Rightarrow> nat \<Rightarrow> (u8 list \<times> nat) option" where
  "slot_bits sl i j 0 = None"
| "slot_bits sl i j (Suc k) =
     (if drop_bit j (sl ! i) AND 1 = 0
      then Some (sl[i := (sl ! i) OR push_bit j 1], i * 8 + j)
      else slot_bits sl i (Suc j) k)"

fun slot_bytes :: "u8 list \<Rightarrow> nat \<Rightarrow> nat \<Rightarrow> (u8 list \<times> nat) option" where
  "slot_bytes sl i 0 = None"
| "slot_bytes sl i (Suc k) =
     (case slot_bits sl i 0 8 of Some r \<Rightarrow> Some r | None \<Rightarrow> slot_bytes sl (Suc i) k)"

definition slot_alloc :: "u8 list \<Rightarrow> (u8 list \<times> nat) option" where
  "slot_alloc sl = slot_bytes sl 0 128"

definition slot_free :: "int \<Rightarrow> u8 list \<Rightarrow> u8 list" where
  "slot_free slot sl =
     (if slot \<ge> 0 \<and> slot < 1024 then
        let byte = nat slot div 8; bt = nat slot mod 8
        in sl[byte := (sl ! byte) AND NOT (push_bit bt 1)]
      else sl)"

definition swap_slot_alloc :: "nat \<Rightarrow> int kop" where
  "swap_slot_alloc p =
     bnd (gets (\<lambda>s. p_swap_slots (procs s p))) (\<lambda>sl.
     case slot_alloc sl of
       None \<Rightarrow> ret (-1)
     | Some (sl', n) \<Rightarrow> seq (modify (upd_proc p (\<lambda>q. q\<lparr>p_swap_slots := sl'\<rparr>))) (ret (int n)))"

definition swap_slot_free :: "nat \<Rightarrow> int \<Rightarrow> unit kop" where
  "swap_slot_free p slot =
     modify (upd_proc p (\<lambda>q. q\<lparr>p_swap_slots := slot_free slot (p_swap_slots q)\<rparr>))"

text \<open>The counting loop of \<open>freeproc\<close>.\<close>

definition count_slots :: "u8 list \<Rightarrow> nat" where
  "count_slots sl = length (filter (\<lambda>k. drop_bit (k mod 8) (sl ! (k div 8)) AND 1 \<noteq> 0) [0..<1024])"

section \<open>The set of slots in use\<close>

definition used :: "u8 list \<Rightarrow> nat set" where
  "used sl = {n. n < 1024 \<and> bit (sl ! (n div 8)) (n mod 8)}"

lemma and_1_bit: "(drop_bit j (w :: u8) AND 1 = 0) = (\<not> bit w j)"
  by (simp add: and_one_eq mod_2_eq_odd bit_iff_odd_drop_bit)

lemma used_finite [simp]: "finite (used sl)"
  by (rule finite_subset [of _ "{..<1024}"]) (auto simp: used_def)

lemma used_less: "n \<in> used sl \<Longrightarrow> n < 1024"
  by (simp add: used_def)

lemma bit_set_bit: "b < 8 \<Longrightarrow> bit ((w :: u8) OR 2 ^ b) c = (bit w c \<or> c = b)"
  by (auto simp: bit_simps)

lemma bit_clear_bit: "b < 8 \<Longrightarrow> bit ((w :: u8) AND NOT (2 ^ b)) c = (bit w c \<and> c \<noteq> b)"
  by (auto simp: bit_simps dest: bit_imp_le_length)

lemma div_mod_8_eq: "(n :: nat) div 8 = k div 8 \<Longrightarrow> n mod 8 = k mod 8 \<Longrightarrow> n = k"
  by (metis div_mult_mod_eq)

lemma used_set:
  assumes "length sl = 128" "k < 1024"
  shows "used (sl[k div 8 := (sl ! (k div 8)) OR 2 ^ (k mod 8)]) = insert k (used sl)"
proof -
  have k: "k div 8 < 128" using assms(2) by (simp add: div_less_iff_less_mult)
  show ?thesis
    using assms k by (auto simp: used_def nth_list_update bit_set_bit dest: div_mod_8_eq split: if_splits)
qed

lemma used_clear:
  assumes "length sl = 128" "k < 1024"
  shows "used (sl[k div 8 := (sl ! (k div 8)) AND NOT (2 ^ (k mod 8))]) = used sl - {k}"
proof -
  have k: "k div 8 < 128" using assms(2) by (simp add: div_less_iff_less_mult)
  show ?thesis
    using assms k by (auto simp: used_def nth_list_update bit_clear_bit dest: div_mod_8_eq split: if_splits)
qed

text \<open>Both loops together look at the slots in increasing order.\<close>

lemma slot_bits_None: "slot_bits sl i j k = None \<longleftrightarrow> (\<forall>b \<in> {j..<j + k}. bit (sl ! i) b)"
proof (induction k arbitrary: j)
  case 0 then show ?case by simp
next
  case (Suc k)
  have "{j..<j + Suc k} = insert j {Suc j..<Suc j + k}" by auto
  with Suc show ?case by (simp add: and_1_bit)
qed

lemma slot_bits_Some:
  "slot_bits sl i j k = Some (sl', n) \<Longrightarrow>
   \<exists>b. j \<le> b \<and> b < j + k \<and> n = i * 8 + b \<and> \<not> bit (sl ! i) b \<and> (\<forall>c \<in> {j..<b}. bit (sl ! i) c) \<and>
     sl' = sl[i := (sl ! i) OR push_bit b 1]"
proof (induction k arbitrary: j)
  case 0 then show ?case by simp
next
  case (Suc k)
  show ?case
  proof (cases "bit (sl ! i) j")
    case True
    with Suc.prems have "slot_bits sl i (Suc j) k = Some (sl', n)" by (simp add: and_1_bit)
    then obtain b where b: "Suc j \<le> b" "b < Suc j + k" "n = i * 8 + b" "\<not> bit (sl ! i) b"
      "\<forall>c \<in> {Suc j..<b}. bit (sl ! i) c" "sl' = sl[i := (sl ! i) OR push_bit b 1]"
      using Suc.IH by blast
    have "{j..<b} = insert j {Suc j..<b}" using b(1) by auto
    then show ?thesis using b True by (intro exI [of _ b]) auto
  next
    case False
    with Suc.prems show ?thesis by (intro exI [of _ j]) (auto simp: and_1_bit)
  qed
qed

lemma slot_bytes_spec:
  assumes "i + k = 128" "\<forall>n < i * 8. n \<in> used sl"
  shows "(slot_bytes sl i k = None \<longleftrightarrow> used sl = {..<1024}) \<and>
    (\<forall>sl' n. slot_bytes sl i k = Some (sl', n) \<longrightarrow>
       n < 1024 \<and> n \<notin> used sl \<and> (\<forall>c < n. c \<in> used sl) \<and>
       sl' = sl[n div 8 := (sl ! (n div 8)) OR push_bit (n mod 8) 1])"
  using assms
proof (induction k arbitrary: i)
  case 0
  then show ?case by (auto simp: used_def)
next
  case (Suc k)
  have i: "i < 128" using Suc.prems(1) by simp
  show ?case
  proof (cases "slot_bits sl i 0 8")
    case None
    then have all: "\<forall>b < 8. bit (sl ! i) b" by (auto simp: slot_bits_None)
    have below: "n \<in> used sl" if "n < Suc i * 8" for n
    proof (cases "n < i * 8")
      case False
      then have "n div 8 = i" using that by (intro div_nat_eqI) simp_all
      then show ?thesis using all that i by (auto simp: used_def)
    qed (use Suc.prems(2) in simp)
    have step: "slot_bytes sl i (Suc k) = slot_bytes sl (Suc i) k" using None by simp
    show ?thesis unfolding step
      by (rule Suc.IH) (use Suc.prems(1) in simp, use below in blast)
  next
    case (Some r)
    obtain sl' n where r: "r = (sl', n)" by (cases r)
    obtain b where b: "b < 8" "n = i * 8 + b" "\<not> bit (sl ! i) b" "\<forall>c \<in> {0..<b}. bit (sl ! i) c"
      "sl' = sl[i := (sl ! i) OR push_bit b 1]"
      using slot_bits_Some [of sl i 0 8 sl' n] Some r by auto
    have dm: "n div 8 = i" "n mod 8 = b" using b by simp_all
    have nn: "n < 1024" using b i by simp
    have below: "c \<in> used sl" if "c < n" for c
    proof (cases "c < i * 8")
      case False
      then have "c div 8 = i" using that b(1,2) by (intro div_nat_eqI) simp_all
      moreover have "c mod 8 < b" using False that b(2) \<open>c div 8 = i\<close>
        by (metis div_mult_mod_eq nat_add_left_cancel_less)
      ultimately show ?thesis using b(4) that nn by (simp add: used_def)
    qed (use Suc.prems(2) in simp)
    have fresh: "n \<notin> used sl" using b dm by (simp add: used_def)
    then have "used sl \<noteq> {..<1024}" using nn by blast
    moreover have "slot_bytes sl i (Suc k) = Some (sl', n)" using Some r by simp
    moreover have "sl' = sl[n div 8 := (sl ! (n div 8)) OR push_bit (n mod 8) 1]"
      unfolding dm by (rule b(5))
    ultimately show ?thesis using below fresh nn by simp
  qed
qed

lemma slot_alloc_None: "slot_alloc sl = None \<longleftrightarrow> used sl = {..<1024}"
  using slot_bytes_spec [of 0 128 sl] by (simp add: slot_alloc_def)

lemma slot_alloc_Some:
  assumes "slot_alloc sl = Some (sl', n)" "length sl = 128"
  shows "n < 1024" "n \<notin> used sl" "\<forall>c < n. c \<in> used sl" "used sl' = insert n (used sl)" "length sl' = 128"
proof -
  have *: "n < 1024 \<and> n \<notin> used sl \<and> (\<forall>c < n. c \<in> used sl) \<and>
      sl' = sl[n div 8 := (sl ! (n div 8)) OR push_bit (n mod 8) 1]"
    using slot_bytes_spec [of 0 128 sl] assms(1) by (simp add: slot_alloc_def)
  then show "n < 1024" "n \<notin> used sl" "\<forall>c < n. c \<in> used sl" by auto
  show "used sl' = insert n (used sl)" "length sl' = 128"
    using * assms(2) by (auto simp: used_set)
qed

lemma length_slot_free [simp]: "length (slot_free n sl) = length sl"
  by (simp add: slot_free_def Let_def)

lemma used_slot_free:
  assumes "length sl = 128"
  shows "used (slot_free n sl) = (if 0 \<le> n then used sl - {nat n} else used sl)"
proof (cases "0 \<le> n \<and> n < 1024")
  case True
  then have "nat n < 1024" by (simp add: nat_less_iff)
  with True show ?thesis using used_clear [OF assms, of "nat n"] by (simp add: slot_free_def Let_def)
next
  case False
  then show ?thesis by (auto simp: slot_free_def dest: used_less)
qed

lemma count_slots_card: "count_slots sl = card (used sl)"
proof -
  have "used sl = set (filter (\<lambda>k. drop_bit (k mod 8) (sl ! (k div 8)) AND 1 \<noteq> 0) [0..<1024])"
    unfolding set_filter set_upt used_def by (auto simp: and_1_bit)
  then show ?thesis by (simp only: count_slots_def distinct_card distinct_filter distinct_upt)
qed

section \<open>The contract of a slot allocator\<close>

text \<open>\<open>k\<close> allocations in a row.\<close>

fun alloc_many :: "('b \<Rightarrow> ('b \<times> nat) option) \<Rightarrow> nat \<Rightarrow> 'b \<Rightarrow> ('b \<times> nat list) option" where
  "alloc_many alloc 0 b = Some (b, [])"
| "alloc_many alloc (Suc k) b =
     (case alloc b of None \<Rightarrow> None | Some (b', n) \<Rightarrow>
        (case alloc_many alloc k b' of None \<Rightarrow> None | Some (b'', ns) \<Rightarrow> Some (b'', n # ns)))"

locale slot_allocator =
  fixes wf :: "'b \<Rightarrow> bool"
    and in_use :: "'b \<Rightarrow> nat set"
    and alloc :: "'b \<Rightarrow> ('b \<times> nat) option"
    and free :: "nat \<Rightarrow> 'b \<Rightarrow> 'b"
    and capacity :: nat
  assumes in_use_capacity: "wf b \<Longrightarrow> in_use b \<subseteq> {..<capacity}"
    and alloc_full: "wf b \<Longrightarrow> alloc b = None \<longleftrightarrow> in_use b = {..<capacity}"
    and alloc_fresh: "wf b \<Longrightarrow> alloc b = Some (b', n) \<Longrightarrow>
      wf b' \<and> n < capacity \<and> n \<notin> in_use b \<and> in_use b' = insert n (in_use b)"
    and free_wf: "wf b \<Longrightarrow> wf (free n b)"
    and free_in_use: "wf b \<Longrightarrow> in_use (free n b) = in_use b - {n}"
begin

lemma in_use_finite: "wf b \<Longrightarrow> finite (in_use b)"
  using in_use_capacity finite_subset by blast

lemma card_in_use: "wf b \<Longrightarrow> card (in_use b) \<le> capacity"
  using card_mono [OF _ in_use_capacity] by fastforce

lemma full_iff: "wf b \<Longrightarrow> alloc b = None \<longleftrightarrow> card (in_use b) = capacity"
  using in_use_capacity [of b] alloc_full [of b]
  by (metis card_lessThan card_subset_eq finite_lessThan)

text \<open>As many allocations succeed in a row as there are slots left, and they are distinct.\<close>

lemma alloc_many_spec:
  "wf b \<Longrightarrow> k + card (in_use b) \<le> capacity \<Longrightarrow>
   \<exists>b' ns. alloc_many alloc k b = Some (b', ns) \<and> wf b' \<and> length ns = k \<and> distinct ns \<and>
     set ns \<inter> in_use b = {} \<and> in_use b' = in_use b \<union> set ns"
proof (induction k arbitrary: b)
  case 0 then show ?case by simp
next
  case (Suc k)
  then have "alloc b \<noteq> None" using full_iff [of b] by simp
  then obtain b1 n where a: "alloc b = Some (b1, n)" by auto
  have b1: "wf b1" "n \<notin> in_use b" "in_use b1 = insert n (in_use b)"
    using alloc_fresh [OF Suc.prems(1) a] by auto
  have "k + card (in_use b1) \<le> capacity" using b1 Suc.prems in_use_finite by simp
  then obtain b' ns where "alloc_many alloc k b1 = Some (b', ns)" "wf b'" "length ns = k" "distinct ns"
    "set ns \<inter> in_use b1 = {}" "in_use b' = in_use b1 \<union> set ns"
    using Suc.IH [OF b1(1)] by auto
  then show ?case using a b1 by auto
qed

lemma alloc_after_free:
  "wf b \<Longrightarrow> n \<in> in_use b \<Longrightarrow> \<exists>b' m. alloc (free n b) = Some (b', m) \<and> m \<notin> in_use b - {n}"
proof -
  assume b: "wf b" and n: "n \<in> in_use b"
  have "in_use (free n b) \<noteq> {..<capacity}"
    using free_in_use [OF b] in_use_capacity [OF b] n by blast
  then have "alloc (free n b) \<noteq> None" using alloc_full [OF free_wf [OF b]] by blast
  then obtain b' m where "alloc (free n b) = Some (b', m)" by auto
  then show ?thesis using alloc_fresh [OF free_wf [OF b]] free_in_use [OF b] by fastforce
qed

end

text \<open>The bitmap of a process implements the contract with 1024 slots.\<close>

interpretation bitmap: slot_allocator "\<lambda>sl. length sl = 128" used slot_alloc "\<lambda>n. slot_free (int n)" 1024
  by unfold_locales
     (auto simp: slot_alloc_None used_slot_free dest: slot_alloc_Some used_less)

lemma bnd_swap_slot_alloc:
  "bnd (swap_slot_alloc p) f s = (case slot_alloc (p_swap_slots (procs s p)) of
     None \<Rightarrow> f (-1) s
   | Some (sl', n) \<Rightarrow> f (int n) (upd_proc p (\<lambda>q. q\<lparr>p_swap_slots := sl'\<rparr>) s))"
  by (simp add: swap_slot_alloc_def bnd_assoc split: option.split prod.split)

section \<open>Properties\<close>

text \<open>Property C16. \<open>swap_slot_alloc\<close> returns the lowest-numbered free slot and marks exactly that slot as
  used, touching no other field of the state; it returns -1, with the state unchanged, exactly when
  all 1024 slots are in use.\<close>

theorem swap_slot_alloc_correct:
  assumes "length (p_swap_slots (procs s p)) = 128"
  shows "(if used (p_swap_slots (procs s p)) = {..<1024} then swap_slot_alloc p s = Ok (-1) s
    else \<exists>n sl'. swap_slot_alloc p s = Ok (int n) (upd_proc p (\<lambda>q. q\<lparr>p_swap_slots := sl'\<rparr>) s) \<and>
      n = (LEAST n. n \<notin> used (p_swap_slots (procs s p))) \<and> length sl' = 128 \<and>
      used sl' = insert n (used (p_swap_slots (procs s p))))"
proof (cases "slot_alloc (p_swap_slots (procs s p))")
  case None
  then have "used (p_swap_slots (procs s p)) = {..<1024}" by (simp only: slot_alloc_None)
  then show ?thesis using None by (simp add: swap_slot_alloc_def)
next
  case (Some r)
  obtain sl' n where r: "r = (sl', n)" by (cases r)
  note * = slot_alloc_Some [OF Some [unfolded r] assms]
  have least: "n = (LEAST n. n \<notin> used (p_swap_slots (procs s p)))"
    by (rule sym, rule Least_equality) (fact *(2), use *(3) in \<open>meson not_le\<close>)
  have full: "used (p_swap_slots (procs s p)) \<noteq> {..<1024}"
    using Some slot_alloc_None [of "p_swap_slots (procs s p)"] by (metis option.distinct(1))
  have run: "swap_slot_alloc p s = Ok (int n) (upd_proc p (\<lambda>q. q\<lparr>p_swap_slots := sl'\<rparr>) s)"
    using Some r by (simp add: swap_slot_alloc_def)
  show ?thesis
    unfolding if_not_P [OF full] by (intro exI conjI) (fact run, fact least, fact *(5), fact *(4))
qed

lemma alloc_in_order:
  "length sl = 128 \<Longrightarrow> used sl = {..<j} \<Longrightarrow> j + k \<le> 1024 \<Longrightarrow>
   \<exists>sl'. alloc_many slot_alloc k sl = Some (sl', [j..<j + k]) \<and> length sl' = 128 \<and> used sl' = {..<j + k}"
proof (induction k arbitrary: sl j)
  case (Suc k)
  have "slot_alloc sl \<noteq> None" using Suc.prems slot_alloc_None [of sl] by auto
  then obtain sl1 n where a: "slot_alloc sl = Some (sl1, n)" by auto
  note n = slot_alloc_Some [OF a Suc.prems(1)]
  have "\<not> j < n" using n(3) Suc.prems(2) by blast
  then have "n = j" using n(2) Suc.prems(2) by simp
  then have "length sl1 = 128" "used sl1 = {..<Suc j}" using n(4,5) Suc.prems(2) by (simp_all add: lessThan_Suc)
  then obtain sl' where "alloc_many slot_alloc k sl1 = Some (sl', [Suc j..<Suc j + k])" "length sl' = 128" "used sl' = {..<Suc j + k}"
    using Suc.IH [of sl1 "Suc j"] Suc.prems(3) by auto
  then show ?case using a \<open>n = j\<close> by (auto simp: upt_conv_Cons)
qed simp

text \<open>Property C25. The bitmap hands out all 1024 slots, in order: from an empty bitmap any number \<open>k\<close> up to
  1024 of successive allocations succeeds with the slots \<open>0, ..., k - 1\<close> one after the other, which are then the slots in
  use; and the allocation after that fails exactly when all 1024 have been handed out.\<close>

theorem swap_slots_exhaust:
  assumes "length sl = 128" "used sl = {}" "k \<le> 1024"
  shows "\<exists>sl'. alloc_many slot_alloc k sl = Some (sl', [0..<k]) \<and> used sl' = {..<k} \<and> (slot_alloc sl' = None \<longleftrightarrow> k = 1024)"
proof -
  obtain sl' where a: "alloc_many slot_alloc k sl = Some (sl', [0..<k])" "length sl' = 128" "used sl' = {..<k}"
    using alloc_in_order [OF assms(1), of 0 k] assms(2,3) by auto
  have "slot_alloc sl' = None \<longleftrightarrow> k = 1024" using bitmap.full_iff [OF a(2)] unfolding a(3) card_lessThan .
  with a(1,3) show ?thesis by (intro exI [of _ sl'] conjI)
qed

theorem swap_slot_alloc_correct_witness:
  "\<exists>n sl'. swap_slot_alloc 0 (boot_state 0 0 0) =
      Ok (int n) (upd_proc 0 (\<lambda>q. q\<lparr>p_swap_slots := sl'\<rparr>) (boot_state 0 0 0)) \<and> used sl' = insert n {}"
proof -
  have "used (p_swap_slots (procs (boot_state 0 0 0) 0)) = {}"
    by (auto simp: used_def boot_state_def boot_proc_def div_less_iff_less_mult)
  moreover have "(0 :: nat) \<in> {..<1024}" by simp
  ultimately have "used (p_swap_slots (procs (boot_state 0 0 0) 0)) \<noteq> {..<1024}" by blast
  then show ?thesis
    using swap_slot_alloc_correct [of "boot_state 0 0 0" 0] \<open>used _ = {}\<close>
    by (auto simp: boot_state_def boot_proc_def)
qed

theorem swap_slots_exhaust_witness:
  "\<exists>sl'. alloc_many slot_alloc 1024 (replicate 128 0) = Some (sl', [0..<1024]) \<and> slot_alloc sl' = None"
proof -
  have "used (replicate 128 0) = {}" by (auto simp: used_def div_less_iff_less_mult)
  from swap_slots_exhaust [OF length_replicate this order_refl]
  show ?thesis by (elim exE conjE) (intro exI conjI, assumption, erule iffD2, rule refl)
qed

end
