(* ===== verification/Xv6_Evict.thy ===== *)
theory Xv6_Evict
  imports Xv6_Pagetable Xv6_Swap "HOL-Library.Signed_Division"
begin

text \<open>
  Page replacement: \<open>do_page_replacement\<close> of kernel/proc.c and \<open>kalloc\<close> of kernel/kalloc.c, which
  calls it when the free list is empty.
\<close>

section \<open>Evicting a page\<close>

text \<open>The fields of a \<open>resident_page\<close> node: \<open>next\<close>, \<open>va\<close> and \<open>fifo_seq_num\<close> by offset.\<close>

definition rp_next :: "u64 \<Rightarrow> u64" where "rp_next n = n"
definition rp_va :: "u64 \<Rightarrow> u64" where "rp_va n = n + 8"
definition rp_seq :: "u64 \<Rightarrow> u64" where "rp_seq n = n + 16"

text \<open>The name of the swap file: \<open>/pgswp\<close> and the last five decimal digits of the pid.\<close>

definition digit :: "int \<Rightarrow> u8" where
  "digit n = 48 + word_of_int (n smod 10)"

definition swapname :: "c_int \<Rightarrow> u8 list" where
  "swapname pid =
     (let p0 = sint pid; p1 = p0 sdiv 10; p2 = p1 sdiv 10; p3 = p2 sdiv 10; p4 = p3 sdiv 10
      in [47, 112, 103, 115, 119, 112, digit p4, digit p3, digit p2, digit p1, digit p0])"

definition open_swap :: "nat \<Rightarrow> unit kop" where
  "open_swap p =
     bnd (gets (\<lambda>s. procs s p)) (\<lambda>q.
     if p_swap_inode q \<noteq> None then skip else
     seq begin_op (
     bnd (namei (swapname (p_pid q))) (\<lambda>r.
     bnd (case r of
            None \<Rightarrow>
              bnd (create (swapname (p_pid q)) T_FILE 0 0) (\<lambda>sip.
              case sip of
                None \<Rightarrow> ret None
              | Some ip \<Rightarrow> seq (iunlock ip) (ret (Some ip)))
          | Some ip \<Rightarrow>
              seq (ilock ip) (
              seq (iunlock ip) (
              ret (Some ip)))) (\<lambda>sip.
     seq end_op (
     modify (upd_proc p (\<lambda>q. q\<lparr>p_swap_inode := sip\<rparr>)))))))"

text \<open>Step 5 of \<open>do_page_replacement\<close>: the page of a cleared entry goes back to the allocator.\<close>

definition drop_page :: "u64 \<Rightarrow> u64 \<Rightarrow> unit kop" where
  "drop_page pte e = seq (store64 pte 0) (kfree (PTE2PA e))"

text \<open>Its case 2b: the page is written to the swap file at the slot.\<close>

definition swap_out :: "nat \<Rightarrow> u64 \<Rightarrow> c_int \<Rightarrow> u64 \<Rightarrow> u64 \<Rightarrow> int \<Rightarrow> unit kop" where
  "swap_out p va sq pte e slot =
     bnd (gets (\<lambda>s. p_pid (procs s p))) (\<lambda>pid.
     seq (printk (EVICT pid va True)) (
     seq (printk (SWAPOUT pid va (nat slot))) (
     seq (open_swap p) (
     bnd (gets (\<lambda>s. p_swap_inode (procs s p))) (\<lambda>sip.
     case sip of
       Some ip \<Rightarrow>
         seq (ilock ip) (
         bnd (writei (from_kernel (PTE2PA e)) ip (word_of_int slot * 4096) 4096) (\<lambda>n.
         seq (iunlock ip) (
         if n \<noteq> 4096 then
           seq (printk (DISCARD pid va)) (
           seq (swap_slot_free p slot) (
           drop_page pte e))
         else
           seq (store64 pte (SLOT_PTE (word_of_int slot)
             OR (e AND (PTE_R OR PTE_W OR PTE_X OR PTE_U)) OR PTE_S)) (
           kfree (PTE2PA e)))))
     | None \<Rightarrow>
         seq (printk (EVICT_NOSWAP sq)) (
         seq (swap_slot_free p slot) (
         drop_page pte e)))))))"

definition evict_page :: "nat \<Rightarrow> u64 \<Rightarrow> c_int \<Rightarrow> u64 \<Rightarrow> u64 \<Rightarrow> unit kop" where
  "evict_page p va sq pte e =
     bnd (gets (\<lambda>s. procs s p)) (\<lambda>q.
     if e AND PTE_D = 0 \<and> va < p_exe_end q then
       seq (printk (EVICT (p_pid q) va False)) (
       seq (printk (DISCARD (p_pid q) va)) (
       drop_page pte e))
     else
       bnd (swap_slot_alloc p) (\<lambda>slot.
       if slot = -1 then
         seq (printk (EVICT (p_pid q) va True)) (
         seq (printk (SWAPFULL (p_pid q))) (
         seq (printk (KILL_SWAP (p_pid q))) (
         seq (modify (upd_proc p (\<lambda>q. q\<lparr>p_killed := True\<rparr>))) (
         drop_page pte e))))
       else swap_out p va sq pte e slot))"

definition do_page_replacement :: "nat \<Rightarrow> int kop" where
  "do_page_replacement p =
     seq (acquire (ProcLk p)) (
     bnd (gets (\<lambda>s. p_resident_set_head (procs s p))) (\<lambda>victim.
     if victim = 0 then seq (release (ProcLk p)) (ret 0) else
     bnd (load64 (rp_next victim)) (\<lambda>nxt.
     seq (modify (upd_proc p (\<lambda>q. q\<lparr>p_resident_set_head := nxt\<rparr>))) (
     seq (if nxt = 0 then modify (upd_proc p (\<lambda>q. q\<lparr>p_resident_set_tail := 0\<rparr>)) else skip) (
     seq (release (ProcLk p)) (
     bnd (gets (\<lambda>s. procs s p)) (\<lambda>q.
     bnd (load64 (rp_va victim)) (\<lambda>va.
     bnd (load32 (rp_seq victim)) (\<lambda>sq.
     seq (printk (VICTIM (p_pid q) va sq)) (
     bnd (walk0 (p_pagetable q) va) (\<lambda>pte.
     if pte = 0 then panic ''do_page_replacement: pte not found'' else
     bnd (load64 pte) (\<lambda>e.
     if e AND PTE_V = 0 then panic ''do_page_replacement: page not valid'' else
     seq (evict_page p va sq pte e) (
     seq (kfree victim) (
     ret 1))))))))))))))"

section \<open>Allocating a page\<close>

definition kalloc :: "u64 kop" where
  "kalloc =
     seq (acquire KmemLk) (
     bnd (gets freelist) (\<lambda>r.
     seq (release KmemLk) (
     if r \<noteq> 0 then
       seq (acquire KmemLk) (
       seq (modify (\<lambda>s. s\<lparr>freelist := read64 (mem s) r\<rparr>)) (
       seq (release KmemLk) (
       seq (fill_page r 5) (
       ret r))))
     else
       bnd myproc (\<lambda>p.
       bnd (gets (\<lambda>s. map_option (\<lambda>i. p_pid (procs s i)) p)) (\<lambda>pid.
       seq (printk (MEMFULL pid)) (
       bnd (case p of None \<Rightarrow> ret 1 | Some i \<Rightarrow> do_page_replacement i) (\<lambda>ok.
       if ok = 0 then ret 0 else
       seq (acquire KmemLk) (
       bnd (gets freelist) (\<lambda>r.
       seq (if r \<noteq> 0 then modify (\<lambda>s. s\<lparr>freelist := read64 (mem s) r\<rparr>) else skip) (
       seq (release KmemLk) (
       seq (if r \<noteq> 0 then fill_page r 5 else skip) (
       ret r))))))))))))"

section \<open>The fast path of kalloc\<close>

definition allocated :: "u64 \<Rightarrow> kstate \<Rightarrow> kstate" where
  "allocated r s = s\<lparr>freelist := read64 (mem s) r, mem := store_bytes (mem s) r (replicate 4096 5)\<rparr>"

lemma kalloc_run:
  assumes "free_pages s (r # ps)" "KmemLk \<notin> set (held s)"
  shows "kalloc s = Ok r (allocated r s)"
proof -
  have r: "freelist s = r" "r \<noteq> 0" using assms(1) by (auto simp: free_pages_def)
  have a: "s\<lparr>freelist := f, held := held s, mem := m\<rparr> = s\<lparr>freelist := f, mem := m\<rparr>" for f m by simp
  show ?thesis using r assms(2) by (simp add: kalloc_def allocated_def a)
qed

lemma free_pages_allocated:
  assumes "free_pages s (r # ps)"
  shows "free_pages (allocated r s) ps" "same_except {r} (mem s) (mem (allocated r s))"
    "ram_page (sym_end s) r" "r \<notin> set ps"
proof -
  show r: "ram_page (sym_end s) r" "r \<notin> set ps" using assms by (auto simp: free_pages_def)
  show f: "same_except {r} (mem s) (mem (allocated r s))"
    using r by (simp add: allocated_def same_except_store_page ram_page_def)
  have "chain (mem (allocated r s)) (read64 (mem s) r) ps"
    using assms r by (intro chain_frame [OF _ f]) (auto simp: free_pages_def)
  then show "free_pages (allocated r s) ps"
    using assms by (auto simp: free_pages_def allocated_def)
qed

section \<open>The resident set\<close>

text \<open>
  The FIFO list of a process: \<open>rchain m p xs\<close> says that the nodes linked from \<open>p\<close> are \<open>xs\<close>, each with
  its address, the page it tracks and that page's sequence number.
\<close>

fun rchain :: "memory \<Rightarrow> u64 \<Rightarrow> (u64 \<times> u64 \<times> c_int) list \<Rightarrow> bool" where
  "rchain m p [] \<longleftrightarrow> p = 0"
| "rchain m p ((n, va, sq) # xs) \<longleftrightarrow> p = n \<and> n \<noteq> 0 \<and> page_aligned n \<and>
     read64 m (rp_va n) = va \<and> read32 m (rp_seq n) = sq \<and> rchain m (read64 m (rp_next n)) xs"

definition nodes :: "(u64 \<times> u64 \<times> c_int) list \<Rightarrow> u64 list" where
  "nodes xs = map fst xs"

definition tail_of :: "(u64 \<times> u64 \<times> c_int) list \<Rightarrow> u64" where
  "tail_of xs = (if xs = [] then 0 else fst (last xs))"

definition resident :: "kstate \<Rightarrow> nat \<Rightarrow> (u64 \<times> u64 \<times> c_int) list \<Rightarrow> bool" where
  "resident s p xs \<longleftrightarrow> rchain (mem s) (p_resident_set_head (procs s p)) xs \<and>
     p_resident_set_tail (procs s p) = tail_of xs \<and> distinct (nodes xs)"

lemma nodes_simps [simp]: "nodes [] = []" "nodes (x # xs) = fst x # nodes xs" "nodes (xs @ ys) = nodes xs @ nodes ys"
  by (simp_all add: nodes_def)

lemma node_fields [simp]:
  "page_aligned n \<Longrightarrow> aligned8 (rp_va n)" "page_aligned n \<Longrightarrow> aligned8 (rp_seq n)" "page_aligned n \<Longrightarrow> aligned8 (rp_next n)"
  "page_aligned n \<Longrightarrow> PGROUNDDOWN (rp_va n) = n" "page_aligned n \<Longrightarrow> PGROUNDDOWN (rp_seq n) = n"
  "page_aligned n \<Longrightarrow> PGROUNDDOWN (rp_next n) = n"
  by (simp_all add: rp_va_def rp_seq_def rp_next_def)

lemma rchain_nodes: "rchain m p xs \<Longrightarrow> x \<in> set xs \<Longrightarrow> page_aligned (fst x) \<and> fst x \<noteq> 0"
  by (induction m p xs rule: rchain.induct) auto

lemma rchain_frame:
  "rchain m p xs \<Longrightarrow> same_except P m m' \<Longrightarrow> set (nodes xs) \<inter> P = {} \<Longrightarrow> rchain m' p xs"
  by (induction m p xs rule: rchain.induct) (auto simp: read64_same_except read32_same_except)

lemma rchain_unique: "rchain m p xs \<Longrightarrow> rchain m p ys \<Longrightarrow> xs = ys"
proof (induction m p xs arbitrary: ys rule: rchain.induct)
  case (1 m p) then show ?case by (cases "(m, p, ys)" rule: rchain.cases) auto
next
  case (2 m p n va sq xs) then show ?case by (cases "(m, p, ys)" rule: rchain.cases) auto
qed

section \<open>The invariant of a process's memory\<close>

text \<open>
  \<open>vm_inv s p xs ps\<close>: the free list is \<open>ps\<close>, the FIFO list of process \<open>p\<close> is \<open>xs\<close>, its page table
  is well formed and maps every page of the list to a frame; free pages, tracking nodes, frames and
  table pages are all different pages.
\<close>

definition frame_of :: "kstate \<Rightarrow> nat \<Rightarrow> u64 \<Rightarrow> u64" where
  "frame_of s p va = PTE2PA (pte_of (mem s) (p_pagetable (procs s p)) va)"

definition frames :: "kstate \<Rightarrow> nat \<Rightarrow> (u64 \<times> u64 \<times> c_int) list \<Rightarrow> u64 list" where
  "frames s p xs = map (\<lambda>(n, va, sq). frame_of s p va) xs"

definition vm_inv :: "kstate \<Rightarrow> nat \<Rightarrow> (u64 \<times> u64 \<times> c_int) list \<Rightarrow> u64 list \<Rightarrow> bool" where
  "vm_inv s p xs ps \<longleftrightarrow> free_pages s ps \<and> resident s p xs \<and>
     pt_wf (mem s) (p_pagetable (procs s p)) \<and>
     (\<forall>(n, va, sq) \<in> set xs. ram_page (sym_end s) n \<and> page_aligned va \<and> va < MAXVA \<and>
        pte_valid (pte_of (mem s) (p_pagetable (procs s p)) va) \<and> ram_page (sym_end s) (frame_of s p va)) \<and>
     distinct (ps @ nodes xs @ frames s p xs) \<and>
     set (ps @ nodes xs @ frames s p xs) \<inter> tables (mem s) (p_pagetable (procs s p)) = {}"

section \<open>What eviction does to memory\<close>

text \<open>The observation that \<open>open_swap\<close> and the slot bitmap leave alone.\<close>

definition proc_vm :: "proc \<Rightarrow> proc" where
  "proc_vm q = q\<lparr>p_state := UNUSED, p_chan := None, p_swap_inode := None, p_swap_slots := [], p_killed := False\<rparr>"

definition pg_view :: "kstate \<Rightarrow> memory \<times> u64 \<times> u64 \<times> (nat \<Rightarrow> proc)" where
  "pg_view s = (mem s, freelist s, sym_end s, \<lambda>p. proc_vm (procs s p))"

interpretation pgv: trans_frame pg_view
  by unfold_locales (auto simp: pg_view_def upd_proc_def proc_vm_def)

lemma keeps_open_swap [keeps_rules]: "keeps pg_view (open_swap p)"
  unfolding open_swap_def
  by (intro keeps_rules keeps_modify) (auto simp: pg_view_def upd_proc_def proc_vm_def)

lemma keeps_swap_slot_alloc [keeps_rules]: "keeps pg_view (swap_slot_alloc p)"
  unfolding swap_slot_alloc_def
  by (intro keeps_rules keeps_modify) (auto simp: pg_view_def upd_proc_def proc_vm_def)

lemma keeps_swap_slot_free [keeps_rules]: "keeps pg_view (swap_slot_free p n)"
  unfolding swap_slot_free_def
  by (intro keeps_rules keeps_modify) (auto simp: pg_view_def upd_proc_def proc_vm_def)

lemma proc_vm_fields:
  "proc_vm q = proc_vm r \<Longrightarrow> p_resident_set_head q = p_resident_set_head r \<and>
   p_resident_set_tail q = p_resident_set_tail r \<and> p_pagetable q = p_pagetable r \<and> p_pid q = p_pid r \<and>
   p_sz q = p_sz r \<and> p_exe_end q = p_exe_end r \<and> p_trapframe q = p_trapframe r \<and>
   p_fifo_seq_num q = p_fifo_seq_num r"
  by (cases q; cases r) (simp add: proc_vm_def)

lemma vm_inv_cong:
  assumes "pg_view s = pg_view t" shows "vm_inv s p xs ps = vm_inv t p xs ps"
proof -
  have m: "mem t = mem s" "freelist t = freelist s" "sym_end t = sym_end s" "proc_vm (procs s p) = proc_vm (procs t p)"
    using assms by (auto simp: pg_view_def dest: fun_cong [where x = p])
  note f = proc_vm_fields [OF m(4)]
  have "frame_of t p = frame_of s p" by (rule ext) (simp add: frame_of_def m f)
  then show ?thesis using m f by (simp add: vm_inv_def free_pages_def resident_def frames_def)
qed

text \<open>The state after the entry at \<open>pte\<close> becomes \<open>v\<close> and the page \<open>fr\<close> is freed.\<close>

definition replaced :: "u64 \<Rightarrow> u64 \<Rightarrow> u64 \<Rightarrow> kstate \<Rightarrow> kstate" where
  "replaced pte v fr s = freed fr (s\<lparr>mem := write64 (mem s) pte v\<rparr>)"

lemma pg_view_replaced: "pg_view u = pg_view s \<Longrightarrow> pg_view (replaced pte v fr u) = pg_view (replaced pte v fr s)"
  by (simp add: pg_view_def replaced_def freed_def)

lemma swapped_not_valid: "\<not> pte_valid (SLOT_PTE n OR (e AND (PTE_R OR PTE_W OR PTE_X OR PTE_U)) OR PTE_S)"
proof -
  let ?f = "(e AND (PTE_R OR PTE_W OR PTE_X OR PTE_U)) OR PTE_S"
  have "(SLOT_PTE n OR ?f) AND PTE_V = ?f AND PTE_V"
    by (rule SLOT_PTE_flags) (simp add: PTE_V_def)
  also have "\<dots> = 0"
    by (rule bit_word_eqI) (auto simp: bit_simps PTE_V_def PTE_R_def PTE_W_def PTE_X_def PTE_U_def PTE_S_def)
  finally show ?thesis by (simp add: pte_valid_def or.assoc)
qed

text \<open>Whatever branch is taken, a page that is evicted loses its valid bit and its frame is freed.\<close>

definition evicted_to :: "u64 set \<Rightarrow> u64 \<Rightarrow> u64 \<Rightarrow> kstate \<Rightarrow> kstate \<Rightarrow> bool" where
  "evicted_to V pte fr s t \<longleftrightarrow> (\<exists>v \<in> V. pg_view t = pg_view (replaced pte v fr s)) \<and>
     page_aligned fr \<and> sym_end s \<le> fr \<and> fr < PHYSTOP"

lemma replace_ensures:
  assumes "v \<in> V"
  shows "ensures (\<lambda>u. pg_view u = pg_view s) (seq (store64 pte v) (kfree fr)) (\<lambda>_ t. evicted_to V pte fr s t)"
proof (rule ensuresI)
  fix u x t assume a: "pg_view u = pg_view s" and "seq (store64 pte v) (kfree fr) u = Ok x t"
  then have k: "kfree fr (u\<lparr>mem := write64 (mem u) pte v\<rparr>) = Ok x t" by simp
  have "sym_end u = sym_end s" using a by (simp add: pg_view_def)
  then have "page_aligned fr" "sym_end s \<le> fr" "fr < PHYSTOP" using kfree_OkD [OF k] by simp_all
  moreover have "pg_view t = pg_view (replaced pte v fr s)"
    using kfree_OkD(1) [OF k] pg_view_replaced [OF a] by (simp add: replaced_def)
  ultimately show "evicted_to V pte fr s t" using assms by (auto simp: evicted_to_def)
qed

lemma drop_page_ensures:
  "0 \<in> V \<Longrightarrow> ensures (\<lambda>u. pg_view u = pg_view s) (drop_page pte e) (\<lambda>_ t. evicted_to V pte (PTE2PA e) s t)"
  unfolding drop_page_def by (rule replace_ensures)

definition invalid_ptes :: "u64 set" where
  "invalid_ptes = {v. \<not> pte_valid v}"

lemma invalid_ptes_0 [simp]: "0 \<in> invalid_ptes"
  by (simp add: invalid_ptes_def pte_valid_def)

lemma swap_out_ensures:
  "ensures (\<lambda>u. pg_view u = pg_view s) (swap_out p va sq pte e slot)
     (\<lambda>_ t. evicted_to invalid_ptes pte (PTE2PA e) s t)"
  unfolding swap_out_def
  by (intro ensures_rules keeps_rules drop_page_ensures replace_ensures invalid_ptes_0)
     (simp add: invalid_ptes_def swapped_not_valid)

lemma keeps_killed [keeps_rules]: "keeps pg_view (modify (upd_proc p (\<lambda>q. q\<lparr>p_killed := b\<rparr>)))"
  by (rule keeps_modify) (auto simp: pg_view_def upd_proc_def proc_vm_def)

lemma evict_page_ensures:
  "ensures (\<lambda>u. pg_view u = pg_view s) (evict_page p va sq pte e)
     (\<lambda>_ t. evicted_to invalid_ptes pte (PTE2PA e) s t)"
  unfolding evict_page_def
  by (intro ensures_rules keeps_rules drop_page_ensures swap_out_ensures invalid_ptes_0)

text \<open>
  Outside a transaction the write to the swap file never gets through: \<open>writei\<close> ends in
  \<open>log_write\<close>, which panics, unless it gives up before with -1.
\<close>

lemma keeps_pair: "keeps f m \<Longrightarrow> keeps g m \<Longrightarrow> keeps (\<lambda>s. (f s, g s)) m"
  by (auto simp: keeps_def)

definition pgo_view :: "kstate \<Rightarrow> (memory \<times> u64 \<times> u64 \<times> (nat \<Rightarrow> proc)) \<times> int" where
  "pgo_view s = (pg_view s, outstanding s)"

interpretation pgo: fs_frame pgo_view
  by unfold_locales (auto simp: pgo_view_def pg_view_def outstanding_def upd_proc_def proc_vm_def)

lemma keeps_pgo: "keeps pg_view m \<Longrightarrow> keeps outstanding m \<Longrightarrow> keeps pgo_view m"
  unfolding pgo_view_def by (rule keeps_pair)

lemma log_write_outside:
  "c < 1 \<Longrightarrow> ensures (\<lambda>u. outstanding u = c) (log_write b) (\<lambda>_ _. False)"
proof (rule ensuresI)
  fix s x t assume c: "c < 1" "outstanding s = c" and r: "log_write b s = Ok x t"
  have "LogLk \<notin> set (held s)" using r by (auto simp: log_write_def)
  then show False using c r by (simp add: log_write_def outstanding_def split: if_splits)
qed

lemma ensures_never: "ensures P m (\<lambda>_ _. False) \<Longrightarrow> ensures P (seq m n) Q"
  by (rule ensures_seq) (auto simp: ensures_def)

lemma iupdate_outside: "c < 1 \<Longrightarrow> ensures (\<lambda>u. outstanding u = c) (iupdate ip) (\<lambda>_ _. False)"
  unfolding iupdate_def
  by (intro ensures_never [OF log_write_outside] ensures_rules keeps_rules)

lemma writei_outside:
  assumes "c < 1" "\<And>t m. keeps outstanding (src t m)"
  shows "ensures (\<lambda>u. outstanding u = c) (writei src ip off n) (\<lambda>r _. r = -1)"
  unfolding writei_def
  by (intro ensures_never [OF iupdate_outside] ensures_rules keeps_rules keeps_modify out.keeps_writei_loop assms)
     (auto simp: ensures_def out.f_modify)

lemma begin_op_ensures: "ensures (\<lambda>s. outstanding s = c) begin_op (\<lambda>_ s. outstanding s = c + 1)"
  by (auto simp: ensures_def dest: begin_op_outstanding)

lemma end_op_ensures: "ensures (\<lambda>s. outstanding s = c + 1) end_op (\<lambda>_ s. outstanding s = c)"
  by (auto simp: ensures_def dest: end_op_outstanding)

lemma keeps_open_swap_outstanding [keeps_rules]: "keeps outstanding (open_swap p)"
proof -
  have "ensures (\<lambda>s. outstanding s = c) (open_swap p) (\<lambda>_ s. outstanding s = c)" for c
    unfolding open_swap_def
    by (intro ensures_seq [OF begin_op_ensures] ensures_seq [OF end_op_ensures] ensures_rules keeps_rules)
       (auto simp: ensures_def outstanding_def upd_proc_def)
  from ensuresD [OF this] show ?thesis unfolding keeps_def by blast
qed

lemma keeps_slot_outstanding [keeps_rules]:
  "keeps outstanding (swap_slot_alloc p)" "keeps outstanding (swap_slot_free p n)"
  "keeps outstanding (modify (upd_proc p g))"
  unfolding swap_slot_alloc_def swap_slot_free_def
  by (intro keeps_rules keeps_modify; simp add: outstanding_def upd_proc_def)+

lemma drop_page_pgo:
  "0 \<in> V \<Longrightarrow> ensures (\<lambda>u. pgo_view u = pgo_view s) (drop_page pte e) (\<lambda>_ t. evicted_to V pte (PTE2PA e) s t)"
  by (rule ensures_weaken [OF drop_page_ensures]) (auto simp: pgo_view_def)

lemma writei_outside_pgo:
  assumes "c < 1"
  shows "ensures (\<lambda>u. pgo_view u = (v, c)) (writei (from_kernel a) ip off n) (\<lambda>r u. pgo_view u = (v, c) \<and> r = -1)"
proof (rule ensuresI)
  fix s x t assume a: "pgo_view s = (v, c)" and r: "writei (from_kernel a) ip off n s = Ok x t"
  have "outstanding s = c" using a by (simp add: pgo_view_def)
  then have "x = -1"
    using ensuresD [OF writei_outside [OF assms out.keeps_from_kernel] _ r] by blast
  moreover have "pgo_view t = pgo_view s"
    using r by (rule keepsD [OF pgo.keeps_writei [OF pgo.keeps_from_kernel]])
  ultimately show "pgo_view t = (v, c) \<and> x = -1" using a by simp
qed

lemma swap_out_outside:
  assumes "outstanding s < 1"
  shows "ensures (\<lambda>u. pgo_view u = pgo_view s) (swap_out p va sq pte e slot)
    (\<lambda>_ t. evicted_to {0} pte (PTE2PA e) s t)"
proof -
  have w: "ensures (\<lambda>u. pgo_view u = pgo_view s) (bnd (writei (from_kernel a) ip off n) m) Q"
    if "ensures (\<lambda>u. pgo_view u = pgo_view s) (m (-1)) Q" for a ip off n m Q
    using that unfolding pgo_view_def [of s]
    by (intro ensures_bnd [OF writei_outside_pgo [OF assms]]) (auto simp: ensures_def)
  show ?thesis
    unfolding swap_out_def
    by (intro w ensures_rules keeps_rules keeps_pgo drop_page_pgo) simp_all
qed

lemma evict_page_outside:
  assumes "outstanding s < 1"
  shows "ensures (\<lambda>u. pgo_view u = pgo_view s) (evict_page p va sq pte e)
    (\<lambda>_ t. evicted_to {0} pte (PTE2PA e) s t)"
  unfolding evict_page_def
  by (intro ensures_rules keeps_rules keeps_pgo drop_page_pgo swap_out_outside assms) simp_all

section \<open>Eviction keeps the invariant\<close>

lemma vm_inv_head:
  assumes "vm_inv s p ((n, va, sq) # xs) ps"
  shows "p_resident_set_head (procs s p) = n" "n \<noteq> 0" "page_aligned n" "read64 (mem s) (rp_va n) = va"
    "read32 (mem s) (rp_seq n) = sq" "rchain (mem s) (read64 (mem s) (rp_next n)) xs"
    "ram_page (sym_end s) n" "page_aligned va" "va < MAXVA" "ram_page (sym_end s) (frame_of s p va)"
    "pte_valid (pte_of (mem s) (p_pagetable (procs s p)) va)" "pt_wf (mem s) (p_pagetable (procs s p))"
    "p_resident_set_tail (procs s p) = tail_of ((n, va, sq) # xs)"
  using assms by (auto simp: vm_inv_def resident_def)

lemma pte_valid_leaf: "pte_valid (pte_of m root va) \<Longrightarrow> \<exists>a. leaf m root va = Some a \<and> read64 m a = pte_of m root va"
  by (auto simp: pte_of_def pte_valid_def split: option.splits)

lemma vm_inv_evict:
  fixes s p
  defines "root \<equiv> p_pagetable (procs s p)"
  assumes inv: "vm_inv s p ((n, va, sq) # xs) ps" and lf: "leaf (mem s) root va = Some a"
    and t: "mem t = mem (freed n (replaced a v (frame_of s p va) s))" "freelist t = n" "sym_end t = sym_end s"
      "p_pagetable (procs t p) = root" "p_resident_set_head (procs t p) = read64 (mem s) (rp_next n)"
      "p_resident_set_tail (procs t p) = tail_of xs"
  shows "vm_inv t p xs (n # frame_of s p va # ps)" "pte_of (mem t) root va = v"
    "\<And>va'. va' < MAXVA \<Longrightarrow> PGROUNDDOWN va' \<noteq> va \<Longrightarrow> pte_of (mem t) root va' = pte_of (mem s) root va'"
    "tables (mem t) root = tables (mem s) root"
proof -
  let ?fr = "frame_of s p va" let ?T = "tables (mem s) root"
  let ?m1 = "write64 (mem s) a v" let ?s1 = "s\<lparr>mem := ?m1\<rparr>"
  let ?s2 = "freed ?fr ?s1" let ?s3 = "freed n ?s2"
  note h = vm_inv_head [OF inv, folded root_def]
  have fr: "page_aligned ?fr" using h(10) by (simp add: ram_page_def)
  have dist: "distinct (ps @ (n # nodes xs) @ ?fr # frames s p xs)"
    and disj: "set (ps @ (n # nodes xs) @ ?fr # frames s p xs) \<inter> ?T = {}"
    and fp: "free_pages s ps"
    using inv by (auto simp: vm_inv_def frames_def root_def)
  have al: "page_aligned root" using h(12) by (simp add: pt_wf_def)
  have aT: "PGROUNDDOWN a \<in> ?T" using lf by (rule leaf_in_tables)
  have f1: "same_except {PGROUNDDOWN a} (mem s) ?m1" using lf by (intro same_except_write64 leaf_aligned)
  have f2: "same_except {?fr} ?m1 (mem ?s2)" using same_except_freed [OF fr, of ?s1] by simp
  have f3: "same_except {n} (mem ?s2) (mem ?s3)" using h(3) by (rule same_except_freed)
  have tm: "mem t = mem ?s3" using t(1) by (simp add: replaced_def)
  have T1: "tables ?m1 root = ?T" and wf1: "pt_wf ?m1 root"
    using write_leaf [OF h(12) lf] by auto
  have nT: "?T \<inter> {?fr} = {}" "?T \<inter> {n} = {}" using disj by auto
  note p2 = pt_frame [OF al f2, unfolded T1, OF nT(1)]
  note p3 = pt_frame [OF al f3, unfolded p2(2), OF nT(2)]
  show TT: "tables (mem t) root = ?T" using p3 p2 T1 by (simp add: tm)
  have wf: "pt_wf (mem t) root" using p3 p2 wf1 by (simp add: tm)
  have pte: "pte_of (mem t) root va' = (if PGROUNDDOWN va' = va then v else pte_of (mem s) root va')"
    if "va' < MAXVA" for va'
    using p3(4) p2(4) pte_of_write_leaf [OF h(12) lf h(9) that, of v] h(8) by (simp add: tm)
  show "pte_of (mem t) root va = v" using pte [OF h(9)] h(8) by simp
  show "\<And>va'. va' < MAXVA \<Longrightarrow> PGROUNDDOWN va' \<noteq> va \<Longrightarrow> pte_of (mem t) root va' = pte_of (mem s) root va'"
    using pte by simp
  have all: "same_except ({PGROUNDDOWN a} \<union> {?fr} \<union> {n}) (mem s) (mem t)"
    unfolding tm by (rule same_except_trans [OF same_except_trans [OF f1 f2] f3])
  have "set (nodes xs) \<inter> ({PGROUNDDOWN a} \<union> {?fr} \<union> {n}) = {}"
    using dist disj aT by auto
  then have rc: "rchain (mem t) (read64 (mem s) (rp_next n)) xs"
    by (rule rchain_frame [OF h(6) all])
  have fp1: "free_pages ?s1 ps"
    by (rule free_pages_frame [OF fp, where t = ?s1 and P = "{PGROUNDDOWN a}"])
       (use f1 disj aT in auto)
  have fp2: "free_pages ?s2 (?fr # ps)"
    by (rule free_pages_freed [OF fp1]) (use h dist in auto)
  have "free_pages ?s3 (n # ?fr # ps)"
    by (rule free_pages_freed [OF fp2]) (use h dist in \<open>auto simp: freed_def\<close>)
  then have fp3: "free_pages t (n # ?fr # ps)"
    by (rule free_pages_frame [where P = "{}"]) (use t tm in \<open>auto simp: freed_def\<close>)
  have others: "va' \<noteq> va \<and> pte_of (mem t) root va' = pte_of (mem s) root va' \<and> va' < MAXVA \<and> page_aligned va'"
    if "(n', va', sq') \<in> set xs" for n' va' sq'
  proof -
    have "va' < MAXVA" "page_aligned va'" using inv that by (auto simp: vm_inv_def)
    moreover have "frame_of s p va' \<noteq> ?fr" using dist that by (force simp: frames_def)
    then have "va' \<noteq> va" by auto
    ultimately show ?thesis using pte [of va'] by simp
  qed
  have frs: "frames t p xs = frames s p xs"
    unfolding frames_def by (rule map_cong) (use others t(4) in \<open>auto simp: frame_of_def root_def\<close>)
  have each: "\<forall>(n', va', sq') \<in> set xs. ram_page (sym_end t) n' \<and> page_aligned va' \<and> va' < MAXVA \<and>
      pte_valid (pte_of (mem t) root va') \<and> ram_page (sym_end t) (frame_of t p va')"
    using inv others t(3,4) by (fastforce simp: vm_inv_def frame_of_def root_def)
  show "vm_inv t p xs (n # ?fr # ps)"
    unfolding vm_inv_def resident_def t(4)
    using fp3 rc t(5,6) wf each dist disj by (auto simp: frs TT)
qed

section \<open>Page replacement is FIFO\<close>

text \<open>The state once the oldest node is unlinked.\<close>

definition unlinked :: "nat \<Rightarrow> u64 \<Rightarrow> kstate \<Rightarrow> kstate" where
  "unlinked p nxt s = upd_proc p (\<lambda>q. q\<lparr>p_resident_set_head := nxt,
     p_resident_set_tail := if nxt = 0 then 0 else p_resident_set_tail q\<rparr>) s"

lemma do_page_replacement_empty:
  "p_resident_set_head (procs s p) = 0 \<Longrightarrow> ProcLk p \<notin> set (held s) \<Longrightarrow> do_page_replacement p s = Ok 0 s"
  by (simp add: do_page_replacement_def)

lemma do_page_replacement_step:
  assumes inv: "vm_inv s p ((n, va, sq) # xs) ps" and lk: "ProcLk p \<notin> set (held s)"
    and lf: "leaf (mem s) (p_pagetable (procs s p)) va = Some a"
  defines "u \<equiv> (unlinked p (read64 (mem s) (rp_next n)) s)\<lparr>klog := klog s @ [VICTIM (p_pid (procs s p)) va sq]\<rparr>"
  shows "do_page_replacement p s =
    seq (evict_page p va sq a (pte_of (mem s) (p_pagetable (procs s p)) va)) (seq (kfree n) (ret 1)) u"
proof -
  note h = vm_inv_head [OF inv]
  have e: "read64 (mem s) a = pte_of (mem s) (p_pagetable (procs s p)) va" using lf by (simp add: pte_of_def)
  have a0: "a \<noteq> 0" using leaf_nonzero [OF h(12) lf] .
  have tl: "q\<lparr>p_resident_set_head := x, p_resident_set_tail := p_resident_set_tail q\<rparr> =
      q\<lparr>p_resident_set_head := x\<rparr>" for q :: proc and x
    by (rule proc.equality) simp_all
  show ?thesis
    using h(1-12) lk a0 e lf unfolding pte_valid_def
    by (simp add: do_page_replacement_def u_def unlinked_def upd_proc_def bnd_walk0 tl)
qed

lemma rchain_0: "rchain m p xs \<Longrightarrow> p = 0 \<longleftrightarrow> xs = []"
  by (cases xs) auto

lemma unlinked_fields:
  assumes "vm_inv s p ((n, va, sq) # xs) ps"
  shows "p_resident_set_tail (procs (unlinked p (read64 (mem s) (rp_next n)) s) p) = tail_of xs"
  using vm_inv_head [OF assms] rchain_0 [OF vm_inv_head(6) [OF assms]]
  by (auto simp: unlinked_def upd_proc_def tail_of_def)

lemma do_page_replacement_cases:
  assumes inv: "vm_inv s p ((n, va, sq) # xs) ps" and ok: "do_page_replacement p s = Ok r t"
    and V: "\<And>a u x t. outstanding u = outstanding s \<Longrightarrow>
      evict_page p va sq a (pte_of (mem s) (p_pagetable (procs s p)) va) u = Ok x t \<Longrightarrow>
      evicted_to V a (frame_of s p va) u t"
  shows "r = 1" "vm_inv t p xs (n # frame_of s p va # ps)" "p_pagetable (procs t p) = p_pagetable (procs s p)"
    "pte_of (mem t) (p_pagetable (procs s p)) va \<in> V"
    "\<And>va'. va' < MAXVA \<Longrightarrow> PGROUNDDOWN va' \<noteq> va \<Longrightarrow>
       pte_of (mem t) (p_pagetable (procs s p)) va' = pte_of (mem s) (p_pagetable (procs s p)) va'"
proof -
  let ?root = "p_pagetable (procs s p)" let ?e = "pte_of (mem s) ?root va"
  let ?nx = "read64 (mem s) (rp_next n)"
  note h = vm_inv_head [OF inv]
  obtain a where lf: "leaf (mem s) ?root va = Some a" using pte_valid_leaf [OF h(11)] by auto
  have lk: "ProcLk p \<notin> set (held s)" using ok by (auto simp: do_page_replacement_def)
  define u where "u = (unlinked p ?nx s)\<lparr>klog := klog s @ [VICTIM (p_pid (procs s p)) va sq]\<rparr>"
  have um: "mem u = mem s" "freelist u = freelist s" "sym_end u = sym_end s" "outstanding u = outstanding s"
    by (simp_all add: u_def unlinked_def upd_proc_def outstanding_def)
  obtain x t1 where ev: "evict_page p va sq a ?e u = Ok x t1" and k: "kfree n t1 = Ok () t" and r: "r = 1"
    using ok unfolding do_page_replacement_step [OF inv lk lf, folded u_def] by (auto elim!: seq_OkE)
  show "r = 1" by (rule r)
  obtain v where v: "v \<in> V" and t1: "pg_view t1 = pg_view (replaced a v (frame_of s p va) u)"
    using V [OF um(4) ev] by (auto simp: evicted_to_def)
  have rep: "mem (replaced a v (frame_of s p va) u) = mem (replaced a v (frame_of s p va) s)"
    by (simp add: replaced_def freed_def um)
  have tt: "t = freed n t1" using kfree_OkD(1) [OF k] .
  have tm: "mem t = mem (freed n (replaced a v (frame_of s p va) s))" "freelist t = n" "sym_end t = sym_end s"
    using t1 rep by (auto simp: tt pg_view_def freed_def replaced_def um)
  have "proc_vm (procs t p) = proc_vm (procs u p)"
    using t1 by (auto simp: tt pg_view_def freed_def replaced_def dest: fun_cong [where x = p])
  note pf = proc_vm_fields [OF this]
  have tp: "p_pagetable (procs t p) = ?root" "p_resident_set_head (procs t p) = ?nx"
    "p_resident_set_tail (procs t p) = tail_of xs"
    using pf unlinked_fields [OF inv] by (simp_all add: u_def unlinked_def upd_proc_def)
  show "p_pagetable (procs t p) = ?root" by (rule tp)
  note ev = vm_inv_evict [OF inv lf tm tp]
  show "vm_inv t p xs (n # frame_of s p va # ps)" by (rule ev)
  show "pte_of (mem t) ?root va \<in> V" using ev(2) v by simp
  show "\<And>va'. va' < MAXVA \<Longrightarrow> PGROUNDDOWN va' \<noteq> va \<Longrightarrow> pte_of (mem t) ?root va' = pte_of (mem s) ?root va'"
    by (rule ev(3))
qed

lemma evict_page_invalid:
  "evict_page p va sq a (pte_of (mem s) (p_pagetable (procs s p)) va) u = Ok x t \<Longrightarrow>
   evicted_to invalid_ptes a (frame_of s p va) u t"
  unfolding frame_of_def by (rule ensuresD [OF evict_page_ensures refl])

lemma evict_page_zero:
  "outstanding u < 1 \<Longrightarrow> evict_page p va sq a (pte_of (mem s) (p_pagetable (procs s p)) va) u = Ok x t \<Longrightarrow>
   evicted_to {0} a (frame_of s p va) u t"
  unfolding frame_of_def by (rule ensuresD [OF evict_page_outside refl])

section \<open>The branches that do not touch the disk\<close>

lemma drop_and_free:
  fixes s p
  defines "root \<equiv> p_pagetable (procs s p)"
  assumes inv: "vm_inv s p ((n, va, sq) # xs) ps" and lf: "leaf (mem s) root va = Some a"
    and u: "pg_view u = pg_view (unlinked p (read64 (mem s) (rp_next n)) s)" "KmemLk \<notin> set (held u)"
  defines "t \<equiv> freed n (replaced a 0 (frame_of s p va) u)"
  shows "seq (drop_page a (pte_of (mem s) root va)) (seq (kfree n) (ret r)) u = Ok r t"
    and "vm_inv t p xs (n # frame_of s p va # ps)" and "pte_of (mem t) root va = 0"
    and "\<And>va'. va' < MAXVA \<Longrightarrow> PGROUNDDOWN va' \<noteq> va \<Longrightarrow> pte_of (mem t) root va' = pte_of (mem s) root va'"
proof -
  note h = vm_inv_head [OF inv]
  let ?fr = "frame_of s p va"
  have um: "mem u = mem s" "freelist u = freelist s" "sym_end u = sym_end s"
    using u(1) by (auto simp: pg_view_def unlinked_def upd_proc_def)
  have fr: "PTE2PA (pte_of (mem s) root va) = ?fr" by (simp add: frame_of_def root_def)
  have k1: "kfree ?fr (u\<lparr>mem := write64 (mem u) a 0\<rparr>) = Ok () (replaced a 0 ?fr u)"
    using kfree_run [of "u\<lparr>mem := write64 (mem u) a 0\<rparr>" ?fr] h(10) u(2) um
    by (simp add: replaced_def freed_def)
  have k2: "kfree n (replaced a 0 ?fr u) = Ok () t"
    using kfree_run [of "replaced a 0 ?fr u" n] h(7) u(2) um
    by (simp add: replaced_def freed_def t_def)
  show "seq (drop_page a (pte_of (mem s) root va)) (seq (kfree n) (ret r)) u = Ok r t"
    using k1 k2 by (simp add: drop_page_def fr seq_assoc seq_Ok)
  have tm: "mem t = mem (freed n (replaced a 0 ?fr s))" "freelist t = n" "sym_end t = sym_end s"
    by (simp_all add: t_def freed_def replaced_def um)
  have "proc_vm (procs t p) = proc_vm (procs (unlinked p (read64 (mem s) (rp_next n)) s) p)"
    using u(1) by (auto simp: t_def pg_view_def freed_def replaced_def dest: fun_cong [where x = p])
  note pf = proc_vm_fields [OF this]
  have tp: "p_pagetable (procs t p) = p_pagetable (procs s p)"
    "p_resident_set_head (procs t p) = read64 (mem s) (rp_next n)"
    "p_resident_set_tail (procs t p) = tail_of xs"
    using pf unlinked_fields [OF inv] by (simp_all add: unlinked_def upd_proc_def)
  note ev = vm_inv_evict [OF inv lf [unfolded root_def] tm tp]
  show "vm_inv t p xs (n # ?fr # ps)" by (rule ev)
  show "pte_of (mem t) root va = 0" using ev(2) by (simp add: root_def)
  show "\<And>va'. va' < MAXVA \<Longrightarrow> PGROUNDDOWN va' \<noteq> va \<Longrightarrow> pte_of (mem t) root va' = pte_of (mem s) root va'"
    using ev(3) by (simp add: root_def)
qed

text \<open>The console lines of one eviction.\<close>

abbreviation victim_log :: "kstate \<Rightarrow> nat \<Rightarrow> u64 \<Rightarrow> c_int \<Rightarrow> kmsg" where
  "victim_log s p va sq \<equiv> VICTIM (p_pid (procs s p)) va sq"

text \<open>The state in which the victim's frame is freed, for the two branches.\<close>

definition clean_victim :: "kstate \<Rightarrow> nat \<Rightarrow> u64 \<Rightarrow> u64 \<Rightarrow> c_int \<Rightarrow> kstate" where
  "clean_victim s p n va sq = (unlinked p (read64 (mem s) (rp_next n)) s)\<lparr>klog :=
     klog s @ [victim_log s p va sq, EVICT (p_pid (procs s p)) va False, DISCARD (p_pid (procs s p)) va]\<rparr>"

definition full_victim :: "kstate \<Rightarrow> nat \<Rightarrow> u64 \<Rightarrow> u64 \<Rightarrow> c_int \<Rightarrow> kstate" where
  "full_victim s p n va sq = upd_proc p (\<lambda>q. q\<lparr>p_killed := True\<rparr>)
     ((unlinked p (read64 (mem s) (rp_next n)) s)\<lparr>klog :=
     klog s @ [victim_log s p va sq, EVICT (p_pid (procs s p)) va True,
       SWAPFULL (p_pid (procs s p)), KILL_SWAP (p_pid (procs s p))]\<rparr>)"

lemma evict_clean_run:
  assumes inv: "vm_inv s p ((n, va, sq) # xs) ps" and lk: "ProcLk p \<notin> set (held s)" "KmemLk \<notin> set (held s)"
    and clean: "pte_of (mem s) (p_pagetable (procs s p)) va AND PTE_D = 0" "va < p_exe_end (procs s p)"
    and lf: "leaf (mem s) (p_pagetable (procs s p)) va = Some a"
  defines "t \<equiv> freed n (replaced a 0 (frame_of s p va) (clean_victim s p n va sq))"
  shows "do_page_replacement p s = Ok 1 t" "vm_inv t p xs (n # frame_of s p va # ps)"
    "pte_of (mem t) (p_pagetable (procs s p)) va = 0"
proof -
  let ?u = "clean_victim s p n va sq"
  have u: "pg_view ?u = pg_view (unlinked p (read64 (mem s) (rp_next n)) s)" "KmemLk \<notin> set (held ?u)"
    using lk by (simp_all add: clean_victim_def pg_view_def unlinked_def upd_proc_def)
  note d = drop_and_free [OF inv lf u]
  show "do_page_replacement p s = Ok 1 t"
    using d(1) [of 1] clean unfolding t_def clean_victim_def
    by (simp add: do_page_replacement_step [OF inv lk(1) lf] evict_page_def unlinked_def upd_proc_def seq_assoc)
  show "vm_inv t p xs (n # frame_of s p va # ps)" "pte_of (mem t) (p_pagetable (procs s p)) va = 0"
    using d(2,3) by (simp_all add: t_def)
qed

lemma evict_swap_full_run:
  assumes inv: "vm_inv s p ((n, va, sq) # xs) ps" and lk: "ProcLk p \<notin> set (held s)" "KmemLk \<notin> set (held s)"
    and dirty: "pte_of (mem s) (p_pagetable (procs s p)) va AND PTE_D \<noteq> 0 \<or> p_exe_end (procs s p) \<le> va"
    and full: "used (p_swap_slots (procs s p)) = {..<1024}"
    and lf: "leaf (mem s) (p_pagetable (procs s p)) va = Some a"
  defines "t \<equiv> freed n (replaced a 0 (frame_of s p va) (full_victim s p n va sq))"
  shows "do_page_replacement p s = Ok 1 t" "vm_inv t p xs (n # frame_of s p va # ps)"
    "pte_of (mem t) (p_pagetable (procs s p)) va = 0"
proof -
  let ?u = "full_victim s p n va sq"
  have u: "pg_view ?u = pg_view (unlinked p (read64 (mem s) (rp_next n)) s)" "KmemLk \<notin> set (held ?u)"
    using lk by (auto simp: full_victim_def pg_view_def unlinked_def upd_proc_def proc_vm_def)
  note d = drop_and_free [OF inv lf u]
  have sl: "slot_alloc (p_swap_slots (procs s p)) = None" using full by (simp only: slot_alloc_None)
  show "do_page_replacement p s = Ok 1 t"
    using d(1) [of 1] dirty sl unfolding t_def full_victim_def
    by (auto simp: do_page_replacement_step [OF inv lk(1) lf] evict_page_def unlinked_def upd_proc_def
        bnd_swap_slot_alloc seq_assoc not_less [symmetric])
  show "vm_inv t p xs (n # frame_of s p va # ps)" "pte_of (mem t) (p_pagetable (procs s p)) va = 0"
    using d(2,3) by (simp_all add: t_def)
qed

text \<open>Property C17. A clean page of the executable is discarded without any I/O: \<open>do_page_replacement\<close> returns 1, the
  page's entry becomes 0, its frame and its tracking node are back on the free list, the disk, the buffer
  cache and the slot bitmap are untouched, and the console shows VICTIM, EVICT and DISCARD in this order.\<close>

theorem evict_clean:
  assumes inv: "vm_inv s p ((n, va, sq) # xs) ps" and lk: "ProcLk p \<notin> set (held s)" "KmemLk \<notin> set (held s)"
    and clean: "pte_of (mem s) (p_pagetable (procs s p)) va AND PTE_D = 0" "va < p_exe_end (procs s p)"
  shows "\<exists>t. do_page_replacement p s = Ok 1 t \<and> vm_inv t p xs (n # frame_of s p va # ps) \<and>
    pte_of (mem t) (p_pagetable (procs s p)) va = 0 \<and>
    klog t = klog s @ [victim_log s p va sq, EVICT (p_pid (procs s p)) va False, DISCARD (p_pid (procs s p)) va] \<and>
    disk t = disk s \<and> bufs t = bufs s \<and> p_swap_slots (procs t p) = p_swap_slots (procs s p)"
proof -
  obtain a where lf: "leaf (mem s) (p_pagetable (procs s p)) va = Some a"
    using pte_valid_leaf [OF vm_inv_head(11) [OF inv]] by auto
  note r = evict_clean_run [OF inv lk clean lf]
  show ?thesis
    using r by (intro exI conjI)
      (assumption | simp add: clean_victim_def freed_def replaced_def unlinked_def upd_proc_def)+
qed

text \<open>Property C18. When the victim must be swapped but all 1024 slots are in use, \<open>do_page_replacement\<close> still frees the
  frame and the node and returns 1, marks the process killed and reports SWAPFULL and the kill.\<close>

theorem evict_swap_full:
  assumes inv: "vm_inv s p ((n, va, sq) # xs) ps" and lk: "ProcLk p \<notin> set (held s)" "KmemLk \<notin> set (held s)"
    and dirty: "pte_of (mem s) (p_pagetable (procs s p)) va AND PTE_D \<noteq> 0 \<or> p_exe_end (procs s p) \<le> va"
    and full: "used (p_swap_slots (procs s p)) = {..<1024}"
  shows "\<exists>t. do_page_replacement p s = Ok 1 t \<and> vm_inv t p xs (n # frame_of s p va # ps) \<and>
    pte_of (mem t) (p_pagetable (procs s p)) va = 0 \<and> p_killed (procs t p) \<and>
    klog t = klog s @ [victim_log s p va sq, EVICT (p_pid (procs s p)) va True,
      SWAPFULL (p_pid (procs s p)), KILL_SWAP (p_pid (procs s p))]"
proof -
  obtain a where lf: "leaf (mem s) (p_pagetable (procs s p)) va = Some a"
    using pte_valid_leaf [OF vm_inv_head(11) [OF inv]] by auto
  note r = evict_swap_full_run [OF inv lk dirty full lf]
  show ?thesis
    using r by (intro exI conjI)
      (assumption | simp add: full_victim_def freed_def replaced_def unlinked_def upd_proc_def)+
qed

section \<open>The size limit of the swap file\<close>

lemma ilock_run:
  assumes "1 \<le> i_ref (itable s ip)" "i_valid (itable s ip)" "\<not> sl_locked (i_lock (itable s ip))"
    and "held s = []" "curproc s = Some p"
  shows "ilock ip s = Ok () (upd_inode ip (\<lambda>x. x\<lparr>i_lock := \<lparr>sl_locked = True, sl_pid = p_pid (procs s p)\<rparr>\<rparr>) s)"
proof -
  have "s\<lparr>held := []\<rparr> = s" using assms(4) by simp
  then show ?thesis
    using assms by (simp add: ilock_def acquiresleep_def inode_slock_def upd_inode_def seq_assoc)
qed

lemma iunlock_run:
  assumes "1 \<le> i_ref (itable s ip)" "i_lock (itable s ip) = \<lparr>sl_locked = True, sl_pid = p_pid (procs s p)\<rparr>"
    and "held s = []" "curproc s = Some p"
  shows "iunlock ip s = Ok () ((upd_inode ip (\<lambda>x. x\<lparr>i_lock := \<lparr>sl_locked = False, sl_pid = 0\<rparr>\<rparr>) s)
    \<lparr>procs := wake (ChInodeLock ip) (Some p) NPROC (procs s)\<rparr>)"
proof -
  have h: "s\<lparr>held := []\<rparr> = s" using assms(3) by simp
  show ?thesis
    using assms h
    by (simp add: iunlock_def holdingsleep_def releasesleep_def inode_slock_def upd_inode_def seq_Ok release_run seq_assoc bnd_assoc)
qed

lemma writei_beyond_limit:
  assumes "67 \<le> slot" "slot < 1024"
  shows "writei src ip (word_of_int slot * 4096) 4096 s = Ok (-1) s"
proof -
  define n where "n = nat slot"
  have n: "67 \<le> n" "n < 1024" "(word_of_int slot :: u32) = word_of_nat n" using assms by (auto simp: n_def)
  have u: "unat (word_of_nat n * 4096 :: u32) = n * 4096"
    using n by (simp add: unat_word_ariths unat_of_nat)
  have "unat (word_of_nat n * 4096 + 4096 :: u32) = n * 4096 + 4096"
    using n u by (simp add: unat_word_ariths(1) del: unat_word_ariths(2))
  then show ?thesis using n(1) unfolding n(3) writei_def
    by (simp add: MAXFILE_def NDIRECT_def NINDIRECT_def BSIZE_def)
qed

lemma wake_fields [simp]:
  "proc_vm (wake ch me n f p) = proc_vm (f p)" "p_swap_slots (wake ch me n f p) = p_swap_slots (f p)"
  "p_pid (wake ch me n f p) = p_pid (f p)" "p_swap_inode (wake ch me n f p) = p_swap_inode (f p)"
  by (simp_all add: wake_def proc_vm_def)

lemma swap_out_beyond_limit:
  assumes st: "held u = []" "curproc u = Some p"
    and ip: "p_swap_inode (procs u p) = Some ip" "1 \<le> i_ref (itable u ip)" "i_valid (itable u ip)"
      "\<not> sl_locked (i_lock (itable u ip))"
    and slot: "67 \<le> slot" "slot < 1024"
  shows "\<exists>u'. seq (swap_out p va sq pte e slot) m u = seq (drop_page pte e) m u' \<and> pg_view u' = pg_view u \<and> held u' = [] \<and>
    disk u' = disk u \<and> bufs u' = bufs u \<and>
    p_swap_slots (procs u' p) = slot_free slot (p_swap_slots (procs u p)) \<and>
    klog u' = klog u @ [EVICT (p_pid (procs u p)) va True, SWAPOUT (p_pid (procs u p)) va (nat slot),
      DISCARD (p_pid (procs u p)) va]"
proof -
  let ?pid = "p_pid (procs u p)"
  let ?u1 = "u\<lparr>klog := klog u @ [EVICT ?pid va True, SWAPOUT ?pid va (nat slot)]\<rparr>"
  let ?u2 = "upd_inode ip (\<lambda>x. x\<lparr>i_lock := \<lparr>sl_locked = True, sl_pid = ?pid\<rparr>\<rparr>) ?u1"
  let ?u3 = "(upd_inode ip (\<lambda>x. x\<lparr>i_lock := \<lparr>sl_locked = False, sl_pid = 0\<rparr>\<rparr>) ?u2)
    \<lparr>procs := wake (ChInodeLock ip) (Some p) NPROC (procs u)\<rparr>"
  let ?u4 = "upd_proc p (\<lambda>q. q\<lparr>p_swap_slots := slot_free slot (p_swap_slots q)\<rparr>)
    (?u3\<lparr>klog := klog ?u3 @ [DISCARD ?pid va]\<rparr>)"
  have l: "ilock ip ?u1 = Ok () ?u2" using ilock_run [of ?u1 ip p] assms by simp
  have r: "iunlock ip ?u2 = Ok () ?u3" using iunlock_run [of ?u2 ip p] assms by (simp add: upd_inode_def)
  have "swap_out p va sq pte e slot u = drop_page pte e ?u4"
    using ip(1) l r writei_beyond_limit [OF slot]
    by (simp add: swap_out_def open_swap_def seq_Ok bnd_Ok swap_slot_free_def)
  then have "seq (swap_out p va sq pte e slot) m u = seq (drop_page pte e) m ?u4"
    by (simp add: seq_def bnd_def)
  moreover have "pg_view ?u4 = pg_view u"
    by (auto simp: pg_view_def upd_inode_def upd_proc_def proc_vm_def wake_def fun_eq_iff)
  ultimately show ?thesis
    using st by (intro exI [of _ ?u4] conjI) (assumption | simp add: upd_inode_def upd_proc_def)+
qed

text \<open>Property C24. The swap file holds 67 pages, not 1024: with the first 67 slots in use and a slot left, a dirty victim is
  reported as swapped out (SWAPOUT), but the write fails, since the file would exceed \<open>MAXFILE\<close> blocks, and the
  page is discarded: its entry becomes 0, nothing reaches the disk or the buffer cache and the slot is given back.\<close>

theorem evict_beyond_limit:
  assumes inv: "vm_inv s p ((n, va, sq) # xs) ps" and st: "held s = []" "curproc s = Some p"
    and dirty: "pte_of (mem s) (p_pagetable (procs s p)) va AND PTE_D \<noteq> 0 \<or> p_exe_end (procs s p) \<le> va"
    and ip: "p_swap_inode (procs s p) = Some ip" "1 \<le> i_ref (itable s ip)" "i_valid (itable s ip)"
      "\<not> sl_locked (i_lock (itable s ip))"
    and slots: "length (p_swap_slots (procs s p)) = 128" "{..<67} \<subseteq> used (p_swap_slots (procs s p))"
      "used (p_swap_slots (procs s p)) \<noteq> {..<1024}"
  shows "\<exists>t slot. do_page_replacement p s = Ok 1 t \<and> vm_inv t p xs (n # frame_of s p va # ps) \<and>
    pte_of (mem t) (p_pagetable (procs s p)) va = 0 \<and> disk t = disk s \<and> bufs t = bufs s \<and>
    used (p_swap_slots (procs t p)) = used (p_swap_slots (procs s p)) \<and>
    klog t = klog s @ [victim_log s p va sq, EVICT (p_pid (procs s p)) va True,
      SWAPOUT (p_pid (procs s p)) va slot, DISCARD (p_pid (procs s p)) va]"
proof -
  let ?q = "procs s p" let ?pid = "p_pid ?q" let ?e = "pte_of (mem s) (p_pagetable ?q) va"
  obtain a where lf: "leaf (mem s) (p_pagetable ?q) va = Some a"
    using pte_valid_leaf [OF vm_inv_head(11) [OF inv]] by auto
  obtain sl n' where sl: "slot_alloc (p_swap_slots ?q) = Some (sl, n')"
    using slots(3) slot_alloc_None [of "p_swap_slots ?q"] by fastforce
  note fresh = slot_alloc_Some [OF sl slots(1)]
  have n67: "67 \<le> n'" using fresh(2) slots(2) by (meson lessThan_iff not_le subsetD)
  define v where "v = (unlinked p (read64 (mem s) (rp_next n)) s)\<lparr>klog := klog s @ [victim_log s p va sq]\<rparr>"
  define u where "u = upd_proc p (\<lambda>q. q\<lparr>p_swap_slots := sl\<rparr>) v"
  have up: "held u = []" "curproc u = Some p" "p_swap_inode (procs u p) = Some ip" "itable u = itable s"
    "klog u = klog s @ [victim_log s p va sq]" "disk u = disk s" "bufs u = bufs s"
    "p_pid (procs u p) = ?pid" "p_swap_slots (procs u p) = sl"
    using assms by (simp_all add: u_def v_def unlinked_def upd_proc_def)
  obtain u' where u': "seq (swap_out p va sq a ?e (int n')) (seq (kfree n) (ret (1 :: int))) u =
      seq (drop_page a ?e) (seq (kfree n) (ret (1 :: int))) u'" "pg_view u' = pg_view u" "held u' = []"
    "disk u' = disk u" "bufs u' = bufs u" "p_swap_slots (procs u' p) = slot_free (int n') sl"
    "klog u' = klog u @ [EVICT ?pid va True, SWAPOUT ?pid va n', DISCARD ?pid va]"
    using swap_out_beyond_limit [OF up(1,2,3), of "int n'" va sq a ?e "seq (kfree n) (ret (1 :: int))"] ip n67 fresh(1) up
    by auto
  have hk: "KmemLk \<notin> set (held u')" using u'(3) by simp
  have "pg_view u' = pg_view (unlinked p (read64 (mem s) (rp_next n)) s)"
    using u'(2) by (auto simp: u_def v_def pg_view_def upd_proc_def proc_vm_def)
  note d = drop_and_free [OF inv lf this hk]
  have "do_page_replacement p s = seq (swap_out p va sq a ?e (int n')) (seq (kfree n) (ret 1)) u"
    using dirty sl st
    by (auto simp: do_page_replacement_step [OF inv _ lf] evict_page_def bnd_swap_slot_alloc u_def v_def
        unlinked_def upd_proc_def)
  then have "do_page_replacement p s = Ok 1 (freed n (replaced a 0 (frame_of s p va) u'))"
    using u'(1) d(1) [of 1] by simp
  moreover have "used (p_swap_slots (procs u' p)) = used (p_swap_slots ?q)"
    using u'(6) fresh by (simp add: used_slot_free)
  ultimately show ?thesis
    using d(2,3) u' up
    by (intro exI [of _ "freed n (replaced a 0 (frame_of s p va) u')"] exI [of _ n'] conjI)
       (assumption | simp add: freed_def replaced_def)+
qed

section \<open>Policy\<close>

text \<open>Property C3. Page replacement is FIFO and keeps the memory invariant: whenever \<open>do_page_replacement\<close>
  returns, either the process has no resident page, the result is 0 and nothing changed; or the result is
  1, exactly the oldest page of the FIFO list has left it, its entry is no longer valid, its frame and node
  head the free list, and the entry of every other page is what it was. This covers every branch, the
  swap-out through the file system included.\<close>

theorem do_page_replacement_fifo:
  assumes "vm_inv s p xs ps" "do_page_replacement p s = Ok r t"
  shows "case xs of
      [] \<Rightarrow> r = 0 \<and> t = s
    | (n, va, sq) # xs' \<Rightarrow> r = 1 \<and> vm_inv t p xs' (n # frame_of s p va # ps) \<and>
        \<not> pte_valid (pte_of (mem t) (p_pagetable (procs t p)) va) \<and>
        (\<forall>va'. va' < MAXVA \<and> PGROUNDDOWN va' \<noteq> va \<longrightarrow>
           pte_of (mem t) (p_pagetable (procs t p)) va' = pte_of (mem s) (p_pagetable (procs s p)) va')"
proof (cases xs)
  case Nil
  then have "p_resident_set_head (procs s p) = 0" using assms(1) by (simp add: vm_inv_def resident_def)
  moreover have "ProcLk p \<notin> set (held s)" using assms(2) by (auto simp: do_page_replacement_def)
  ultimately show ?thesis using Nil assms(2) by (simp add: do_page_replacement_empty)
next
  case (Cons x xs')
  obtain n va sq where x: "x = (n, va, sq)" by (cases x)
  note c = do_page_replacement_cases [OF assms(1) [unfolded Cons x] assms(2) evict_page_invalid]
  show ?thesis using c by (simp add: Cons x invalid_ptes_def)
qed

text \<open>If no transaction is open when \<open>do_page_replacement\<close> is called, then whenever it returns the entry of the
  victim is 0; the path that would store the slot in the entry ends in the panic of \<open>log_write\<close>.\<close>

lemma evicted_outside:
  assumes "vm_inv s p ((n, va, sq) # xs) ps" "outstanding s < 1" "do_page_replacement p s = Ok r t"
  shows "pte_of (mem t) (p_pagetable (procs t p)) va = 0"
proof -
  have V: "evicted_to {0} a (frame_of s p va) u t"
    if "outstanding u = outstanding s"
      "evict_page p va sq a (pte_of (mem s) (p_pagetable (procs s p)) va) u = Ok x t" for a u x t
    using evict_page_zero that assms(2) by simp
  show ?thesis using do_page_replacement_cases [OF assms(1,3) V] by simp
qed

text \<open>Property C27. Freeing a page and allocating gives the page back: after \<open>kfree(pa)\<close>, \<open>kalloc\<close>
  returns \<open>pa\<close>, the free list is what it was, and memory differs only inside that page, which is
  filled with the allocator's pattern.\<close>

theorem kfree_kalloc:
  assumes "free_pages s ps" "ram_page (sym_end s) pa" "pa \<notin> set ps" "KmemLk \<notin> set (held s)"
  shows "\<exists>t. seq (kfree pa) kalloc s = Ok pa t \<and> free_pages t ps \<and> freelist t = freelist s \<and>
    same_except {pa} (mem s) (mem t) \<and> load_bytes (mem t) pa 4096 = replicate 4096 5"
proof -
  have k: "kfree pa s = Ok () (freed pa s)" using kfree_run [OF assms(2,4)] by (simp add: freed_def)
  have f: "free_pages (freed pa s) (pa # ps)" by (rule free_pages_freed [OF assms(1-3)])
  have a: "kalloc (freed pa s) = Ok pa (allocated pa (freed pa s))"
    using f assms(4) by (intro kalloc_run) (simp_all add: freed_def)
  have al: "page_aligned pa" using assms(2) by (simp add: ram_page_def)
  note g = free_pages_allocated [OF f]
  have "same_except ({pa} \<union> {pa}) (mem s) (mem (allocated pa (freed pa s)))"
    by (rule same_except_trans [OF same_except_freed [OF al] g(2)])
  moreover have "load_bytes (mem (allocated pa (freed pa s))) pa 4096 = replicate 4096 5"
    using load_store_same [of "replicate 4096 5"] by (simp add: allocated_def)
  moreover have "freelist (allocated pa (freed pa s)) = freelist s"
    by (simp add: allocated_def freed_def)
  ultimately show ?thesis using k a g(1) by (auto simp: seq_Ok)
qed

end
