(* ===== verification/Xv6_Vm.thy ===== *)
theory Xv6_Vm
  imports Xv6_Evict
begin

text \<open>
  kernel/vm.c, except the page-fault handler and the copies between kernel and user memory: mapping
  and unmapping of pages, allocation and release of user memory, and the copy that \<open>fork\<close>
  makes; with the operations on the resident set of kernel/proc.c that unmapping relies on.
\<close>

section \<open>The resident set (kernel/proc.c)\<close>

definition add_to_resident_set :: "nat \<Rightarrow> u64 \<Rightarrow> c_int \<Rightarrow> unit kop" where
  "add_to_resident_set p va sq =
     bnd kalloc (\<lambda>node.
     if node = 0 then panic ''add_to_resident_set: kalloc failed'' else
     seq (store64 (rp_va node) va) (
     seq (store32 (rp_seq node) sq) (
     seq (store64 (rp_next node) 0) (
     seq (acquire (ProcLk p)) (
     bnd (gets (\<lambda>s. procs s p)) (\<lambda>q.
     seq (if p_resident_set_head q = 0
          then modify (upd_proc p (\<lambda>q. q\<lparr>p_resident_set_head := node, p_resident_set_tail := node\<rparr>))
          else
            seq (store64 (rp_next (p_resident_set_tail q)) node) (
            modify (upd_proc p (\<lambda>q. q\<lparr>p_resident_set_tail := node\<rparr>)))) (
     release (ProcLk p))))))))"

text \<open>
  The walk of \<open>remove_from_resident_set\<close> and \<open>find_seq_in_resident_set\<close>: the node that tracks \<open>va\<close>
  and the one before it, 0 for none. There are 557056 pages below \<open>PHYSTOP\<close>, so a longer walk is one
  that never ends.
\<close>

definition RS_FUEL :: nat where "RS_FUEL = 557057"

fun rs_scan :: "nat \<Rightarrow> memory \<Rightarrow> u64 \<Rightarrow> u64 \<Rightarrow> u64 \<Rightarrow> (u64 \<times> u64) option" where
  "rs_scan 0 m prev cur va = None"
| "rs_scan (Suc fuel) m prev cur va =
     (if cur = 0 then Some (prev, 0)
      else if read64 m (rp_va cur) = va then Some (prev, cur)
      else rs_scan fuel m cur (read64 m (rp_next cur)) va)"

definition remove_from_resident_set :: "nat \<Rightarrow> u64 \<Rightarrow> unit kop" where
  "remove_from_resident_set p va =
     seq (acquire (ProcLk p)) (
     bnd (gets (\<lambda>s. rs_scan RS_FUEL (mem s) 0 (p_resident_set_head (procs s p)) va)) (\<lambda>r.
     case r of
       None \<Rightarrow> diverge
     | Some (prev, cur) \<Rightarrow>
         seq (if cur = 0 then skip else
              bnd (load64 (rp_next cur)) (\<lambda>nxt.
              seq (if prev = 0 then modify (upd_proc p (\<lambda>q. q\<lparr>p_resident_set_head := nxt\<rparr>))
                   else store64 (rp_next prev) nxt) (
              modify (upd_proc p (\<lambda>q.
                if p_resident_set_tail q = cur then q\<lparr>p_resident_set_tail := prev\<rparr> else q))))) (
         seq (release (ProcLk p)) (
         if cur = 0 then skip else kfree cur))))"

definition find_seq_in_resident_set :: "nat \<Rightarrow> u64 \<Rightarrow> c_int kop" where
  "find_seq_in_resident_set p va =
     seq (acquire (ProcLk p)) (
     bnd (gets (\<lambda>s. rs_scan RS_FUEL (mem s) 0 (p_resident_set_head (procs s p)) va)) (\<lambda>r.
     case r of
       None \<Rightarrow> diverge
     | Some (prev, cur) \<Rightarrow>
         if cur = 0 then seq (release (ProcLk p)) (ret (-1))
         else
           bnd (load32 (rp_seq cur)) (\<lambda>sq.
           seq (release (ProcLk p)) (
           ret sq))))"

section \<open>Mapping\<close>

definition walk1 :: "u64 \<Rightarrow> u64 \<Rightarrow> u64 kop" where
  "walk1 = walk kalloc"

text \<open>
  The loop of \<open>mappages\<close> ends at \<open>last\<close>, which is \<open>size / PGSIZE - 1\<close> steps from \<open>va\<close>.
\<close>

fun mappages_loop :: "nat \<Rightarrow> u64 \<Rightarrow> u64 \<Rightarrow> u64 \<Rightarrow> u64 \<Rightarrow> u64 \<Rightarrow> int kop" where
  "mappages_loop 0 pagetable a pa last_a perm = diverge"
| "mappages_loop (Suc fuel) pagetable a pa last_a perm =
     bnd (walk1 pagetable a) (\<lambda>pte.
     if pte = 0 then ret (-1) else
     bnd (load64 pte) (\<lambda>e.
     if e AND PTE_V \<noteq> 0 then panic ''mappages: remap'' else
     seq (store64 pte (PA2PTE pa OR perm OR PTE_V)) (
     if a = last_a then ret 0
     else mappages_loop fuel pagetable (a + PGSIZE) (pa + PGSIZE) last_a perm)))"

definition mappages :: "u64 \<Rightarrow> u64 \<Rightarrow> u64 \<Rightarrow> u64 \<Rightarrow> u64 \<Rightarrow> int kop" where
  "mappages pagetable va sz pa perm =
     (if va mod PGSIZE \<noteq> 0 then panic ''mappages: va not aligned'' else
      if sz mod PGSIZE \<noteq> 0 then panic ''mappages: size not aligned'' else
      if sz = 0 then panic ''mappages: size'' else
      mappages_loop (unat sz div 4096) pagetable va pa (va + sz - PGSIZE) perm)"

definition kvmmap :: "u64 \<Rightarrow> u64 \<Rightarrow> u64 \<Rightarrow> u64 \<Rightarrow> u64 \<Rightarrow> unit kop" where
  "kvmmap kpgtbl va pa sz perm =
     bnd (mappages kpgtbl va sz pa perm) (\<lambda>r.
     if r \<noteq> 0 then panic ''kvmmap'' else skip)"

definition proc_mapstack :: "u64 \<Rightarrow> nat \<Rightarrow> unit kop" where
  "proc_mapstack kpgtbl p =
     bnd kalloc (\<lambda>pa.
     if pa = 0 then panic ''kalloc'' else
     kvmmap kpgtbl (KSTACK p) pa PGSIZE (PTE_R OR PTE_W))"

definition proc_mapstacks :: "u64 \<Rightarrow> unit kop" where
  "proc_mapstacks kpgtbl = each (proc_mapstack kpgtbl) [0..<NPROC]"

text \<open>kernel/memlayout.h.\<close>

definition UART0 :: u64 where [const_defs]: "UART0 = 0x10000000"
definition VIRTIO0 :: u64 where [const_defs]: "VIRTIO0 = 0x10001000"
definition PLIC :: u64 where [const_defs]: "PLIC = 0x0c000000"

definition kvmmake :: "u64 kop" where
  "kvmmake =
     bnd kalloc (\<lambda>kpgtbl.
     bnd (gets (\<lambda>s. (sym_etext s, sym_trampoline s))) (\<lambda>(etext, trampoline).
     seq (fill_page kpgtbl 0) (
     seq (kvmmap kpgtbl UART0 UART0 PGSIZE (PTE_R OR PTE_W)) (
     seq (kvmmap kpgtbl VIRTIO0 VIRTIO0 PGSIZE (PTE_R OR PTE_W)) (
     seq (kvmmap kpgtbl PLIC PLIC 0x4000000 (PTE_R OR PTE_W)) (
     seq (kvmmap kpgtbl KERNBASE KERNBASE (etext - KERNBASE) (PTE_R OR PTE_X)) (
     seq (kvmmap kpgtbl etext etext (PHYSTOP - etext) (PTE_R OR PTE_W)) (
     seq (kvmmap kpgtbl TRAMPOLINE trampoline PGSIZE (PTE_R OR PTE_X)) (
     seq (proc_mapstacks kpgtbl) (
     ret kpgtbl))))))))))"

section \<open>User memory\<close>

definition uvmcreate :: "u64 kop" where
  "uvmcreate =
     bnd kalloc (\<lambda>pagetable.
     if pagetable = 0 then ret 0 else
     seq (fill_page pagetable 0) (
     ret pagetable))"

text \<open>
  One turn of \<open>uvmunmap\<close>. The resident set and the slot bitmap are those of \<open>myproc()\<close>,
  whichever process the page table belongs to.
\<close>

definition uvmunmap_page :: "u64 \<Rightarrow> bool \<Rightarrow> u64 \<Rightarrow> unit kop" where
  "uvmunmap_page pagetable do_free a =
     bnd myproc (\<lambda>mp.
     bnd (walk0 pagetable a) (\<lambda>pte.
     if pte = 0 then skip else
     bnd (load64 pte) (\<lambda>e.
     seq (case mp of
            Some p \<Rightarrow>
              if e AND PTE_S \<noteq> 0 \<and> e AND PTE_V = 0
              then swap_slot_free p (sint (ucast (PTE_SLOT e) :: c_int)) else skip
          | None \<Rightarrow> skip) (
     if e AND PTE_V = 0 then skip else
     seq (case mp of Some p \<Rightarrow> remove_from_resident_set p a | None \<Rightarrow> skip) (
     seq (if do_free then bnd (load64 pte) (\<lambda>e. kfree (PTE2PA e)) else skip) (
     store64 pte 0))))))"

fun uvmunmap_loop :: "nat \<Rightarrow> u64 \<Rightarrow> bool \<Rightarrow> u64 \<Rightarrow> u64 \<Rightarrow> unit kop" where
  "uvmunmap_loop 0 pagetable do_free a e = (if a < e then diverge else skip)"
| "uvmunmap_loop (Suc fuel) pagetable do_free a e =
     (if a < e then
        seq (uvmunmap_page pagetable do_free a) (
        uvmunmap_loop fuel pagetable do_free (a + PGSIZE) e)
      else skip)"

definition uvmunmap :: "u64 \<Rightarrow> u64 \<Rightarrow> u64 \<Rightarrow> bool \<Rightarrow> unit kop" where
  "uvmunmap pagetable va npages do_free =
     (if va mod PGSIZE \<noteq> 0 then panic ''uvmunmap: not aligned'' else
      uvmunmap_loop (unat (npages * PGSIZE) div 4096) pagetable do_free va (va + npages * PGSIZE))"

definition uvmdealloc :: "u64 \<Rightarrow> u64 \<Rightarrow> u64 \<Rightarrow> u64 kop" where
  "uvmdealloc pagetable oldsz newsz =
     (if newsz \<ge> oldsz then ret oldsz else
      seq (if PGROUNDUP newsz < PGROUNDUP oldsz then
             (let npages = (ucast ((PGROUNDUP oldsz - PGROUNDUP newsz) div PGSIZE) :: c_int) in
              uvmunmap pagetable (PGROUNDUP newsz) (scast npages) True)
           else skip) (
      ret newsz))"

fun uvmalloc_loop :: "nat \<Rightarrow> u64 \<Rightarrow> u64 \<Rightarrow> u64 \<Rightarrow> u64 \<Rightarrow> u64 \<Rightarrow> u64 kop" where
  "uvmalloc_loop 0 pagetable oldsz a newsz xperm = (if a < newsz then diverge else ret newsz)"
| "uvmalloc_loop (Suc fuel) pagetable oldsz a newsz xperm =
     (if a < newsz then
        bnd kalloc (\<lambda>m.
        if m = 0 then seq (uvmdealloc pagetable a oldsz) (ret 0) else
        seq (fill_page m 0) (
        bnd (mappages pagetable a PGSIZE m (PTE_R OR PTE_U OR xperm)) (\<lambda>r.
        if r \<noteq> 0 then
          seq (kfree m) (
          seq (uvmdealloc pagetable a oldsz) (
          ret 0))
        else uvmalloc_loop fuel pagetable oldsz (a + PGSIZE) newsz xperm)))
      else ret newsz)"

definition uvmalloc :: "u64 \<Rightarrow> u64 \<Rightarrow> u64 \<Rightarrow> u64 \<Rightarrow> u64 kop" where
  "uvmalloc pagetable oldsz newsz xperm =
     (if newsz < oldsz then ret oldsz else
      uvmalloc_loop (Suc (unat (newsz - PGROUNDUP oldsz) div 4096)) pagetable
        (PGROUNDUP oldsz) (PGROUNDUP oldsz) newsz xperm)"

text \<open>
  \<open>freewalk\<close> recurses along valid entries without permission bits; a tree of Sv39 tables has
  three levels, and the bound leaves room for trees that are not.
\<close>

fun freewalk :: "nat \<Rightarrow> u64 \<Rightarrow> unit kop" where
  "freewalk 0 pagetable = diverge"
| "freewalk (Suc depth) pagetable =
     seq (each (\<lambda>i.
       bnd (load64 (pagetable + 8 * of_nat i)) (\<lambda>e.
       if e AND PTE_V \<noteq> 0 \<and> e AND (PTE_R OR PTE_W OR PTE_X) = 0 then
         seq (freewalk depth (PTE2PA e)) (
         store64 (pagetable + 8 * of_nat i) 0)
       else if e AND PTE_V \<noteq> 0 then panic ''freewalk: leaf''
       else skip)) [0..<512]) (
     kfree pagetable)"

definition FREEWALK_DEPTH :: nat where "FREEWALK_DEPTH = 16"

definition uvmfree :: "u64 \<Rightarrow> u64 \<Rightarrow> unit kop" where
  "uvmfree pagetable sz =
     seq (if sz > 0 then uvmunmap pagetable 0 (PGROUNDUP sz div PGSIZE) True else skip) (
     freewalk FREEWALK_DEPTH pagetable)"

fun uvmcopy_loop :: "nat \<Rightarrow> u64 \<Rightarrow> u64 \<Rightarrow> u64 \<Rightarrow> u64 \<Rightarrow> int kop" where
  "uvmcopy_loop 0 old new i sz = (if i < sz then diverge else ret 0)"
| "uvmcopy_loop (Suc fuel) old new i sz =
     (if i < sz then
        bnd (walk0 old i) (\<lambda>pte.
        if pte = 0 then uvmcopy_loop fuel old new (i + PGSIZE) sz else
        bnd (load64 pte) (\<lambda>e.
        if e AND PTE_V = 0 then uvmcopy_loop fuel old new (i + PGSIZE) sz else
        bnd kalloc (\<lambda>m.
        if m = 0 then
          seq (uvmunmap new 0 (i div PGSIZE) True) (
          ret (-1))
        else
          seq (modify (upd_mem (\<lambda>b. memmove b m (PTE2PA e) (unat PGSIZE)))) (
          bnd (mappages new i PGSIZE m (PTE_FLAGS e)) (\<lambda>r.
          if r \<noteq> 0 then
            seq (kfree m) (
            seq (uvmunmap new 0 (i div PGSIZE) True) (
            ret (-1)))
          else uvmcopy_loop fuel old new (i + PGSIZE) sz)))))
      else ret 0)"

definition uvmcopy :: "u64 \<Rightarrow> u64 \<Rightarrow> u64 \<Rightarrow> int kop" where
  "uvmcopy old new sz = uvmcopy_loop (Suc (unat sz div 4096)) old new 0 sz"

definition uvmclear :: "u64 \<Rightarrow> u64 \<Rightarrow> unit kop" where
  "uvmclear pagetable va =
     bnd (walk0 pagetable va) (\<lambda>pte.
     if pte = 0 then panic ''uvmclear'' else
     bnd (load64 pte) (\<lambda>e. store64 pte (e AND NOT PTE_U)))"

end
