(* ===== verification/Xv6_Map.thy ===== *)
theory Xv6_Map
  imports Xv6_Vm
begin

text \<open>
  Correctness of \<open>walk\<close> with allocation and of \<open>mappages\<close>. The locale \<open>page_allocator\<close> is the
  contract they need from the allocator they call; \<open>kalloc\<close> with a non-empty free list implements it.
\<close>

section \<open>Growing the tree by one table\<close>

text \<open>A page fit to become a table.\<close>

definition new_table :: "memory \<Rightarrow> u64 \<Rightarrow> u64 \<Rightarrow> bool" where
  "new_table m root n \<longleftrightarrow> page_aligned n \<and> n \<noteq> 0 \<and> n < 2 ^ 56 \<and> n \<notin> tables m root"

text \<open>Page \<open>n\<close> cleared and hooked into entry \<open>PX l va\<close> of table \<open>t\<close>.\<close>

definition hook :: "memory \<Rightarrow> u64 \<Rightarrow> nat \<Rightarrow> u64 \<Rightarrow> u64 \<Rightarrow> memory" where
  "hook m t l va n = write64 (store_bytes m n (replicate 4096 0)) (t + 8 * PX l va) (PA2PTE n OR PTE_V)"

lemma table_entry: "page_aligned n \<Longrightarrow> n < 2 ^ 56 \<Longrightarrow> pte_valid (PA2PTE n OR PTE_V) \<and> PTE2PA (PA2PTE n OR PTE_V) = n"
proof -
  assume n: "page_aligned n" "n < 2 ^ 56"
  have "(PA2PTE n OR PTE_V) AND PTE_V = PTE_V" using PA2PTE_flags [of PTE_V n PTE_V] by (simp add: PTE_V_def)
  then show ?thesis using n PTE2PA_PA2PTE [of n PTE_V] by (simp add: pte_valid_def PTE_V_def)
qed

lemma child_hook:
  assumes "page_aligned n" "n < 2 ^ 56" "page_aligned t" "n \<noteq> t" "page_aligned t'" "t' \<noteq> n"
  shows "child (hook m t l va n) t' (PX l' va') =
    (if t' = t \<and> PX l' va' = PX l va then Some n else child m t' (PX l' va'))"
proof (cases "t' = t \<and> PX l' va' = PX l va")
  case True
  then show ?thesis using table_entry [OF assms(1,2)] by (simp add: child_def hook_def)
next
  case False
  then have ne: "t' + 8 * PX l' va' \<noteq> t + 8 * PX l va" using entry_inject assms(3,5) by metis
  have "read64 (store_bytes m n (replicate 4096 0)) (t' + 8 * PX l' va') = read64 m (t' + 8 * PX l' va')"
    by (rule read64_same_except [OF same_except_store_page [OF assms(1)]]) (use assms in auto)
  then show ?thesis unfolding if_not_P [OF False] using ne assms by (simp add: child_def hook_def)
qed

lemma child_hook_new:
  assumes "page_aligned n" "page_aligned t" "n \<noteq> t"
  shows "child (hook m t l va n) n (PX l' va') = None" "read64 (hook m t l va n) (n + 8 * PX l' va') = 0"
proof -
  have ne: "n + 8 * PX l' va' \<noteq> t + 8 * PX l va" using entry_inject [OF assms(1,2)] assms(3) by metis
  show r: "read64 (hook m t l va n) (n + 8 * PX l' va') = 0"
    using ne assms PX8 read64_replicate [of n "8 * PX l' va'" m 0] by (simp add: hook_def)
  show "child (hook m t l va n) n (PX l' va') = None"
    by (simp add: child_def r pte_valid_def)
qed

lemma table1_aligned: "table1 m root va = Some t \<Longrightarrow> page_aligned t"
  by (auto simp: table1_def dest: child_aligned)

lemma same_except_hook:
  assumes "page_aligned n" "page_aligned t" shows "same_except {n, t} m (hook m t l va n)"
proof -
  have "same_except ({n} \<union> {t}) m (hook m t l va n)" unfolding hook_def
    by (rule same_except_trans [OF same_except_store_page])
       (use assms same_except_write64 [of "t + 8 * PX l va"] in auto)
  then show ?thesis by (simp only: insert_is_Un [of n "{t}"])
qed

lemma read64_hook:
  assumes "page_aligned n" "page_aligned t" "aligned8 a" "PGROUNDDOWN a \<noteq> n" "PGROUNDDOWN a \<noteq> t"
  shows "read64 (hook m t l va n) a = read64 m a"
  by (rule read64_same_except [OF same_except_hook]) (use assms in auto)

lemma pt_wfD:
  assumes "pt_wf m root"
  shows "page_aligned root" "root \<noteq> 0" "\<And>va t. table1 m root va = Some t \<Longrightarrow> t \<noteq> root \<and> t \<noteq> 0"
    "\<And>va va' t. table1 m root va = Some t \<Longrightarrow> table1 m root va' = Some t \<Longrightarrow> PX 2 va' = PX 2 va"
    "\<And>va t. table0 m root va = Some t \<Longrightarrow> t \<noteq> root \<and> t \<noteq> 0"
    "\<And>va va' t. table0 m root va = Some t \<Longrightarrow> table1 m root va' \<noteq> Some t"
    "\<And>va va' t. table0 m root va = Some t \<Longrightarrow> table0 m root va' = Some t \<Longrightarrow> PX 2 va' = PX 2 va \<and> PX 1 va' = PX 1 va"
  using assms unfolding pt_wf_def tables_def by blast+

lemma pt_wfI:
  assumes "page_aligned root" "root \<noteq> 0" "\<And>va t. table1 m root va = Some t \<Longrightarrow> t \<noteq> root \<and> t \<noteq> 0"
    "\<And>va va' t. table1 m root va = Some t \<Longrightarrow> table1 m root va' = Some t \<Longrightarrow> PX 2 va' = PX 2 va"
    "\<And>va t. table0 m root va = Some t \<Longrightarrow> t \<noteq> root \<and> t \<noteq> 0"
    "\<And>va va' t. table0 m root va = Some t \<Longrightarrow> table1 m root va' \<noteq> Some t"
    "\<And>va va' t. table0 m root va = Some t \<Longrightarrow> table0 m root va' = Some t \<Longrightarrow> PX 2 va' = PX 2 va \<and> PX 1 va' = PX 1 va"
  shows "pt_wf m root"
  using assms unfolding pt_wf_def tables_def by blast

lemma not_in_tables: "n \<notin> tables m root \<Longrightarrow> n \<noteq> root \<and> table1 m root va \<noteq> Some n \<and> table0 m root va \<noteq> Some n"
  by (auto simp: tables_def)

lemma pte_of_hook:
  assumes "page_aligned n" "page_aligned t" "leaf m' root va = leaf m root va" "n \<notin> tables m root"
    and "\<And>a. leaf m root va = Some a \<Longrightarrow> PGROUNDDOWN a \<noteq> t" and "m' = hook m t l v n"
  shows "pte_of m' root va = pte_of m root va"
proof (cases "leaf m root va")
  case None then show ?thesis by (simp add: pte_of_def assms(3))
next
  case (Some a)
  have "PGROUNDDOWN a \<noteq> n" using leaf_in_tables [OF Some] assms(4) by auto
  then have "read64 m' a = read64 m a"
    unfolding assms(6) using assms(1,2,5) Some leaf_aligned [OF Some] by (intro read64_hook) auto
  then show ?thesis using assms(3) Some by (simp add: pte_of_def)
qed

text \<open>A new middle table.\<close>

lemma hook1:
  assumes wf: "pt_wf m root" and n: "new_table m root n" and none: "table1 m root va = None"
    and m': "m' = hook m root 2 va n"
  shows "table1 m' root va' = (if PX 2 va' = PX 2 va then Some n else table1 m root va')"
    and "table0 m' root va' = table0 m root va'"
    and "pt_wf m' root" "tables m' root = insert n (tables m root)" "pte_of m' root va' = pte_of m root va'"
proof -
  note w = pt_wfD [OF wf]
  have nn: "page_aligned n" "n < 2 ^ 56" "n \<noteq> 0" "n \<notin> tables m root" using n by (auto simp: new_table_def)
  note nT = not_in_tables [OF nn(4)]
  have ch: "child m' t (PX l v) = (if t = root \<and> PX l v = PX 2 va then Some n else child m t (PX l v))"
    if "page_aligned t" "t \<noteq> n" for t l v
    unfolding m' using nn w nT that by (intro child_hook) auto
  have chn: "child m' n (PX l v) = None" for l v
    unfolding m' using nn w nT by (intro child_hook_new) auto
  show 1: "table1 m' root v = (if PX 2 v = PX 2 va then Some n else table1 m root v)" for v
    unfolding table1_def using ch [OF w(1)] nT by metis
  have none': "table1 m root v = None" if "PX 2 v = PX 2 va" for v using none that by (simp add: table1_def)
  show 0: "table0 m' root v = table0 m root v" for v
  proof (cases "table1 m root v")
    case None
    then show ?thesis by (simp add: table0_def 1 chn)
  next
    case (Some t)
    have "PX 2 v \<noteq> PX 2 va" using Some none' [of v] by auto
    moreover have "t \<noteq> n" "t \<noteq> root" using Some nT w(3) by blast+
    ultimately have "PX 2 v \<noteq> PX 2 va" "t \<noteq> n" "t \<noteq> root" by auto
    then show ?thesis using Some by (simp add: table0_def 1 ch table1_aligned)
  qed
  show T: "tables m' root = insert n (tables m root)"
  proof -
    have "(\<exists>v. table1 m' root v = Some t) \<longleftrightarrow> t = n \<or> (\<exists>v. table1 m root v = Some t)" for t
      unfolding 1 using none' by (metis option.distinct(1) option.inject)
    then show ?thesis by (auto simp: tables_def 0)
  qed
  show "pt_wf m' root"
  proof (rule pt_wfI)
    have i: "table1 m' root v = Some t \<Longrightarrow> t = n \<and> PX 2 v = PX 2 va \<or> t \<noteq> n \<and> table1 m root v = Some t" for v t
      using 1 [of v] nT by (auto split: if_splits)
    show "page_aligned root" "root \<noteq> 0" by (fact w)+
    show "t \<noteq> root \<and> t \<noteq> 0" if "table1 m' root v = Some t" for v t
      using i [OF that] w(3) nn nT by auto
    show "PX 2 v' = PX 2 v" if "table1 m' root v = Some t" "table1 m' root v' = Some t" for v v' t
      using i [OF that(1)] i [OF that(2)] w(4) by metis
    show "t \<noteq> root \<and> t \<noteq> 0" if "table0 m' root v = Some t" for v t
      using that w(5) by (simp add: 0)
    show "table1 m' root v' \<noteq> Some t" if "table0 m' root v = Some t" for v v' t
      using that i [of v' t] w(6) nT by (auto simp: 0)
    show "PX 2 v' = PX 2 v \<and> PX 1 v' = PX 1 v" if "table0 m' root v = Some t" "table0 m' root v' = Some t" for v v' t
      using that w(7) unfolding 0 by blast
  qed
  show "pte_of m' root va' = pte_of m root va'"
  proof (rule pte_of_hook [OF nn(1) w(1) _ nn(4) _ m'])
    show "leaf m' root va' = leaf m root va'" by (simp only: leaf_def 0)
    show "PGROUNDDOWN a \<noteq> root" if "leaf m root va' = Some a" for a
      using leaf_not_upper(1) [OF wf that] by blast
  qed
qed

text \<open>A new leaf table.\<close>

lemma hook0:
  assumes wf: "pt_wf m root" and n: "new_table m root n" and t1: "table1 m root va = Some t1"
    and none: "table0 m root va = None" and m': "m' = hook m t1 1 va n"
  shows "table0 m' root va' = (if PX 2 va' = PX 2 va \<and> PX 1 va' = PX 1 va then Some n else table0 m root va')"
    and "pt_wf m' root" "tables m' root = insert n (tables m root)" "pte_of m' root va' = pte_of m root va'"
proof -
  note w = pt_wfD [OF wf]
  have nn: "page_aligned n" "n < 2 ^ 56" "n \<noteq> 0" "n \<notin> tables m root" using n by (auto simp: new_table_def)
  note nT = not_in_tables [OF nn(4)]
  have t1a: "page_aligned t1" "n \<noteq> t1" "t1 \<noteq> root" using t1 nT w(3) table1_aligned by blast+
  have ch: "child m' t (PX l v) = (if t = t1 \<and> PX l v = PX 1 va then Some n else child m t (PX l v))"
    if "page_aligned t" "t \<noteq> n" for t l v
    unfolding m' using nn t1a that by (intro child_hook) auto
  have 1: "table1 m' root v = table1 m root v" for v
    unfolding table1_def using ch [OF w(1)] nT t1a by metis
  have none': "table0 m root v = None" if "PX 2 v = PX 2 va" "PX 1 v = PX 1 va" for v
    using none unfolding table0_def table1_def that .
  show 0: "table0 m' root v = (if PX 2 v = PX 2 va \<and> PX 1 v = PX 1 va then Some n else table0 m root v)" for v
  proof (cases "table1 m root v")
    case None
    then have "PX 2 v \<noteq> PX 2 va" using t1 by (auto simp: table1_def)
    then show ?thesis using None by (simp add: table0_def 1)
  next
    case (Some t)
    have same: "t = t1 \<longleftrightarrow> PX 2 v = PX 2 va"
      using Some t1 w(4) by (metis option.inject table1_def)
    have "page_aligned t" "t \<noteq> n" using Some nT table1_aligned by blast+
    then show ?thesis using Some same by (simp add: table0_def 1 ch)
  qed
  show T: "tables m' root = insert n (tables m root)"
  proof -
    have "(\<exists>v. table0 m' root v = Some t) \<longleftrightarrow> t = n \<or> (\<exists>v. table0 m root v = Some t)" for t
      unfolding 0 using none' by (metis option.distinct(1) option.inject)
    then show ?thesis by (auto simp: tables_def 1)
  qed
  show "pt_wf m' root"
  proof (rule pt_wfI)
    have i: "table0 m' root v = Some t \<Longrightarrow>
        t = n \<and> PX 2 v = PX 2 va \<and> PX 1 v = PX 1 va \<or> t \<noteq> n \<and> table0 m root v = Some t" for v t
      using 0 [of v] nT by (auto split: if_splits)
    show "page_aligned root" "root \<noteq> 0" by (fact w)+
    show "t \<noteq> root \<and> t \<noteq> 0" if "table1 m' root v = Some t" for v t
      using that w(3) by (simp add: 1)
    show "PX 2 v' = PX 2 v" if "table1 m' root v = Some t" "table1 m' root v' = Some t" for v v' t
      using that w(4) unfolding 1 by blast
    show "t \<noteq> root \<and> t \<noteq> 0" if "table0 m' root v = Some t" for v t
      using i [OF that] w(5) nn nT by auto
    show "table1 m' root v' \<noteq> Some t" if "table0 m' root v = Some t" for v v' t
      using i [OF that] w(6) nT by (auto simp: 1)
    show "PX 2 v' = PX 2 v \<and> PX 1 v' = PX 1 v" if "table0 m' root v = Some t" "table0 m' root v' = Some t" for v v' t
      using i [OF that(1)] i [OF that(2)] w(7) by metis
  qed
  show "pte_of m' root va' = pte_of m root va'"
  proof (cases "PX 2 va' = PX 2 va \<and> PX 1 va' = PX 1 va")
    case True
    then have "pte_of m root va' = 0" using none' by (simp add: pte_of_def leaf_def)
    moreover have "leaf m' root va' = Some (n + 8 * PX 0 va')" using True by (simp add: leaf_def 0)
    then have "pte_of m' root va' = 0" using nn t1a by (simp add: pte_of_def m' child_hook_new)
    ultimately show ?thesis by simp
  next
    case False
    have l: "leaf m' root va' = leaf m root va'" unfolding leaf_def 0 if_not_P [OF False] ..
    have "PGROUNDDOWN a \<noteq> t1" if "leaf m root va' = Some a" for a
      using leaf_not_upper(2) [OF wf that] t1 by blast
    then show ?thesis by (rule pte_of_hook [OF nn(1) t1a(1) l nn(4) _ m'])
  qed
qed

section \<open>The contract of the allocator\<close>

text \<open>The part of the state an allocation does not touch.\<close>

definition ctl :: "kstate \<Rightarrow> kstate" where
  "ctl s = s\<lparr>mem := (\<lambda>_. 0), freelist := 0\<rparr>"

lemma ctl_mem [simp]: "ctl (s\<lparr>mem := m\<rparr>) = ctl s"
  by (simp add: ctl_def)

text \<open>
  \<open>extends s t root Q\<close>: the tree at \<open>root\<close> has grown by the tables \<open>Q\<close>, without any page being
  mapped or unmapped, and memory changed only in its tables.
\<close>

definition extends :: "kstate \<Rightarrow> kstate \<Rightarrow> u64 \<Rightarrow> u64 set \<Rightarrow> bool" where
  "extends s t root Q \<longleftrightarrow> pt_wf (mem t) root \<and> tables (mem t) root = tables (mem s) root \<union> Q \<and>
     (\<forall>va. pte_of (mem t) root va = pte_of (mem s) root va) \<and>
     same_except (tables (mem s) root \<union> Q) (mem s) (mem t) \<and> ctl t = ctl s"

lemma extends_refl: "pt_wf (mem s) root \<Longrightarrow> extends s s root {}"
  by (simp add: extends_def)

lemma extends_trans: "extends s t root Q \<Longrightarrow> extends t u root R \<Longrightarrow> extends s u root (Q \<union> R)"
  unfolding extends_def
  by (auto intro: same_except_mono [OF same_except_trans])

locale page_allocator =
  fixes alloc :: "u64 kop"
    and pool :: "kstate \<Rightarrow> u64 list \<Rightarrow> bool"
  assumes alloc_run: "pool s (r # ps) \<Longrightarrow>
      \<exists>t. alloc s = Ok r t \<and> pool t ps \<and> same_except {r} (mem s) (mem t) \<and> ctl t = ctl s"
    and pool_pages: "pool s ps \<Longrightarrow> distinct ps \<and> (\<forall>p \<in> set ps. page_aligned p \<and> p \<noteq> 0 \<and> p < 2 ^ 56)"
    and pool_frame: "pool s ps \<Longrightarrow> same_except P (mem s) m \<Longrightarrow> set ps \<inter> P = {} \<Longrightarrow> pool (s\<lparr>mem := m\<rparr>) ps"
begin

text \<open>Taking a page from the pool leaves the tree as it is.\<close>

lemma take_page:
  assumes wf: "pt_wf (mem s) root" and pool: "pool s (n # ps)" and disj: "set (n # ps) \<inter> tables (mem s) root = {}"
  obtains u where "alloc s = Ok n u" "pool u ps"
    "same_except {n} (mem s) (mem u)" "ctl u = ctl s" "pt_wf (mem u) root" "new_table (mem u) root n"
    "tables (mem u) root = tables (mem s) root" "\<And>va. pte_of (mem u) root va = pte_of (mem s) root va"
    "\<And>va. table1 (mem u) root va = table1 (mem s) root va" "\<And>va. table0 (mem u) root va = table0 (mem s) root va"
proof -
  obtain u where u: "alloc s = Ok n u" "pool u ps" "same_except {n} (mem s) (mem u)" "ctl u = ctl s"
    using alloc_run [OF pool] by blast
  have al: "page_aligned root" using wf by (rule pt_wfD)
  have nT: "tables (mem s) root \<inter> {n} = {}" using disj by auto
  note f = pt_frame [OF al u(3) nT]
  have "root \<notin> {n}" "\<forall>va t. table1 (mem s) root va = Some t \<longrightarrow> t \<notin> {n}"
    using nT by (auto simp: tables_def)
  note tr = tree_frame [OF al u(3) this]
  have "new_table (mem u) root n"
    using pool_pages [OF pool] nT f(2) by (auto simp: new_table_def)
  then show thesis using that u f tr wf by simp
qed

text \<open>Hooking the page taken into an existing table.\<close>

lemma hook_extends:
  assumes u: "same_except {n} (mem s) (mem u)" "ctl u = ctl s" "tables (mem u) root = tables (mem s) root"
      "\<And>va. pte_of (mem u) root va = pte_of (mem s) root va" "pool u ps" "new_table (mem u) root n"
    and t: "page_aligned t" "t \<in> tables (mem s) root" and ps: "set ps \<inter> insert n (tables (mem s) root) = {}"
    and m: "m = hook (mem u) t l va n" "pt_wf m root" "tables m root = insert n (tables (mem u) root)"
      "\<And>va'. pte_of m root va' = pte_of (mem u) root va'"
  shows "extends s (u\<lparr>mem := m\<rparr>) root {n}" "pool (u\<lparr>mem := m\<rparr>) ps"
proof -
  have n: "page_aligned n" using u(6) by (simp add: new_table_def)
  have f: "same_except {n, t} (mem u) m" unfolding m(1) by (rule same_except_hook [OF n t(1)])
  show "pool (u\<lparr>mem := m\<rparr>) ps" by (rule pool_frame [OF u(5) f]) (use ps t in auto)
  have "same_except ({n} \<union> {n, t}) (mem s) m" by (rule same_except_trans [OF u(1) f])
  then have "same_except (tables (mem s) root \<union> {n}) (mem s) m"
    by (rule same_except_mono) (use t in auto)
  then show "extends s (u\<lparr>mem := m\<rparr>) root {n}"
    using u m by (auto simp: extends_def)
qed

lemma walk_leaf_level:
  assumes wf: "pt_wf (mem s) root" and t1: "table1 (mem s) root va = Some t1"
    and pool: "pool s ps" "ps \<noteq> []" and disj: "set ps \<inter> tables (mem s) root = {}"
  shows "\<exists>t a k. k \<le> 1 \<and> walk_level alloc t1 va 1 s = Ok a t \<and> leaf (mem t) root va = Some a \<and>
    extends s t root (set (take k ps)) \<and> pool t (drop k ps)"
proof (cases "table0 (mem s) root va")
  case (Some t0)
  then have e: "pte_valid (read64 (mem s) (t1 + 8 * PX 1 va))" "PTE2PA (read64 (mem s) (t1 + 8 * PX 1 va)) = t0"
    using t1 by (auto simp: table0_def child_def Let_def split: if_splits)
  then have "walk_level alloc t1 va 1 s = Ok (t0 + 8 * PX 0 va) s"
    by (simp add: pte_valid_def Let_def)
  then show ?thesis using Some pool extends_refl [OF wf]
    by (intro exI [of _ s] exI [of _ "t0 + 8 * PX 0 va"] exI [of _ 0]) (simp add: leaf_def)
next
  case None
  then have e: "\<not> pte_valid (read64 (mem s) (t1 + 8 * PX 1 va))"
    using t1 by (auto simp: table0_def child_def Let_def split: if_splits)
  obtain n qs where ps: "ps = n # qs" using pool(2) by (cases ps) auto
  obtain u where u: "alloc s = Ok n u" "pool u qs" "same_except {n} (mem s) (mem u)" "ctl u = ctl s"
    "pt_wf (mem u) root" "new_table (mem u) root n" "tables (mem u) root = tables (mem s) root"
    "\<And>va. pte_of (mem u) root va = pte_of (mem s) root va"
    "\<And>va. table1 (mem u) root va = table1 (mem s) root va" "\<And>va. table0 (mem u) root va = table0 (mem s) root va"
    using take_page [OF wf pool(1) [unfolded ps] disj [unfolded ps]] by metis
  define m where "m = hook (mem u) t1 1 va n"
  have t1u: "table1 (mem u) root va = Some t1" "table0 (mem u) root va = None" using t1 None u by auto
  note h = hook0 [OF u(5,6) t1u m_def]
  have "t1 \<in> tables (mem s) root" using t1 by (auto simp: tables_def)
  moreover have "set qs \<inter> insert n (tables (mem s) root) = {}"
    using disj pool_pages [OF pool(1)] by (auto simp: ps)
  ultimately have x: "extends s (u\<lparr>mem := m\<rparr>) root {n}" "pool (u\<lparr>mem := m\<rparr>) qs"
    using hook_extends [OF u(3,4,7,8,2,6) table1_aligned [OF t1] _ _ m_def h(2,3,4)] by auto
  have n0: "n \<noteq> 0" using u(6) by (simp add: new_table_def)
  have "walk_level alloc t1 va 1 s = Ok (n + 8 * PX 0 va) (u\<lparr>mem := m\<rparr>)"
    using e u(1) n0 by (simp add: pte_valid_def bnd_Ok m_def hook_def Let_def)
  moreover have "leaf m root va = Some (n + 8 * PX 0 va)" by (simp add: leaf_def h(1))
  ultimately show ?thesis
    using x by (intro exI [of _ "u\<lparr>mem := m\<rparr>"] exI [of _ "n + 8 * PX 0 va"] exI [of _ 1]) (simp add: ps)
qed

lemma walk_alloc:
  assumes wf: "pt_wf (mem s) root" and va: "va < MAXVA"
    and pool: "pool s ps" "2 \<le> length ps" and disj: "set ps \<inter> tables (mem s) root = {}"
  shows "\<exists>t a k. k \<le> 2 \<and> walk alloc root va s = Ok a t \<and> leaf (mem t) root va = Some a \<and>
    extends s t root (set (take k ps)) \<and> pool t (drop k ps)"
proof -
  have w: "walk alloc root va s = walk_level alloc root va 2 s"
    using va by (simp add: walk_def not_le [symmetric])
  show ?thesis
  proof (cases "table1 (mem s) root va")
    case (Some t1)
    then have e: "pte_valid (read64 (mem s) (root + 8 * PX 2 va))" "PTE2PA (read64 (mem s) (root + 8 * PX 2 va)) = t1"
      by (auto simp: table1_def child_def Let_def split: if_splits)
    then have "walk_level alloc root va 2 s = walk_level alloc t1 va 1 s"
      by (simp add: pte_valid_def numeral_2_eq_2 Let_def)
    moreover have "ps \<noteq> []" using pool(2) by auto
    moreover obtain t a k where "k \<le> 1" "walk_level alloc t1 va 1 s = Ok a t" "leaf (mem t) root va = Some a"
      "extends s t root (set (take k ps))" "pool t (drop k ps)"
      using walk_leaf_level [OF wf Some pool(1) \<open>ps \<noteq> []\<close> disj] by blast
    ultimately show ?thesis
      using w by (intro exI [of _ t] exI [of _ a] exI [of _ k]) simp
  next
    case None
    then have e: "\<not> pte_valid (read64 (mem s) (root + 8 * PX 2 va))"
      by (auto simp: table1_def child_def Let_def split: if_splits)
    obtain n qs where ps: "ps = n # qs" "qs \<noteq> []" using pool(2) by (cases ps; cases "tl ps") auto
    obtain u where u: "alloc s = Ok n u" "pool u qs" "same_except {n} (mem s) (mem u)" "ctl u = ctl s"
      "pt_wf (mem u) root" "new_table (mem u) root n" "tables (mem u) root = tables (mem s) root"
      "\<And>va. pte_of (mem u) root va = pte_of (mem s) root va"
      "\<And>va. table1 (mem u) root va = table1 (mem s) root va" "\<And>va. table0 (mem u) root va = table0 (mem s) root va"
      using take_page [OF wf pool(1) [unfolded ps] disj [unfolded ps]] by metis
    define m where "m = hook (mem u) root 2 va n"
    have t1u: "table1 (mem u) root va = None" using None u by auto
    note h = hook1 [OF u(5,6) t1u m_def]
    have qd: "set qs \<inter> insert n (tables (mem s) root) = {}"
      using disj pool_pages [OF pool(1)] by (auto simp: ps)
    moreover have "root \<in> tables (mem s) root" by (simp add: tables_def)
    ultimately have x: "extends s (u\<lparr>mem := m\<rparr>) root {n}" "pool (u\<lparr>mem := m\<rparr>) qs"
      using hook_extends [OF u(3,4,7,8,2,6) pt_wfD(1) [OF wf] _ _ m_def h(3,4,5)] by auto
    have n0: "n \<noteq> 0" using u(6) by (simp add: new_table_def)
    have step: "walk_level alloc root va 2 s = walk_level alloc n va 1 (u\<lparr>mem := m\<rparr>)"
      using e u(1) n0 by (simp add: pte_valid_def bnd_Ok m_def hook_def numeral_2_eq_2 Let_def)
    have t1: "table1 m root va = Some n" using h(1) by simp
    have disj': "set qs \<inter> tables m root = {}" using h(4) u(7) qd by simp
    obtain t a k where r: "k \<le> 1" "walk_level alloc n va 1 (u\<lparr>mem := m\<rparr>) = Ok a t" "leaf (mem t) root va = Some a"
      "extends (u\<lparr>mem := m\<rparr>) t root (set (take k qs))" "pool t (drop k qs)"
      using walk_leaf_level [of "u\<lparr>mem := m\<rparr>" root va n qs] h(3) t1 x(2) ps(2) disj' by auto
    have "extends s t root ({n} \<union> set (take k qs))" by (rule extends_trans [OF x(1) r(4)])
    then show ?thesis using r w step ps
      by (intro exI [of _ t] exI [of _ a] exI [of _ "Suc k"]) simp
  qed
qed

end

text \<open>\<open>kalloc\<close> with pages on the free list implements the contract.\<close>

definition kpool :: "kstate \<Rightarrow> u64 list \<Rightarrow> bool" where
  "kpool s ps \<longleftrightarrow> free_pages s ps \<and> KmemLk \<notin> set (held s)"

lemma ram_page_small: "ram_page e p \<Longrightarrow> page_aligned p \<and> p \<noteq> 0 \<and> p < 2 ^ 56"
  by (auto simp: ram_page_def PHYSTOP_def KERNBASE_def elim: order.strict_trans2)

interpretation ka: page_allocator kalloc kpool
proof
  fix s r ps assume p: "kpool s (r # ps)"
  then have f: "free_pages s (r # ps)" and h: "KmemLk \<notin> set (held s)" by (auto simp: kpool_def)
  show "\<exists>t. kalloc s = Ok r t \<and> kpool t ps \<and> same_except {r} (mem s) (mem t) \<and> ctl t = ctl s"
    using kalloc_run [OF f h] free_pages_allocated [OF f] h
    by (intro exI [of _ "allocated r s"]) (simp add: kpool_def allocated_def ctl_def)
next
  fix s ps assume "kpool s ps"
  then show "distinct ps \<and> (\<forall>p \<in> set ps. page_aligned p \<and> p \<noteq> 0 \<and> p < 2 ^ 56)"
    using ram_page_small by (fastforce simp: kpool_def free_pages_def)
next
  fix s ps P m assume "kpool s ps" "same_except P (mem s) m" "set ps \<inter> P = {}"
  then show "kpool (s\<lparr>mem := m\<rparr>) ps"
    using free_pages_frame [of s ps P "s\<lparr>mem := m\<rparr>"] by (simp add: kpool_def)
qed

section \<open>mappages\<close>

text \<open>The entry a page has after \<open>n\<close> pages from \<open>a\<close> are mapped to the frames from \<open>pa\<close>.\<close>

definition mapped_pte :: "u64 \<Rightarrow> u64 \<Rightarrow> nat \<Rightarrow> u64 \<Rightarrow> u64 \<Rightarrow> u64 \<Rightarrow> u64" where
  "mapped_pte a pa n perm va e =
     (if unat (PGROUNDDOWN va - a) < 4096 * n then PA2PTE (pa + (PGROUNDDOWN va - a)) OR perm OR PTE_V else e)"

definition map_result :: "kstate \<Rightarrow> kstate \<Rightarrow> u64 \<Rightarrow> u64 \<Rightarrow> u64 \<Rightarrow> nat \<Rightarrow> u64 \<Rightarrow> u64 list \<Rightarrow> nat \<Rightarrow> bool" where
  "map_result s t root a pa n perm ps j \<longleftrightarrow> pt_wf (mem t) root \<and> kpool t (drop j ps) \<and>
     tables (mem t) root = tables (mem s) root \<union> set (take j ps) \<and>
     same_except (tables (mem s) root \<union> set (take j ps)) (mem s) (mem t) \<and> ctl t = ctl s \<and>
     (\<forall>va. va < MAXVA \<longrightarrow> pte_of (mem t) root va = mapped_pte a pa n perm va (pte_of (mem s) root va))"

lemma map_one:
  assumes wf: "pt_wf (mem s) root" and a: "page_aligned a" "a < MAXVA"
    and pool: "kpool s ps" "2 \<le> length ps" and disj: "set ps \<inter> tables (mem s) root = {}"
    and free: "\<not> pte_valid (pte_of (mem s) root a)"
  shows "\<exists>t j. j \<le> 2 \<and> mappages_loop (Suc k) root a pa last_a perm s =
      (if a = last_a then ret 0 else mappages_loop k root (a + PGSIZE) (pa + PGSIZE) last_a perm) t \<and>
    map_result s t root a pa 1 perm ps j"
proof -
  obtain u e j where u: "j \<le> 2" "walk1 root a s = Ok e u" "leaf (mem u) root a = Some e"
    "extends s u root (set (take j ps))" "kpool u (drop j ps)"
    using ka.walk_alloc [OF wf a(2) pool disj] unfolding walk1_def by blast
  let ?v = "PA2PTE pa OR perm OR PTE_V" let ?m = "write64 (mem u) e ?v" let ?t = "u\<lparr>mem := ?m\<rparr>"
  have wfu: "pt_wf (mem u) root" and Tu: "tables (mem u) root = tables (mem s) root \<union> set (take j ps)"
    and ptu: "\<And>va. pte_of (mem u) root va = pte_of (mem s) root va"
    and su: "same_except (tables (mem s) root \<union> set (take j ps)) (mem s) (mem u)" and cu: "ctl u = ctl s"
    using u(4) by (auto simp: extends_def)
  have "read64 (mem u) e = pte_of (mem u) root a" using u(3) by (simp add: pte_of_def)
  then have nv: "\<not> read64 (mem u) e AND PTE_V \<noteq> 0" using free ptu by (simp add: pte_valid_def)
  have e0: "e \<noteq> 0" using leaf_nonzero [OF wfu u(3)] .
  have run: "mappages_loop (Suc k) root a pa last_a perm s =
      (if a = last_a then ret 0 else mappages_loop k root (a + PGSIZE) (pa + PGSIZE) last_a perm) ?t"
    using u(2) nv e0 by (simp add: bnd_Ok)
  note w = write_leaf [OF wfu u(3)]
  have eT: "PGROUNDDOWN e \<in> tables (mem s) root \<union> set (take j ps)"
    using leaf_in_tables [OF u(3)] Tu by simp
  have f: "same_except {PGROUNDDOWN e} (mem u) ?m" by (intro same_except_write64 leaf_aligned [OF u(3)])
  have "distinct ps" using pool ka.pool_pages by blast
  then have "set (drop j ps) \<inter> {PGROUNDDOWN e} = {}"
    using eT disj set_take_disj_set_drop_if_distinct [of ps j j] set_drop_subset [of j ps] by auto
  then have "kpool ?t (drop j ps)" using ka.pool_frame [OF u(5) f] by simp
  moreover have "same_except (tables (mem s) root \<union> set (take j ps)) (mem s) ?m"
    by (rule same_except_mono [OF same_except_trans [OF su f]]) (use eT in auto)
  moreover have "pte_of ?m root va = mapped_pte a pa 1 perm va (pte_of (mem s) root va)" if "va < MAXVA" for va
  proof -
    have "PGROUNDDOWN va = a \<longleftrightarrow> unat (PGROUNDDOWN va - a) < 4096"
      using in_page_iff [OF a(1), of "PGROUNDDOWN va"] by simp
    then show ?thesis
      using pte_of_write_leaf [OF wfu u(3) a(2) that, of ?v] a(1) ptu by (auto simp: mapped_pte_def)
  qed
  ultimately have "map_result s ?t root a pa 1 perm ps j"
    using w Tu cu by (simp add: map_result_def)
  with run u(1) show ?thesis by blast
qed

lemma mapped_pte_split:
  assumes a: "page_aligned a" "unat a + 4096 * Suc n \<le> 2 ^ 38" and va: "va < MAXVA"
  shows "mapped_pte (a + PGSIZE) (pa + PGSIZE) n perm va (mapped_pte a pa 1 perm va e) = mapped_pte a pa (Suc n) perm va e"
proof -
  let ?d = "PGROUNDDOWN va - a"
  obtain k where k: "unat a = 4096 * k" using page_aligned_mult [OF a(1)] by blast
  have u: "unat (PGROUNDDOWN va) = 4096 * (unat va div 4096)" by (simp add: unat_PGROUNDDOWN)
  have d4: "\<exists>q. unat ?d = 4096 * q"
  proof (cases "k \<le> unat va div 4096")
    case True
    then have "unat ?d = 4096 * (unat va div 4096) - 4096 * k" by (simp add: unat_sub word_le_nat_alt u k)
    then show ?thesis by (intro exI [of _ "unat va div 4096 - k"]) (simp add: diff_mult_distrib2)
  next
    case False
    then have "unat ?d = 2 ^ 64 - 4096 * k + 4096 * (unat va div 4096)"
      using unat_u64 [of a] by (simp add: unat_sub_if_size word_size word_le_nat_alt u k)
    also have "\<dots> = 4096 * (4503599627370496 - k + unat va div 4096)"
      using unat_u64 [of a] k by (simp add: diff_mult_distrib2 distrib_left)
    finally show ?thesis by blast
  qed
  then obtain q where q: "unat ?d = 4096 * q" by blast
  have e: "PGROUNDDOWN va - (a + PGSIZE) = ?d - PGSIZE" by simp
  have n: "4096 * n < 18446744073709547520" using a(2) by simp
  show ?thesis
  proof (cases "q = 0")
    case True
    then have d0: "?d = 0" using q by (simp add: word_unat_eq_iff)
    have "unat (?d - PGSIZE) = 18446744073709547520" unfolding d0 by (simp add: PGSIZE_def)
    then show ?thesis using d0 n unfolding mapped_pte_def e by simp
  next
    case False
    have "unat (?d - PGSIZE) = 4096 * q - 4096"
      using q False by (simp add: unat_sub word_le_nat_alt)
    moreover have "\<not> unat ?d < 4096 * 1" using q False by simp
    moreover have "pa + PGSIZE + (?d - PGSIZE) = pa + ?d" by simp
    moreover have "4096 * q - 4096 < 4096 * n \<longleftrightarrow> 4096 * q < 4096 * Suc n" using False by auto
    ultimately show ?thesis unfolding mapped_pte_def e using q by simp
  qed
qed

lemma in_range_MAXVA: "unat a + 4096 * Suc n \<le> 2 ^ 38 \<Longrightarrow> a < MAXVA"
  by (simp add: word_less_nat_alt MAXVA_exp unat_p2)

lemma mappages_loop_run:
  assumes "pt_wf (mem s) root" "page_aligned a" "unat a + 4096 * Suc n \<le> 2 ^ 38"
    and "kpool s ps" "2 * Suc n \<le> length ps" "set ps \<inter> tables (mem s) root = {}"
    and "\<And>va. va < MAXVA \<Longrightarrow> unat (PGROUNDDOWN va - a) < 4096 * Suc n \<Longrightarrow> \<not> pte_valid (pte_of (mem s) root va)"
  shows "\<exists>t j. j \<le> 2 * Suc n \<and> mappages_loop (Suc n) root a pa (a + of_nat n * PGSIZE) perm s = Ok 0 t \<and>
    map_result s t root a pa (Suc n) perm ps j"
  using assms
proof (induction n arbitrary: s a pa ps)
  case 0
  have a: "a < MAXVA" using in_range_MAXVA [OF "0.prems"(3)] .
  have free: "\<not> pte_valid (pte_of (mem s) root a)" using "0.prems"(7) [OF a] "0.prems"(2) by simp
  obtain t j where "j \<le> 2" "mappages_loop (Suc 0) root a pa (a + of_nat 0 * PGSIZE) perm s = Ok 0 t"
    "map_result s t root a pa 1 perm ps j"
    using map_one [OF "0.prems"(1,2) a "0.prems"(4) _ "0.prems"(6) free, of 0 pa "a + of_nat 0 * PGSIZE" perm]
      "0.prems"(5) by auto
  then show ?case by (intro exI [of _ t] exI [of _ j]) simp
next
  case (Suc n)
  have a: "a < MAXVA" using in_range_MAXVA [OF Suc.prems(3)] .
  have free: "\<not> pte_valid (pte_of (mem s) root a)" using Suc.prems(7) [OF a] Suc.prems(2) by simp
  let ?l = "a + of_nat (Suc n) * PGSIZE"
  have ne: "a \<noteq> ?l"
  proof
    assume "a = ?l"
    then have "(of_nat (Suc n) * PGSIZE :: u64) = 0" by simp
    then have "unat (of_nat (Suc n) * PGSIZE :: u64) = 0" by simp
    moreover have "unat (of_nat (Suc n) * PGSIZE :: u64) = Suc n * 4096"
      using Suc.prems(3) by (simp add: unat_word_ariths unat_of_nat del: of_nat_Suc)
    ultimately show False by simp
  qed
  obtain u j where u: "j \<le> 2" "mappages_loop (Suc (Suc n)) root a pa ?l perm s =
      mappages_loop (Suc n) root (a + PGSIZE) (pa + PGSIZE) ?l perm u" "map_result s u root a pa 1 perm ps j"
    using map_one [OF Suc.prems(1,2) a Suc.prems(4) _ Suc.prems(6) free, of "Suc n" pa ?l perm]
      Suc.prems(5) ne by auto
  note m = u(3) [unfolded map_result_def]
  have na: "page_aligned (a + PGSIZE)" "unat (a + PGSIZE) = unat a + 4096"
    using page_aligned_add_PGSIZE [OF Suc.prems(2)] Suc.prems(3) by auto
  have dist: "distinct ps" using Suc.prems(4) ka.pool_pages by blast
  have disj: "set (drop j ps) \<inter> tables (mem u) root = {}"
    using m Suc.prems(6) set_take_disj_set_drop_if_distinct [OF dist, of j j] set_drop_subset [of j ps]
      set_take_subset [of j ps] by auto
  have unm: "\<not> pte_valid (pte_of (mem u) root va)"
    if va: "va < MAXVA" "unat (PGROUNDDOWN va - (a + PGSIZE)) < 4096 * Suc n" for va
  proof -
    have "PGROUNDDOWN va - a = (PGROUNDDOWN va - (a + PGSIZE)) + PGSIZE" by simp
    moreover have "unat (PGROUNDDOWN va - (a + PGSIZE)) + 4096 < 18446744073709551616"
      using va(2) Suc.prems(3) by simp
    ultimately have d: "unat (PGROUNDDOWN va - a) = unat (PGROUNDDOWN va - (a + PGSIZE)) + 4096"
      by (simp only: unat_word_ariths) simp
    then have "pte_of (mem u) root va = pte_of (mem s) root va"
      using m va(1) by (simp add: mapped_pte_def)
    then show ?thesis using Suc.prems(7) [OF va(1)] va(2) d by simp
  qed
  have "\<exists>t k. k \<le> 2 * Suc n \<and> mappages_loop (Suc n) root (a + PGSIZE) (pa + PGSIZE)
      (a + PGSIZE + of_nat n * PGSIZE) perm u = Ok 0 t \<and>
    map_result u t root (a + PGSIZE) (pa + PGSIZE) (Suc n) perm (drop j ps) k"
    by (rule Suc.IH) (use m na Suc.prems u(1) disj unm in auto)
  moreover have "a + PGSIZE + of_nat n * PGSIZE = ?l" by (simp add: distrib_right)
  ultimately obtain t k where t: "k \<le> 2 * Suc n"
    "mappages_loop (Suc n) root (a + PGSIZE) (pa + PGSIZE) ?l perm u = Ok 0 t"
    "map_result u t root (a + PGSIZE) (pa + PGSIZE) (Suc n) perm (drop j ps) k"
    by auto
  note r = t(3) [unfolded map_result_def]
  have tk: "set (take j ps) \<union> set (take k (drop j ps)) = set (take (j + k) ps)"
    by (simp add: take_add)
  have "map_result s t root a pa (Suc (Suc n)) perm ps (j + k)"
    unfolding map_result_def
  proof (intro conjI allI impI)
    show "pt_wf (mem t) root" using r by blast
    show "kpool t (drop (j + k) ps)" using r by (simp add: add.commute)
    show "tables (mem t) root = tables (mem s) root \<union> set (take (j + k) ps)"
      using r m tk by auto
    show "same_except (tables (mem s) root \<union> set (take (j + k) ps)) (mem s) (mem t)"
      by (rule same_except_mono [OF same_except_trans [of _ "mem s" "mem u" _ "mem t"]]) (use r m tk in auto)
    show "ctl t = ctl s" using r m by simp
    fix va assume va: "va < MAXVA"
    show "pte_of (mem t) root va = mapped_pte a pa (Suc (Suc n)) perm va (pte_of (mem s) root va)"
      using r m va mapped_pte_split [OF Suc.prems(2,3) va, of pa perm "pte_of (mem s) root va"] by simp
  qed
  then show ?case using u t by (intro exI [of _ t] exI [of _ "j + k"]) simp
qed

lemma mappages_run:
  assumes "pt_wf (mem s) root" "page_aligned va" "0 < n" "unat va + 4096 * n \<le> 2 ^ 38"
    and "kpool s ps" "2 * n \<le> length ps" "set ps \<inter> tables (mem s) root = {}"
    and "\<And>va'. va' < MAXVA \<Longrightarrow> unat (PGROUNDDOWN va' - va) < 4096 * n \<Longrightarrow> \<not> pte_valid (pte_of (mem s) root va')"
  shows "\<exists>t j. j \<le> 2 * n \<and> mappages root va (of_nat n * PGSIZE) pa perm s = Ok 0 t \<and>
    map_result s t root va pa n perm ps j"
proof -
  obtain k where k: "n = Suc k" using assms(3) by (cases n) auto
  have u: "unat (of_nat n * PGSIZE :: u64) = n * 4096"
    using assms(4) by (simp add: unat_word_ariths unat_of_nat)
  have sz: "of_nat n * PGSIZE \<noteq> (0 :: u64)" using u assms(3) by auto
  have l: "va + of_nat n * PGSIZE - PGSIZE = va + of_nat k * PGSIZE" by (simp add: k distrib_right)
  have al: "(of_nat n * PGSIZE :: u64) mod PGSIZE = 0"
    by (simp add: word_unat_eq_iff unat_mod u del: unat_word_ariths)
  have "mappages root va (of_nat n * PGSIZE) pa perm s =
      mappages_loop (Suc k) root va pa (va + of_nat k * PGSIZE) perm s"
    using assms(2) sz al u unfolding mappages_def l page_aligned_def by (simp add: k)
  then show ?thesis
    using mappages_loop_run [of s root va k ps pa perm] assms unfolding k by simp
qed

lemma pt_wf_empty:
  assumes "page_aligned root" "root \<noteq> 0" "\<And>va. read64 m (root + 8 * PX 2 va) = 0"
  shows "pt_wf m root" "tables m root = {root}" "pte_of m root va = 0"
proof -
  have 1: "table1 m root va = None" for va
    using assms(3) by (simp add: table1_def child_def pte_valid_def)
  then have 0: "table0 m root va = None" for va by (simp add: table0_def)
  show "pt_wf m root" by (rule pt_wfI) (simp_all add: assms 1 0)
  show "tables m root = {root}" by (simp add: tables_def 1 0)
  show "pte_of m root va = 0" by (simp add: pte_of_def leaf_def 0)
qed

lemma flags_and: "(f OR g) AND h = 0 \<longleftrightarrow> f AND h = 0 \<and> g AND h = (0 :: u64)"
  by (auto simp: bit_eq_iff bit_simps)

section \<open>Properties\<close>

text \<open>Property C15. \<open>mappages\<close> maps exactly the pages it is asked to: with two free pages per page mapped, on a
  well-formed table in which the range is unmapped, it returns 0; afterwards the entry of each page of
  the range holds its frame, the permissions and the valid bit, the entry of every other page is
  unchanged, the table is well formed, and memory changed only in its table pages.\<close>

theorem mappages_correct:
  assumes "pt_wf (mem s) root" "page_aligned va" "0 < n" "unat va + 4096 * n \<le> 2 ^ 38"
    and "free_pages s ps" "KmemLk \<notin> set (held s)" "2 * n \<le> length ps" "set ps \<inter> tables (mem s) root = {}"
    and "\<And>va'. va' < MAXVA \<Longrightarrow> unat (PGROUNDDOWN va' - va) < 4096 * n \<Longrightarrow> \<not> pte_valid (pte_of (mem s) root va')"
  shows "\<exists>t j. mappages root va (of_nat n * PGSIZE) pa perm s = Ok 0 t \<and> pt_wf (mem t) root \<and>
    j \<le> 2 * n \<and> free_pages t (drop j ps) \<and> tables (mem t) root = tables (mem s) root \<union> set (take j ps) \<and>
    same_except (tables (mem s) root \<union> set (take j ps)) (mem s) (mem t) \<and>
    (\<forall>va'. va' < MAXVA \<longrightarrow> pte_of (mem t) root va' =
      (if unat (PGROUNDDOWN va' - va) < 4096 * n then PA2PTE (pa + (PGROUNDDOWN va' - va)) OR perm OR PTE_V
       else pte_of (mem s) root va'))"
  using mappages_run [OF assms(1-4) _ assms(7-9), of pa perm] assms(5,6)
  by (auto simp: map_result_def kpool_def mapped_pte_def)

text \<open>Property C26. Mapping round trip: after \<open>mappages\<close> has mapped a page to a frame with user permission,
  \<open>walkaddr\<close> of every address of the page finds that frame.\<close>

theorem mappages_walkaddr:
  assumes "pt_wf (mem s) root" "page_aligned va" "unat va + 4096 \<le> 2 ^ 38"
    and "free_pages s ps" "KmemLk \<notin> set (held s)" "2 \<le> length ps" "set ps \<inter> tables (mem s) root = {}"
    and "\<not> pte_valid (pte_of (mem s) root va)"
    and "page_aligned pa" "pa < 2 ^ 56" "perm < 2 ^ 10" "perm AND PTE_U \<noteq> 0" "PGROUNDDOWN va' = va" "va' < MAXVA"
  shows "\<exists>t. seq (mappages root va PGSIZE pa perm) (walkaddr root va') s = Ok pa t"
proof -
  have free: "\<not> pte_valid (pte_of (mem s) root v)" if "v < MAXVA" "unat (PGROUNDDOWN v - va) < 4096 * 1" for v
  proof -
    have "PGROUNDDOWN v = va" using in_page_iff [OF assms(2), of "PGROUNDDOWN v"] that(2) by simp
    then have "pte_of (mem s) root v = pte_of (mem s) root va"
      using assms(2) by (intro pte_of_page) simp
    then show ?thesis using assms(8) by simp
  qed
  obtain t j where t: "mappages root va PGSIZE pa perm s = Ok 0 t" "map_result s t root va pa 1 perm ps j"
    using mappages_run [where n = 1 and pa = pa and perm = perm, OF assms(1,2) _ _ _ _ assms(7) free] assms(3-6)
    by (auto simp: kpool_def)
  have "pte_of (mem t) root va' = PA2PTE pa OR perm OR PTE_V"
    using t(2) assms(13,14) by (simp add: map_result_def mapped_pte_def)
  moreover have "perm OR PTE_V < 2 ^ 10" by (rule or_flags [OF assms(11)]) (simp add: PTE_V_def)
  then have "PTE2PA (PA2PTE pa OR (perm OR PTE_V)) = pa"
    using PTE2PA_PA2PTE assms(9,10) by blast
  moreover have "(PA2PTE pa OR (perm OR PTE_V)) AND g = (perm OR PTE_V) AND g" if "g < 2 ^ 10" for g
    by (rule PA2PTE_flags [OF that])
  ultimately have "walkaddr root va' t = Ok pa t"
    using t(2) assms(12,14) by (simp add: walkaddr_run map_result_def or.assoc pte_valid_def flags_and PTE_V_def)
  then show ?thesis using t(1) by (auto simp: seq_Ok)
qed


section \<open>Witnesses\<close>

text \<open>A cleared root table at \<open>0x80021000\<close>, and two free pages.\<close>

definition map_state :: kstate where
  "map_state = (boot_state 0x80021000 0x80008000 0x80007000)\<lparr>
     mem := write64 (\<lambda>_. 0) 0x80022000 0x80023000, freelist := 0x80022000\<rparr>"

lemma map_state_pages [simp]: "page_aligned 0x80021000" "page_aligned 0x80022000" "page_aligned 0x80023000"
  by (simp_all add: page_aligned_def PGSIZE_def)

lemma map_state_free: "free_pages map_state [0x80022000, 0x80023000]"
  by (simp add: free_pages_def map_state_def boot_state_def ram_page_def PHYSTOP_def KERNBASE_def)

lemma map_state_table: "pt_wf (mem map_state) 0x80021000" "tables (mem map_state) 0x80021000 = {0x80021000}"
  "pte_of (mem map_state) 0x80021000 va = 0"
proof -
  have "read64 (mem map_state) (0x80021000 + 8 * PX 2 va) = 0" for va
  proof -
    have "0x80021000 + 8 * PX 2 va \<noteq> 0x80022000 + 8 * PX 2 0"
      using entry_inject [of "0x80021000" "0x80022000" 2 va 2 0] by auto
    then have "read64 (write64 (\<lambda>_. 0) 0x80022000 v) (0x80021000 + 8 * PX 2 va) = 0" for v
      using PX8 [of 2 va] by (subst read64_write64_other) simp_all
    then show ?thesis by (simp add: map_state_def boot_state_def)
  qed
  then show "pt_wf (mem map_state) 0x80021000" "tables (mem map_state) 0x80021000 = {0x80021000}"
    "pte_of (mem map_state) 0x80021000 va = 0"
    by (simp_all add: pt_wf_empty)
qed

theorem mappages_correct_witness:
  "\<exists>t. mappages 0x80021000 0x3000 (of_nat 1 * PGSIZE) 0x80024000 (PTE_R OR PTE_U) map_state = Ok 0 t \<and>
    pte_of (mem t) 0x80021000 0x4000 = 0"
proof -
  have "held map_state = []" by (simp add: map_state_def boot_state_def)
  moreover have "unat (PGROUNDDOWN 0x4000 - 0x3000 :: u64) = 4096" "(0x4000 :: u64) < MAXVA"
    by (simp_all add: PGROUNDDOWN_def PGSIZE_def MAXVA_def)
  ultimately show ?thesis
    using mappages_correct [OF map_state_table(1), of "0x3000" 1 "[0x80022000, 0x80023000]" "0x80024000" "PTE_R OR PTE_U"]
      map_state_free by (auto simp: map_state_table page_aligned_def PGSIZE_def pte_valid_def)
qed

theorem mappages_walkaddr_witness:
  "\<exists>t. seq (mappages 0x80021000 0x3000 PGSIZE 0x80024000 (PTE_R OR PTE_U)) (walkaddr 0x80021000 0x3008) map_state
    = Ok 0x80024000 t"
proof -
  have "held map_state = []" by (simp add: map_state_def boot_state_def)
  moreover have "PGROUNDDOWN 0x3008 = (0x3000 :: u64)" "(0x3008 :: u64) < MAXVA"
    "PTE_R OR PTE_U < 2 ^ 10" "(PTE_R OR PTE_U) AND PTE_U \<noteq> 0"
    by (simp_all add: PGROUNDDOWN_def PGSIZE_def MAXVA_def PTE_R_def PTE_U_def)
  ultimately show ?thesis
    using mappages_walkaddr [OF map_state_table(1), of "0x3000" "[0x80022000, 0x80023000]" "0x80024000" "PTE_R OR PTE_U" "0x3008"]
      map_state_free by (simp add: map_state_table page_aligned_def PGSIZE_def pte_valid_def)
qed

end
