(* ===== verification/Xv6_Evict_Example.thy ===== *)
theory Xv6_Evict_Example
  imports Xv6_Evict
begin

text \<open>
  A concrete kernel state, with one process and one resident page, on which the properties of
  page replacement are instantiated.
\<close>

section \<open>A concrete state\<close>

text \<open>
  Process 0, pid 3, has one resident page, virtual page 0, in the frame \<open>0x80024000\<close>; its
  three table pages, the tracking node and one free page follow each other in memory. The
  flags of the leaf entry, the end of the executable and the slot bitmap are arguments.
\<close>

definition ex_mem :: "u64 \<Rightarrow> memory" where
  "ex_mem g = write64 (write64 (write64 (write32 (\<lambda>_. 0) (0x80025000 + 16) 7)
     0x80021000 (PA2PTE 0x80022000 OR PTE_V))
     0x80022000 (PA2PTE 0x80023000 OR PTE_V))
     0x80023000 (PA2PTE 0x80024000 OR g)"

definition ex_proc :: "u64 \<Rightarrow> u8 list \<Rightarrow> proc" where
  "ex_proc ee sl = boot_proc\<lparr>p_state := RUNNING, p_pid := 3, p_sz := 0x2000, p_pagetable := 0x80021000,
     p_exe_end := ee, p_fifo_seq_num := 8, p_resident_set_head := 0x80025000,
     p_resident_set_tail := 0x80025000, p_swap_slots := sl\<rparr>"

definition ex_state :: "u64 \<Rightarrow> u64 \<Rightarrow> u8 list \<Rightarrow> kstate" where
  "ex_state g ee sl = (boot_state 0x80020000 0x80008000 0x80007000)\<lparr>mem := ex_mem g,
     freelist := 0x80026000, curproc := Some 0, procs := (\<lambda>_. boot_proc)(0 := ex_proc ee sl)\<rparr>"

lemma ex_pages [simp]:
  "page_aligned 0x80021000" "page_aligned 0x80022000" "page_aligned 0x80023000" "page_aligned 0x80024000"
  "page_aligned 0x80025000" "page_aligned 0x80026000"
  by (simp_all add: page_aligned_def PGSIZE_def)

lemma ex_read_base: "aligned8 a \<Longrightarrow> PGROUNDDOWN a \<noteq> 0x80025000 \<Longrightarrow> read64 (write32 (\<lambda>_. 0) (0x80025000 + 16) 7) a = 0"
  using read64_same_except [OF same_except_write32 [of "0x80025000 + 16" "\<lambda>_. 0" 7]]
    PGROUNDDOWN_add_word [of "0x80025000" 16] aligned8_page_offset [of "0x80025000" 16]
  by simp

lemma ex_same: "page_aligned t \<Longrightarrow> page_aligned t' \<Longrightarrow> t + 8 * PX l va = t' \<longleftrightarrow> t = t' \<and> PX l va = 0"
  using entry_inject [of t t' l va l 0] by auto

lemma ex_read:
  assumes "page_aligned t" "t \<noteq> 0x80025000"
  shows "read64 (ex_mem g) (t + 8 * PX l va) =
    (if PX l va \<noteq> 0 then 0
     else if t = 0x80023000 then PA2PTE 0x80024000 OR g
     else if t = 0x80022000 then PA2PTE 0x80023000 OR PTE_V
     else if t = 0x80021000 then PA2PTE 0x80022000 OR PTE_V
     else 0)"
proof -
  let ?a = "t + 8 * PX l va"
  have "read64 (ex_mem g) ?a =
    (if ?a = 0x80023000 then PA2PTE 0x80024000 OR g
     else if ?a = 0x80022000 then PA2PTE 0x80023000 OR PTE_V
     else if ?a = 0x80021000 then PA2PTE 0x80022000 OR PTE_V
     else 0)"
    using assms ex_read_base [of ?a] by (simp add: ex_mem_def)
  then show ?thesis using assms by (simp add: ex_same)
qed

lemma ex_child:
  "child (ex_mem g) 0x80021000 (PX l va) = (if PX l va = 0 then Some 0x80022000 else None)"
  "child (ex_mem g) 0x80022000 (PX l va) = (if PX l va = 0 then Some 0x80023000 else None)"
proof -
  have v: "pte_valid (PA2PTE pa OR PTE_V)" for pa
    using PA2PTE_flags [of PTE_V pa PTE_V] by (simp add: pte_valid_def PTE_V_def)
  have p: "PTE2PA (PA2PTE 0x80022000 OR PTE_V) = 0x80022000" "PTE2PA (PA2PTE 0x80023000 OR PTE_V) = 0x80023000"
    by (rule PTE2PA_PA2PTE; simp add: PTE_V_def)+
  have z: "\<not> pte_valid 0" by (simp add: pte_valid_def)
  show "child (ex_mem g) 0x80021000 (PX l va) = (if PX l va = 0 then Some 0x80022000 else None)"
    "child (ex_mem g) 0x80022000 (PX l va) = (if PX l va = 0 then Some 0x80023000 else None)"
    using v p z by (simp_all add: child_def ex_read)
qed

lemma ex_tables:
  "table1 (ex_mem g) 0x80021000 va = (if PX 2 va = 0 then Some 0x80022000 else None)"
  "table0 (ex_mem g) 0x80021000 va = (if PX 2 va = 0 \<and> PX 1 va = 0 then Some 0x80023000 else None)"
  "tables (ex_mem g) 0x80021000 = {0x80021000, 0x80022000, 0x80023000}"
proof -
  show 1: "table1 (ex_mem g) 0x80021000 va = (if PX 2 va = 0 then Some 0x80022000 else None)" for va
    by (simp add: table1_def ex_child)
  show 0: "table0 (ex_mem g) 0x80021000 va = (if PX 2 va = 0 \<and> PX 1 va = 0 then Some 0x80023000 else None)" for va
    using ex_child(2) [of g 0 0] by (simp add: table0_def 1 ex_child)
  show "tables (ex_mem g) 0x80021000 = {0x80021000, 0x80022000, 0x80023000}"
    unfolding tables_def 1 0 by (auto intro: exI [of _ 0])
qed

lemma ex_wf: "pt_wf (ex_mem g) 0x80021000"
  unfolding pt_wf_def by (simp add: ex_tables split: if_splits)

lemma ex_pte: "pte_of (ex_mem g) 0x80021000 0 = PA2PTE 0x80024000 OR g"
  using ex_read [where t = "0x80023000" and l = 0 and va = 0] by (simp add: pte_of_def leaf_def ex_tables)

lemma ex_node:
  "read64 (ex_mem g) (rp_next 0x80025000) = 0" "read64 (ex_mem g) (rp_va 0x80025000) = 0"
  "read32 (ex_mem g) (rp_seq 0x80025000) = 7"
proof -
  have "unat (0x80025000 :: u64) = 0x80025000" "unat (0x80025000 + 8 :: u64) = 0x80025008"
    "unat (0x80025000 + 16 :: u64) = 0x80025010" by simp_all
  then have b: "read64 (write32 (\<lambda>_. 0) (0x80025000 + 16) 7) 0x80025000 = 0"
    "read64 (write32 (\<lambda>_. 0) (0x80025000 + 16) 7) (0x80025000 + 8) = 0"
    unfolding read64_def write32_def
    by (subst load_store_disjoint; simp flip: read64_def)+
  have a: "aligned8 (0x80025000 + 8)" "aligned8 (0x80025000 + 16)"
    by (rule aligned8_page_offset; simp)+
  have p: "PGROUNDDOWN (0x80025000 + 16) = 0x80025000" by (rule PGROUNDDOWN_add_word) simp_all
  show "read64 (ex_mem g) (rp_next 0x80025000) = 0" "read64 (ex_mem g) (rp_va 0x80025000) = 0"
    using b a by (simp_all add: ex_mem_def rp_next_def rp_va_def)
  have "read32 (write64 m t v) (0x80025000 + 16) = read32 m (0x80025000 + 16)"
    if "page_aligned t" "t \<noteq> 0x80025000" for m t v
    using that a p by (intro read32_same_except [OF same_except_write64]) auto
  then show "read32 (ex_mem g) (rp_seq 0x80025000) = 7"
    unfolding ex_mem_def rp_seq_def by simp
qed

lemma ex_inv:
  assumes "g < 2 ^ 10" "g AND PTE_V \<noteq> 0"
  shows "vm_inv (ex_state g ee sl) 0 [(0x80025000, 0, 7)] [0x80026000]"
proof -
  have fr: "frame_of (ex_state g ee sl) 0 0 = 0x80024000"
    using assms(1) by (simp add: frame_of_def ex_state_def ex_proc_def ex_pte PTE2PA_PA2PTE)
  have v: "pte_valid (pte_of (ex_mem g) 0x80021000 0)"
    using assms(2) PA2PTE_flags [of PTE_V "0x80024000" g] by (simp add: pte_valid_def ex_pte PTE_V_def)
  have free: "free_pages (ex_state g ee sl) [0x80026000]"
    using ex_read [where t = "0x80026000" and l = 0 and va = 0]
    by (simp add: free_pages_def ex_state_def boot_state_def ram_page_def PHYSTOP_def KERNBASE_def)
  have node: "read64 (ex_mem g) (rp_next 0x80025000) = 0" "read64 (ex_mem g) (rp_va 0x80025000) = 0"
    "read32 (ex_mem g) (rp_seq 0x80025000) = 7"
    by (rule ex_node)+
  show ?thesis
    using free node v fr
    by (simp add: vm_inv_def resident_def ex_state_def ex_proc_def boot_state_def ex_wf tail_of_def frames_def
        ram_page_def PHYSTOP_def KERNBASE_def ex_tables MAXVA_def page_aligned_def PGSIZE_def)
qed

lemma ex_leaf: "leaf (ex_mem g) 0x80021000 0 = Some 0x80023000"
  by (simp add: leaf_def ex_tables)

lemma ex_fields [simp]:
  "mem (ex_state g ee sl) = ex_mem g" "p_pagetable (procs (ex_state g ee sl) 0) = 0x80021000"
  "held (ex_state g ee sl) = []" "p_exe_end (procs (ex_state g ee sl) 0) = ee"
  "p_swap_slots (procs (ex_state g ee sl) 0) = sl" "curproc (ex_state g ee sl) = Some 0"
  "outstanding (ex_state g ee sl) = 0"
  by (simp_all add: ex_state_def ex_proc_def boot_state_def outstanding_def)

lemma ex_flags: "g < 2 ^ 10 \<Longrightarrow> pte_of (ex_mem f) 0x80021000 0 AND g = f AND g"
  by (simp add: ex_pte PA2PTE_flags)

text \<open>Flags 23 are V, R, W and U; 151 adds D.\<close>

lemma ex_clean: "pte_of (ex_mem 23) 0x80021000 0 AND PTE_D = 0"
  and ex_dirty: "pte_of (ex_mem 151) 0x80021000 0 AND PTE_D \<noteq> 0"
  by (simp_all add: ex_flags PTE_D_def)

lemma ex_inv_clean: "vm_inv (ex_state 23 ee sl) 0 [(0x80025000, 0, 7)] [0x80026000]"
  and ex_inv_dirty: "vm_inv (ex_state 151 ee sl) 0 [(0x80025000, 0, 7)] [0x80026000]"
  by (rule ex_inv; simp add: PTE_V_def)+

lemma bit_255: "bit (255 :: u8) k \<longleftrightarrow> k < 8" and bit_7: "bit (7 :: u8) k \<longleftrightarrow> k < 3"
proof -
  have "(255 :: u8) = mask 8" "(7 :: u8) = mask 3" by (simp_all add: mask_eq_exp_minus_1)
  then show "bit (255 :: u8) k \<longleftrightarrow> k < 8" "bit (7 :: u8) k \<longleftrightarrow> k < 3"
    by (auto simp only: bit_mask_iff) auto
qed

lemma used_all: "used (replicate 128 255) = {..<1024}"
proof -
  have "bit ((replicate 128 255 :: u8 list) ! (n div 8)) (n mod 8)" if "n < 1024" for n
  proof -
    have "n div 8 < 128" using that by (simp add: div_less_iff_less_mult)
    then have "(replicate 128 255 :: u8 list) ! (n div 8) = 255" by (rule nth_replicate)
    then show ?thesis by (simp only: bit_255)
  qed
  then show ?thesis by (auto simp: used_def)
qed

section \<open>Instances\<close>

theorem evict_clean_witness:
  "\<exists>t. do_page_replacement 0 (ex_state 23 0x1000 (replicate 128 0)) = Ok 1 t \<and>
    vm_inv t 0 [] [0x80025000, frame_of (ex_state 23 0x1000 (replicate 128 0)) 0 0, 0x80026000]"
  using evict_clean [OF ex_inv_clean, of "0x1000" "replicate 128 0"] by (auto simp: ex_clean)

theorem evict_swap_full_witness:
  "\<exists>t. do_page_replacement 0 (ex_state 151 0x1000 (replicate 128 255)) = Ok 1 t \<and> p_killed (procs t 0)"
  using evict_swap_full [OF ex_inv_dirty, of "0x1000" "replicate 128 255"] by (auto simp: ex_dirty used_all)

lemma ex_clean_run: "\<exists>t. do_page_replacement 0 (ex_state 23 0x1000 (replicate 128 0)) = Ok 1 t"
  using evict_clean_run(1) [OF ex_inv_clean, of "0x1000" "replicate 128 0" "0x80023000"]
  by (auto simp: ex_clean ex_leaf)

lemma ex_full_run: "\<exists>t. do_page_replacement 0 (ex_state 151 0x1000 (replicate 128 255)) = Ok 1 t"
  using evict_swap_full_run(1) [OF ex_inv_dirty, of "0x1000" "replicate 128 255" "0x80023000"]
  by (auto simp: ex_dirty used_all ex_leaf)

theorem do_page_replacement_fifo_witness:
  "\<exists>t. do_page_replacement 0 (ex_state 23 0x1000 (replicate 128 0)) = Ok 1 t \<and>
    \<not> pte_valid (pte_of (mem t) (p_pagetable (procs t 0)) 0)"
proof -
  obtain t where t: "do_page_replacement 0 (ex_state 23 0x1000 (replicate 128 0)) = Ok 1 t"
    using ex_clean_run by blast
  show ?thesis using do_page_replacement_fifo [OF ex_inv_clean t] t by auto
qed

theorem kfree_kalloc_witness:
  "\<exists>t. seq (kfree 0x80027000) kalloc (ex_state 23 0x1000 (replicate 128 0)) = Ok 0x80027000 t \<and>
    load_bytes (mem t) 0x80027000 4096 = replicate 4096 5"
proof -
  have f: "free_pages (ex_state 23 0x1000 (replicate 128 0)) [0x80026000]"
    using ex_inv_clean by (simp add: vm_inv_def)
  have "ram_page (sym_end (ex_state 23 0x1000 (replicate 128 0))) 0x80027000"
    by (simp add: ram_page_def ex_state_def boot_state_def page_aligned_def PGSIZE_def PHYSTOP_def KERNBASE_def)
  then show ?thesis using kfree_kalloc [OF f, of "0x80027000"] by auto
qed

text \<open>The process with an open swap file of which the first 67 slots are in use.\<close>

definition ex_slots67 :: "u8 list" where
  "ex_slots67 = replicate 8 255 @ [7] @ replicate 119 0"

definition ex_swapping :: kstate where
  "ex_swapping = upd_inode 1 (\<lambda>x. x\<lparr>i_ref := 1, i_valid := True\<rparr>)
     (upd_proc 0 (\<lambda>q. q\<lparr>p_swap_inode := Some 1\<rparr>) (ex_state 151 0x1000 ex_slots67))"

lemma ex_swapping_inv: "vm_inv ex_swapping 0 [(0x80025000, 0, 7)] [0x80026000]"
proof -
  have "pg_view ex_swapping = pg_view (ex_state 151 0x1000 ex_slots67)"
    by (auto simp: ex_swapping_def pg_view_def upd_inode_def upd_proc_def proc_vm_def)
  then show ?thesis using vm_inv_cong ex_inv_dirty by blast
qed

lemma ex_slots67_used: "{..<67} \<subseteq> used ex_slots67" "used ex_slots67 \<noteq> {..<1024}"
proof -
  have "n \<in> used ex_slots67" if "n < 67" for n
  proof (cases "n < 64")
    case True
    then have "n div 8 < 8" by (simp add: div_less_iff_less_mult)
    then have "ex_slots67 ! (n div 8) = 255" by (simp add: ex_slots67_def nth_append)
    then show ?thesis using True unfolding used_def by (simp only: bit_255 mem_Collect_eq) simp
  next
    case False
    then have "n = 64 \<or> n = 65 \<or> n = 66" using that by linarith
    then show ?thesis by (auto simp: used_def ex_slots67_def nth_append bit_7)
  qed
  then show "{..<67} \<subseteq> used ex_slots67" by auto
  have "100 \<notin> used ex_slots67" by (simp add: used_def ex_slots67_def nth_append)
  moreover have "(100 :: nat) \<in> {..<1024}" by simp
  ultimately show "used ex_slots67 \<noteq> {..<1024}" by metis
qed

theorem evict_beyond_limit_witness:
  "\<exists>t. do_page_replacement 0 ex_swapping = Ok 1 t \<and> pte_of (mem t) 0x80021000 0 = 0 \<and>
    disk t = disk ex_swapping"
proof -
  have f: "mem ex_swapping = ex_mem 151" "p_pagetable (procs ex_swapping 0) = 0x80021000" "held ex_swapping = []"
    "curproc ex_swapping = Some 0" "p_swap_slots (procs ex_swapping 0) = ex_slots67"
    "p_swap_inode (procs ex_swapping 0) = Some 1" "i_ref (itable ex_swapping 1) = 1"
    "i_valid (itable ex_swapping 1)" "\<not> sl_locked (i_lock (itable ex_swapping 1))"
    by (simp_all add: ex_swapping_def upd_inode_def upd_proc_def ex_state_def ex_proc_def boot_state_def)
  have l: "length ex_slots67 = 128" by (simp add: ex_slots67_def)
  show ?thesis
    using evict_beyond_limit [OF ex_swapping_inv f(3,4) _ f(6)] f l ex_slots67_used ex_dirty by auto
qed

end
