(* ===== verification/Xv6_Resident.thy ===== *)
theory Xv6_Resident
  imports Xv6_Map Xv6_Evict_Example
begin

text \<open>
  The resident set of a process as a FIFO queue: \<open>add_to_resident_set\<close>, \<open>remove_from_resident_set\<close> and
  \<open>find_seq_in_resident_set\<close>, which work on nodes linked through physical memory, implement the
  operations of a list of pages with their sequence numbers.
\<close>

section \<open>Queues of pages\<close>

type_synonym page_queue = "(u64 \<times> c_int) list"

definition q_add :: "u64 \<Rightarrow> c_int \<Rightarrow> page_queue \<Rightarrow> page_queue" where
  "q_add va sq q = q @ [(va, sq)]"

fun q_remove :: "u64 \<Rightarrow> page_queue \<Rightarrow> page_queue" where
  "q_remove va [] = []"
| "q_remove va ((v, sq) # q) = (if v = va then q else (v, sq) # q_remove va q)"

definition q_find :: "u64 \<Rightarrow> page_queue \<Rightarrow> c_int" where
  "q_find va q = (case map_of q va of None \<Rightarrow> -1 | Some sq \<Rightarrow> sq)"

section \<open>Fields of nodes\<close>

lemma read64_write32_other [simp]:
  assumes "aligned8 a" "aligned8 b" "a \<noteq> b" shows "read64 (write32 m b v) a = read64 m a"
  using aligned8_apart [OF assms] aligned8_bound [OF assms(1)] aligned8_bound [OF assms(2)]
  unfolding read64_def write32_def by (subst load_store_disjoint) auto

lemma read32_write64_other [simp]:
  assumes "aligned8 a" "aligned8 b" "a \<noteq> b" shows "read32 (write64 m b v) a = read32 m a"
  using aligned8_apart [OF assms] aligned8_bound [OF assms(1)] aligned8_bound [OF assms(2)]
  unfolding read32_def write64_def by (subst load_store_disjoint) auto

lemma node_offsets [simp]:
  "rp_va n \<noteq> rp_next n" "rp_seq n \<noteq> rp_next n" "rp_seq n \<noteq> rp_va n"
  "rp_next n \<noteq> rp_va n" "rp_next n \<noteq> rp_seq n" "rp_va n \<noteq> rp_seq n"
  by (simp_all add: rp_va_def rp_next_def rp_seq_def)

lemma same_except_next: "page_aligned n \<Longrightarrow> same_except {n} m (write64 m (rp_next n) v)"
  using same_except_write64 [of "rp_next n" m v] by simp

text \<open>Redirecting the \<open>next\<close> of a node replaces the rest of the list.\<close>

lemma rchain_relink:
  assumes "rchain m p (ys @ (q, v, sq) # zs)" "rchain m r zs'" "q \<notin> set (nodes zs')" "q \<notin> set (nodes ys)"
  shows "rchain (write64 m (rp_next q) r) p (ys @ (q, v, sq) # zs')"
  using assms(1,4)
proof (induction ys arbitrary: p)
  case Nil
  then have q: "page_aligned q" "p = q" "q \<noteq> 0" by auto
  have "rchain (write64 m (rp_next q) r) r zs'"
    using rchain_frame [OF assms(2) same_except_next [OF q(1)]] assms(3) by simp
  then show ?case using Nil q by simp
next
  case (Cons y ys)
  obtain n va s where y: "y = (n, va, s)" by (cases y)
  then have n: "page_aligned n" "p = n" "n \<noteq> 0" "n \<noteq> q" "read64 m (rp_va n) = va" "read32 m (rp_seq n) = s"
    "rchain m (read64 m (rp_next n)) (ys @ (q, v, sq) # zs)"
    using Cons.prems by auto
  have qa: "page_aligned q" using rchain_nodes [OF n(7), of "(q, v, sq)"] by simp
  have f: "same_except {q} m (write64 m (rp_next q) r)" by (rule same_except_next [OF qa])
  have rd: "read64 (write64 m (rp_next q) r) (rp_va n) = va" "read32 (write64 m (rp_next q) r) (rp_seq n) = s"
    "read64 (write64 m (rp_next q) r) (rp_next n) = read64 m (rp_next n)"
    using n read64_same_except [OF f] read32_same_except [OF f] by simp_all
  show ?case using Cons.IH [OF n(7)] Cons.prems rd n y by simp
qed

lemma rchain_node:
  assumes "page_aligned n" "n \<noteq> 0"
  shows "rchain (write64 (write32 (write64 m (rp_va n) va) (rp_seq n) sq) (rp_next n) 0) n [(n, va, sq)]"
  using assms by simp

section \<open>Adding\<close>

text \<open>What adding and removing leave alone: all but memory, the free list and the process table.\<close>

definition rest :: "kstate \<Rightarrow> kstate" where
  "rest s = s\<lparr>mem := (\<lambda>_. 0), freelist := 0, procs := (\<lambda>_. boot_proc)\<rparr>"

definition linked :: "nat \<Rightarrow> u64 \<Rightarrow> u64 \<Rightarrow> kstate \<Rightarrow> kstate" where
  "linked p h t s = upd_proc p (\<lambda>q. q\<lparr>p_resident_set_head := h, p_resident_set_tail := t\<rparr>) s"

lemma proc_same_head: "q\<lparr>p_resident_set_head := p_resident_set_head q, p_resident_set_tail := t\<rparr> = (q :: proc)\<lparr>p_resident_set_tail := t\<rparr>"
  by (rule proc.equality) simp_all

lemma add_run:
  assumes res: "resident s p xs" and free: "free_pages s (n # ps)"
    and lk: "KmemLk \<notin> set (held s)" "ProcLk p \<notin> set (held s)"
    and disj: "set (nodes xs) \<inter> set (n # ps) = {}"
  shows "\<exists>t h. add_to_resident_set p va sq s = Ok () t \<and> resident t p (xs @ [(n, va, sq)]) \<and> free_pages t ps \<and>
    same_except (insert n (set (nodes xs))) (mem s) (mem t) \<and> rest t = rest s \<and>
    procs t = (procs s)(p := (procs s p)\<lparr>p_resident_set_head := h, p_resident_set_tail := n\<rparr>)"
proof -
  note al = free_pages_allocated [OF free]
  have n: "page_aligned n" "n \<noteq> 0" using al(3) by (auto simp: ram_page_def)
  let ?u = "allocated n s"
  let ?m = "write64 (write32 (write64 (mem ?u) (rp_va n) va) (rp_seq n) sq) (rp_next n) 0"
  have f: "same_except {n} (mem s) ?m"
    using same_except_trans [OF same_except_trans [OF same_except_trans [OF al(2)
      same_except_write64 [of "rp_va n" _ va]] same_except_write32 [of "rp_seq n" _ sq]] same_except_next [OF n(1)]] n
    by simp
  have x: "rchain ?m n [(n, va, sq)]" by (rule rchain_node [OF n])
  have old: "rchain ?m (p_resident_set_head (procs s p)) xs"
    using res disj by (intro rchain_frame [OF _ f]) (auto simp: resident_def)
  have fp: "free_pages (s\<lparr>freelist := freelist ?u, mem := m'\<rparr>) ps"
    if "same_except P (mem s) m'" "set ps \<inter> P = {}" for m' P
  proof -
    have "chain m' (read64 (mem s) n) ps"
      using free that by (intro chain_frame [OF _ that(1)]) (auto simp: free_pages_def)
    then show ?thesis using free by (auto simp: free_pages_def allocated_def)
  qed
  show ?thesis
  proof (cases xs rule: rev_exhaust)
    case Nil
    let ?t = "linked p n n (s\<lparr>freelist := freelist ?u, mem := ?m\<rparr>)"
    have h: "p_resident_set_head (procs s p) = 0" using res Nil by (simp add: resident_def)
    have "add_to_resident_set p va sq s = Ok () ?t"
      using n(2) lk h kalloc_run [OF free lk(1)]
      by (simp add: add_to_resident_set_def bnd_Ok allocated_def linked_def upd_proc_def release_run)
    moreover have "resident ?t p [(n, va, sq)]"
      using x by (simp add: resident_def linked_def upd_proc_def tail_of_def)
    moreover have "free_pages ?t ps"
      using fp [OF f] al(4) by (simp add: linked_def upd_proc_def free_pages_def)
    ultimately show ?thesis using Nil f
      by (intro exI [of _ ?t] exI [of _ n]) (simp add: rest_def linked_def upd_proc_def)
  next
    case (snoc ys y)
    obtain q v s' where y: "y = (q, v, s')" by (cases y)
    let ?h = "p_resident_set_head (procs s p)" let ?m' = "write64 ?m (rp_next q) n"
    let ?t = "linked p ?h n (s\<lparr>freelist := freelist ?u, mem := ?m'\<rparr>)"
    have rc: "rchain (mem s) ?h (ys @ [(q, v, s')])" and tl: "p_resident_set_tail (procs s p) = q"
      and dist: "distinct (nodes (ys @ [(q, v, s')]))"
      using res snoc y by (auto simp: resident_def tail_of_def)
    have q: "page_aligned q" "q \<noteq> 0" "q \<noteq> n" using rchain_nodes [OF rc, of "(q, v, s')"] disj snoc y by auto
    have h: "?h \<noteq> 0" using rc by (cases ys) auto
    have run: "add_to_resident_set p va sq s = Ok () ?t"
      using n(2) lk h kalloc_run [OF free lk(1)]
      by (simp add: add_to_resident_set_def bnd_Ok allocated_def linked_def upd_proc_def release_run tl proc_same_head seq_assoc)
    have "rchain ?m' ?h (ys @ (q, v, s') # [(n, va, sq)])"
      using rchain_relink [where zs = "[]", OF _ x, of ?h ys q v s'] old snoc y q dist by simp
    then have r: "resident ?t p (xs @ [(n, va, sq)])"
      using snoc y disj dist by (auto simp: resident_def linked_def upd_proc_def tail_of_def)
    have f': "same_except (insert n (set (nodes xs))) (mem s) ?m'"
      by (rule same_except_mono [OF same_except_trans [OF f same_except_next [OF q(1)]]]) (use snoc y in auto)
    have "free_pages ?t ps"
      using fp [OF f'] al(4) disj by (simp add: linked_def upd_proc_def free_pages_def Int_commute)
    then show ?thesis using run r f'
      by (intro exI [of _ ?t] exI [of _ ?h]) (simp add: rest_def linked_def upd_proc_def)
  qed
qed

section \<open>Searching\<close>

fun rs_find :: "u64 \<Rightarrow> (u64 \<times> u64 \<times> c_int) list \<Rightarrow> u64 \<Rightarrow> u64 \<times> u64" where
  "rs_find prev [] va = (prev, 0)"
| "rs_find prev ((n, v, sq) # xs) va = (if v = va then (prev, n) else rs_find n xs va)"

lemma rs_scan_run: "rchain m p xs \<Longrightarrow> length xs < fuel \<Longrightarrow> rs_scan fuel m prev p va = Some (rs_find prev xs va)"
proof (induction fuel arbitrary: p prev xs)
  case (Suc fuel) then show ?case by (cases xs) auto
qed simp

text \<open>RAM pages are fewer than the fuel.\<close>

lemma ram_pages_bound:
  assumes "distinct ns" "\<forall>n \<in> set ns. ram_page e n" shows "length ns \<le> 557056"
proof -
  have "(\<lambda>n. unat n div 4096) ` set ns \<subseteq> {..<557056}"
    using assms(2) by (auto simp: ram_page_def word_less_nat_alt PHYSTOP_def KERNBASE_def)
  moreover have "inj_on (\<lambda>n. unat n div 4096) (set ns)"
  proof (rule inj_onI)
    fix x y assume "x \<in> set ns" "y \<in> set ns" and d: "unat x div 4096 = unat y div 4096"
    then have "unat x mod 4096 = 0" "unat y mod 4096 = 0"
      using assms(2) by (auto simp: ram_page_def page_aligned_unat)
    then have "unat x = unat y" using d by (metis div_mod_decomp)
    then show "x = y" by (simp add: word_unat_eq_iff)
  qed
  ultimately have "card (set ns) \<le> card {..<557056 :: nat}"
    using card_image card_mono finite_lessThan by metis
  then show ?thesis unfolding card_lessThan distinct_card [OF assms(1)] .
qed

lemma scan_run:
  assumes "resident s p xs" "\<forall>n \<in> set (nodes xs). ram_page e n"
  shows "rs_scan RS_FUEL (mem s) prev (p_resident_set_head (procs s p)) va = Some (rs_find prev xs va)"
proof (rule rs_scan_run)
  show "rchain (mem s) (p_resident_set_head (procs s p)) xs" using assms(1) by (simp add: resident_def)
  have "length (nodes xs) \<le> 557056" using ram_pages_bound assms by (auto simp: resident_def)
  then show "length xs < RS_FUEL" by (simp add: RS_FUEL_def nodes_def)
qed

text \<open>The two outcomes of a search.\<close>

lemma rs_find_split:
  assumes "rs_find prev xs va = (pr, c)" "\<forall>x \<in> set xs. fst x \<noteq> 0"
  shows "if c = 0 then va \<notin> (\<lambda>x. fst (snd x)) ` set xs
    else \<exists>ys sq zs. xs = ys @ (c, va, sq) # zs \<and> va \<notin> (\<lambda>x. fst (snd x)) ` set ys \<and>
      pr = (if ys = [] then prev else fst (last ys))"
  using assms
proof (induction prev xs va rule: rs_find.induct)
  case (1 prev va) then show ?case by simp
next
  case (2 prev n v sq xs va)
  show ?case
  proof (cases "v = va")
    case True
    then have "xs = xs \<and> c = n \<and> pr = prev" using "2.prems" by simp
    then show ?thesis using True "2.prems"(2) by (auto intro!: exI [of _ "[]"])
  next
    case False
    note ih = "2.IH" [OF False]
    show ?thesis
    proof (cases "c = 0")
      case True
      then show ?thesis using ih "2.prems" False by simp
    next
      case c: False
      then obtain ys sq' zs where *: "xs = ys @ (c, va, sq') # zs" "va \<notin> (\<lambda>x. fst (snd x)) ` set ys"
        "pr = (if ys = [] then n else fst (last ys))"
        using ih "2.prems" False by auto
      show ?thesis unfolding if_not_P [OF c]
        by (rule exI [of _ "(n, v, sq) # ys"], rule exI [of _ sq'], rule exI [of _ zs]) (use * False in auto)
    qed
  qed
qed


section \<open>Removing\<close>

definition vas :: "(u64 \<times> u64 \<times> c_int) list \<Rightarrow> u64 list" where
  "vas xs = map (\<lambda>x. fst (snd x)) xs"

lemma vas_simps [simp]: "vas [] = []" "vas ((n, va, sq) # xs) = va # vas xs" "vas (xs @ ys) = vas xs @ vas ys"
  by (simp_all add: vas_def)

lemma set_vas: "set (vas xs) = (\<lambda>x. fst (snd x)) ` set xs"
  by (simp add: vas_def)

lemma rchain_append_tail: "rchain m p (ys @ zs) \<Longrightarrow> \<exists>q. rchain m q zs"
proof (induction ys arbitrary: p)
  case (Cons y ys) then show ?case by (cases y) auto
qed auto

lemma remove_absent:
  assumes "resident s p xs" "\<forall>n \<in> set (nodes xs). ram_page e n" "ProcLk p \<notin> set (held s)" "va \<notin> set (vas xs)"
  shows "remove_from_resident_set p va s = Ok () s"
proof -
  have nz: "\<forall>x \<in> set xs. fst x \<noteq> 0" using assms(1) rchain_nodes by (fastforce simp: resident_def)
  obtain pr c where f: "rs_find 0 xs va = (pr, c)" by (cases "rs_find 0 xs va")
  have "c = 0" using rs_find_split [OF f nz] assms(4) by (auto simp: set_vas split: if_splits)
  then show ?thesis
    using assms(3) scan_run [OF assms(1,2), of 0 va] f
    by (simp add: remove_from_resident_set_def)
qed

text \<open>The state after node \<open>c\<close>, between \<open>ys\<close> and \<open>zs\<close>, is unlinked.\<close>

definition unlinked_at :: "nat \<Rightarrow> (u64 \<times> u64 \<times> c_int) list \<Rightarrow> u64 \<Rightarrow> kstate \<Rightarrow> kstate" where
  "unlinked_at p ys c s =
     (let nxt = read64 (mem s) (rp_next c); q = procs s p
      in linked p (if ys = [] then nxt else p_resident_set_head q)
        (if p_resident_set_tail q = c then (if ys = [] then 0 else fst (last ys)) else p_resident_set_tail q)
        (s\<lparr>mem := if ys = [] then mem s else write64 (mem s) (rp_next (fst (last ys))) nxt\<rparr>))"

lemma unlinked_at_resident:
  assumes "resident s p (ys @ (c, va, sq) # zs)"
  shows "resident (unlinked_at p ys c s) p (ys @ zs)"
    "same_except (set (nodes ys)) (mem s) (mem (unlinked_at p ys c s))"
proof -
  let ?h = "p_resident_set_head (procs s p)" let ?t = "unlinked_at p ys c s" let ?nx = "read64 (mem s) (rp_next c)"
  have rc: "rchain (mem s) ?h (ys @ (c, va, sq) # zs)" and tl: "p_resident_set_tail (procs s p) = tail_of (ys @ (c, va, sq) # zs)"
    and d: "distinct (nodes (ys @ (c, va, sq) # zs))"
    using assms by (auto simp: resident_def)
  obtain q where "rchain (mem s) q ((c, va, sq) # zs)" using rchain_append_tail [OF rc] by auto
  then have z: "rchain (mem s) ?nx zs" by auto
  have c: "p_resident_set_tail (procs s p) = c \<longleftrightarrow> zs = []"
    using tl d by (cases zs rule: rev_exhaust) (auto simp: tail_of_def)
  have tl': "(if p_resident_set_tail (procs s p) = c then (if ys = [] then 0 else fst (last ys)) else p_resident_set_tail (procs s p)) =
      tail_of (ys @ zs)"
    using tl c by (auto simp: tail_of_def)
  show "resident ?t p (ys @ zs)"
  proof (cases ys rule: rev_exhaust)
    case Nil
    then show ?thesis using z tl' d
      by (auto simp: resident_def unlinked_at_def linked_def upd_proc_def Let_def)
  next
    case (snoc ys' y)
    obtain n v sq' where y: "y = (n, v, sq')" by (cases y)
    have "rchain (write64 (mem s) (rp_next n) ?nx) ?h (ys' @ (n, v, sq') # zs)"
      using rchain_relink [of "mem s" ?h ys' n v sq' "(c, va, sq) # zs" ?nx zs] rc z d snoc y by simp
    then show ?thesis using tl' d snoc y
      by (auto simp: resident_def unlinked_at_def linked_def upd_proc_def Let_def)
  qed
  show "same_except (set (nodes ys)) (mem s) (mem ?t)"
  proof (cases ys rule: rev_exhaust)
    case Nil
    then show ?thesis by (simp add: unlinked_at_def linked_def upd_proc_def Let_def)
  next
    case (snoc ys' y)
    then have "page_aligned (fst y)" using rchain_nodes [OF rc, of y] by simp
    from same_except_next [OF this] have "same_except (set (nodes ys)) (mem s) (write64 (mem s) (rp_next (fst y)) ?nx)"
      by (rule same_except_mono) (simp add: snoc)
    then show ?thesis using snoc by (simp add: unlinked_at_def linked_def upd_proc_def Let_def)
  qed
qed

lemma remove_present:
  assumes res: "resident s p xs" and ram: "\<forall>n \<in> set (nodes xs). ram_page (sym_end s) n"
    and lk: "KmemLk \<notin> set (held s)" "ProcLk p \<notin> set (held s)" and va: "va \<in> set (vas xs)"
  obtains ys c sq zs where "xs = ys @ (c, va, sq) # zs" "va \<notin> set (vas ys)"
    "remove_from_resident_set p va s = Ok () (freed c (unlinked_at p ys c s))"
proof -
  have nz: "\<forall>x \<in> set xs. fst x \<noteq> 0" using res rchain_nodes by (fastforce simp: resident_def)
  obtain pr c where f: "rs_find 0 xs va = (pr, c)" by (cases "rs_find 0 xs va")
  have c: "c \<noteq> 0" using rs_find_split [OF f nz] va by (auto simp: set_vas split: if_splits)
  then obtain ys sq zs where s: "xs = ys @ (c, va, sq) # zs" "va \<notin> set (vas ys)"
    "pr = (if ys = [] then 0 else fst (last ys))"
    using rs_find_split [OF f nz] by (auto simp: set_vas)
  have "ys \<noteq> [] \<Longrightarrow> fst (last ys) \<noteq> 0" using nz s(1) by simp
  moreover have "ram_page (sym_end s) c" using ram s(1) by simp
  ultimately have "remove_from_resident_set p va s = Ok () (freed c (unlinked_at p ys c s))"
    using scan_run [OF res ram, of 0 va] f lk c s(3) kfree_run [of "unlinked_at p ys c s" c]
    by (auto simp: remove_from_resident_set_def seq_assoc unlinked_at_def linked_def upd_proc_def Let_def freed_def)
  then show thesis using that s by blast
qed


section \<open>The contract of a page queue\<close>

text \<open>
  \<open>rel s q k\<close> says that the state holds the queue \<open>q\<close> and has \<open>k\<close> free pages for nodes.
\<close>

locale page_tracker =
  fixes rel :: "kstate \<Rightarrow> page_queue \<Rightarrow> nat \<Rightarrow> bool"
    and add :: "u64 \<Rightarrow> c_int \<Rightarrow> unit kop"
    and rem :: "u64 \<Rightarrow> unit kop"
    and find :: "u64 \<Rightarrow> c_int kop"
  assumes add_refines: "rel s q (Suc k) \<Longrightarrow> \<exists>t. add va sq s = Ok () t \<and> rel t (q_add va sq q) k"
    and rem_refines: "rel s q k \<Longrightarrow>
      \<exists>t. rem va s = Ok () t \<and> rel t (q_remove va q) (if va \<in> fst ` set q then Suc k else k)"
    and find_refines: "rel s q k \<Longrightarrow> find va s = Ok (q_find va q) s"
begin

lemma find_added:
  assumes "rel s q (Suc k)" "va \<notin> fst ` set q"
  shows "\<exists>t. seq (add va sq) (find va) s = Ok sq t"
proof -
  obtain t where t: "add va sq s = Ok () t" "rel t (q_add va sq q) k" using add_refines [OF assms(1)] by blast
  have "map_of q va = None" using assms(2) by (simp add: map_of_eq_None_iff)
  then have "q_find va (q_add va sq q) = sq" by (simp add: q_find_def q_add_def map_add_def)
  then show ?thesis using t find_refines [OF t(2), of va] by (auto simp: seq_Ok)
qed

lemma remove_added:
  assumes "rel s q (Suc k)" "va \<notin> fst ` set q"
  shows "\<exists>t. seq (add va sq) (rem va) s = Ok () t \<and> rel t q (Suc k)"
proof -
  obtain t where t: "add va sq s = Ok () t" "rel t (q_add va sq q) k" using add_refines [OF assms(1)] by blast
  have "q_remove va (q @ [(va, sq)]) = q" using assms(2) by (induction q) auto
  then show ?thesis
    using t rem_refines [OF t(2), of va] by (auto simp: seq_Ok q_add_def)
qed

lemma add_all:
  "rel s q (length vs + k) \<Longrightarrow> \<exists>t. each (\<lambda>(va, sq). add va sq) vs s = Ok () t \<and> rel t (q @ vs) k"
proof (induction vs arbitrary: s q)
  case (Cons v vs)
  obtain va sq where v: "v = (va, sq)" by (cases v)
  obtain t where t: "add va sq s = Ok () t" "rel t (q @ [(va, sq)]) (length vs + k)"
    using add_refines [of s q "length vs + k"] Cons.prems by (auto simp: q_add_def)
  then show ?case using Cons.IH [OF t(2)] by (auto simp: v seq_Ok)
qed simp

end

text \<open>The resident set of process \<open>p\<close> in memory.\<close>

definition tracks :: "nat \<Rightarrow> kstate \<Rightarrow> page_queue \<Rightarrow> nat \<Rightarrow> bool" where
  "tracks p s q k \<longleftrightarrow> (\<exists>xs ps. resident s p xs \<and> map snd xs = q \<and> free_pages s ps \<and> length ps = k \<and>
     (\<forall>n \<in> set (nodes xs). ram_page (sym_end s) n) \<and> set (nodes xs) \<inter> set ps = {} \<and>
     KmemLk \<notin> set (held s) \<and> ProcLk p \<notin> set (held s))"

lemma set_vas_snd: "set (vas xs) = fst ` set (map snd xs)"
  by (simp add: vas_def image_image)

lemma rest_fields: "rest t = rest s \<Longrightarrow> held t = held s \<and> sym_end t = sym_end s"
proof -
  assume "rest t = rest s"
  then have "held (rest t) = held (rest s)" "sym_end (rest t) = sym_end (rest s)" by simp_all
  then show ?thesis by (simp add: rest_def)
qed

lemma tracks_add:
  assumes "tracks p s q (Suc k)"
  shows "\<exists>t. add_to_resident_set p va sq s = Ok () t \<and> tracks p t (q_add va sq q) k"
proof -
  obtain xs ps0 where x: "resident s p xs" "map snd xs = q" "free_pages s ps0" "length ps0 = Suc k"
    "\<forall>n \<in> set (nodes xs). ram_page (sym_end s) n" "set (nodes xs) \<inter> set ps0 = {}"
    "KmemLk \<notin> set (held s)" "ProcLk p \<notin> set (held s)"
    using assms unfolding tracks_def by blast
  obtain n ps where ps: "ps0 = n # ps" using x(4) by (cases ps0) auto
  obtain t where t: "add_to_resident_set p va sq s = Ok () t" "resident t p (xs @ [(n, va, sq)])"
    "free_pages t ps" "rest t = rest s"
    using add_run [OF x(1) x(3) [unfolded ps] x(7,8) x(6) [unfolded ps], of va sq] by blast
  have "ram_page (sym_end s) n" "n \<notin> set ps" using x(3) ps by (auto simp: free_pages_def)
  then have "tracks p t (q_add va sq q) k"
    unfolding tracks_def using t x ps rest_fields [OF t(4)]
    by (intro exI [of _ "xs @ [(n, va, sq)]"] exI [of _ ps]) (auto simp: q_add_def)
  then show ?thesis using t by blast
qed

lemma q_remove_split: "va \<notin> set (vas ys) \<Longrightarrow> q_remove va (map snd (ys @ (c, va, sq) # zs)) = map snd (ys @ zs)"
  by (induction ys) auto

lemma q_remove_absent: "va \<notin> fst ` set q \<Longrightarrow> q_remove va q = q"
  by (induction q) auto

lemma tracks_remove:
  assumes "tracks p s q k"
  shows "\<exists>t. remove_from_resident_set p va s = Ok () t \<and>
    tracks p t (q_remove va q) (if va \<in> fst ` set q then Suc k else k)"
proof -
  obtain xs ps where x: "resident s p xs" "map snd xs = q" "free_pages s ps" "length ps = k"
    "\<forall>n \<in> set (nodes xs). ram_page (sym_end s) n" "set (nodes xs) \<inter> set ps = {}"
    "KmemLk \<notin> set (held s)" "ProcLk p \<notin> set (held s)"
    using assms unfolding tracks_def by blast
  show ?thesis
  proof (cases "va \<in> set (vas xs)")
    case False
    then show ?thesis
      using remove_absent [OF x(1,5,8)] assms x(2) by (auto simp: q_remove_absent set_vas_snd)
  next
    case True
    obtain ys c sq zs where y: "xs = ys @ (c, va, sq) # zs" "va \<notin> set (vas ys)"
      "remove_from_resident_set p va s = Ok () (freed c (unlinked_at p ys c s))"
      using remove_present [OF x(1,5,7,8) True] .
    let ?u = "unlinked_at p ys c s" let ?t = "freed c ?u"
    note u = unlinked_at_resident [OF x(1) [unfolded y(1)]]
    have f: "sym_end ?u = sym_end s" "held ?u = held s" "freelist ?u = freelist s"
      by (simp_all add: unlinked_at_def linked_def upd_proc_def Let_def)
    have c: "ram_page (sym_end s) c" "page_aligned c" "c \<notin> set ps" "c \<notin> set (nodes (ys @ zs))"
      using x(1,5,6) y(1) by (auto simp: ram_page_def resident_def)
    have "free_pages ?u ps"
      using x(3,6) f y(1) by (intro free_pages_frame [OF x(3) u(2)]) auto
    then have fp: "free_pages ?t (c # ps)" using c f by (intro free_pages_freed) simp_all
    have "resident ?t p (ys @ zs)"
      using u(1) c(4) rchain_frame [OF _ same_except_freed [OF c(2)], of ?u]
      by (simp add: resident_def freed_def)
    then have "tracks p ?t (q_remove va q) (Suc k)"
      unfolding tracks_def using x y f c fp
      by (intro exI [of _ "ys @ zs"] exI [of _ "c # ps"])
         (auto simp: q_remove_split [of va ys c sq zs, simplified] freed_def)
    then show ?thesis using y(3) True x(2) by (auto simp: set_vas_snd)
  qed
qed

lemma tracks_find:
  assumes "tracks p s q k" shows "find_seq_in_resident_set p va s = Ok (q_find va q) s"
proof -
  obtain xs where x: "resident s p xs" "map snd xs = q" "\<forall>n \<in> set (nodes xs). ram_page (sym_end s) n" "ProcLk p \<notin> set (held s)"
    using assms unfolding tracks_def by blast
  have rc: "rchain (mem s) (p_resident_set_head (procs s p)) xs" using x(1) by (simp add: resident_def)
  then have nz: "\<forall>x \<in> set xs. fst x \<noteq> 0" using rchain_nodes by fastforce
  obtain pr c where f: "rs_find 0 xs va = (pr, c)" by (cases "rs_find 0 xs va")
  note sp = rs_find_split [OF f nz]
  show ?thesis
  proof (cases "c = 0")
    case True
    then have "map_of q va = None" using sp x(2) set_vas_snd [of xs] by (auto simp: map_of_eq_None_iff set_vas)
    then show ?thesis using True scan_run [OF x(1,3), of 0 va] f x(4)
      by (simp add: find_seq_in_resident_set_def q_find_def)
  next
    case False
    then obtain ys sq zs where y: "xs = ys @ (c, va, sq) # zs" "va \<notin> set (vas ys)"
      using sp by (auto simp: set_vas)
    have "map_of (map snd ys) va = None" using y(2) by (simp add: map_of_eq_None_iff set_vas_snd)
    then have "map_of q va = Some sq" using x(2) y(1) by (auto simp: map_add_def)
    moreover have "read32 (mem s) (rp_seq c) = sq"
      using rchain_append_tail [OF rc [unfolded y(1)]] by auto
    ultimately show ?thesis using False scan_run [OF x(1,3), of 0 va] f x(4)
      by (simp add: find_seq_in_resident_set_def q_find_def)
  qed
qed

interpretation rs: page_tracker "tracks p" "add_to_resident_set p" "remove_from_resident_set p"
    "find_seq_in_resident_set p" for p
  by unfold_locales (fact tracks_add tracks_remove tracks_find)+


section \<open>Properties\<close>

text \<open>Property C6. The resident set implements a FIFO queue of pages: with a free page for a node,
  \<open>add_to_resident_set\<close> appends the page and its sequence number at the end; \<open>remove_from_resident_set\<close>
  deletes the first entry of a page, wherever it stands in the list, and returns its node to the free
  list; \<open>find_seq_in_resident_set\<close> gives the page's sequence number, or -1, and changes nothing.\<close>

theorem resident_set_refines_queue:
  assumes "tracks p s q (Suc k)"
  shows "(\<exists>t. add_to_resident_set p va sq s = Ok () t \<and> tracks p t (q_add va sq q) k) \<and>
    (\<exists>t. remove_from_resident_set p va s = Ok () t \<and>
      tracks p t (q_remove va q) (if va \<in> fst ` set q then Suc (Suc k) else Suc k)) \<and>
    find_seq_in_resident_set p va s = Ok (q_find va q) s"
  using rs.add_refines [OF assms] rs.rem_refines [OF assms] rs.find_refines [OF assms] by blast

lemma ex_tracks: "tracks 0 (ex_state 23 0x1000 (replicate 128 0)) [(0, 7)] (Suc 0)"
proof -
  have i: "vm_inv (ex_state 23 0x1000 (replicate 128 0)) 0 [(0x80025000, 0, 7)] [0x80026000]" by (rule ex_inv_clean)
  have "held (ex_state 23 0x1000 (replicate 128 0)) = []" by (simp add: ex_state_def boot_state_def)
  then show ?thesis
    unfolding tracks_def using i
    by (intro exI [of _ "[(0x80025000, 0, 7)]"] exI [of _ "[0x80026000]"]) (simp add: vm_inv_def)
qed

theorem resident_set_refines_queue_witness:
  "\<exists>t. add_to_resident_set 0 0x1000 8 (ex_state 23 0x1000 (replicate 128 0)) = Ok () t \<and> tracks 0 t [(0, 7), (0x1000, 8)] 0"
  using resident_set_refines_queue [OF ex_tracks, of "0x1000" 8] by (simp add: q_add_def)

end
