(* ===== verification/Xv6_Fault.thy ===== *)
theory Xv6_Fault
  imports Xv6_Vm
begin

text \<open>
  The rest of kernel/vm.c: the demand-paging handler \<open>vmfault\<close> with the executable headers it reads
  (kernel/elf.h), and the copies between kernel and user memory; with the parts of kernel/proc.c
  they share with their callers: \<open>either_copyout\<close>, \<open>either_copyin\<close>, \<open>killed\<close> and \<open>setkilled\<close>.
\<close>

section \<open>Executable headers (kernel/elf.h)\<close>

definition ELF_MAGIC :: u32 where [const_defs]: "ELF_MAGIC = 0x464C457F"
definition ELF_PROG_LOAD :: u32 where [const_defs]: "ELF_PROG_LOAD = 1"
definition ELF_PROG_FLAG_EXEC :: u32 where [const_defs]: "ELF_PROG_FLAG_EXEC = 1"
definition ELF_PROG_FLAG_WRITE :: u32 where [const_defs]: "ELF_PROG_FLAG_WRITE = 2"
definition ELF_PROG_FLAG_READ :: u32 where [const_defs]: "ELF_PROG_FLAG_READ = 4"

text \<open>The fields the kernel reads, of the 64 bytes of a file header and the 56 of a program header.\<close>

record elfhdr =
  e_magic :: u32
  e_entry :: u64
  e_phoff :: u64
  e_phnum :: u16

record proghdr =
  ph_type :: u32
  ph_flags :: u32
  ph_off :: u64
  ph_vaddr :: u64
  ph_filesz :: u64
  ph_memsz :: u64

definition decode_elfhdr :: "u8 list \<Rightarrow> elfhdr" where
  "decode_elfhdr bs = \<lparr>e_magic = get32 bs 0, e_entry = get64 bs 24, e_phoff = get64 bs 32,
     e_phnum = get16 bs 56\<rparr>"

definition decode_proghdr :: "u8 list \<Rightarrow> proghdr" where
  "decode_proghdr bs = \<lparr>ph_type = get32 bs 0, ph_flags = get32 bs 4, ph_off = get64 bs 8,
     ph_vaddr = get64 bs 16, ph_filesz = get64 bs 32, ph_memsz = get64 bs 40\<rparr>"

definition read_elfhdr :: "nat \<Rightarrow> elfhdr option kop" where
  "read_elfhdr ip =
     bnd (readi to_local [] ip 0 64) (\<lambda>(n, bs).
     ret (if n \<noteq> 64 then None else Some (decode_elfhdr bs)))"

definition read_proghdr :: "nat \<Rightarrow> u32 \<Rightarrow> proghdr option kop" where
  "read_proghdr ip off =
     bnd (readi to_local [] ip off 56) (\<lambda>(n, bs).
     ret (if n \<noteq> 56 then None else Some (decode_proghdr bs)))"

section \<open>Killed processes (kernel/proc.c)\<close>

definition setkilled :: "nat \<Rightarrow> unit kop" where
  "setkilled p =
     seq (acquire (ProcLk p)) (
     seq (modify (upd_proc p (\<lambda>q. q\<lparr>p_killed := True\<rparr>))) (
     release (ProcLk p)))"

definition killed :: "nat \<Rightarrow> bool kop" where
  "killed p =
     seq (acquire (ProcLk p)) (
     bnd (gets (\<lambda>s. p_killed (procs s p))) (\<lambda>k.
     seq (release (ProcLk p)) (
     ret k)))"

section \<open>Demand paging\<close>

text \<open>The trapframe fields the kernel uses, by their offsets in \<open>struct trapframe\<close>.\<close>

definition tf_epc :: "u64 \<Rightarrow> u64" where "tf_epc tf = tf + 24"
definition tf_sp :: "u64 \<Rightarrow> u64" where "tf_sp tf = tf + 48"
definition tf_a :: "nat \<Rightarrow> u64 \<Rightarrow> u64" where "tf_a n tf = tf + 112 + 8 * of_nat n"

text \<open>
  The end of each successful branch: track the page under the process's next sequence number,
  print the two messages, advance the number.
\<close>

definition page_in_done :: "nat \<Rightarrow> u64 \<Rightarrow> (c_int \<Rightarrow> u64 \<Rightarrow> kmsg) \<Rightarrow> unit kop" where
  "page_in_done p va what =
     bnd (gets (\<lambda>s. p_fifo_seq_num (procs s p))) (\<lambda>sq.
     seq (add_to_resident_set p va sq) (
     bnd (gets (\<lambda>s. procs s p)) (\<lambda>q.
     seq (printk (what (p_pid q) va)) (
     seq (printk (RESIDENT (p_pid q) va (p_fifo_seq_num q))) (
     modify (upd_proc p (\<lambda>q. q\<lparr>p_fifo_seq_num := p_fifo_seq_num q + 1\<rparr>)))))))"

text \<open>The stack-growth and heap branches: a zeroed page with read and write permission.\<close>

definition fault_anon :: "nat \<Rightarrow> u64 \<Rightarrow> u64 \<Rightarrow> u64 kop" where
  "fault_anon p va pa =
     bnd (gets (\<lambda>s. p_pagetable (procs s p))) (\<lambda>pt.
     bnd (mappages pt va PGSIZE pa (PTE_W OR PTE_R OR PTE_U OR PTE_V)) (\<lambda>r.
     if r \<noteq> 0 then seq (kfree pa) (ret 0) else
     seq (page_in_done p va ALLOC) (
     ret pa)))"

definition segment_perms :: "u32 \<Rightarrow> u64" where
  "segment_perms flags =
     PTE_U OR PTE_V OR (if flags AND ELF_PROG_FLAG_EXEC \<noteq> 0 then PTE_X else 0)
       OR (if flags AND ELF_PROG_FLAG_WRITE \<noteq> 0 then PTE_W else 0)
       OR (if flags AND ELF_PROG_FLAG_READ \<noteq> 0 then PTE_R else 0)"

text \<open>How many bytes of the page at \<open>va\<close> come from the file; the rest is bss.\<close>

definition segment_filesz :: "proghdr \<Rightarrow> u64 \<Rightarrow> u32" where
  "segment_filesz ph va =
     (if ph_filesz ph \<le> va - ph_vaddr ph then 0
      else if ph_filesz ph < va - ph_vaddr ph + PGSIZE then ucast (ph_filesz ph - (va - ph_vaddr ph))
      else 4096)"

text \<open>
  The page at \<open>va\<close> of segment \<open>ph\<close>: read its file part, map it, track it. \<open>False\<close> is the error exit,
  after which the inode has been unlocked and the page freed.
\<close>

definition fault_segment :: "nat \<Rightarrow> nat \<Rightarrow> u64 \<Rightarrow> u64 \<Rightarrow> proghdr \<Rightarrow> bool kop" where
  "fault_segment p ip va pa ph =
     (let filesz = segment_filesz ph va in
     bnd (if filesz > 0 then readi (to_kernel pa) () ip (ucast (ph_off ph + (va - ph_vaddr ph))) filesz
          else ret (0, ())) (\<lambda>(n, _).
     if filesz > 0 \<and> n \<noteq> sint filesz then
       seq (iunlock ip) (seq (kfree pa) (ret False))
     else
       bnd (gets (\<lambda>s. p_pagetable (procs s p))) (\<lambda>pt.
       bnd (mappages pt va PGSIZE pa (segment_perms (ph_flags ph))) (\<lambda>r.
       if r \<noteq> 0 then seq (iunlock ip) (seq (kfree pa) (ret False)) else
       seq (page_in_done p va LOADEXEC) (
       ret True)))))"

text \<open>
  The search for the segment that holds \<open>va\<close>, \<open>n\<close> headers from offset \<open>off\<close>. \<open>Some found\<close> leaves the
  loop with the inode still locked; \<open>None\<close> is an error exit inside it.
\<close>

fun fault_exec_loop :: "nat \<Rightarrow> nat \<Rightarrow> nat \<Rightarrow> u64 \<Rightarrow> u64 \<Rightarrow> u32 \<Rightarrow> bool option kop" where
  "fault_exec_loop 0 p ip va pa off = ret (Some False)"
| "fault_exec_loop (Suc n) p ip va pa off =
     bnd (read_proghdr ip off) (\<lambda>r.
     case r of
       None \<Rightarrow> seq (iunlock ip) (seq (kfree pa) (ret None))
     | Some ph \<Rightarrow>
         if va \<ge> ph_vaddr ph \<and> va < ph_vaddr ph + ph_memsz ph
         then bnd (fault_segment p ip va pa ph) (\<lambda>ok. ret (if ok then Some True else None))
         else fault_exec_loop n p ip va pa (off + 56))"

definition fault_exec :: "nat \<Rightarrow> u64 \<Rightarrow> u64 \<Rightarrow> u64 kop" where
  "fault_exec p va pa =
     bnd (gets (\<lambda>s. p_exe_inode (procs s p))) (\<lambda>ei.
     case ei of
       None \<Rightarrow> seq (kfree pa) (ret 0)
     | Some ip \<Rightarrow>
         seq (ilock ip) (
         bnd (read_elfhdr ip) (\<lambda>r.
         case r of
           None \<Rightarrow> seq (iunlock ip) (seq (kfree pa) (ret 0))
         | Some elf \<Rightarrow>
             bnd (fault_exec_loop (unat (e_phnum elf)) p ip va pa (ucast (e_phoff elf))) (\<lambda>r.
             case r of
               None \<Rightarrow> ret 0
             | Some found \<Rightarrow>
                 seq (iunlock ip) (
                 if found then ret pa else seq (kfree pa) (ret 0))))))"

definition vmfault :: "u64 \<Rightarrow> u64 \<Rightarrow> u64 kop" where
  "vmfault pagetable va0 =
     bnd myproc (\<lambda>mp.
     (let va = PGROUNDDOWN va0 in
     bnd (ismapped pagetable va) (\<lambda>mapped.
     if mapped then ret 0 else
     bnd kalloc (\<lambda>pa.
     if pa = 0 then ret 0 else
     seq (fill_page pa 0) (
     bnd (nonnull mp) (\<lambda>p.
     bnd (gets (\<lambda>s. procs s p)) (\<lambda>q.
     if va \<ge> p_sz q then
       bnd (load64 (tf_sp (p_trapframe q))) (\<lambda>sp.
       if va < sp \<and> va \<ge> sp - PGSIZE then fault_anon p va pa
       else seq (kfree pa) (ret 0))
     else if va \<ge> p_exe_end q then fault_anon p va pa
     else fault_exec p va pa)))))))"

section \<open>Copies between kernel and user memory\<close>

text \<open>
  \<open>copyout\<close> takes the bytes to copy; every turn of its loop copies at least one. \<open>copyin\<close> gives the
  bytes it copied, all that were asked for exactly when the flag, which stands for the result 0,
  is set.
\<close>

fun copyout_loop :: "nat \<Rightarrow> u64 \<Rightarrow> u64 \<Rightarrow> u8 list \<Rightarrow> int kop" where
  "copyout_loop 0 pagetable dstva src = (if src = [] then ret 0 else diverge)"
| "copyout_loop (Suc fuel) pagetable dstva src =
     (if src = [] then ret 0 else
      (let va0 = PGROUNDDOWN dstva in
      if va0 \<ge> MAXVA then ret (-1) else
      bnd (walkaddr pagetable va0) (\<lambda>a.
      bnd (if a = 0 then vmfault pagetable va0 else ret a) (\<lambda>pa0.
      if pa0 = 0 then ret (-1) else
      bnd (walk0 pagetable va0) (\<lambda>pte.
      if pte = 0 then panic ''kerneltrap'' else
      bnd (load64 pte) (\<lambda>e.
      if e AND PTE_W = 0 then ret (-1) else
      (let n = min (unat (PGSIZE - (dstva - va0))) (length src) in
      seq (modify (upd_mem (\<lambda>m. store_bytes m (pa0 + (dstva - va0)) (take n src)))) (
      copyout_loop fuel pagetable (va0 + PGSIZE) (drop n src)))))))))"

definition copyout :: "u64 \<Rightarrow> u64 \<Rightarrow> u8 list \<Rightarrow> int kop" where
  "copyout pagetable dstva src = copyout_loop (length src) pagetable dstva src"

fun copyin_loop :: "nat \<Rightarrow> u64 \<Rightarrow> u64 \<Rightarrow> nat \<Rightarrow> u8 list \<Rightarrow> (u8 list \<times> bool) kop" where
  "copyin_loop 0 pagetable srcva len dst = (if len = 0 then ret (dst, True) else diverge)"
| "copyin_loop (Suc fuel) pagetable srcva len dst =
     (if len = 0 then ret (dst, True) else
      (let va0 = PGROUNDDOWN srcva in
      bnd (walkaddr pagetable va0) (\<lambda>a.
      bnd (if a = 0 then vmfault pagetable va0 else ret a) (\<lambda>pa0.
      if pa0 = 0 then ret (dst, False) else
      (let n = min (unat (PGSIZE - (srcva - va0))) len in
      bnd (gets (\<lambda>s. load_bytes (mem s) (pa0 + (srcva - va0)) n)) (\<lambda>bs.
      copyin_loop fuel pagetable (va0 + PGSIZE) (len - n) (dst @ bs)))))))"

definition copyin :: "u64 \<Rightarrow> u64 \<Rightarrow> nat \<Rightarrow> (u8 list \<times> bool) kop" where
  "copyin pagetable srcva len = copyin_loop len pagetable srcva len []"

text \<open>
  \<open>copyinstr\<close> gives the string without its NUL, \<open>None\<close> where the code returns -1: an unmapped
  page, or no NUL among the first \<open>max\<close> bytes. It does not call \<open>vmfault\<close>.
\<close>

fun copyinstr_loop :: "nat \<Rightarrow> u64 \<Rightarrow> u64 \<Rightarrow> nat \<Rightarrow> u8 list \<Rightarrow> u8 list option kop" where
  "copyinstr_loop 0 pagetable srcva mx dst = (if mx = 0 then ret None else diverge)"
| "copyinstr_loop (Suc fuel) pagetable srcva mx dst =
     (if mx = 0 then ret None else
      (let va0 = PGROUNDDOWN srcva in
      bnd (walkaddr pagetable va0) (\<lambda>pa0.
      if pa0 = 0 then ret None else
      (let n = min (unat (PGSIZE - (srcva - va0))) mx in
      bnd (gets (\<lambda>s. load_bytes (mem s) (pa0 + (srcva - va0)) n)) (\<lambda>bs.
      if 0 \<in> set bs then ret (Some (dst @ takeWhile (\<lambda>c. c \<noteq> 0) bs))
      else copyinstr_loop fuel pagetable (va0 + PGSIZE) (mx - n) (dst @ bs))))))"

definition copyinstr :: "u64 \<Rightarrow> u64 \<Rightarrow> nat \<Rightarrow> u8 list option kop" where
  "copyinstr pagetable srcva mx = copyinstr_loop mx pagetable srcva mx []"

definition either_copyout :: "bool \<Rightarrow> u64 \<Rightarrow> u8 list \<Rightarrow> int kop" where
  "either_copyout user_dst dst src =
     bnd myproc (\<lambda>mp.
     if user_dst then
       bnd (nonnull mp) (\<lambda>p.
       bnd (gets (\<lambda>s. p_pagetable (procs s p))) (\<lambda>pt.
       copyout pt dst src))
     else
       seq (modify (upd_mem (\<lambda>m. store_bytes m dst src))) (
       ret 0))"

definition either_copyin :: "bool \<Rightarrow> u64 \<Rightarrow> nat \<Rightarrow> (u8 list \<times> bool) kop" where
  "either_copyin user_src src len =
     bnd myproc (\<lambda>mp.
     if user_src then
       bnd (nonnull mp) (\<lambda>p.
       bnd (gets (\<lambda>s. p_pagetable (procs s p))) (\<lambda>pt.
       copyin pt src len))
     else gets (\<lambda>s. (load_bytes (mem s) src len, True)))"

text \<open>The destination of \<open>readi\<close> and the source of \<open>writei\<close> when they are called with a user address.\<close>

definition to_user :: "u64 \<Rightarrow> unit \<Rightarrow> nat \<Rightarrow> u8 list \<Rightarrow> unit option kop" where
  "to_user dst acc tot bs =
     bnd (either_copyout True (dst + of_nat tot) bs) (\<lambda>r.
     ret (if r = -1 then None else Some ()))"

definition from_user :: "u64 \<Rightarrow> nat \<Rightarrow> nat \<Rightarrow> (u8 list \<times> bool) kop" where
  "from_user src tot m = either_copyin True (src + of_nat tot) m"

end
