(* ===== verification/Xv6_Console.thy ===== *)
theory Xv6_Console
  imports Xv6_Fault
begin

text \<open>
  kernel/uart.c and kernel/console.c. The UART's registers are the environment: what the line status
  register says and the characters that have arrived are arguments of the interrupt handler, and
  the bytes written to the transmit register are recorded in \<open>uart_out\<close>.
\<close>

section \<open>The UART\<close>

fun uartwrite_loop :: "u8 list \<Rightarrow> unit kop" where
  "uartwrite_loop [] = release TxLk"
| "uartwrite_loop (b # bs) =
     bnd (gets tx_busy) (\<lambda>busy.
     if busy then sleep ChTx TxLk else
     seq (modify (\<lambda>s. s\<lparr>uart_out := uart_out s @ [b], tx_busy := True\<rparr>)) (
     uartwrite_loop bs))"

definition uartwrite :: "u8 list \<Rightarrow> unit kop" where
  "uartwrite bs = seq (acquire TxLk) (uartwrite_loop bs)"

definition uartputc_sync :: "u8 \<Rightarrow> unit kop" where
  "uartputc_sync c = modify (\<lambda>s. s\<lparr>uart_out := uart_out s @ [c]\<rparr>)"

section \<open>Console output\<close>

definition BACKSPACE :: c_int where "BACKSPACE = 0x100"

definition consputc :: "c_int \<Rightarrow> unit kop" where
  "consputc c =
     (if c = BACKSPACE then
        seq (uartputc_sync 8) (seq (uartputc_sync 32) (uartputc_sync 8))
      else uartputc_sync (ucast c))"

fun consolewrite_loop :: "nat \<Rightarrow> bool \<Rightarrow> u64 \<Rightarrow> nat \<Rightarrow> nat \<Rightarrow> int kop" where
  "consolewrite_loop 0 user_src src n i = (if i < n then diverge else ret (int i))"
| "consolewrite_loop (Suc fuel) user_src src n i =
     (if i < n then
        (let nn = min 32 (n - i) in
        bnd (either_copyin user_src (src + of_nat i) nn) (\<lambda>(bs, ok).
        if \<not> ok then ret (int i) else
        seq (uartwrite bs) (
        consolewrite_loop fuel user_src src n (i + nn))))
      else ret (int i))"

definition consolewrite :: "bool \<Rightarrow> u64 \<Rightarrow> int \<Rightarrow> int kop" where
  "consolewrite user_src src n = consolewrite_loop (nat n) user_src src (nat n) 0"

section \<open>Console input\<close>

definition INPUT_BUF_SIZE :: nat where "INPUT_BUF_SIZE = 128"

definition cons_get :: "kstate \<Rightarrow> u32 \<Rightarrow> u8" where
  "cons_get s i = cons_buf s ! (unat i mod INPUT_BUF_SIZE)"

text \<open>
  The loop of \<open>consoleread\<close> with \<open>n\<close> bytes still wanted of \<open>target\<close>; \<open>4\<close> is control-D, \<open>10\<close> newline.
\<close>

fun consoleread_loop :: "nat \<Rightarrow> bool \<Rightarrow> u64 \<Rightarrow> nat \<Rightarrow> int kop" where
  "consoleread_loop 0 user_dst dst target = seq (release ConsLk) (ret (int target))"
| "consoleread_loop (Suc n) user_dst dst target =
     bnd (gets (\<lambda>s. cons_r s = cons_w s)) (\<lambda>empty_buf.
     if empty_buf then
       bnd myproc (\<lambda>mp. bnd (nonnull mp) (\<lambda>p.
       bnd (killed p) (\<lambda>k.
       if k then seq (release ConsLk) (ret (-1))
       else sleep ChCons ConsLk)))
     else
       bnd (gets (\<lambda>s. cons_get s (cons_r s))) (\<lambda>c.
       seq (modify (\<lambda>s. s\<lparr>cons_r := cons_r s + 1\<rparr>)) (
       if c = 4 then
         seq (if Suc n < target then modify (\<lambda>s. s\<lparr>cons_r := cons_r s - 1\<rparr>) else skip) (
         seq (release ConsLk) (
         ret (int (target - Suc n))))
       else
         bnd (either_copyout user_dst dst [c]) (\<lambda>r.
         if r = -1 then seq (release ConsLk) (ret (int (target - Suc n)))
         else if c = 10 then seq (release ConsLk) (ret (int (target - n)))
         else consoleread_loop n user_dst (dst + 1) target))))"

definition consoleread :: "bool \<Rightarrow> u64 \<Rightarrow> int \<Rightarrow> int kop" where
  "consoleread user_dst dst n = seq (acquire ConsLk) (consoleread_loop (nat n) user_dst dst (nat n))"

text \<open>\<open>procdump\<close> of kernel/proc.c: one line for each process in use.\<close>

definition procdump :: "unit kop" where
  "procdump =
     seq (printk (MSG ''newline'')) (
     each (\<lambda>p.
       bnd (gets (\<lambda>s. procs s p)) (\<lambda>q.
       if p_state q = UNUSED then skip
       else printk (PROCDUMP (p_pid q) (p_state q) (p_name q)))) [0..<NPROC])"

lemma word_pred_less: "(x :: 'a::len word) \<noteq> 0 \<Longrightarrow> unat (x - 1) < unat x"
  by (simp add: unat_minus_one unat_gt_0)

text \<open>Control-U: the edit index after erasing back to the last newline or to \<open>w\<close>.\<close>

function kill_line :: "u8 list \<Rightarrow> u32 \<Rightarrow> u32 \<Rightarrow> u32" where
  "kill_line cb w e =
     (if e \<noteq> w \<and> cb ! (unat (e - 1) mod INPUT_BUF_SIZE) \<noteq> 10 then kill_line cb w (e - 1) else e)"
  by pat_completeness auto

termination
proof (relation "measure (\<lambda>(cb, w, e). unat (e - w))")
  fix cb :: "u8 list" and w e :: u32
  assume "e \<noteq> w \<and> cb ! (unat (e - 1) mod INPUT_BUF_SIZE) \<noteq> 10"
  then have "unat ((e - w) - 1) < unat (e - w)" by (intro word_pred_less) simp
  then show "((cb, w, e - 1), cb, w, e) \<in> measure (\<lambda>(cb, w, e). unat (e - w))"
    by (simp add: diff_right_commute [of e 1 w])
qed simp

declare kill_line.simps [simp del]

definition cons_key :: "c_int \<Rightarrow> unit kop" where
  "cons_key c0 =
     bnd (gets (\<lambda>s. unat (cons_e s - cons_r s) < INPUT_BUF_SIZE)) (\<lambda>room.
     if c0 \<noteq> 0 \<and> room then
       (let c = (if c0 = 13 then 10 else c0) in
       seq (consputc c) (
       seq (modify (\<lambda>s. s\<lparr>cons_buf := (cons_buf s)[unat (cons_e s) mod INPUT_BUF_SIZE := ucast c],
                         cons_e := cons_e s + 1\<rparr>)) (
       bnd (gets (\<lambda>s. c = 10 \<or> c = 4 \<or> unat (cons_e s - cons_r s) = INPUT_BUF_SIZE)) (\<lambda>line.
       if line then
         seq (modify (\<lambda>s. s\<lparr>cons_w := cons_e s\<rparr>)) (
         wakeup ChCons)
       else skip))))
     else skip)"

definition consoleintr :: "c_int \<Rightarrow> unit kop" where
  "consoleintr c =
     seq (acquire ConsLk) (
     seq (if c = 16 then procdump
          else if c = 21 then
            bnd (gets (\<lambda>s. (cons_e s, kill_line (cons_buf s) (cons_w s) (cons_e s)))) (\<lambda>(e, e').
            seq (each (\<lambda>_. consputc BACKSPACE) [0..<unat (e - e')]) (
            modify (\<lambda>s. s\<lparr>cons_e := e'\<rparr>)))
          else if c = 8 \<or> c = 0x7f then
            bnd (gets (\<lambda>s. cons_e s \<noteq> cons_w s)) (\<lambda>b.
            if b then
              seq (modify (\<lambda>s. s\<lparr>cons_e := cons_e s - 1\<rparr>)) (
              consputc BACKSPACE)
            else skip)
          else cons_key c) (
     release ConsLk))"

text \<open>\<open>uartintr\<close>: \<open>tx_idle\<close> is bit \<open>LSR_TX_IDLE\<close> of the line status register, \<open>input\<close> the waiting characters.\<close>

definition uartintr :: "bool \<Rightarrow> u8 list \<Rightarrow> unit kop" where
  "uartintr tx_idle input =
     seq (acquire TxLk) (
     seq (if tx_idle then
            seq (modify (\<lambda>s. s\<lparr>tx_busy := False\<rparr>)) (
            wakeup ChTx)
          else skip) (
     seq (release TxLk) (
     each (\<lambda>c. consoleintr (ucast c)) input)))"

definition consoleinit :: "unit kop" where
  "consoleinit = modify (\<lambda>s. s\<lparr>devsw_console := True\<rparr>)"

end
