(* ===== verification/Xv6_File.thy ===== *)
theory Xv6_File
  imports Xv6_Console
begin

text \<open>
  kernel/file.c and kernel/pipe.c: the table of open files, and pipes, which live in a page of physical
  memory of their own; with \<open>stati\<close> of kernel/fs.c. A pointer to \<open>struct file\<close> is an index into
  \<open>ftable\<close>.
\<close>

section \<open>Pipes: fields\<close>

definition PIPESIZE :: nat where "PIPESIZE = 512"

text \<open>\<open>struct pipe\<close>: the lock takes 24 bytes, then the data, then the counters and flags.\<close>

definition pi_data :: "u64 \<Rightarrow> u32 \<Rightarrow> u64" where
  "pi_data pi i = pi + 24 + of_nat (unat i mod PIPESIZE)"

definition pi_nread :: "u64 \<Rightarrow> u64" where "pi_nread pi = pi + 536"
definition pi_nwrite :: "u64 \<Rightarrow> u64" where "pi_nwrite pi = pi + 540"
definition pi_readopen :: "u64 \<Rightarrow> u64" where "pi_readopen pi = pi + 544"
definition pi_writeopen :: "u64 \<Rightarrow> u64" where "pi_writeopen pi = pi + 548"

definition load8 :: "u64 \<Rightarrow> u8 kop" where
  "load8 a = gets (\<lambda>s. mem s a)"

definition store8 :: "u64 \<Rightarrow> u8 \<Rightarrow> unit kop" where
  "store8 a v = modify (upd_mem (\<lambda>m. m(a := v)))"

section \<open>The file table\<close>

fun file_scan :: "(nat \<Rightarrow> kfile) \<Rightarrow> nat list \<Rightarrow> nat option" where
  "file_scan ft [] = None"
| "file_scan ft (f # fs) = (if f_ref (ft f) = 0 then Some f else file_scan ft fs)"

definition filealloc :: "nat option kop" where
  "filealloc =
     seq (acquire FtableLk) (
     bnd (gets (\<lambda>s. file_scan (ftable s) [0..<NFILE])) (\<lambda>r.
     seq (case r of None \<Rightarrow> skip | Some f \<Rightarrow> modify (upd_file f (\<lambda>x. x\<lparr>f_ref := 1\<rparr>))) (
     seq (release FtableLk) (
     ret r))))"

definition filedup :: "nat \<Rightarrow> unit kop" where
  "filedup f =
     seq (acquire FtableLk) (
     bnd (gets (\<lambda>s. f_ref (ftable s f))) (\<lambda>r.
     if r < 1 then panic ''filedup'' else
     seq (modify (upd_file f (\<lambda>x. x\<lparr>f_ref := f_ref x + 1\<rparr>))) (
     release FtableLk)))"

definition pipeclose :: "u64 \<Rightarrow> bool \<Rightarrow> unit kop" where
  "pipeclose pi writable =
     seq (acquire (PipeLk pi)) (
     seq (if writable then
            seq (store32 (pi_writeopen pi) 0) (
            wakeup (ChPipeRead pi))
          else
            seq (store32 (pi_readopen pi) 0) (
            wakeup (ChPipeWrite pi))) (
     bnd (load32 (pi_readopen pi)) (\<lambda>ro.
     bnd (load32 (pi_writeopen pi)) (\<lambda>wo.
     if ro = 0 \<and> wo = 0 then
       seq (release (PipeLk pi)) (
       kfree pi)
     else release (PipeLk pi)))))"

definition fileclose :: "nat \<Rightarrow> unit kop" where
  "fileclose f =
     seq (acquire FtableLk) (
     bnd (gets (\<lambda>s. ftable s f)) (\<lambda>ff.
     if f_ref ff < 1 then panic ''fileclose'' else
     if f_ref ff - 1 > 0 then
       seq (modify (upd_file f (\<lambda>x. x\<lparr>f_ref := f_ref x - 1\<rparr>))) (
       release FtableLk)
     else
       seq (modify (upd_file f (\<lambda>x. x\<lparr>f_ref := 0, f_type := FD_NONE\<rparr>))) (
       seq (release FtableLk) (
       if f_type ff = FD_PIPE then pipeclose (f_pipe ff) (f_writable ff)
       else if f_type ff = FD_INODE \<or> f_type ff = FD_DEVICE then
         seq begin_op (
         bnd (nonnull (f_ip ff)) (\<lambda>ip.
         seq (iput ip) (
         end_op)))
       else skip))))"

section \<open>Pipes\<close>

definition pipealloc_bad :: "nat option \<Rightarrow> nat option \<Rightarrow> (nat \<times> nat) option kop" where
  "pipealloc_bad f0 f1 =
     seq (case f0 of Some f \<Rightarrow> fileclose f | None \<Rightarrow> skip) (
     seq (case f1 of Some f \<Rightarrow> fileclose f | None \<Rightarrow> skip) (
     ret None))"

definition pipealloc :: "(nat \<times> nat) option kop" where
  "pipealloc =
     bnd filealloc (\<lambda>r0.
     case r0 of
       None \<Rightarrow> pipealloc_bad None None
     | Some f0 \<Rightarrow>
         bnd filealloc (\<lambda>r1.
         case r1 of
           None \<Rightarrow> pipealloc_bad (Some f0) None
         | Some f1 \<Rightarrow>
             bnd kalloc (\<lambda>pi.
             if pi = 0 then pipealloc_bad (Some f0) (Some f1) else
             seq (store32 (pi_readopen pi) 1) (
             seq (store32 (pi_writeopen pi) 1) (
             seq (store32 (pi_nwrite pi) 0) (
             seq (store32 (pi_nread pi) 0) (
             seq (modify (upd_file f0 (\<lambda>x. x\<lparr>f_type := FD_PIPE, f_readable := True, f_writable := False,
               f_pipe := pi\<rparr>))) (
             seq (modify (upd_file f1 (\<lambda>x. x\<lparr>f_type := FD_PIPE, f_readable := False, f_writable := True,
               f_pipe := pi\<rparr>))) (
             ret (Some (f0, f1)))))))))))"

definition pipewrite_end :: "u64 \<Rightarrow> nat \<Rightarrow> int kop" where
  "pipewrite_end pi i =
     seq (wakeup (ChPipeRead pi)) (
     seq (release (PipeLk pi)) (
     ret (int i)))"

text \<open>\<open>pipewrite\<close> with \<open>n\<close> bytes still to write after \<open>i\<close>.\<close>

fun pipewrite_loop :: "nat \<Rightarrow> nat \<Rightarrow> u64 \<Rightarrow> u64 \<Rightarrow> nat \<Rightarrow> int kop" where
  "pipewrite_loop 0 pr pi addr i = pipewrite_end pi i"
| "pipewrite_loop (Suc n) pr pi addr i =
     bnd (load32 (pi_readopen pi)) (\<lambda>ro.
     bnd (if ro = 0 then ret True else killed pr) (\<lambda>stop.
     if stop then seq (release (PipeLk pi)) (ret (-1)) else
     bnd (load32 (pi_nwrite pi)) (\<lambda>nw.
     bnd (load32 (pi_nread pi)) (\<lambda>nr.
     if nw = nr + of_nat PIPESIZE then
       seq (wakeup (ChPipeRead pi)) (
       sleep (ChPipeWrite pi) (PipeLk pi))
     else
       bnd (gets (\<lambda>s. p_pagetable (procs s pr))) (\<lambda>pt.
       bnd (copyin pt (addr + of_nat i) 1) (\<lambda>(bs, ok).
       if \<not> ok then pipewrite_end pi i else
       bnd (load32 (pi_nwrite pi)) (\<lambda>nw.
       seq (store32 (pi_nwrite pi) (nw + 1)) (
       seq (store8 (pi_data pi nw) (hd bs)) (
       pipewrite_loop n pr pi addr (Suc i))))))))))"

definition pipewrite :: "u64 \<Rightarrow> u64 \<Rightarrow> int \<Rightarrow> int kop" where
  "pipewrite pi addr n =
     bnd myproc (\<lambda>mp.
     seq (acquire (PipeLk pi)) (
     bnd (nonnull mp) (\<lambda>pr.
     pipewrite_loop (nat n) pr pi addr 0)))"

definition piperead_end :: "u64 \<Rightarrow> nat \<Rightarrow> int kop" where
  "piperead_end pi i =
     seq (wakeup (ChPipeWrite pi)) (
     seq (release (PipeLk pi)) (
     ret (int i)))"

fun piperead_loop :: "nat \<Rightarrow> nat \<Rightarrow> u64 \<Rightarrow> u64 \<Rightarrow> nat \<Rightarrow> int kop" where
  "piperead_loop 0 pr pi addr i = piperead_end pi i"
| "piperead_loop (Suc n) pr pi addr i =
     bnd (load32 (pi_nread pi)) (\<lambda>nr.
     bnd (load32 (pi_nwrite pi)) (\<lambda>nw.
     if nr = nw then piperead_end pi i else
     seq (store32 (pi_nread pi) (nr + 1)) (
     bnd (load8 (pi_data pi nr)) (\<lambda>ch.
     bnd (gets (\<lambda>s. p_pagetable (procs s pr))) (\<lambda>pt.
     bnd (copyout pt (addr + of_nat i) [ch]) (\<lambda>r.
     if r = -1 then piperead_end pi i
     else piperead_loop n pr pi addr (Suc i)))))))"

definition piperead :: "u64 \<Rightarrow> u64 \<Rightarrow> int \<Rightarrow> int kop" where
  "piperead pi addr n =
     bnd myproc (\<lambda>mp.
     seq (acquire (PipeLk pi)) (
     bnd (load32 (pi_nread pi)) (\<lambda>nr.
     bnd (load32 (pi_nwrite pi)) (\<lambda>nw.
     bnd (load32 (pi_writeopen pi)) (\<lambda>wo.
     bnd (nonnull mp) (\<lambda>pr.
     if nr = nw \<and> wo \<noteq> 0 then
       bnd (killed pr) (\<lambda>k.
       if k then seq (release (PipeLk pi)) (ret (-1))
       else sleep (ChPipeRead pi) (PipeLk pi))
     else piperead_loop (nat n) pr pi addr 0))))))"

section \<open>Operations on open files\<close>

text \<open>
  \<open>struct stat\<close> is 24 bytes; the four bytes of padding before the size, which the code leaves
  uninitialised, are given as 0.
\<close>

record kstat =
  st_dev :: u32
  st_ino :: u32
  st_type :: u16
  st_nlink :: u16
  st_size :: u64

definition stati :: "nat \<Rightarrow> kstat kop" where
  "stati ip = gets (\<lambda>s. let x = itable s ip in
     \<lparr>st_dev = i_dev x, st_ino = i_inum x, st_type = i_type x, st_nlink = i_nlink x,
      st_size = ucast (i_size x)\<rparr>)"

definition encode_stat :: "kstat \<Rightarrow> u8 list" where
  "encode_stat st = le_bytes 4 (st_dev st) @ le_bytes 4 (st_ino st) @ le_bytes 2 (st_type st) @
     le_bytes 2 (st_nlink st) @ replicate 4 0 @ le_bytes 8 (st_size st)"

definition filestat :: "nat \<Rightarrow> u64 \<Rightarrow> int kop" where
  "filestat f addr =
     bnd myproc (\<lambda>mp.
     bnd (gets (\<lambda>s. ftable s f)) (\<lambda>x.
     if f_type x = FD_INODE \<or> f_type x = FD_DEVICE then
       bnd (nonnull (f_ip x)) (\<lambda>ip.
       seq (ilock ip) (
       bnd (stati ip) (\<lambda>st.
       seq (iunlock ip) (
       bnd (nonnull mp) (\<lambda>p.
       bnd (gets (\<lambda>s. p_pagetable (procs s p))) (\<lambda>pt.
       bnd (copyout pt addr (encode_stat st)) (\<lambda>r.
       ret (if r < 0 then -1 else 0))))))))
     else ret (-1)))"

definition CONSOLE :: int where "CONSOLE = 1"

text \<open>
  \<open>devsw[major].read\<close> and \<open>devsw[major].write\<close> are set by the console driver alone.
\<close>

definition has_dev :: "u16 \<Rightarrow> bool kop" where
  "has_dev major = gets (\<lambda>s. sint major = CONSOLE \<and> devsw_console s)"

definition fileread :: "nat \<Rightarrow> u64 \<Rightarrow> int \<Rightarrow> int kop" where
  "fileread f addr n =
     bnd (gets (\<lambda>s. ftable s f)) (\<lambda>x.
     if \<not> f_readable x then ret (-1) else
     (case f_type x of
        FD_PIPE \<Rightarrow> piperead (f_pipe x) addr n
      | FD_DEVICE \<Rightarrow>
          bnd (has_dev (f_major x)) (\<lambda>d.
          if sint (f_major x) < 0 \<or> sint (f_major x) \<ge> int NDEV \<or> \<not> d then ret (-1)
          else consoleread True addr n)
      | FD_INODE \<Rightarrow>
          bnd (nonnull (f_ip x)) (\<lambda>ip.
          seq (ilock ip) (
          bnd (gets (\<lambda>s. f_off (ftable s f))) (\<lambda>off.
          bnd (readi (to_user addr) () ip off (of_int n)) (\<lambda>(r, _).
          seq (if r > 0 then modify (upd_file f (\<lambda>x. x\<lparr>f_off := f_off x + of_int r\<rparr>)) else skip) (
          seq (iunlock ip) (
          ret r))))))
      | FD_NONE \<Rightarrow> panic ''fileread''))"

text \<open>The most a transaction writes: \<open>((MAXOPBLOCKS-1-1-2) / 2) * BSIZE\<close> bytes.\<close>

definition FILEWRITE_MAX :: int where
  "FILEWRITE_MAX = (int MAXOPBLOCKS - 1 - 1 - 2) div 2 * int BSIZE"

fun filewrite_loop :: "nat \<Rightarrow> nat \<Rightarrow> nat \<Rightarrow> u64 \<Rightarrow> int \<Rightarrow> int \<Rightarrow> int kop" where
  "filewrite_loop 0 f ip addr n i = (if i < n then diverge else ret i)"
| "filewrite_loop (Suc fuel) f ip addr n i =
     (if i < n then
        (let n1 = min (n - i) FILEWRITE_MAX in
        seq begin_op (
        seq (ilock ip) (
        bnd (gets (\<lambda>s. f_off (ftable s f))) (\<lambda>off.
        bnd (writei (from_user (addr + of_int i)) ip off (of_int n1)) (\<lambda>r.
        seq (if r > 0 then modify (upd_file f (\<lambda>x. x\<lparr>f_off := f_off x + of_int r\<rparr>)) else skip) (
        seq (iunlock ip) (
        seq end_op (
        if r \<noteq> n1 then ret i
        else filewrite_loop fuel f ip addr n (i + r)))))))))
      else ret i)"

definition filewrite :: "nat \<Rightarrow> u64 \<Rightarrow> int \<Rightarrow> int kop" where
  "filewrite f addr n =
     bnd (gets (\<lambda>s. ftable s f)) (\<lambda>x.
     if \<not> f_writable x then ret (-1) else
     (case f_type x of
        FD_PIPE \<Rightarrow> pipewrite (f_pipe x) addr n
      | FD_DEVICE \<Rightarrow>
          bnd (has_dev (f_major x)) (\<lambda>d.
          if sint (f_major x) < 0 \<or> sint (f_major x) \<ge> int NDEV \<or> \<not> d then ret (-1)
          else consolewrite True addr n)
      | FD_INODE \<Rightarrow>
          bnd (if n \<le> 0 then ret 0 else
               bnd (nonnull (f_ip x)) (\<lambda>ip. filewrite_loop (nat n) f ip addr n 0)) (\<lambda>i.
          ret (if i = n then n else -1))
      | FD_NONE \<Rightarrow> panic ''filewrite''))"

end
