(* ===== verification/Xv6_Proc.thy ===== *)
theory Xv6_Proc
  imports Xv6_File
begin

text \<open>
  kernel/proc.c: allocation and release of processes, their page tables, fork, exit, wait, kill, and the
  scheduler's turn. A pointer to \<open>struct proc\<close> is an index into \<open>procs\<close>.
\<close>

section \<open>Page tables of processes\<close>

definition proc_pagetable :: "nat \<Rightarrow> u64 kop" where
  "proc_pagetable p =
     bnd uvmcreate (\<lambda>pagetable.
     if pagetable = 0 then ret 0 else
     bnd (gets sym_trampoline) (\<lambda>trampoline.
     bnd (mappages pagetable TRAMPOLINE PGSIZE trampoline (PTE_R OR PTE_X)) (\<lambda>r.
     if r < 0 then
       seq (uvmfree pagetable 0) (
       ret 0)
     else
       bnd (gets (\<lambda>s. p_trapframe (procs s p))) (\<lambda>tf.
       bnd (mappages pagetable TRAPFRAME PGSIZE tf (PTE_R OR PTE_W)) (\<lambda>r.
       if r < 0 then
         seq (uvmunmap pagetable TRAMPOLINE 1 False) (
         seq (uvmfree pagetable 0) (
         ret 0))
       else ret pagetable)))))"

definition proc_freepagetable :: "u64 \<Rightarrow> u64 \<Rightarrow> unit kop" where
  "proc_freepagetable pagetable sz =
     seq (uvmunmap pagetable TRAMPOLINE 1 False) (
     seq (uvmunmap pagetable TRAPFRAME 1 False) (
     uvmfree pagetable sz))"

section \<open>Allocation and release\<close>

definition procinit :: "unit kop" where
  "procinit = each (\<lambda>p. modify (upd_proc p (\<lambda>q. q\<lparr>p_state := UNUSED, p_kstack := KSTACK p\<rparr>))) [0..<NPROC]"

definition allocpid :: "c_int kop" where
  "allocpid =
     seq (acquire PidLk) (
     bnd (gets nextpid) (\<lambda>pid.
     seq (modify (\<lambda>s. s\<lparr>nextpid := nextpid s + 1\<rparr>)) (
     seq (release PidLk) (
     ret pid))))"

text \<open>The swap file's part of \<open>freeproc\<close>.\<close>

definition freeproc_swap :: "nat \<Rightarrow> nat \<Rightarrow> unit kop" where
  "freeproc_swap p ip =
     bnd (gets (\<lambda>s. procs s p)) (\<lambda>q.
     seq (if count_slots (p_swap_slots q) > 0
          then printk (SWAPCLEANUP (p_pid q) (count_slots (p_swap_slots q))) else skip) (
     seq (ilock ip) (
     seq (itrunc ip) (
     seq (iunlock ip) (
     seq (iput ip) (
     modify (upd_proc p (\<lambda>q. q\<lparr>p_swap_inode := None\<rparr>))))))))"

definition freeproc :: "nat \<Rightarrow> unit kop" where
  "freeproc p =
     bnd (gets (\<lambda>s. p_trapframe (procs s p))) (\<lambda>tf.
     seq (if tf \<noteq> 0 then kfree tf else skip) (
     seq (modify (upd_proc p (\<lambda>q. q\<lparr>p_trapframe := 0\<rparr>))) (
     bnd (gets (\<lambda>s. procs s p)) (\<lambda>q.
     seq (if p_pagetable q \<noteq> 0 then proc_freepagetable (p_pagetable q) (p_sz q) else skip) (
     seq (modify (upd_proc p (\<lambda>q. q\<lparr>p_pagetable := 0, p_sz := 0, p_pid := 0, p_parent := None,
       p_name := (p_name q)[0 := 0], p_chan := None, p_killed := False, p_xstate := 0, p_state := UNUSED\<rparr>))) (
     bnd (gets (\<lambda>s. p_exe_inode (procs s p))) (\<lambda>ei.
     seq (case ei of
            None \<Rightarrow> skip
          | Some ip \<Rightarrow>
              seq (iput ip) (
              modify (upd_proc p (\<lambda>q. q\<lparr>p_exe_inode := None\<rparr>)))) (
     bnd (gets (\<lambda>s. p_swap_inode (procs s p))) (\<lambda>si.
     seq (case si of None \<Rightarrow> skip | Some ip \<Rightarrow> freeproc_swap p ip) (
     modify (upd_proc p (\<lambda>q. q\<lparr>p_swap_slots := replicate 128 0\<rparr>))))))))))))"

text \<open>The search of \<open>allocproc\<close>: it returns with the lock of the process it found.\<close>

fun allocproc_scan :: "nat list \<Rightarrow> nat option kop" where
  "allocproc_scan [] = ret None"
| "allocproc_scan (p # ps) =
     seq (acquire (ProcLk p)) (
     bnd (gets (\<lambda>s. p_state (procs s p))) (\<lambda>st.
     if st = UNUSED then ret (Some p)
     else
       seq (release (ProcLk p)) (
       allocproc_scan ps)))"

definition allocproc_fail :: "nat \<Rightarrow> nat option kop" where
  "allocproc_fail p =
     seq (freeproc p) (
     seq (release (ProcLk p)) (
     ret None))"

definition allocproc :: "nat option kop" where
  "allocproc =
     bnd (allocproc_scan [0..<NPROC]) (\<lambda>r.
     case r of
       None \<Rightarrow> ret None
     | Some p \<Rightarrow>
         bnd allocpid (\<lambda>pid.
         seq (modify (upd_proc p (\<lambda>q. q\<lparr>p_pid := pid, p_state := USED, p_exe_inode := None,
           p_fifo_seq_num := 0, p_exe_end := 0, p_resident_set_head := 0, p_resident_set_tail := 0,
           p_swap_inode := None, p_swap_slots := replicate 128 0\<rparr>))) (
         bnd kalloc (\<lambda>tf.
         seq (modify (upd_proc p (\<lambda>q. q\<lparr>p_trapframe := tf\<rparr>))) (
         if tf = 0 then allocproc_fail p else
         bnd (proc_pagetable p) (\<lambda>pt.
         seq (modify (upd_proc p (\<lambda>q. q\<lparr>p_pagetable := pt\<rparr>))) (
         if pt = 0 then allocproc_fail p else
         seq (modify (\<lambda>s. upd_proc p (\<lambda>q. q\<lparr>p_context :=
           \<lparr>ctx_ra = sym_forkret s, ctx_sp = p_kstack q + PGSIZE, ctx_s = replicate 12 0\<rparr>\<rparr>) s)) (
         ret (Some p)))))))))"

definition userinit :: "unit kop" where
  "userinit =
     bnd allocproc (\<lambda>r.
     seq (modify (\<lambda>s. s\<lparr>initproc := r\<rparr>)) (
     bnd (nonnull r) (\<lambda>p.
     bnd (gets (\<lambda>s. p_pagetable (procs s p))) (\<lambda>pt.
     bnd (uvmalloc pt 0 PGSIZE PTE_W) (\<lambda>sz.
     if sz = 0 then
       seq (freeproc p) (
       release (ProcLk p))
     else
       seq (modify (upd_proc p (\<lambda>q. q\<lparr>p_sz := sz\<rparr>))) (
       bnd (gets (\<lambda>s. p_trapframe (procs s p))) (\<lambda>tf.
       seq (store64 (tf_epc tf) 0) (
       seq (store64 (tf_sp tf) sz) (
       bnd (namei [slash]) (\<lambda>cwd.
       seq (modify (upd_proc p (\<lambda>q. q\<lparr>p_cwd := cwd, p_state := RUNNABLE\<rparr>))) (
       release (ProcLk p)))))))))))) "

section \<open>Growing, forking\<close>

definition growproc :: "c_int \<Rightarrow> int kop" where
  "growproc n =
     bnd myproc (\<lambda>mp. bnd (nonnull mp) (\<lambda>p.
     bnd (gets (\<lambda>s. procs s p)) (\<lambda>q.
     (let sz = p_sz q in
     seq (if sint n > 0 then modify (upd_proc p (\<lambda>q. q\<lparr>p_sz := sz + scast n\<rparr>))
          else if sint n < 0 then
            bnd (uvmdealloc (p_pagetable q) sz (sz + scast n)) (\<lambda>sz.
            modify (upd_proc p (\<lambda>q. q\<lparr>p_sz := sz\<rparr>)))
          else skip) (
     ret 0)))))"

text \<open>One turn of the loop of \<open>kfork\<close> over the descriptors.\<close>

definition fork_file :: "nat \<Rightarrow> nat \<Rightarrow> nat \<Rightarrow> unit kop" where
  "fork_file p np i =
     bnd (gets (\<lambda>s. p_ofile (procs s p) ! i)) (\<lambda>r.
     case r of
       None \<Rightarrow> skip
     | Some f \<Rightarrow>
         seq (filedup f) (
         modify (upd_proc np (\<lambda>q. q\<lparr>p_ofile := (p_ofile q)[i := Some f]\<rparr>))))"

text \<open>Copying a name field: the bytes \<open>safestrcpy\<close> writes, over the old contents.\<close>

definition set_name :: "nat \<Rightarrow> u8 list \<Rightarrow> unit kop" where
  "set_name p src =
     modify (upd_proc p (\<lambda>q. let bs = safestrcpy (lview src) 16 in
       q\<lparr>p_name := bs @ drop (length bs) (p_name q)\<rparr>))"

definition kfork :: "c_int kop" where
  "kfork =
     bnd myproc (\<lambda>mp. bnd (nonnull mp) (\<lambda>p.
     bnd allocproc (\<lambda>r.
     case r of
       None \<Rightarrow> ret (-1)
     | Some np \<Rightarrow>
         bnd (gets (\<lambda>s. (procs s p, procs s np))) (\<lambda>(q, nq).
         bnd (uvmcopy (p_pagetable q) (p_pagetable nq) (p_sz q)) (\<lambda>r.
         if r < 0 then
           seq (freeproc np) (
           seq (release (ProcLk np)) (
           ret (-1)))
         else
           seq (modify (\<lambda>s. upd_proc np (\<lambda>x. x\<lparr>p_sz := p_sz (procs s p)\<rparr>) s)) (
           bnd (gets (\<lambda>s. (p_trapframe (procs s p), p_trapframe (procs s np)))) (\<lambda>(tf, ntf).
           seq (modify (upd_mem (\<lambda>m. store_bytes m ntf (load_bytes m tf 288)))) (
           seq (store64 (tf_a 0 ntf) 0) (
           seq (each (fork_file p np) [0..<NOFILE]) (
           bnd (gets (\<lambda>s. p_cwd (procs s p))) (\<lambda>cwd.
           bnd (nonnull cwd) (\<lambda>ip.
           bnd (idup ip) (\<lambda>ip.
           seq (modify (upd_proc np (\<lambda>x. x\<lparr>p_cwd := Some ip\<rparr>))) (
           bnd (gets (\<lambda>s. p_name (procs s p))) (\<lambda>nm.
           seq (set_name np nm) (
           bnd (gets (\<lambda>s. p_pid (procs s np))) (\<lambda>pid.
           seq (release (ProcLk np)) (
           seq (acquire WaitLk) (
           seq (modify (upd_proc np (\<lambda>x. x\<lparr>p_parent := Some p\<rparr>))) (
           seq (release WaitLk) (
           seq (acquire (ProcLk np)) (
           seq (modify (upd_proc np (\<lambda>x. x\<lparr>p_state := RUNNABLE\<rparr>))) (
           seq (release (ProcLk np)) (
           ret pid))))))))))))))))))))))))"

section \<open>Exit and wait\<close>

text \<open>\<open>wakeup\<close> of a channel that may be the null pointer, on which no process sleeps.\<close>

definition wakeup_proc :: "nat option \<Rightarrow> unit kop" where
  "wakeup_proc mp =
     (case mp of
        Some p \<Rightarrow> wakeup (ChProc p)
      | None \<Rightarrow>
          each (\<lambda>p.
            bnd myproc (\<lambda>me.
            if me = Some p then skip else
            seq (acquire (ProcLk p)) (
            seq (modify (upd_proc p (\<lambda>q.
              if p_state q = SLEEPING \<and> p_chan q = None then q\<lparr>p_state := RUNNABLE\<rparr> else q))) (
            release (ProcLk p))))) [0..<NPROC])"

definition reparent :: "nat \<Rightarrow> unit kop" where
  "reparent p =
     each (\<lambda>pp.
       bnd (gets (\<lambda>s. p_parent (procs s pp))) (\<lambda>par.
       if par = Some p then
         seq (modify (\<lambda>s. upd_proc pp (\<lambda>q. q\<lparr>p_parent := initproc s\<rparr>) s)) (
         bnd (gets initproc) wakeup_proc)
       else skip)) [0..<NPROC]"

definition close_fd :: "nat \<Rightarrow> nat \<Rightarrow> unit kop" where
  "close_fd p fd =
     bnd (gets (\<lambda>s. p_ofile (procs s p) ! fd)) (\<lambda>r.
     case r of
       None \<Rightarrow> skip
     | Some f \<Rightarrow>
         seq (fileclose f) (
         modify (upd_proc p (\<lambda>q. q\<lparr>p_ofile := (p_ofile q)[fd := None]\<rparr>))))"

definition kexit :: "c_int \<Rightarrow> 'a kop" where
  "kexit status =
     bnd myproc (\<lambda>mp. bnd (gets initproc) (\<lambda>ini.
     if mp = ini then panic ''init exiting'' else
     bnd (nonnull mp) (\<lambda>p.
     seq (each (close_fd p) [0..<NOFILE]) (
     seq begin_op (
     bnd (gets (\<lambda>s. p_cwd (procs s p))) (\<lambda>cwd.
     bnd (nonnull cwd) (\<lambda>ip.
     seq (iput ip) (
     seq end_op (
     seq (modify (upd_proc p (\<lambda>q. q\<lparr>p_cwd := None\<rparr>))) (
     seq (acquire WaitLk) (
     seq (reparent p) (
     bnd (gets (\<lambda>s. p_parent (procs s p))) (\<lambda>par.
     seq (wakeup_proc par) (
     seq (acquire (ProcLk p)) (
     seq (modify (upd_proc p (\<lambda>q. q\<lparr>p_xstate := status, p_state := ZOMBIE\<rparr>))) (
     seq (release WaitLk) (
     seq (sched None :: unit kop) (
     panic ''zombie exit''))))))))))))))))))"

text \<open>
  The scan of \<open>kwait\<close>: \<open>Inl r\<close> returns \<open>r\<close> from the call, \<open>Inr havekids\<close> has found no zombie.
\<close>

fun kwait_scan :: "nat \<Rightarrow> u64 \<Rightarrow> nat list \<Rightarrow> bool \<Rightarrow> (c_int + bool) kop" where
  "kwait_scan p addr [] havekids = ret (Inr havekids)"
| "kwait_scan p addr (pp # pps) havekids =
     bnd (gets (\<lambda>s. p_parent (procs s pp))) (\<lambda>par.
     if par \<noteq> Some p then kwait_scan p addr pps havekids else
     seq (acquire (ProcLk pp)) (
     bnd (gets (\<lambda>s. procs s pp)) (\<lambda>c.
     if p_state c = ZOMBIE then
       bnd (if addr \<noteq> 0 then
              bnd (gets (\<lambda>s. p_pagetable (procs s p))) (\<lambda>pt.
              copyout pt addr (le_bytes 4 (p_xstate c)))
            else ret 0) (\<lambda>r.
       if r < 0 then
         seq (release (ProcLk pp)) (
         seq (release WaitLk) (
         ret (Inl (-1))))
       else
         seq (freeproc pp) (
         seq (release (ProcLk pp)) (
         seq (release WaitLk) (
         ret (Inl (p_pid c))))))
     else
       seq (release (ProcLk pp)) (
       kwait_scan p addr pps True))))"

definition kwait :: "u64 \<Rightarrow> c_int kop" where
  "kwait addr =
     bnd myproc (\<lambda>mp.
     seq (acquire WaitLk) (
     bnd (nonnull mp) (\<lambda>p.
     bnd (kwait_scan p addr [0..<NPROC] False) (\<lambda>r.
     case r of
       Inl pid \<Rightarrow> ret pid
     | Inr havekids \<Rightarrow>
         bnd (if \<not> havekids then ret True else killed p) (\<lambda>stop.
         if stop then
           seq (release WaitLk) (
           ret (-1))
         else sleep (ChProc p) WaitLk)))))"

fun kkill_scan :: "c_int \<Rightarrow> nat list \<Rightarrow> int kop" where
  "kkill_scan pid [] = ret (-1)"
| "kkill_scan pid (p # ps) =
     seq (acquire (ProcLk p)) (
     bnd (gets (\<lambda>s. p_pid (procs s p))) (\<lambda>x.
     if x = pid then
       seq (modify (upd_proc p (\<lambda>q. q\<lparr>p_killed := True,
         p_state := (if p_state q = SLEEPING then RUNNABLE else p_state q)\<rparr>))) (
       seq (release (ProcLk p)) (
       ret 0))
     else
       seq (release (ProcLk p)) (
       kkill_scan pid ps)))"

definition kkill :: "c_int \<Rightarrow> int kop" where
  "kkill pid = kkill_scan pid [0..<NPROC]"

section \<open>The scheduler\<close>

text \<open>
  One turn of the scheduler's inner loop, up to the switch to the process: \<open>True\<close> says the CPU now
  runs \<open>p\<close>, which holds its lock. \<open>scheduler_back\<close> is what follows when the process switches back.
\<close>

definition scheduler_pick :: "nat \<Rightarrow> bool kop" where
  "scheduler_pick p =
     seq (acquire (ProcLk p)) (
     bnd (gets (\<lambda>s. p_state (procs s p))) (\<lambda>st.
     if st = RUNNABLE then
       seq (modify (upd_proc p (\<lambda>q. q\<lparr>p_state := RUNNING\<rparr>))) (
       seq (modify (\<lambda>s. s\<lparr>curproc := Some p\<rparr>)) (
       ret True))
     else
       seq (release (ProcLk p)) (
       ret False)))"

definition scheduler_back :: "nat \<Rightarrow> unit kop" where
  "scheduler_back p =
     seq (modify (\<lambda>s. s\<lparr>curproc := None\<rparr>)) (
     release (ProcLk p))"

end
