(* ===== verification/Xv6_Exec.thy ===== *)
theory Xv6_Exec
  imports Xv6_Proc
begin

text \<open>
  kernel/exec.c. A kernel string is the list of its bytes before the NUL, an argument vector the list of
  the strings before the null pointer.
\<close>

definition flags2perm :: "c_int \<Rightarrow> u64" where
  "flags2perm flags =
     (if flags AND 1 \<noteq> 0 then PTE_X else 0) OR (if flags AND 2 \<noteq> 0 then PTE_W else 0)"

text \<open>
  The loop over the program headers: the end of the last loadable segment, and whether the loop ran to
  its end. On an error the size so far is what the cleanup uses.
\<close>

fun exec_sizes :: "nat \<Rightarrow> nat \<Rightarrow> u32 \<Rightarrow> u64 \<Rightarrow> (bool \<times> u64) kop" where
  "exec_sizes 0 ip off sz = ret (True, sz)"
| "exec_sizes (Suc n) ip off sz =
     bnd (read_proghdr ip off) (\<lambda>r.
     case r of
       None \<Rightarrow> ret (False, sz)
     | Some ph \<Rightarrow>
         if ph_type ph \<noteq> ELF_PROG_LOAD then exec_sizes n ip (off + 56) sz
         else if ph_memsz ph < ph_filesz ph then ret (False, sz)
         else if ph_vaddr ph + ph_memsz ph < ph_vaddr ph then ret (False, sz)
         else if ph_vaddr ph mod PGSIZE \<noteq> 0 then ret (False, sz)
         else exec_sizes n ip (off + 56)
           (if sz < ph_vaddr ph + ph_memsz ph then ph_vaddr ph + ph_memsz ph else sz))"

text \<open>The label \<open>bad\<close>, with the inode still held or already put.\<close>

definition exec_bad :: "u64 \<Rightarrow> u64 \<Rightarrow> nat option \<Rightarrow> int kop" where
  "exec_bad pagetable sz ip =
     seq (if pagetable \<noteq> 0 then proc_freepagetable pagetable sz else skip) (
     seq (case ip of
            None \<Rightarrow> skip
          | Some i \<Rightarrow>
              seq (iunlockput i) (
              end_op)) (
     ret (-1)))"

text \<open>
  Copying the argument strings: the stack pointer and the user addresses of the strings so far;
  \<open>None\<close> is a jump to \<open>bad\<close>.
\<close>

fun exec_args :: "u64 \<Rightarrow> u64 \<Rightarrow> u8 list list \<Rightarrow> u64 \<Rightarrow> u64 list \<Rightarrow> (u64 \<times> u64 list) option kop" where
  "exec_args pagetable stackbase [] sp ustack = ret (Some (sp, ustack))"
| "exec_args pagetable stackbase (a # as) sp ustack =
     (if length ustack \<ge> MAXARG then ret None else
      (let sp1 = sp - of_nat (length a + 1);
           sp2 = sp1 - sp1 mod 16
       in if sp2 < stackbase then ret None else
          bnd (copyout pagetable sp2 (a @ [0])) (\<lambda>r.
          if r < 0 then ret None
          else exec_args pagetable stackbase as sp2 (ustack @ [sp2]))))"

text \<open>The part of a path after its last slash.\<close>

definition path_last :: "u8 list \<Rightarrow> u8 list" where
  "path_last path = rev (takeWhile (\<lambda>c. c \<noteq> slash) (rev path))"

text \<open>From the argument vector on the stack to the return: the new image replaces the old one.\<close>

definition exec_commit :: "nat \<Rightarrow> u8 list \<Rightarrow> elfhdr \<Rightarrow> u64 \<Rightarrow> u64 \<Rightarrow> u64 \<Rightarrow> u64 \<Rightarrow> unit kop" where
  "exec_commit p path elf pagetable sz sp oldsz =
     bnd (gets (\<lambda>s. procs s p)) (\<lambda>q.
     seq (store64 (tf_a 1 (p_trapframe q)) sp) (
     seq (set_name p (path_last path)) (
     (let oldpagetable = p_pagetable q in
     seq (modify (upd_proc p (\<lambda>q. q\<lparr>p_pagetable := pagetable, p_sz := sz\<rparr>))) (
     seq (store64 (tf_epc (p_trapframe q)) (e_entry elf)) (
     seq (store64 (tf_sp (p_trapframe q)) sp) (
     seq (proc_freepagetable oldpagetable oldsz) (
     seq (modify (upd_proc p (\<lambda>q. q\<lparr>p_swap_inode := None\<rparr>))) (
     bnd (gets (\<lambda>s. procs s p)) (\<lambda>q.
     printk (INIT_LAZYMAP (p_pid q) (p_exe_end q) sz sp)))))))))))"

text \<open>From the stack page on, when the file has been closed.\<close>

definition exec_stack :: "nat \<Rightarrow> u8 list \<Rightarrow> u8 list list \<Rightarrow> elfhdr \<Rightarrow> u64 \<Rightarrow> u64 \<Rightarrow> int kop" where
  "exec_stack p path argv elf pagetable sz0 =
     bnd (gets (\<lambda>s. p_sz (procs s p))) (\<lambda>oldsz.
     seq (modify (upd_proc p (\<lambda>q. q\<lparr>p_exe_end := sz0\<rparr>))) (
     (let sz1 = PGROUNDUP sz0 in
     bnd (uvmalloc pagetable sz1 (sz1 + PGSIZE) PTE_W) (\<lambda>sz.
     if sz = 0 then exec_bad pagetable sz1 None else
     (let stackbase = sz - PGSIZE in
     bnd (exec_args pagetable stackbase argv sz []) (\<lambda>r.
     case r of
       None \<Rightarrow> exec_bad pagetable sz None
     | Some (sp, ustack) \<Rightarrow>
         if length ustack \<ge> MAXARG then undefined_behaviour else
         (let argc = length ustack;
              sp1 = sp - of_nat (8 * (argc + 1));
              sp2 = sp1 - sp1 mod 16
          in if sp2 < stackbase then exec_bad pagetable sz None else
             bnd (copyout pagetable sp2 (concat (map (le_bytes 8) (ustack @ [0])))) (\<lambda>r.
             if r < 0 then exec_bad pagetable sz None else
             seq (exec_commit p path elf pagetable sz sp2 oldsz) (
             ret (int argc)))))))))) "

text \<open>Replacing the executable and forgetting the swap file, before the image is known to be good.\<close>

definition exec_claim :: "nat \<Rightarrow> nat \<Rightarrow> unit kop" where
  "exec_claim p ip =
     bnd (gets (\<lambda>s. procs s p)) (\<lambda>q.
     seq (case p_exe_inode q of None \<Rightarrow> skip | Some e \<Rightarrow> iput e) (
     bnd (idup ip) (\<lambda>ip'.
     seq (modify (upd_proc p (\<lambda>q. q\<lparr>p_exe_inode := Some ip'\<rparr>))) (
     seq (case p_swap_inode q of
            None \<Rightarrow> skip
          | Some si \<Rightarrow>
              seq (iput si) (
              modify (upd_proc p (\<lambda>q. q\<lparr>p_swap_inode := None\<rparr>)))) (
     modify (upd_proc p (\<lambda>q. q\<lparr>p_swap_slots := replicate 128 0\<rparr>)))))))"

definition kexec :: "u8 list \<Rightarrow> u8 list list \<Rightarrow> int kop" where
  "kexec path argv =
     bnd myproc (\<lambda>mp.
     seq begin_op (
     bnd (namei path) (\<lambda>r.
     case r of
       None \<Rightarrow> seq end_op (ret (-1))
     | Some ip \<Rightarrow>
         seq (ilock ip) (
         bnd (read_elfhdr ip) (\<lambda>r.
         case r of
           None \<Rightarrow> exec_bad 0 0 (Some ip)
         | Some elf \<Rightarrow>
             if e_magic elf \<noteq> ELF_MAGIC then exec_bad 0 0 (Some ip) else
             bnd (nonnull mp) (\<lambda>p.
             bnd (proc_pagetable p) (\<lambda>pagetable.
             if pagetable = 0 then exec_bad 0 0 (Some ip) else
             seq (exec_claim p ip) (
             bnd (exec_sizes (unat (e_phnum elf)) ip (ucast (e_phoff elf)) 0) (\<lambda>(ok, sz).
             if \<not> ok then exec_bad pagetable sz (Some ip) else
             seq (iunlockput ip) (
             seq end_op (
             exec_stack p path argv elf pagetable sz)))))))))))"

end
