(* ===== verification/Xv6_Syscall.thy ===== *)
theory Xv6_Syscall
  imports Xv6_Exec
begin

text \<open>
  The system calls: argument fetching of kernel/syscall.c, the process calls of kernel/sysproc.c, the
  file calls of kernel/sysfile.c, and the dispatcher. A call gives the 64-bit value the dispatcher
  stores in \<open>a0\<close>; an \<open>int\<close> result is sign-extended.
\<close>

section \<open>Fetching arguments (kernel/syscall.c)\<close>

definition fetchaddr :: "u64 \<Rightarrow> u64 option kop" where
  "fetchaddr addr =
     bnd myproc (\<lambda>mp. bnd (nonnull mp) (\<lambda>p.
     bnd (gets (\<lambda>s. procs s p)) (\<lambda>q.
     if addr \<ge> p_sz q \<or> addr + 8 > p_sz q then ret None else
     bnd (copyin (p_pagetable q) addr 8) (\<lambda>(bs, ok).
     ret (if \<not> ok then None else Some (get64 bs 0))))))"

definition fetchstr :: "u64 \<Rightarrow> nat \<Rightarrow> u8 list option kop" where
  "fetchstr addr mx =
     bnd myproc (\<lambda>mp. bnd (nonnull mp) (\<lambda>p.
     bnd (gets (\<lambda>s. p_pagetable (procs s p))) (\<lambda>pt.
     copyinstr pt addr mx)))"

definition argraw :: "nat \<Rightarrow> u64 kop" where
  "argraw n =
     bnd myproc (\<lambda>mp. bnd (nonnull mp) (\<lambda>p.
     if n > 5 then panic ''argraw'' else
     bnd (gets (\<lambda>s. p_trapframe (procs s p))) (\<lambda>tf.
     load64 (tf_a n tf))))"

definition argint :: "nat \<Rightarrow> c_int kop" where
  "argint n = bnd (argraw n) (\<lambda>v. ret (ucast v))"

definition argaddr :: "nat \<Rightarrow> u64 kop" where
  "argaddr n = argraw n"

definition argstr :: "nat \<Rightarrow> nat \<Rightarrow> u8 list option kop" where
  "argstr n mx = bnd (argaddr n) (\<lambda>addr. fetchstr addr mx)"

section \<open>Process calls (kernel/sysproc.c)\<close>

definition SBRK_EAGER :: c_int where "SBRK_EAGER = 1"

definition sys_exit :: "u64 kop" where
  "sys_exit = bnd (argint 0) (\<lambda>n. kexit n)"

definition sys_getpid :: "u64 kop" where
  "sys_getpid =
     bnd myproc (\<lambda>mp. bnd (nonnull mp) (\<lambda>p.
     gets (\<lambda>s. scast (p_pid (procs s p)))))"

definition sys_fork :: "u64 kop" where
  "sys_fork = bnd kfork (\<lambda>r. ret (scast r))"

definition sys_wait :: "u64 kop" where
  "sys_wait = bnd (argaddr 0) (\<lambda>p. bnd (kwait p) (\<lambda>r. ret (scast r)))"

definition sys_sbrk :: "u64 kop" where
  "sys_sbrk =
     bnd (argint 0) (\<lambda>n.
     bnd (argint 1) (\<lambda>t.
     bnd myproc (\<lambda>mp. bnd (nonnull mp) (\<lambda>p.
     bnd (gets (\<lambda>s. p_sz (procs s p))) (\<lambda>addr.
     if t = SBRK_EAGER \<or> sint n < 0 then
       bnd (growproc n) (\<lambda>r.
       ret (if r < 0 then -1 else addr))
     else if addr + scast n < addr then ret (-1)
     else
       seq (modify (upd_proc p (\<lambda>q. q\<lparr>p_sz := p_sz q + scast n\<rparr>))) (
       ret addr))))))"

text \<open>
  \<open>sys_pause\<close>: the test \<open>ticks - ticks0 < n\<close> compares unsigned 32-bit numbers, and \<open>ticks0\<close> has just been
  read, so the first test is \<open>0 < n\<close>; the thread then sleeps.
\<close>

definition sys_pause :: "u64 kop" where
  "sys_pause =
     bnd (argint 0) (\<lambda>n0.
     (let n = (if sint n0 < 0 then 0 else n0) in
     seq (acquire TicksLk) (
     bnd (gets ticks) (\<lambda>ticks0.
     bnd (gets (\<lambda>s. ticks s - ticks0 < n)) (\<lambda>w.
     if w then
       bnd myproc (\<lambda>mp. bnd (nonnull mp) (\<lambda>p.
       bnd (killed p) (\<lambda>k.
       if k then
         seq (release TicksLk) (
         ret (-1))
       else sleep ChTicks TicksLk)))
     else
       seq (release TicksLk) (
       ret 0))))))"

definition sys_kill :: "u64 kop" where
  "sys_kill = bnd (argint 0) (\<lambda>pid. bnd (kkill pid) (\<lambda>r. ret (of_int r)))"

definition sys_uptime :: "u64 kop" where
  "sys_uptime =
     seq (acquire TicksLk) (
     bnd (gets ticks) (\<lambda>xticks.
     seq (release TicksLk) (
     ret (ucast xticks))))"

subsection \<open>memstat\<close>

definition MAX_PAGES_INFO :: nat where "MAX_PAGES_INFO = 128"

datatype page_state = UNMAPPED | RESIDENT_PAGE | SWAPPED

record page_stat =
  ps_va :: u32
  ps_state :: page_state
  ps_is_dirty :: bool
  ps_seq :: c_int
  ps_swap_slot :: c_int

record proc_mem_stat =
  ms_pid :: c_int
  ms_num_pages_total :: c_int
  ms_num_resident_pages :: c_int
  ms_num_swapped_pages :: c_int
  ms_next_fifo_seq :: c_int
  ms_pages :: "page_stat list"

fun state_code :: "page_state \<Rightarrow> c_int" where
  "state_code UNMAPPED = 0"
| "state_code RESIDENT_PAGE = 1"
| "state_code SWAPPED = 2"

definition encode_page_stat :: "page_stat \<Rightarrow> u8 list" where
  "encode_page_stat ps = le_bytes 4 (ps_va ps) @ le_bytes 4 (state_code (ps_state ps)) @
     le_bytes 4 (if ps_is_dirty ps then 1 else 0 :: c_int) @ le_bytes 4 (ps_seq ps) @ le_bytes 4 (ps_swap_slot ps)"

text \<open>The unused entries of \<open>pages\<close> are the zeros of the \<open>memset\<close>.\<close>

definition encode_mem_stat :: "proc_mem_stat \<Rightarrow> u8 list" where
  "encode_mem_stat k = le_bytes 4 (ms_pid k) @ le_bytes 4 (ms_num_pages_total k) @
     le_bytes 4 (ms_num_resident_pages k) @ le_bytes 4 (ms_num_swapped_pages k) @
     le_bytes 4 (ms_next_fifo_seq k) @ concat (map encode_page_stat (ms_pages k)) @
     replicate (20 * (MAX_PAGES_INFO - length (ms_pages k))) 0"

definition memstat_page :: "nat \<Rightarrow> u64 \<Rightarrow> page_stat kop" where
  "memstat_page p va =
     bnd (gets (\<lambda>s. p_pagetable (procs s p))) (\<lambda>pt.
     bnd (walk0 pt va) (\<lambda>pte.
     (let ps = \<lparr>ps_va = ucast va, ps_state = UNMAPPED, ps_is_dirty = False, ps_seq = -1, ps_swap_slot = -1\<rparr> in
     if pte = 0 then ret ps else
     bnd (load64 pte) (\<lambda>e.
     if e AND PTE_V \<noteq> 0 then
       bnd (find_seq_in_resident_set p va) (\<lambda>sq.
       ret (ps\<lparr>ps_state := RESIDENT_PAGE, ps_is_dirty := (e AND PTE_D \<noteq> 0), ps_seq := sq\<rparr>))
     else if e AND PTE_S \<noteq> 0 then
       ret (ps\<lparr>ps_state := SWAPPED, ps_swap_slot := ucast (PTE_SLOT e)\<rparr>)
     else ret ps))))"

fun memstat_loop :: "nat \<Rightarrow> nat \<Rightarrow> u64 \<Rightarrow> page_stat list kop" where
  "memstat_loop 0 p va = ret []"
| "memstat_loop (Suc room) p va =
     bnd (gets (\<lambda>s. p_sz (procs s p))) (\<lambda>sz.
     if va < sz then
       bnd (memstat_page p va) (\<lambda>ps.
       bnd (memstat_loop room p (va + PGSIZE)) (\<lambda>rest.
       ret (ps # rest)))
     else ret [])"

definition count_state :: "page_state \<Rightarrow> page_stat list \<Rightarrow> c_int" where
  "count_state st pss = of_nat (length (filter (\<lambda>ps. ps_state ps = st) pss))"

definition sys_memstat :: "u64 kop" where
  "sys_memstat =
     bnd myproc (\<lambda>mp.
     bnd (argaddr 0) (\<lambda>user_info_ptr.
     bnd (nonnull mp) (\<lambda>p.
     bnd (gets (\<lambda>s. procs s p)) (\<lambda>q.
     bnd (memstat_loop MAX_PAGES_INFO p 0) (\<lambda>pss.
     bnd (copyout (p_pagetable q) user_info_ptr (encode_mem_stat
       \<lparr>ms_pid = p_pid q, ms_num_pages_total = ucast (p_sz q div PGSIZE),
        ms_num_resident_pages = count_state RESIDENT_PAGE pss,
        ms_num_swapped_pages = count_state SWAPPED pss,
        ms_next_fifo_seq = p_fifo_seq_num q, ms_pages = pss\<rparr>)) (\<lambda>r.
     ret (if r < 0 then -1 else 0)))))))"

section \<open>File calls (kernel/sysfile.c)\<close>

definition argfd :: "nat \<Rightarrow> (nat \<times> nat) option kop" where
  "argfd n =
     bnd (argint n) (\<lambda>fd.
     if sint fd < 0 \<or> sint fd \<ge> int NOFILE then ret None else
     bnd myproc (\<lambda>mp. bnd (nonnull mp) (\<lambda>p.
     bnd (gets (\<lambda>s. p_ofile (procs s p) ! nat (sint fd))) (\<lambda>r.
     ret (map_option (\<lambda>f. (nat (sint fd), f)) r)))))"

fun fd_scan :: "nat option list \<Rightarrow> nat list \<Rightarrow> nat option" where
  "fd_scan ofile [] = None"
| "fd_scan ofile (fd # fds) = (if ofile ! fd = None then Some fd else fd_scan ofile fds)"

definition fdalloc :: "nat \<Rightarrow> nat option kop" where
  "fdalloc f =
     bnd myproc (\<lambda>mp. bnd (nonnull mp) (\<lambda>p.
     bnd (gets (\<lambda>s. fd_scan (p_ofile (procs s p)) [0..<NOFILE])) (\<lambda>r.
     case r of
       None \<Rightarrow> ret None
     | Some fd \<Rightarrow>
         seq (modify (upd_proc p (\<lambda>q. q\<lparr>p_ofile := (p_ofile q)[fd := Some f]\<rparr>))) (
         ret (Some fd)))))"

definition clear_fd :: "nat \<Rightarrow> unit kop" where
  "clear_fd fd =
     bnd myproc (\<lambda>mp. bnd (nonnull mp) (\<lambda>p.
     modify (upd_proc p (\<lambda>q. q\<lparr>p_ofile := (p_ofile q)[fd := None]\<rparr>))))"

definition sys_dup :: "u64 kop" where
  "sys_dup =
     bnd (argfd 0) (\<lambda>r.
     case r of
       None \<Rightarrow> ret (-1)
     | Some (_, f) \<Rightarrow>
         bnd (fdalloc f) (\<lambda>r.
         case r of
           None \<Rightarrow> ret (-1)
         | Some fd \<Rightarrow>
             seq (filedup f) (
             ret (of_nat fd))))"

definition sys_read :: "u64 kop" where
  "sys_read =
     bnd (argaddr 1) (\<lambda>p.
     bnd (argint 2) (\<lambda>n.
     bnd (argfd 0) (\<lambda>r.
     case r of
       None \<Rightarrow> ret (-1)
     | Some (_, f) \<Rightarrow> bnd (fileread f p (sint n)) (\<lambda>r. ret (of_int r)))))"

definition sys_write :: "u64 kop" where
  "sys_write =
     bnd (argaddr 1) (\<lambda>p.
     bnd (argint 2) (\<lambda>n.
     bnd (argfd 0) (\<lambda>r.
     case r of
       None \<Rightarrow> ret (-1)
     | Some (_, f) \<Rightarrow> bnd (filewrite f p (sint n)) (\<lambda>r. ret (of_int r)))))"

definition sys_close :: "u64 kop" where
  "sys_close =
     bnd (argfd 0) (\<lambda>r.
     case r of
       None \<Rightarrow> ret (-1)
     | Some (fd, f) \<Rightarrow>
         seq (clear_fd fd) (
         seq (fileclose f) (
         ret 0)))"

definition sys_fstat :: "u64 kop" where
  "sys_fstat =
     bnd (argaddr 1) (\<lambda>st.
     bnd (argfd 0) (\<lambda>r.
     case r of
       None \<Rightarrow> ret (-1)
     | Some (_, f) \<Rightarrow> bnd (filestat f st) (\<lambda>r. ret (of_int r))))"

definition link_bad :: "nat \<Rightarrow> u64 kop" where
  "link_bad ip =
     seq (ilock ip) (
     seq (modify (upd_inode ip (\<lambda>x. x\<lparr>i_nlink := i_nlink x - 1\<rparr>))) (
     seq (iupdate ip) (
     seq (iunlockput ip) (
     seq end_op (
     ret (-1))))))"

definition sys_link :: "u64 kop" where
  "sys_link =
     bnd (argstr 0 MAXPATH) (\<lambda>r.
     case r of None \<Rightarrow> ret (-1) | Some old \<Rightarrow>
     bnd (argstr 1 MAXPATH) (\<lambda>r.
     case r of None \<Rightarrow> ret (-1) | Some new \<Rightarrow>
     seq begin_op (
     bnd (namei old) (\<lambda>r.
     case r of
       None \<Rightarrow> seq end_op (ret (-1))
     | Some ip \<Rightarrow>
         seq (ilock ip) (
         bnd (gets (\<lambda>s. i_type (itable s ip))) (\<lambda>ty.
         if ty = T_DIR then
           seq (iunlockput ip) (
           seq end_op (
           ret (-1)))
         else
           seq (modify (upd_inode ip (\<lambda>x. x\<lparr>i_nlink := i_nlink x + 1\<rparr>))) (
           seq (iupdate ip) (
           seq (iunlock ip) (
           bnd (nameiparent new) (\<lambda>r.
           case r of
             None \<Rightarrow> link_bad ip
           | Some (dp, name) \<Rightarrow>
               seq (ilock dp) (
               bnd (gets (\<lambda>s. (i_dev (itable s dp), i_dev (itable s ip), i_inum (itable s ip)))) (\<lambda>(ddev, dev, inum).
               bnd (if ddev \<noteq> dev then ret (-1) else dirlink dp name inum) (\<lambda>r.
               if r < 0 then
                 seq (iunlockput dp) (
                 link_bad ip)
               else
                 seq (iunlockput dp) (
                 seq (iput ip) (
                 seq end_op (
                 ret 0))))))))))))))))"

fun isdirempty_loop :: "nat \<Rightarrow> u32 list \<Rightarrow> bool kop" where
  "isdirempty_loop dp [] = ret True"
| "isdirempty_loop dp (off # offs) =
     bnd (read_dirent ''isdirempty: readi'' dp off) (\<lambda>de.
     if de_inum de \<noteq> 0 then ret False else isdirempty_loop dp offs)"

definition isdirempty :: "nat \<Rightarrow> bool kop" where
  "isdirempty dp =
     bnd (gets (\<lambda>s. i_size (itable s dp))) (\<lambda>size.
     isdirempty_loop dp (dir_offs 2 size))"

definition unlink_bad :: "nat \<Rightarrow> u64 kop" where
  "unlink_bad dp =
     seq (iunlockput dp) (
     seq end_op (
     ret (-1)))"

definition sys_unlink :: "u64 kop" where
  "sys_unlink =
     bnd (argstr 0 MAXPATH) (\<lambda>r.
     case r of None \<Rightarrow> ret (-1) | Some path \<Rightarrow>
     seq begin_op (
     bnd (nameiparent path) (\<lambda>r.
     case r of
       None \<Rightarrow> seq end_op (ret (-1))
     | Some (dp, name) \<Rightarrow>
         seq (ilock dp) (
         if namecmp name [46] = 0 \<or> namecmp name [46, 46] = 0 then unlink_bad dp else
         bnd (dirlookup dp name) (\<lambda>r.
         case r of
           None \<Rightarrow> unlink_bad dp
         | Some (ip, off) \<Rightarrow>
             seq (ilock ip) (
             bnd (gets (\<lambda>s. itable s ip)) (\<lambda>x.
             if sint (i_nlink x) < 1 then panic ''unlink: nlink < 1'' else
             bnd (if i_type x = T_DIR then isdirempty ip else ret True) (\<lambda>ok.
             if \<not> ok then
               seq (iunlockput ip) (
               unlink_bad dp)
             else
               bnd (writei (from_local (replicate 16 0)) dp off 16) (\<lambda>n.
               if n \<noteq> 16 then panic ''unlink: writei'' else
               seq (if i_type x = T_DIR then
                      seq (modify (upd_inode dp (\<lambda>x. x\<lparr>i_nlink := i_nlink x - 1\<rparr>))) (
                      iupdate dp)
                    else skip) (
               seq (iunlockput dp) (
               seq (modify (upd_inode ip (\<lambda>x. x\<lparr>i_nlink := i_nlink x - 1\<rparr>))) (
               seq (iupdate ip) (
               seq (iunlockput ip) (
               seq end_op (
               ret 0)))))))))))))) )"

text \<open>kernel/fcntl.h.\<close>

definition O_RDONLY :: c_int where "O_RDONLY = 0"
definition O_WRONLY :: c_int where "O_WRONLY = 1"
definition O_RDWR :: c_int where "O_RDWR = 2"
definition O_CREATE :: c_int where "O_CREATE = 0x200"
definition O_TRUNC :: c_int where "O_TRUNC = 0x400"

text \<open>The inode \<open>sys_open\<close> opens, locked; \<open>None\<close> after an error, with the transaction ended.\<close>

definition open_inode :: "u8 list \<Rightarrow> c_int \<Rightarrow> nat option kop" where
  "open_inode path omode =
     (if omode AND O_CREATE \<noteq> 0 then
        bnd (create path T_FILE 0 0) (\<lambda>r.
        case r of
          None \<Rightarrow> seq end_op (ret None)
        | Some ip \<Rightarrow> ret (Some ip))
      else
        bnd (namei path) (\<lambda>r.
        case r of
          None \<Rightarrow> seq end_op (ret None)
        | Some ip \<Rightarrow>
            seq (ilock ip) (
            bnd (gets (\<lambda>s. i_type (itable s ip))) (\<lambda>ty.
            if ty = T_DIR \<and> omode \<noteq> O_RDONLY then
              seq (iunlockput ip) (
              seq end_op (
              ret None))
            else ret (Some ip)))))"

definition open_fail :: "nat \<Rightarrow> nat option \<Rightarrow> u64 kop" where
  "open_fail ip f =
     seq (case f of None \<Rightarrow> skip | Some f \<Rightarrow> fileclose f) (
     seq (iunlockput ip) (
     seq end_op (
     ret (-1))))"

definition open_finish :: "nat \<Rightarrow> nat \<Rightarrow> nat \<Rightarrow> c_int \<Rightarrow> u64 kop" where
  "open_finish ip f fd omode =
     bnd (gets (\<lambda>s. itable s ip)) (\<lambda>x.
     seq (modify (upd_file f (\<lambda>y.
       if i_type x = T_DEVICE then y\<lparr>f_type := FD_DEVICE, f_major := i_major x\<rparr>
       else y\<lparr>f_type := FD_INODE, f_off := 0\<rparr>))) (
     seq (modify (upd_file f (\<lambda>y. y\<lparr>f_ip := Some ip, f_readable := (omode AND O_WRONLY = 0),
       f_writable := (omode AND O_WRONLY \<noteq> 0 \<or> omode AND O_RDWR \<noteq> 0)\<rparr>))) (
     seq (if omode AND O_TRUNC \<noteq> 0 \<and> i_type x = T_FILE then itrunc ip else skip) (
     seq (iunlock ip) (
     seq end_op (
     ret (of_nat fd)))))))"

definition sys_open :: "u64 kop" where
  "sys_open =
     bnd (argint 1) (\<lambda>omode.
     bnd (argstr 0 MAXPATH) (\<lambda>r.
     case r of None \<Rightarrow> ret (-1) | Some path \<Rightarrow>
     seq begin_op (
     bnd (open_inode path omode) (\<lambda>r.
     case r of None \<Rightarrow> ret (-1) | Some ip \<Rightarrow>
     bnd (gets (\<lambda>s. itable s ip)) (\<lambda>x.
     if i_type x = T_DEVICE \<and> (sint (i_major x) < 0 \<or> sint (i_major x) \<ge> int NDEV) then
       seq (iunlockput ip) (
       seq end_op (
       ret (-1)))
     else
       bnd filealloc (\<lambda>rf.
       case rf of
         None \<Rightarrow> open_fail ip None
       | Some f \<Rightarrow>
           bnd (fdalloc f) (\<lambda>r.
           case r of
             None \<Rightarrow> open_fail ip (Some f)
           | Some fd \<Rightarrow> open_finish ip f fd omode)))))))"

definition sys_mkdir :: "u64 kop" where
  "sys_mkdir =
     seq begin_op (
     bnd (argstr 0 MAXPATH) (\<lambda>r.
     bnd (case r of None \<Rightarrow> ret None | Some path \<Rightarrow> create path T_DIR 0 0) (\<lambda>r.
     case r of
       None \<Rightarrow>
         seq end_op (
         ret (-1))
     | Some ip \<Rightarrow>
         seq (iunlockput ip) (
         seq end_op (
         ret 0)))))"

definition sys_mknod :: "u64 kop" where
  "sys_mknod =
     seq begin_op (
     bnd (argint 1) (\<lambda>major.
     bnd (argint 2) (\<lambda>minor.
     bnd (argstr 0 MAXPATH) (\<lambda>r.
     bnd (case r of None \<Rightarrow> ret None | Some path \<Rightarrow> create path T_DEVICE (ucast major) (ucast minor)) (\<lambda>r.
     case r of
       None \<Rightarrow>
         seq end_op (
         ret (-1))
     | Some ip \<Rightarrow>
         seq (iunlockput ip) (
         seq end_op (
         ret 0)))))))"

definition sys_chdir :: "u64 kop" where
  "sys_chdir =
     bnd myproc (\<lambda>mp.
     seq begin_op (
     bnd (argstr 0 MAXPATH) (\<lambda>r.
     bnd (case r of None \<Rightarrow> ret None | Some path \<Rightarrow> namei path) (\<lambda>r.
     case r of
       None \<Rightarrow>
         seq end_op (
         ret (-1))
     | Some ip \<Rightarrow>
         seq (ilock ip) (
         bnd (gets (\<lambda>s. i_type (itable s ip))) (\<lambda>ty.
         if ty \<noteq> T_DIR then
           seq (iunlockput ip) (
           seq end_op (
           ret (-1)))
         else
           seq (iunlock ip) (
           bnd (nonnull mp) (\<lambda>p.
           bnd (gets (\<lambda>s. p_cwd (procs s p))) (\<lambda>cwd.
           bnd (nonnull cwd) (\<lambda>cip.
           seq (iput cip) (
           seq end_op (
           seq (modify (upd_proc p (\<lambda>q. q\<lparr>p_cwd := Some ip\<rparr>))) (
           ret 0)))))))))))))"

text \<open>
  \<open>sys_exec\<close>: the argument pages with the strings copied into them; the flag is cleared by a jump to \<open>bad\<close>.
\<close>

fun exec_fetch :: "nat \<Rightarrow> u64 \<Rightarrow> (u64 \<times> u8 list) list \<Rightarrow> ((u64 \<times> u8 list) list \<times> bool) kop" where
  "exec_fetch 0 uargv argv = ret (argv, False)"
| "exec_fetch (Suc room) uargv argv =
     bnd (fetchaddr (uargv + 8 * of_nat (length argv))) (\<lambda>r.
     case r of
       None \<Rightarrow> ret (argv, False)
     | Some uarg \<Rightarrow>
         if uarg = 0 then ret (argv, True) else
         bnd kalloc (\<lambda>pg.
         if pg = 0 then ret (argv, False) else
         bnd (fetchstr uarg 4096) (\<lambda>r.
         case r of
           None \<Rightarrow> ret (argv @ [(pg, [])], False)
         | Some str \<Rightarrow>
             seq (modify (upd_mem (\<lambda>m. store_bytes m pg (str @ [0])))) (
             exec_fetch room uargv (argv @ [(pg, str)])))))"

definition sys_exec :: "u64 kop" where
  "sys_exec =
     bnd (argaddr 1) (\<lambda>uargv.
     bnd (argstr 0 MAXPATH) (\<lambda>r.
     case r of None \<Rightarrow> ret (-1) | Some path \<Rightarrow>
     bnd (exec_fetch MAXARG uargv []) (\<lambda>(argv, ok).
     if \<not> ok then
       seq (each kfree (map fst argv)) (
       ret (-1))
     else
       bnd (kexec path (map snd argv)) (\<lambda>r.
       seq (each kfree (map fst argv)) (
       ret (of_int r))))))"

definition sys_pipe :: "u64 kop" where
  "sys_pipe =
     bnd myproc (\<lambda>mp.
     bnd (argaddr 0) (\<lambda>fdarray.
     bnd pipealloc (\<lambda>r.
     case r of None \<Rightarrow> ret (-1) | Some (rfile, wfile) \<Rightarrow>
     bnd (fdalloc rfile) (\<lambda>r0.
     bnd (case r0 of None \<Rightarrow> ret None | Some fd0 \<Rightarrow> fdalloc wfile) (\<lambda>r1.
     case (r0, r1) of
       (Some fd0, Some fd1) \<Rightarrow>
         bnd (nonnull mp) (\<lambda>p.
         bnd (gets (\<lambda>s. p_pagetable (procs s p))) (\<lambda>pt.
         bnd (copyout pt fdarray (le_bytes 4 (of_nat fd0 :: c_int))) (\<lambda>a.
         bnd (if a < 0 then ret a else copyout pt (fdarray + 4) (le_bytes 4 (of_nat fd1 :: c_int))) (\<lambda>b.
         if b < 0 then
           seq (clear_fd fd0) (
           seq (clear_fd fd1) (
           seq (fileclose rfile) (
           seq (fileclose wfile) (
           ret (-1)))))
         else ret 0))))
     | _ \<Rightarrow>
         seq (case r0 of None \<Rightarrow> skip | Some fd0 \<Rightarrow> clear_fd fd0) (
         seq (fileclose rfile) (
         seq (fileclose wfile) (
         ret (-1))))))))) "

section \<open>The dispatcher (kernel/syscall.c)\<close>

definition syscalls :: "u64 kop list" where
  "syscalls = [sys_fork, sys_exit, sys_wait, sys_pipe, sys_read, sys_kill, sys_exec, sys_fstat, sys_chdir,
     sys_dup, sys_getpid, sys_sbrk, sys_pause, sys_uptime, sys_open, sys_write, sys_mknod, sys_unlink,
     sys_link, sys_mkdir, sys_close, sys_memstat]"

definition syscall :: "unit kop" where
  "syscall =
     bnd myproc (\<lambda>mp. bnd (nonnull mp) (\<lambda>p.
     bnd (gets (\<lambda>s. p_trapframe (procs s p))) (\<lambda>tf.
     bnd (load64 (tf_a 7 tf)) (\<lambda>a7.
     (let num = sint (ucast a7 :: c_int) in
     if num > 0 \<and> num < int (length syscalls) + 1 then
       bnd (syscalls ! (nat num - 1)) (\<lambda>r.
       bnd (gets (\<lambda>s. p_trapframe (procs s p))) (\<lambda>tf.
       store64 (tf_a 0 tf) r))
     else
       bnd (gets (\<lambda>s. procs s p)) (\<lambda>q.
       seq (printk (UNKNOWN_SYSCALL (p_pid q) (p_name q) (ucast a7))) (
       store64 (tf_a 0 tf) (-1))))))))"

end
