(* ===== verification/Xv6_Trap.thy ===== *)
theory Xv6_Trap
  imports Xv6_Syscall
begin

text \<open>
  kernel/trap.c, \<open>forkret\<close> of kernel/proc.c and the boot sequence of kernel/main.c. The control registers
  a trap leaves behind, the interrupt the PLIC hands out and the state of the UART are the
  environment: they are arguments. Writes of control registers are given back as a record.
\<close>

section \<open>Control registers\<close>

record trapregs =
  r_sstatus :: u64
  r_sepc :: u64
  r_scause :: u64
  r_stval :: u64

text \<open>What the devices have to say when an interrupt is handled: the PLIC's claim, and the UART.\<close>

record devices =
  d_irq :: c_int
  d_tx_idle :: bool
  d_input :: "u8 list"
  d_cpuid :: nat

definition SSTATUS_SPP :: u64 where [const_defs]: "SSTATUS_SPP = 0x100"
definition SSTATUS_SPIE :: u64 where [const_defs]: "SSTATUS_SPIE = 0x20"
definition MAKE_SATP :: "u64 \<Rightarrow> u64" where "MAKE_SATP pagetable = 0x8000000000000000 OR drop_bit 12 pagetable"

definition UART0_IRQ :: c_int where "UART0_IRQ = 10"
definition VIRTIO0_IRQ :: c_int where "VIRTIO0_IRQ = 1"

section \<open>Interrupts\<close>

definition clockintr :: "devices \<Rightarrow> unit kop" where
  "clockintr d =
     (if d_cpuid d = 0 then
        seq (acquire TicksLk) (
        seq (modify (\<lambda>s. s\<lparr>ticks := ticks s + 1\<rparr>)) (
        seq (wakeup ChTicks) (
        release TicksLk)))
      else skip)"

text \<open>
  A disk interrupt finds no request outstanding, because \<open>virtio_disk_rw\<close> waits for its own
  completion: it takes and releases the driver's lock.
\<close>

definition virtio_disk_intr :: "unit kop" where
  "virtio_disk_intr = seq (acquire VdiskLk) (release VdiskLk)"

definition devintr :: "trapregs \<Rightarrow> devices \<Rightarrow> int kop" where
  "devintr r d =
     (if r_scause r = 0x8000000000000009 then
        seq (if d_irq d = UART0_IRQ then uartintr (d_tx_idle d) (d_input d)
             else if d_irq d = VIRTIO0_IRQ then virtio_disk_intr
             else if d_irq d \<noteq> 0 then printk (UNEXPECTED_IRQ (d_irq d))
             else skip) (
        ret 1)
      else if r_scause r = 0x8000000000000005 then
        seq (clockintr d) (
        ret 2)
      else ret 0)"

section \<open>Page faults from user mode\<close>

definition access_type :: "u64 \<Rightarrow> access" where
  "access_type scause = (if scause = 12 then Aexec else if scause = 13 then Aread else Awrite)"

text \<open>
  Reading a page back from the swap file, at the entry \<open>pte\<close>: what follows the read of the page \<open>pa\<close>, and the whole.
\<close>

definition swap_in_map :: "nat \<Rightarrow> u64 \<Rightarrow> u64 \<Rightarrow> u64 \<Rightarrow> c_int \<Rightarrow> u64 \<Rightarrow> unit kop" where
  "swap_in_map p va pte pa slot perms =
     seq (swap_slot_free p (sint slot)) (
     seq (store64 pte 0) (
     bnd (gets (\<lambda>s. p_pagetable (procs s p))) (\<lambda>pt.
     bnd (mappages pt va PGSIZE pa (perms OR PTE_V)) (\<lambda>r.
     if r \<noteq> 0 then
       seq (kfree pa) (
       setkilled p)
     else
       bnd (gets (\<lambda>s. p_fifo_seq_num (procs s p))) (\<lambda>sq.
       seq (add_to_resident_set p va sq) (
       bnd (gets (\<lambda>s. procs s p)) (\<lambda>q.
       seq (printk (RESIDENT (p_pid q) va (p_fifo_seq_num q))) (
       modify (upd_proc p (\<lambda>q. q\<lparr>p_fifo_seq_num := p_fifo_seq_num q + 1\<rparr>))))))))))"

definition swap_in :: "nat \<Rightarrow> u64 \<Rightarrow> u64 \<Rightarrow> access \<Rightarrow> unit kop" where
  "swap_in p va pte acc =
     bnd (gets (\<lambda>s. p_pid (procs s p))) (\<lambda>pid.
     seq (printk (PAGEFAULT pid va acc Cswap)) (
     bnd (load64 pte) (\<lambda>e.
     (let slot = (ucast (PTE_SLOT e) :: c_int);
          perms = e AND (PTE_R OR PTE_W OR PTE_X OR PTE_U)
      in
     seq (printk (SWAPIN pid va (scast slot))) (
     bnd kalloc (\<lambda>pa.
     if pa = 0 then setkilled p else
     bnd (gets (\<lambda>s. p_swap_inode (procs s p))) (\<lambda>si.
     case si of
       None \<Rightarrow>
         seq (kfree pa) (
         setkilled p)
     | Some ip \<Rightarrow>
         seq (ilock ip) (
         bnd (readi (to_kernel pa) () ip (ucast (scast slot * PGSIZE :: u64)) 4096) (\<lambda>(n, _).
         seq (iunlock ip) (
         if n \<noteq> 4096 then
           seq (kfree pa) (
           setkilled p)
         else swap_in_map p va pte pa slot perms)))))))))) "

definition fault_cause :: "proc \<Rightarrow> u64 \<Rightarrow> u64 \<Rightarrow> cause" where
  "fault_cause q sp va =
     (if va \<ge> p_exe_end q \<and> va < p_sz q then Cheap
      else if va \<ge> sp \<and> va < sp + PGSIZE then Cstack
      else if va < p_exe_end q then Cexec
      else Cheap)"

definition page_fault :: "nat \<Rightarrow> trapregs \<Rightarrow> unit kop" where
  "page_fault p r =
     (let va = PGROUNDDOWN (r_stval r);
          acc = access_type (r_scause r)
      in
     bnd (gets (\<lambda>s. p_pagetable (procs s p))) (\<lambda>pt.
     bnd (walk0 pt va) (\<lambda>pte.
     bnd (if pte = 0 then ret 0 else load64 pte) (\<lambda>e.
     if pte \<noteq> 0 \<and> e AND PTE_V = 0 \<and> e AND PTE_S \<noteq> 0 then swap_in p va pte acc
     else
       bnd (gets (\<lambda>s. procs s p)) (\<lambda>q.
       if pte = 0 \<or> e AND PTE_V \<noteq> 0 then
         seq (printk (PAGEFAULT (p_pid q) va acc Cinvalid)) (
         seq (printk (KILL_INVALID (p_pid q) va acc)) (
         setkilled p))
       else
         bnd (load64 (tf_sp (p_trapframe q))) (\<lambda>sp.
         seq (printk (PAGEFAULT (p_pid q) va acc (fault_cause q sp va))) (
         bnd (vmfault pt va) (\<lambda>pa.
         if pa = 0 then setkilled p else skip))))))))"

section \<open>Traps\<close>

text \<open>
  The registers \<open>prepare_return\<close> sets; \<open>kernel_satp\<close> and the hart number, which it reads from the
  machine, are the satp of the kernel page table and the number of the CPU.
\<close>

record retregs =
  w_stvec :: u64
  w_sstatus :: u64
  w_sepc :: u64

definition prepare_return :: "trapregs \<Rightarrow> devices \<Rightarrow> retregs kop" where
  "prepare_return r d =
     bnd myproc (\<lambda>mp. bnd (nonnull mp) (\<lambda>p.
     bnd (gets (\<lambda>s. procs s p)) (\<lambda>q.
     bnd (gets (\<lambda>s. s)) (\<lambda>s0.
     (let tf = p_trapframe q in
     seq (store64 tf (MAKE_SATP (kernel_pagetable s0))) (
     seq (store64 (tf + 8) (p_kstack q + PGSIZE)) (
     seq (store64 (tf + 16) (sym_usertrap s0)) (
     seq (store64 (tf + 32) (of_nat (d_cpuid d))) (
     bnd (load64 (tf_epc tf)) (\<lambda>epc.
     ret \<lparr>w_stvec = TRAMPOLINE + (sym_uservec s0 - sym_trampoline s0),
          w_sstatus = (r_sstatus r AND NOT SSTATUS_SPP) OR SSTATUS_SPIE,
          w_sepc = epc\<rparr>))))))))))"

text \<open>The interrupt, fault or system call that brought the process into the kernel.\<close>

definition usertrap_cause :: "nat \<Rightarrow> trapregs \<Rightarrow> devices \<Rightarrow> int kop" where
  "usertrap_cause p r d =
     (if r_scause r = 8 then
        bnd (killed p) (\<lambda>k.
        seq (if k then kexit (-1) else skip) (
        bnd (gets (\<lambda>s. p_trapframe (procs s p))) (\<lambda>tf.
        bnd (load64 (tf_epc tf)) (\<lambda>epc.
        seq (store64 (tf_epc tf) (epc + 4)) (
        seq syscall (
        ret 0))))))
      else
        bnd (devintr r d) (\<lambda>which_dev.
        if which_dev \<noteq> 0 then ret which_dev
        else if r_scause r = 12 \<or> r_scause r = 13 \<or> r_scause r = 15 then
          seq (page_fault p r) (
          ret 0)
        else
          bnd (gets (\<lambda>s. p_pid (procs s p))) (\<lambda>pid.
          seq (printk (UNEXPECTED_SCAUSE (r_scause r) pid (r_sepc r) (r_stval r))) (
          seq (setkilled p) (
          ret 0)))))"

definition usertrap :: "trapregs \<Rightarrow> devices \<Rightarrow> (u64 \<times> retregs) kop" where
  "usertrap r d =
     (if r_sstatus r AND SSTATUS_SPP \<noteq> 0 then panic ''usertrap: not from user mode'' else
     bnd myproc (\<lambda>mp. bnd (nonnull mp) (\<lambda>p.
     bnd (gets (\<lambda>s. p_trapframe (procs s p))) (\<lambda>tf.
     seq (store64 (tf_epc tf) (r_sepc r)) (
     bnd (usertrap_cause p r d) (\<lambda>which_dev.
     bnd (killed p) (\<lambda>k.
     seq (if k then kexit (-1) else skip) (
     seq (if which_dev = 2 then yield else skip) (
     bnd (prepare_return r d) (\<lambda>w.
     bnd (gets (\<lambda>s. p_pagetable (procs s p))) (\<lambda>pt.
     ret (MAKE_SATP pt, w))))))))))))"

text \<open>\<open>kerneltrap\<close>: \<open>intr\<close> is \<open>intr_get()\<close>.\<close>

definition kerneltrap :: "trapregs \<Rightarrow> devices \<Rightarrow> bool \<Rightarrow> unit kop" where
  "kerneltrap r d intr =
     (if r_sstatus r AND SSTATUS_SPP = 0 then panic ''kerneltrap: not from supervisor mode'' else
      if intr then panic ''kerneltrap: interrupts enabled'' else
      bnd (devintr r d) (\<lambda>which_dev.
      if which_dev = 0 then panic ''kerneltrap'' else
      bnd myproc (\<lambda>mp.
      if which_dev = 2 \<and> mp \<noteq> None then yield else skip)))"

section \<open>First return of a process (kernel/proc.c) and boot (kernel/main.c)\<close>

definition init_path :: "u8 list" where
  "init_path = [47, 105, 110, 105, 116]"

definition forkret :: "trapregs \<Rightarrow> devices \<Rightarrow> (u64 \<times> retregs) kop" where
  "forkret r d =
     bnd myproc (\<lambda>mp. bnd (nonnull mp) (\<lambda>p.
     seq (release (ProcLk p)) (
     bnd (gets forkret_first) (\<lambda>first.
     seq (if first then
            seq (fsinit ROOTDEV) (
            seq (modify (\<lambda>s. s\<lparr>forkret_first := False\<rparr>)) (
            bnd (kexec init_path [init_path]) (\<lambda>r.
            bnd (gets (\<lambda>s. p_trapframe (procs s p))) (\<lambda>tf.
            seq (store64 (tf_a 0 tf) (of_int r)) (
            if r = -1 then panic ''exec'' else skip)))))
          else skip) (
     bnd (prepare_return r d) (\<lambda>w.
     bnd (gets (\<lambda>s. p_pagetable (procs s p))) (\<lambda>pt.
     ret (MAKE_SATP pt, w))))))))"

definition kvminit :: "unit kop" where
  "kvminit = bnd kvmmake (\<lambda>pt. modify (\<lambda>s. s\<lparr>kernel_pagetable := pt\<rparr>))"

text \<open>What CPU 0 does before it enters the scheduler.\<close>

definition main_boot :: "unit kop" where
  "main_boot =
     seq consoleinit (
     seq (printk (MSG ''xv6 kernel is booting'')) (
     seq kinit (
     seq kvminit (
     seq procinit (
     seq binit (
     seq iinit (
     userinit)))))))"

end
