(* ===== verification/Xv6_Demand.thy ===== *)
theory Xv6_Demand
  imports Xv6_Resident Xv6_Trap
begin

text \<open>
  Demand paging: what a page fault does to the page table, the resident set, the free list and the page.
\<close>

section \<open>A page in hand\<close>

text \<open>
  \<open>spare s p xs ps pa\<close>: besides what \<open>vm_inv\<close> accounts for, the process holds the RAM page \<open>pa\<close>.
\<close>

definition spare :: "kstate \<Rightarrow> nat \<Rightarrow> (u64 \<times> u64 \<times> c_int) list \<Rightarrow> u64 list \<Rightarrow> u64 \<Rightarrow> bool" where
  "spare s p xs ps pa \<longleftrightarrow> vm_inv s p xs ps \<and> ram_page (sym_end s) pa \<and>
     pa \<notin> set (ps @ nodes xs @ frames s p xs) \<union> tables (mem s) (p_pagetable (procs s p))"

text \<open>A change of memory outside everything the invariant speaks of.\<close>

lemma vm_inv_frame:
  assumes inv: "vm_inv s p xs ps" and mem: "same_except P (mem s) (mem t)"
    and P: "P \<inter> (set (ps @ nodes xs) \<union> tables (mem s) (p_pagetable (procs s p))) = {}"
    and t: "freelist t = freelist s" "sym_end t = sym_end s"
      "p_pagetable (procs t p) = p_pagetable (procs s p)"
      "p_resident_set_head (procs t p) = p_resident_set_head (procs s p)"
      "p_resident_set_tail (procs t p) = p_resident_set_tail (procs s p)"
  shows "vm_inv t p xs ps" "frames t p xs = frames s p xs"
    "tables (mem t) (p_pagetable (procs s p)) = tables (mem s) (p_pagetable (procs s p))"
    "pte_of (mem t) (p_pagetable (procs s p)) va = pte_of (mem s) (p_pagetable (procs s p)) va"
proof -
  let ?root = "p_pagetable (procs s p)"
  have al: "page_aligned ?root" using inv by (auto simp: vm_inv_def pt_wf_def)
  note f = pt_frame [OF al mem]
  have T: "tables (mem s) ?root \<inter> P = {}" using P by auto
  note f = f [OF T]
  have fr: "frame_of t p va = frame_of s p va" for va by (simp add: frame_of_def t f)
  show frs: "frames t p xs = frames s p xs" by (simp add: frames_def fr)
  show "tables (mem t) ?root = tables (mem s) ?root" "pte_of (mem t) ?root va = pte_of (mem s) ?root va"
    by (rule f)+
  have free: "free_pages s ps" and res: "resident s p xs" using inv by (auto simp: vm_inv_def)
  have "free_pages t ps" using P t by (intro free_pages_frame [OF free mem]) auto
  moreover have "resident t p xs"
    using res P t rchain_frame [OF _ mem] by (auto simp: resident_def)
  ultimately show "vm_inv t p xs ps"
    using inv by (simp add: vm_inv_def t f frs fr cong: ball_cong)
qed

lemma take_spare:
  fixes c :: u8
  assumes inv: "vm_inv s p xs (f # ps)"
  defines "u \<equiv> (allocated f s)\<lparr>mem := store_bytes (mem (allocated f s)) f (replicate 4096 c)\<rparr>"
  shows "spare u p xs ps f" "ctl u = ctl s"
    "pte_of (mem u) (p_pagetable (procs s p)) va = pte_of (mem s) (p_pagetable (procs s p)) va"
    "load_bytes (mem u) f 4096 = replicate 4096 c" "same_except {f} (mem s) (mem u)"
proof -
  let ?root = "p_pagetable (procs s p)"
  have free: "free_pages s (f # ps)" using inv by (simp add: vm_inv_def)
  note al = free_pages_allocated [OF free]
  have f: "page_aligned f" using al(3) by (simp add: ram_page_def)
  show same: "same_except {f} (mem s) (mem u)"
    using same_except_trans [OF al(2) same_except_store_page [OF f, of "replicate 4096 c" "mem (allocated f s)"]] by (simp add: u_def)
  show "ctl u = ctl s" by (simp add: u_def ctl_def allocated_def)
  show "load_bytes (mem u) f 4096 = replicate 4096 c"
    using load_store_same [of "replicate 4096 c"] by (simp add: u_def)
  have d: "f \<notin> set (ps @ nodes xs @ frames s p xs) \<union> tables (mem s) ?root"
    using inv by (auto simp: vm_inv_def)
  have pr: "procs u = procs s" "sym_end u = sym_end s" by (simp_all add: u_def allocated_def)
  have al': "page_aligned ?root" using inv by (auto simp: vm_inv_def pt_wf_def)
  note pf = pt_frame [OF al' same]
  have T: "tables (mem s) ?root \<inter> {f} = {}" using d by auto
  note pf = pf [OF T]
  have fr: "frame_of u p va = frame_of s p va" for va by (simp add: frame_of_def pr pf)
  then have frs: "frames u p xs = frames s p xs" by (simp add: frames_def)
  have "free_pages u ps"
  proof -
    have "chain (mem u) (read64 (mem s) f) ps"
      using free al(4) by (intro chain_frame [OF _ same]) (auto simp: free_pages_def)
    then show ?thesis using free by (auto simp: free_pages_def u_def allocated_def)
  qed
  moreover have "resident u p xs"
    using inv d rchain_frame [OF _ same] by (auto simp: vm_inv_def resident_def pr)
  ultimately have "vm_inv u p xs ps"
    using inv by (auto simp: vm_inv_def pr pf frs fr)
  then show "spare u p xs ps f"
    using d al(3) by (simp add: spare_def pr pf frs)
  show "pte_of (mem u) ?root va = pte_of (mem s) ?root va" by (rule pf)
qed


lemma free_spare:
  assumes sp: "spare s p xs ps pa"
  shows "vm_inv (freed pa s) p xs (pa # ps)" "frames (freed pa s) p xs = frames s p xs"
    "tables (mem (freed pa s)) (p_pagetable (procs s p)) = tables (mem s) (p_pagetable (procs s p))"
    "pte_of (mem (freed pa s)) (p_pagetable (procs s p)) va = pte_of (mem s) (p_pagetable (procs s p)) va"
proof -
  let ?root = "p_pagetable (procs s p)" let ?t = "freed pa s"
  note inv = sp [unfolded spare_def vm_inv_def]
  have al: "page_aligned ?root" using inv by (auto simp: pt_wf_def)
  have pa: "page_aligned pa" using inv by (auto simp: ram_page_def)
  have T: "tables (mem s) ?root \<inter> {pa} = {}" using inv by auto
  note pf = pt_frame [OF al same_except_freed [OF pa] T]
  have pr: "procs ?t = procs s" "sym_end ?t = sym_end s" by (simp_all add: freed_def)
  have fr: "frame_of ?t p va = frame_of s p va" for va by (simp add: frame_of_def pr pf)
  show frs: "frames ?t p xs = frames s p xs" by (simp add: frames_def fr)
  show "tables (mem ?t) ?root = tables (mem s) ?root" "pte_of (mem ?t) ?root va = pte_of (mem s) ?root va"
    by (rule pf)+
  have "free_pages ?t (pa # ps)" using inv by (intro free_pages_freed) auto
  moreover have "resident ?t p xs"
    using inv rchain_frame [OF _ same_except_freed [OF pa], of s] by (auto simp: resident_def pr)
  ultimately show "vm_inv ?t p xs (pa # ps)"
    using inv by (auto simp: vm_inv_def pr pf fr frs)
qed

section \<open>Mapping and tracking a page\<close>

lemma load_page_same_except:
  assumes "same_except P m m'" "page_aligned pa" "pa \<notin> P"
  shows "load_bytes m' pa 4096 = load_bytes m pa 4096"
proof (rule load_bytes_cong)
  fix i assume "i < (4096 :: nat)"
  then have "PGROUNDDOWN (pa + of_nat i) = pa" using assms(2) by (intro PGROUNDDOWN_add)
  then show "m' (pa + of_nat i) = m (pa + of_nat i)" using assms(1,3) by (auto simp: same_except_def)
qed

definition advanced :: "nat \<Rightarrow> u64 \<Rightarrow> (c_int \<Rightarrow> u64 \<Rightarrow> kmsg) \<Rightarrow> kstate \<Rightarrow> kstate" where
  "advanced p va what s = upd_proc p (\<lambda>q. q\<lparr>p_fifo_seq_num := p_fifo_seq_num q + 1\<rparr>)
     (s\<lparr>klog := klog s @ [what (p_pid (procs s p)) va, RESIDENT (p_pid (procs s p)) va (p_fifo_seq_num (procs s p))]\<rparr>)"

lemma page_in_done_run:
  assumes "add_to_resident_set p va (p_fifo_seq_num (procs s p)) s = Ok () t"
  shows "page_in_done p va what s = Ok () (advanced p va what t)"
  using assms by (simp add: page_in_done_def seq_Ok advanced_def upd_proc_def)

lemma ctl_fields: "ctl t = ctl s \<Longrightarrow> procs t = procs s \<and> held t = held s \<and> sym_end t = sym_end s \<and>
  klog t = klog s \<and> curproc t = curproc s"
proof -
  assume "ctl t = ctl s"
  then have "procs (ctl t) = procs (ctl s)" "held (ctl t) = held (ctl s)" "sym_end (ctl t) = sym_end (ctl s)"
    "klog (ctl t) = klog (ctl s)" "curproc (ctl t) = curproc (ctl s)" by simp_all
  then show ?thesis by (simp add: ctl_def)
qed

lemma rest_klog: "rest t = rest s \<Longrightarrow> klog t = klog s"
proof -
  assume "rest t = rest s"
  then have "klog (rest t) = klog (rest s)" by simp
  then show ?thesis by (simp add: rest_def)
qed

text \<open>The facts a page fault's proof needs of the two steps.\<close>

definition paged_in :: "kstate \<Rightarrow> kstate \<Rightarrow> nat \<Rightarrow> u64 \<Rightarrow> u64 \<Rightarrow> u64 \<Rightarrow> (u64 \<times> u64 \<times> c_int) list \<Rightarrow>
    u64 list \<Rightarrow> (c_int \<Rightarrow> u64 \<Rightarrow> kmsg) \<Rightarrow> bool" where
  "paged_in s t p va pa perm xs ps what \<longleftrightarrow>
     (let root = p_pagetable (procs s p); sq = p_fifo_seq_num (procs s p); pid = p_pid (procs s p) in
      (\<exists>n ps'. vm_inv t p (xs @ [(n, va, sq)]) ps' \<and> set ps' \<subseteq> set ps \<and> length ps \<le> length ps' + 3) \<and>
      p_pagetable (procs t p) = root \<and>
      (\<forall>va'. va' < MAXVA \<longrightarrow> pte_of (mem t) root va' =
        (if PGROUNDDOWN va' = va then PA2PTE pa OR perm OR PTE_V else pte_of (mem s) root va')) \<and>
      load_bytes (mem t) pa 4096 = load_bytes (mem s) pa 4096 \<and>
      p_fifo_seq_num (procs t p) = sq + 1 \<and> klog t = klog s @ [what pid va, RESIDENT pid va sq] \<and>
      held t = held s \<and> (\<forall>q. q \<noteq> p \<longrightarrow> procs t q = procs s q) \<and>
      (\<exists>h n. procs t p = (procs s p)\<lparr>p_resident_set_head := h, p_resident_set_tail := n, p_fifo_seq_num := sq + 1\<rparr>))"


lemma paged_inE:
  assumes "paged_in s t p va pa perm xs ps what"
  obtains n ps' where "load_bytes (mem t) pa 4096 = load_bytes (mem s) pa 4096"
    "vm_inv t p (xs @ [(n, va, p_fifo_seq_num (procs s p))]) ps'" "set ps' \<subseteq> set ps" "length ps \<le> length ps' + 3"
    "p_pagetable (procs t p) = p_pagetable (procs s p)"
    "\<And>va'. va' < MAXVA \<Longrightarrow> pte_of (mem t) (p_pagetable (procs s p)) va' =
      (if PGROUNDDOWN va' = va then PA2PTE pa OR perm OR PTE_V else pte_of (mem s) (p_pagetable (procs s p)) va')"
    "p_fifo_seq_num (procs t p) = p_fifo_seq_num (procs s p) + 1"
    "klog t = klog s @ [what (p_pid (procs s p)) va, RESIDENT (p_pid (procs s p)) va (p_fifo_seq_num (procs s p))]"
  using assms unfolding paged_in_def Let_def by blast

lemma vm_inv_added:
  fixes s t p
  defines "root \<equiv> p_pagetable (procs s p)"
  assumes sp: "spare s p xs ps pa" and ps: "j \<le> length ps" "drop j ps = n # ps'"
    and va: "page_aligned va" "va < MAXVA" and perm: "perm < 2 ^ 10" and inval: "\<not> pte_valid (pte_of (mem s) root va)"
    and t: "free_pages t ps'" "resident t p (xs @ [(n, va, sq)])" "pt_wf (mem t) root"
      "tables (mem t) root = tables (mem s) root \<union> set (take j ps)" "sym_end t = sym_end s" "p_pagetable (procs t p) = root"
      "\<And>va'. va' < MAXVA \<Longrightarrow> pte_of (mem t) root va' =
        (if PGROUNDDOWN va' = va then PA2PTE pa OR perm OR PTE_V else pte_of (mem s) root va')"
  shows "vm_inv t p (xs @ [(n, va, sq)]) ps'"
proof -
  note inv = sp [unfolded spare_def vm_inv_def, folded root_def]
  have pa: "page_aligned pa" "pa < 2 ^ 56" using sp ram_page_small by (auto simp: spare_def)
  have pte: "pte_of (mem t) root va = PA2PTE pa OR (perm OR PTE_V)" using t(7) va by (simp add: or.assoc)
  have fr: "frame_of t p va = pa"
    using pte PTE2PA_PA2PTE [OF pa] or_flags [OF perm, of PTE_V] by (simp add: frame_of_def t(6) PTE_V_def)
  have vv: "pte_valid (pte_of (mem t) root va)"
    using pte PA2PTE_flags [of PTE_V pa "perm OR PTE_V"] by (simp add: pte_valid_def PTE_V_def flags_and)
  have old: "pte_of (mem t) root v = pte_of (mem s) root v" if "(m, v, q) \<in> set xs" for m v q
  proof -
    have v: "page_aligned v" "v < MAXVA" "pte_valid (pte_of (mem s) root v)" using inv that by auto
    then have "v \<noteq> va" using inval by auto
    then show ?thesis using t(7) [OF v(2)] v(1) by simp
  qed
  have frs: "frames t p xs = frames s p xs"
    using old by (auto simp: frames_def frame_of_def t(6) root_def)
  have frs2: "frames t p (xs @ [(n, va, sq)]) = frames s p xs @ [pa]"
    using frs fr by (simp add: frames_def)
  have sub: "set (n # ps') \<subseteq> set ps" using set_drop_subset [of j ps] ps(2) by simp
  have ps_eq: "ps = take j ps @ n # ps'" using ps(2) by (metis append_take_drop_id)
  have d: "distinct (pa # take j ps @ n # ps' @ nodes xs @ frames s p xs)"
    using inv unfolding ps_eq [symmetric] append_Cons [symmetric] append_assoc [symmetric] by auto
  have "\<forall>(m, v, q) \<in> set xs. ram_page (sym_end t) m \<and> page_aligned v \<and> v < MAXVA \<and>
      pte_valid (pte_of (mem t) root v) \<and> ram_page (sym_end t) (frame_of t p v)"
    using inv old by (fastforce simp: t(5,6) frame_of_def root_def)
  moreover have "ram_page (sym_end t) n" "ram_page (sym_end t) pa"
    using inv sub by (auto simp: t(5) free_pages_def)
  moreover have "distinct (ps' @ nodes (xs @ [(n, va, sq)]) @ frames t p (xs @ [(n, va, sq)]))"
    using d unfolding frs2 by auto
  moreover have "set (ps' @ nodes (xs @ [(n, va, sq)]) @ frames t p (xs @ [(n, va, sq)])) \<inter> tables (mem t) root = {}"
  proof -
    have "set (pa # ps @ nodes xs @ frames s p xs) \<inter> tables (mem s) root = {}" using inv by auto
    moreover have "set (ps' @ [n] @ nodes xs @ frames s p xs @ [pa]) \<subseteq> set (pa # ps @ nodes xs @ frames s p xs)"
      using sub by auto
    moreover have "set (ps' @ [n] @ nodes xs @ frames s p xs @ [pa]) \<inter> set (take j ps) = {}"
      using d by auto
    moreover have "set (ps' @ nodes (xs @ [(n, va, sq)]) @ frames t p (xs @ [(n, va, sq)])) =
        set (ps' @ [n] @ nodes xs @ frames s p xs @ [pa])"
      unfolding frs2 by auto
    ultimately show ?thesis unfolding t(4) by blast
  qed
  ultimately show ?thesis
    using t va vv fr by (auto simp: vm_inv_def)
qed


lemma map_and_track:
  assumes sp: "spare s p xs ps pa" and len: "3 \<le> length ps"
    and lk: "KmemLk \<notin> set (held s)" "ProcLk p \<notin> set (held s)"
    and va: "page_aligned va" "va < MAXVA" and perm: "perm < 2 ^ 10"
    and inval: "\<not> pte_valid (pte_of (mem s) (p_pagetable (procs s p)) va)"
  obtains u t where "mappages (p_pagetable (procs s p)) va PGSIZE pa perm s = Ok 0 u" "procs u = procs s"
    "page_in_done p va what u = Ok () t" "paged_in s t p va pa perm xs ps what"
proof -
  let ?root = "p_pagetable (procs s p)" let ?sq = "p_fifo_seq_num (procs s p)" let ?T = "tables (mem s) ?root"
  note inv = sp [unfolded spare_def vm_inv_def]
  have pool: "kpool s ps" using inv lk by (simp add: kpool_def)
  have psT: "set ps \<inter> ?T = {}" and wf: "pt_wf (mem s) ?root" using inv by auto
  have lim: "unat va + 4096 * 1 \<le> 2 ^ 38"
    using va page_aligned_mult [OF va(1)] by (auto simp: word_less_nat_alt MAXVA_def)
  have free: "\<not> pte_valid (pte_of (mem s) ?root v)" if "v < MAXVA" "unat (PGROUNDDOWN v - va) < 4096 * 1" for v
  proof -
    have "PGROUNDDOWN v = va" using in_page_iff [OF va(1), of "PGROUNDDOWN v"] that(2) by simp
    then have "pte_of (mem s) ?root v = pte_of (mem s) ?root va" using va(1) by (intro pte_of_page) simp
    then show ?thesis using inval by simp
  qed
  obtain u j where u: "j \<le> 2" "mappages ?root va PGSIZE pa perm s = Ok 0 u" "map_result s u ?root va pa 1 perm ps j"
    using mappages_run [where n = 1 and pa = pa and perm = perm and ps = ps, OF wf va(1) _ lim pool _ psT free] len by auto
  note m = u(3) [unfolded map_result_def]
  have pte_u: "pte_of (mem u) ?root va' = (if PGROUNDDOWN va' = va then PA2PTE pa OR perm OR PTE_V else pte_of (mem s) ?root va')"
    if "va' < MAXVA" for va'
    using m that in_page_iff [OF va(1), of "PGROUNDDOWN va'"] by (auto simp: mapped_pte_def)
  note c = ctl_fields [of u s]
  obtain n ps' where ps': "drop j ps = n # ps'" using u(1) len by (cases "drop j ps") auto
  have nps: "set (n # ps') \<subseteq> set ps" using set_drop_subset [of j ps] ps' by simp
  have dj: "set (nodes xs) \<inter> (?T \<union> set (take j ps)) = {}" "set (nodes xs) \<inter> set (n # ps') = {}"
    using inv set_take_subset [of j ps] set_drop_subset [of j ps] ps' by auto
  have res: "resident u p xs"
    using inv m c dj rchain_frame [of "mem s" _ xs "?T \<union> set (take j ps)" "mem u"] by (auto simp: resident_def)
  have fu: "free_pages u (n # ps')" "KmemLk \<notin> set (held u)" "ProcLk p \<notin> set (held u)" "procs u = procs s"
    using m c ps' lk by (auto simp: kpool_def)
  obtain t0 h where t0: "add_to_resident_set p va ?sq u = Ok () t0" "resident t0 p (xs @ [(n, va, ?sq)])" "free_pages t0 ps'"
    "same_except (insert n (set (nodes xs))) (mem u) (mem t0)" "rest t0 = rest u"
    "procs t0 = (procs s)(p := (procs s p)\<lparr>p_resident_set_head := h, p_resident_set_tail := n\<rparr>)"
    using add_run [OF res fu(1-3) dj(2), of va ?sq] fu(4) by auto
  let ?t = "advanced p va what t0"
  have al: "page_aligned ?root" using inv by (auto simp: pt_wf_def)
  have nT: "tables (mem u) ?root \<inter> insert n (set (nodes xs)) = {}"
    using m dj inv nps psT ps' set_take_disj_set_drop_if_distinct [of ps j j] by auto
  note pf = pt_frame [OF al t0(4) nT]
  have tm: "mem ?t = mem t0" "freelist ?t = freelist t0" "sym_end ?t = sym_end s" "held ?t = held s"
    "klog ?t = klog s @ [what (p_pid (procs s p)) va, RESIDENT (p_pid (procs s p)) va ?sq]"
    using rest_fields [OF t0(5)] rest_klog [OF t0(5)] m c by (auto simp: advanced_def upd_proc_def t0(6))
  have tp: "procs ?t p = (procs s p)\<lparr>p_resident_set_head := h, p_resident_set_tail := n, p_fifo_seq_num := ?sq + 1\<rparr>"
    "\<And>q. q \<noteq> p \<Longrightarrow> procs ?t q = procs s q"
    by (auto simp: advanced_def upd_proc_def t0(6))
  have "vm_inv ?t p (xs @ [(n, va, ?sq)]) ps'"
    by (rule vm_inv_added [OF sp _ ps' va perm inval])
       (use t0 tm tp pf pte_u m u(1) len in \<open>auto simp: resident_def free_pages_def advanced_def upd_proc_def\<close>)
  moreover have "length ps - j = Suc (length ps')" by (metis length_drop length_Cons ps')
  then have "set ps' \<subseteq> set ps" "length ps \<le> length ps' + 3" using nps u(1) by auto
  moreover have "load_bytes (mem t0) pa 4096 = load_bytes (mem s) pa 4096"
    by (rule load_page_same_except [OF same_except_trans [of "?T \<union> set (take j ps)" "mem s" "mem u"]])
       (use m t0(4) sp set_take_subset [of j ps] set_drop_subset [of j ps] ps' in \<open>auto simp: spare_def ram_page_def\<close>)
  moreover have "\<exists>h n. procs ?t p = (procs s p)\<lparr>p_resident_set_head := h, p_resident_set_tail := n, p_fifo_seq_num := ?sq + 1\<rparr>"
    using tp(1) by blast
  ultimately have "paged_in s ?t p va pa perm xs ps what"
    using tm tp pf pte_u by (auto simp: paged_in_def Let_def)
  then show thesis using that u(2) fu(4) page_in_done_run [of p va u t0 what] t0(1) by simp
qed


section \<open>Heap and stack faults\<close>

lemma fault_anon_run:
  assumes sp: "spare s p xs ps pa" and len: "3 \<le> length ps"
    and lk: "KmemLk \<notin> set (held s)" "ProcLk p \<notin> set (held s)"
    and va: "page_aligned va" "va < MAXVA" and inval: "\<not> pte_valid (pte_of (mem s) (p_pagetable (procs s p)) va)"
  obtains t where "fault_anon p va pa s = Ok pa t"
    "paged_in s t p va pa (PTE_W OR PTE_R OR PTE_U OR PTE_V) xs ps ALLOC"
proof -
  have perm: "PTE_W OR PTE_R OR PTE_U OR PTE_V < 2 ^ 10" by (simp add: PTE_W_def PTE_R_def PTE_U_def PTE_V_def)
  obtain u t where "mappages (p_pagetable (procs s p)) va PGSIZE pa (PTE_W OR PTE_R OR PTE_U OR PTE_V) s = Ok 0 u"
    "page_in_done p va ALLOC u = Ok () t" "paged_in s t p va pa (PTE_W OR PTE_R OR PTE_U OR PTE_V) xs ps ALLOC"
    using map_and_track [OF sp len lk va perm inval] .
  then show thesis using that by (simp add: fault_anon_def bnd_Ok seq_Ok)
qed

text \<open>The entry of a page mapped by a heap or stack fault.\<close>

definition anon_pte :: "u64 \<Rightarrow> u64" where
  "anon_pte pa = PA2PTE pa OR (PTE_W OR PTE_R OR PTE_U OR PTE_V) OR PTE_V"

lemma vmfault_anon:
  assumes inv: "vm_inv s p xs (f # ps)" and len: "3 \<le> length ps" and cur: "curproc s = Some p"
    and lk: "KmemLk \<notin> set (held s)" "ProcLk p \<notin> set (held s)"
    and va: "page_aligned va" "va < MAXVA" and inval: "\<not> pte_valid (pte_of (mem s) (p_pagetable (procs s p)) va)"
    and region: "if va < p_sz (procs s p) then p_exe_end (procs s p) \<le> va
      else let sp = read64 (mem s) (tf_sp (p_trapframe (procs s p))) in va < sp \<and> sp - PGSIZE \<le> va"
    and tf: "p_sz (procs s p) \<le> va \<Longrightarrow> page_aligned (p_trapframe (procs s p)) \<and> p_trapframe (procs s p) \<noteq> f"
  obtains t n ps' where "vmfault (p_pagetable (procs s p)) va s = Ok f t"
    "load_bytes (mem t) f 4096 = replicate 4096 0"
    "vm_inv t p (xs @ [(n, va, p_fifo_seq_num (procs s p))]) ps'" "set ps' \<subseteq> set ps" "length ps \<le> length ps' + 3"
    "p_pagetable (procs t p) = p_pagetable (procs s p)"
    "\<And>va'. va' < MAXVA \<Longrightarrow> pte_of (mem t) (p_pagetable (procs s p)) va' =
      (if PGROUNDDOWN va' = va then anon_pte f else pte_of (mem s) (p_pagetable (procs s p)) va')"
    "p_fifo_seq_num (procs t p) = p_fifo_seq_num (procs s p) + 1"
    "klog t = klog s @ [ALLOC (p_pid (procs s p)) va, RESIDENT (p_pid (procs s p)) va (p_fifo_seq_num (procs s p))]"
proof -
  let ?root = "p_pagetable (procs s p)"
  let ?u = "(allocated f s)\<lparr>mem := store_bytes (mem (allocated f s)) f (replicate 4096 0)\<rparr>"
  note tk = take_spare [where c = 0, OF inv]
  note c = ctl_fields [OF tk(2)]
  have ka: "kalloc s = Ok f (allocated f s)"
    using inv lk by (intro kalloc_run) (auto simp: vm_inv_def)
  have wf: "pt_wf (mem s) ?root" using inv by (simp add: vm_inv_def)
  have m: "ismapped ?root va s = Ok False s" using ismapped_run [OF wf va(2)] inval by simp
  have f: "f \<noteq> 0" using inv by (auto simp: vm_inv_def free_pages_def)
  obtain t where t: "fault_anon p va f ?u = Ok f t"
    "paged_in ?u t p va f (PTE_W OR PTE_R OR PTE_U OR PTE_V) xs ps ALLOC"
    by (rule fault_anon_run [OF tk(1) len]) (use c lk va inval tk(3) in auto)
  have sp: "read64 (mem ?u) (tf_sp (p_trapframe (procs s p))) = read64 (mem s) (tf_sp (p_trapframe (procs s p)))"
    if "p_sz (procs s p) \<le> va"
    using tf [OF that] by (intro read64_same_except [OF tk(5)]) (simp_all add: tf_sp_def)
  have "vmfault ?root va s = fault_anon p va f ?u"
  proof (cases "p_sz (procs s p) \<le> va")
    case True
    then have "\<not> va < p_sz (procs s p)" by simp
    then show ?thesis using True m ka f cur region sp va(1)
      by (simp add: vmfault_def bnd_Ok Let_def allocated_def)
  next
    case False
    then have "va < p_sz (procs s p)" by simp
    then show ?thesis using False m ka f cur region va(1)
      by (simp add: vmfault_def bnd_Ok Let_def allocated_def)
  qed
  then have v: "vmfault ?root va s = Ok f t" using t(1) by simp
  have pr: "procs ?u p = procs s p" "klog ?u = klog s" using c by simp_all
  note pin = paged_inE [OF t(2), unfolded pr tk(3,4), folded anon_pte_def]
  show thesis by (rule pin) (rule that [OF v])
qed


text \<open>An address outside every region: the page that was allocated goes back.\<close>

lemma vmfault_reject:
  assumes inv: "vm_inv s p xs (f # ps)" and cur: "curproc s = Some p" and lk: "KmemLk \<notin> set (held s)"
    and va: "page_aligned va" "va < MAXVA" and inval: "\<not> pte_valid (pte_of (mem s) (p_pagetable (procs s p)) va)"
    and above: "p_sz (procs s p) \<le> va"
    and stack: "let sp = read64 (mem s) (tf_sp (p_trapframe (procs s p))) in \<not> (va < sp \<and> sp - PGSIZE \<le> va)"
    and tf: "page_aligned (p_trapframe (procs s p)) \<and> p_trapframe (procs s p) \<noteq> f"
  obtains t where "vmfault (p_pagetable (procs s p)) va s = Ok 0 t" "vm_inv t p xs (f # ps)" "ctl t = ctl s"
    "same_except {f} (mem s) (mem t)"
proof -
  let ?root = "p_pagetable (procs s p)"
  let ?u = "(allocated f s)\<lparr>mem := store_bytes (mem (allocated f s)) f (replicate 4096 0)\<rparr>"
  note tk = take_spare [where c = 0, OF inv]
  note c = ctl_fields [OF tk(2)]
  have ka: "kalloc s = Ok f (allocated f s)" using inv lk by (intro kalloc_run) (auto simp: vm_inv_def)
  have wf: "pt_wf (mem s) ?root" using inv by (simp add: vm_inv_def)
  have m: "ismapped ?root va s = Ok False s" using ismapped_run [OF wf va(2)] inval by simp
  have f: "f \<noteq> 0" "ram_page (sym_end s) f" using inv by (auto simp: vm_inv_def free_pages_def)
  have sp: "read64 (mem ?u) (tf_sp (p_trapframe (procs s p))) = read64 (mem s) (tf_sp (p_trapframe (procs s p)))"
    using tf by (intro read64_same_except [OF tk(5)]) (simp_all add: tf_sp_def)
  have "kfree f ?u = Ok () (freed f ?u)"
    using kfree_run [of ?u f] f c lk by (simp add: freed_def)
  then have "vmfault ?root va s = Ok 0 (freed f ?u)"
    using m ka f cur above stack sp va(1)
    by (auto simp: vmfault_def bnd_Ok Let_def allocated_def seq_Ok)
  moreover have "same_except {f} (mem s) (mem (freed f ?u))"
    using same_except_trans [OF tk(5) same_except_freed [of f ?u]] f(2) by (simp add: ram_page_def)
  moreover have "ctl (freed f ?u) = ctl s" using tk(2) by (simp add: freed_def ctl_def)
  moreover have "vm_inv (freed f ?u) p xs (f # ps)" using free_spare(1) [OF tk(1)] .
  ultimately show thesis using that by blast
qed

section \<open>Faults from user mode\<close>

lemma vm_inv_printk:
  "vm_inv (s\<lparr>klog := ms\<rparr>) p xs ps \<longleftrightarrow> vm_inv s p xs ps"
  by (rule vm_inv_cong) (simp add: pg_view_def)

lemma page_fault_fresh:
  assumes va: "PGROUNDDOWN (r_stval r) < MAXVA" and lf: "leaf (mem s) (p_pagetable (procs s p)) (PGROUNDDOWN (r_stval r)) = Some a" "a \<noteq> 0"
    and e: "read64 (mem s) a AND PTE_V = 0" "read64 (mem s) a AND PTE_S = 0"
  shows "page_fault p r s =
    bnd (vmfault (p_pagetable (procs s p)) (PGROUNDDOWN (r_stval r))) (\<lambda>pa. if pa = 0 then setkilled p else skip)
      (s\<lparr>klog := klog s @ [PAGEFAULT (p_pid (procs s p)) (PGROUNDDOWN (r_stval r)) (access_type (r_scause r))
        (fault_cause (procs s p) (read64 (mem s) (tf_sp (p_trapframe (procs s p)))) (PGROUNDDOWN (r_stval r)))]\<rparr>)"
  using assms by (simp add: page_fault_def Let_def bnd_walk0 leaf_aligned)

lemma page_fault_anon:
  fixes s p r
  defines "root \<equiv> p_pagetable (procs s p)" and "va \<equiv> PGROUNDDOWN (r_stval r)" and "q \<equiv> procs s p"
    and "sp \<equiv> read64 (mem s) (tf_sp (p_trapframe (procs s p)))"
  assumes inv: "vm_inv s p xs (f # ps)" "3 \<le> length ps" "curproc s = Some p"
    "KmemLk \<notin> set (held s)" "ProcLk p \<notin> set (held s)" "va < MAXVA"
    and region: "p_exe_end q \<le> va \<and> va < p_sz q \<or> p_sz q \<le> va \<and> va < sp \<and> sp - PGSIZE \<le> va \<and>
      page_aligned (p_trapframe q) \<and> p_trapframe q \<noteq> f"
    and lf: "leaf (mem s) root va = Some a" "pte_of (mem s) root va AND PTE_V = 0" "pte_of (mem s) root va AND PTE_S = 0"
  shows "\<exists>t n ps'. page_fault p r s = Ok () t \<and> vm_inv t p (xs @ [(n, va, p_fifo_seq_num q)]) ps' \<and>
    load_bytes (mem t) f 4096 = replicate 4096 0 \<and>
    (\<forall>va'. va' < MAXVA \<longrightarrow> pte_of (mem t) root va' =
      (if PGROUNDDOWN va' = va then PA2PTE f OR PTE_W OR PTE_R OR PTE_U OR PTE_V else pte_of (mem s) root va')) \<and>
    p_fifo_seq_num (procs t p) = p_fifo_seq_num q + 1 \<and>
    klog t = klog s @ [PAGEFAULT (p_pid q) va (access_type (r_scause r)) (fault_cause q sp va), ALLOC (p_pid q) va,
      RESIDENT (p_pid q) va (p_fifo_seq_num q)]"
proof -
  let ?m = "klog s @ [PAGEFAULT (p_pid q) va (access_type (r_scause r)) (fault_cause q sp va)]"
  let ?s = "s\<lparr>klog := ?m\<rparr>"
  have e: "read64 (mem s) a AND PTE_V = 0" "read64 (mem s) a AND PTE_S = 0"
    using lf by (simp_all add: pte_of_def)
  have wf: "pt_wf (mem s) root" using inv(1) by (simp add: vm_inv_def root_def)
  have a: "a \<noteq> 0" using leaf_nonzero [OF wf lf(1)] .
  have f: "f \<noteq> 0" using inv(1) by (auto simp: vm_inv_def free_pages_def)
  have inval: "\<not> pte_valid (pte_of (mem s) root va)" using lf(2) by (simp add: pte_valid_def)
  have inv': "vm_inv ?s p xs (f # ps)" using inv(1) by (simp add: vm_inv_printk)
  have pr: "procs ?s = procs s" "mem ?s = mem s" "klog ?s = ?m" by simp_all
  have reg: "if va < p_sz (procs s p) then p_exe_end (procs s p) \<le> va
      else let sp = read64 (mem s) (tf_sp (p_trapframe (procs s p))) in va < sp \<and> sp - PGSIZE \<le> va"
    "p_sz (procs s p) \<le> va \<Longrightarrow> page_aligned (p_trapframe (procs s p)) \<and> p_trapframe (procs s p) \<noteq> f"
    using region by (auto simp: q_def sp_def)
  have al: "page_aligned va" by (simp add: va_def)
  obtain t n ps' where t: "vmfault root va ?s = Ok f t" "load_bytes (mem t) f 4096 = replicate 4096 0"
    "vm_inv t p (xs @ [(n, va, p_fifo_seq_num q)]) ps'"
    "\<And>va'. va' < MAXVA \<Longrightarrow> pte_of (mem t) root va' = (if PGROUNDDOWN va' = va then anon_pte f else pte_of (mem s) root va')"
    "p_fifo_seq_num (procs t p) = p_fifo_seq_num q + 1"
    "klog t = ?m @ [ALLOC (p_pid q) va, RESIDENT (p_pid q) va (p_fifo_seq_num q)]"
    by (rule vmfault_anon [OF inv' inv(2), of va, unfolded pr, folded root_def q_def, OF _ _ _ al inv(6) inval reg [folded q_def]])
       (simp_all add: inv(3-5))
  have "page_fault p r s = Ok () t"
    using page_fault_fresh [of r s p a] inv(6) lf(1) a e t(1) f by (simp add: root_def va_def q_def sp_def bnd_Ok)
  moreover have "anon_pte f = PA2PTE f OR PTE_W OR PTE_R OR PTE_U OR PTE_V" by (simp add: anon_pte_def or.assoc)
  ultimately show ?thesis using t by (intro exI [of _ t] exI [of _ n] exI [of _ ps']) simp
qed

text \<open>
  Property C5. A load, store or fetch fault on a heap page (at or above the end of the program, below the process's size)
  that is neither mapped nor swapped and whose last-level page table exists, with four free pages at hand: the handler
  maps a page of zeros there with user read and write permission and no execute permission, changes
  no other translation, appends the page to the resident set under the process's sequence number,
  advances the number, and reports the fault, the allocation and the page. The condition on the page table matters:
  where the table is missing, the same fault kills the process, as a property below shows.
\<close>

theorem heap_fault_correct:
  fixes s p r
  defines "root \<equiv> p_pagetable (procs s p)" and "va \<equiv> PGROUNDDOWN (r_stval r)" and "q \<equiv> procs s p"
  assumes "vm_inv s p xs (f # ps)" "3 \<le> length ps" "curproc s = Some p"
    "KmemLk \<notin> set (held s)" "ProcLk p \<notin> set (held s)"
    "va < MAXVA" "p_exe_end q \<le> va" "va < p_sz q"
    "leaf (mem s) root va = Some a" "pte_of (mem s) root va AND PTE_V = 0" "pte_of (mem s) root va AND PTE_S = 0"
  shows "\<exists>t n ps'. page_fault p r s = Ok () t \<and> vm_inv t p (xs @ [(n, va, p_fifo_seq_num q)]) ps' \<and>
    load_bytes (mem t) f 4096 = replicate 4096 0 \<and>
    (\<forall>va'. va' < MAXVA \<longrightarrow> pte_of (mem t) root va' =
      (if PGROUNDDOWN va' = va then PA2PTE f OR PTE_W OR PTE_R OR PTE_U OR PTE_V else pte_of (mem s) root va')) \<and>
    p_fifo_seq_num (procs t p) = p_fifo_seq_num q + 1 \<and>
    klog t = klog s @ [PAGEFAULT (p_pid q) va (access_type (r_scause r)) Cheap, ALLOC (p_pid q) va,
      RESIDENT (p_pid q) va (p_fifo_seq_num q)]"
proof -
  have "fault_cause q x va = Cheap" for x using assms(10,11) by (simp add: fault_cause_def)
  then show ?thesis
    using page_fault_anon [of s p xs f ps r a, folded root_def va_def q_def, OF assms(4-9) _ assms(12-14)] assms(10,11)
    by simp
qed

text \<open>
  Property C29. A fault in the page below the stack pointer, at or above both the end of the program and the process's size,
  on a page that is neither mapped nor swapped and whose last-level page table exists, with four free pages at hand: the
  stack grows by that page, which is mapped, zeroed and tracked as a heap page is, without a change of
  the process's size. The handler reports it as a heap fault, since it looks for stack faults above
  the stack pointer while \<open>vmfault\<close> looks below it. Without the page table the process is killed instead.
\<close>

theorem stack_fault_correct:
  fixes s p r
  defines "root \<equiv> p_pagetable (procs s p)" and "va \<equiv> PGROUNDDOWN (r_stval r)" and "q \<equiv> procs s p"
    and "sp \<equiv> read64 (mem s) (tf_sp (p_trapframe (procs s p)))"
  assumes "vm_inv s p xs (f # ps)" "3 \<le> length ps" "curproc s = Some p"
    "KmemLk \<notin> set (held s)" "ProcLk p \<notin> set (held s)"
    "va < MAXVA" "p_exe_end q \<le> va" "p_sz q \<le> va" "va < sp" "sp - PGSIZE \<le> va"
    "page_aligned (p_trapframe q)" "p_trapframe q \<noteq> f"
    "leaf (mem s) root va = Some a" "pte_of (mem s) root va AND PTE_V = 0" "pte_of (mem s) root va AND PTE_S = 0"
  shows "\<exists>t n ps'. page_fault p r s = Ok () t \<and> vm_inv t p (xs @ [(n, va, p_fifo_seq_num q)]) ps' \<and>
    load_bytes (mem t) f 4096 = replicate 4096 0 \<and>
    (\<forall>va'. va' < MAXVA \<longrightarrow> pte_of (mem t) root va' =
      (if PGROUNDDOWN va' = va then PA2PTE f OR PTE_W OR PTE_R OR PTE_U OR PTE_V else pte_of (mem s) root va')) \<and>
    klog t = klog s @ [PAGEFAULT (p_pid q) va (access_type (r_scause r)) Cheap, ALLOC (p_pid q) va,
      RESIDENT (p_pid q) va (p_fifo_seq_num q)]"
proof -
  have c: "fault_cause q sp va = Cheap" using assms(11-14) by (auto simp: fault_cause_def)
  have "p_sz q \<le> va \<and> va < sp \<and> sp - PGSIZE \<le> va \<and> page_aligned (p_trapframe q) \<and> p_trapframe q \<noteq> f"
    using assms(12-16) by simp
  note run = page_fault_anon [of s p xs f ps r a, folded sp_def, folded root_def va_def q_def,
    OF assms(5-10) disjI2 [OF this] assms(17-19), unfolded c]
  show ?thesis by (rule ex_forward [OF run]) (elim ex_forward, elim conjE, intro conjI)
qed

lemma setkilled_run:
  "ProcLk p \<notin> set (held s) \<Longrightarrow> setkilled p s = Ok () (upd_proc p (\<lambda>q. q\<lparr>p_killed := True\<rparr>) s)"
  by (simp add: setkilled_def release_run upd_proc_def)

lemma vm_inv_killed: "vm_inv (upd_proc p (\<lambda>q. q\<lparr>p_killed := k\<rparr>) s) r xs ps \<longleftrightarrow> vm_inv s r xs ps"
  by (rule vm_inv_cong) (auto simp: pg_view_def upd_proc_def proc_vm_def)

text \<open>
  Property C30. A fault on an entry that is empty, at an address beyond the process's size and not in the page
  below its stack pointer: the process is marked killed and nothing else of any process changes, every
  translation stays, and the page the handler had allocated is back at the head of the free list.
\<close>

theorem invalid_fault_kills:
  fixes s p r
  defines "root \<equiv> p_pagetable (procs s p)" and "va \<equiv> PGROUNDDOWN (r_stval r)" and "q \<equiv> procs s p"
    and "sp \<equiv> read64 (mem s) (tf_sp (p_trapframe (procs s p)))"
  assumes "vm_inv s p xs (f # ps)" "curproc s = Some p" "KmemLk \<notin> set (held s)" "ProcLk p \<notin> set (held s)"
    "va < MAXVA" "p_sz q \<le> va" "\<not> (va < sp \<and> sp - PGSIZE \<le> va)"
    "page_aligned (p_trapframe q)" "p_trapframe q \<noteq> f"
    "leaf (mem s) root va = Some a" "pte_of (mem s) root va AND PTE_V = 0" "pte_of (mem s) root va AND PTE_S = 0"
  shows "\<exists>t. page_fault p r s = Ok () t \<and> vm_inv t p xs (f # ps) \<and>
    procs t = (procs s)(p := q\<lparr>p_killed := True\<rparr>) \<and> same_except {f} (mem s) (mem t) \<and>
    (\<forall>va'. pte_of (mem t) root va' = pte_of (mem s) root va')"
proof -
  let ?s = "s\<lparr>klog := klog s @ [PAGEFAULT (p_pid q) va (access_type (r_scause r)) (fault_cause q sp va)]\<rparr>"
  have pr: "procs ?s = procs s" "mem ?s = mem s" by simp_all
  have al: "page_aligned va" by (simp add: va_def)
  have inv: "vm_inv ?s p xs (f # ps)" using assms(5) by (simp add: vm_inv_printk)
  have inval: "\<not> pte_valid (pte_of (mem s) root va)" using assms(15) by (simp add: pte_valid_def)
  obtain t where t: "vmfault root va ?s = Ok 0 t" "vm_inv t p xs (f # ps)" "ctl t = ctl ?s" "same_except {f} (mem s) (mem t)"
    by (rule vmfault_reject [OF inv _ _ al assms(9), unfolded pr, folded root_def q_def])
       (use assms(6-13) inval in \<open>auto simp: sp_def q_def\<close>)
  have c: "procs t = procs s" "held t = held s" using ctl_fields [OF t(3)] by simp_all
  have wf: "pt_wf (mem s) root" using assms(5) by (simp add: vm_inv_def root_def)
  have "read64 (mem s) a AND PTE_V = 0" "read64 (mem s) a AND PTE_S = 0" using assms(14-) by (simp_all add: pte_of_def)
  then have "page_fault p r s = Ok () (upd_proc p (\<lambda>q. q\<lparr>p_killed := True\<rparr>) t)"
    using page_fault_fresh [of r s p a] assms(8,9,14) leaf_nonzero [OF wf assms(14)] t(1) setkilled_run [of p t] c
    by (simp add: root_def va_def q_def sp_def bnd_Ok)
  moreover have "pte_of (mem t) root va' = pte_of (mem s) root va'" for va'
    using pt_frame(4) [OF _ t(4), of root] assms(5) by (auto simp: vm_inv_def pt_wf_def root_def)
  moreover have "vm_inv (upd_proc p (\<lambda>q. q\<lparr>p_killed := True\<rparr>) t) p xs (f # ps)" using t(2) by (simp only: vm_inv_killed)
  ultimately show ?thesis
    using t(4) c by (intro exI [of _ "upd_proc p (\<lambda>q. q\<lparr>p_killed := True\<rparr>) t"]) (simp add: upd_proc_def q_def)
qed

text \<open>
  Property C31. A user access at or above \<open>MAXVA\<close> stops the machine: \<open>usertrap\<close> hands the address to
  \<open>walk\<close> before it has compared it with anything, and \<open>walk\<close> panics.
\<close>

theorem high_access_panics:
  assumes "curproc s = Some p" "r_sstatus r AND SSTATUS_SPP = 0"
    "r_scause r = 12 \<or> r_scause r = 13 \<or> r_scause r = 15" "MAXVA \<le> r_stval r" "aligned8 (tf_epc (p_trapframe (procs s p)))"
  shows "usertrap r d s = Panic ''walk''"
proof -
  have "MAXVA \<le> PGROUNDDOWN (r_stval r)"
    using assms(4) by (simp add: word_le_nat_alt unat_PGROUNDDOWN MAXVA_def)
  then have "page_fault p r t = Panic ''walk''" for t by (simp add: page_fault_def Let_def bnd_def walk0_panics gets_def)
  moreover have "devintr r d t = Ok 0 t" "r_scause r \<noteq> 8" for t using assms(3) by (auto simp: devintr_def ret_def)
  ultimately show ?thesis
    using assms by (auto simp: usertrap_def usertrap_cause_def bnd_def seq_def)
qed

text \<open>
  Property C32. A fault on a page whose last-level table does not exist yet kills the process, whatever the
  address: a heap page inside the process's size whose 2 MB region has not been touched is refused as an
  invalid access.
\<close>

theorem untouched_region_kills:
  assumes "leaf (mem s) (p_pagetable (procs s p)) (PGROUNDDOWN (r_stval r)) = None"
    "PGROUNDDOWN (r_stval r) < MAXVA" "ProcLk p \<notin> set (held s)"
  shows "\<exists>t. page_fault p r s = Ok () t \<and> p_killed (procs t p) \<and> mem t = mem s \<and>
    klog t = klog s @ [PAGEFAULT (p_pid (procs s p)) (PGROUNDDOWN (r_stval r)) (access_type (r_scause r)) Cinvalid,
      KILL_INVALID (p_pid (procs s p)) (PGROUNDDOWN (r_stval r)) (access_type (r_scause r))]"
  using assms by (simp add: page_fault_def Let_def bnd_walk0 setkilled_run upd_proc_def)

section \<open>Instances\<close>

text \<open>
  The state of \<open>Xv6_Evict_Example\<close> with four more pages freed, and a trapframe whose saved stack pointer is
  \<open>0x3000\<close>: page \<open>0x1000\<close> is heap that has not been touched, page \<open>0x2000\<close> is the page below the
  stack pointer.
\<close>

definition ex_base :: kstate where
  "ex_base = (ex_state 23 0x1000 (replicate 128 0))\<lparr>
     mem := write64 (ex_mem 23) 0x8002b030 0x3000,
     procs := (\<lambda>_. boot_proc)(0 := (ex_proc 0x1000 (replicate 128 0))\<lparr>p_trapframe := 0x8002b000\<rparr>)\<rparr>"

definition ex_demand :: kstate where
  "ex_demand = fold freed [0x80027000, 0x80028000, 0x80029000, 0x8002a000] ex_base"

definition ex_free :: "u64 list" where
  "ex_free = [0x80029000, 0x80028000, 0x80027000, 0x80026000]"

text \<open>Freeing pages that nothing uses, one after the other.\<close>

definition ready :: "kstate \<Rightarrow> nat \<Rightarrow> (u64 \<times> u64 \<times> c_int) list \<Rightarrow> u64 list \<Rightarrow> u64 set \<Rightarrow> bool" where
  "ready s p xs ps U \<longleftrightarrow> vm_inv s p xs ps \<and>
     U = set (ps @ nodes xs @ frames s p xs) \<union> tables (mem s) (p_pagetable (procs s p))"

lemma ready_freed:
  assumes "ready s p xs ps U" "ram_page (sym_end s) pa" "pa \<notin> U"
  shows "ready (freed pa s) p xs (pa # ps) (insert pa U)"
proof -
  have "spare s p xs ps pa" using assms by (auto simp: ready_def spare_def)
  note f = free_spare [OF this]
  have "procs (freed pa s) = procs s" by (simp add: freed_def)
  then show ?thesis using f assms(1) by (auto simp: ready_def)
qed

lemma ex_base_fields:
  "procs ex_base 0 = (ex_proc 0x1000 (replicate 128 0))\<lparr>p_trapframe := 0x8002b000\<rparr>" "curproc ex_base = Some 0"
  "held ex_base = []" "sym_end ex_base = 0x80020000" "same_except {0x8002b000} (ex_mem 23) (mem ex_base)"
  "read64 (mem ex_base) 0x8002b030 = 0x3000"
proof -
  have a: "page_aligned 0x8002b000" by (simp add: page_aligned_def PGSIZE_def)
  have "aligned8 (0x8002b000 + 48)" "PGROUNDDOWN (0x8002b000 + 48) = 0x8002b000"
    by (rule aligned8_page_offset PGROUNDDOWN_add_word; simp add: a)+
  then have b: "aligned8 0x8002b030" "PGROUNDDOWN 0x8002b030 = 0x8002b000" by simp_all
  show "same_except {0x8002b000} (ex_mem 23) (mem ex_base)"
    using same_except_write64 [OF b(1), of "ex_mem 23" "0x3000"] b(2) by (simp add: ex_base_def)
  show "read64 (mem ex_base) 0x8002b030 = 0x3000" by (simp add: ex_base_def)
qed (simp_all add: ex_base_def ex_state_def boot_state_def)

lemma ex_base_ready:
  "ready ex_base 0 [(0x80025000, 0, 7)] [0x80026000]
     {0x80026000, 0x80025000, 0x80024000, 0x80021000, 0x80022000, 0x80023000}"
proof -
  let ?s = "ex_state 23 0x1000 (replicate 128 0)"
  have p: "p_pagetable (procs ex_base 0) = p_pagetable (procs ?s 0)"
    "p_resident_set_head (procs ex_base 0) = p_resident_set_head (procs ?s 0)"
    "p_resident_set_tail (procs ex_base 0) = p_resident_set_tail (procs ?s 0)"
    "freelist ex_base = freelist ?s" "sym_end ex_base = sym_end ?s"
    by (simp_all add: ex_base_def ex_state_def)
  have fr: "frames ?s 0 [(0x80025000, 0, 7)] = [0x80024000]"
    by (simp add: frames_def frame_of_def ex_pte PTE2PA_PA2PTE)
  note f = vm_inv_frame [OF ex_inv_clean [of "0x1000" "replicate 128 0"], of "{0x8002b000}" ex_base]
  have m: "same_except {0x8002b000} (mem ?s) (mem ex_base)" using ex_base_fields(5) by simp
  have d: "{0x8002b000} \<inter> (set ([0x80026000] @ nodes [(0x80025000, 0, 7 :: c_int)]) \<union> tables (mem ?s) (p_pagetable (procs ?s 0))) = {}"
    by (simp add: ex_tables)
  note f = f [OF m d p(4,5) p(1-3)]
  show ?thesis using f p by (simp add: ready_def fr ex_tables) auto
qed

lemma ex_ram: "page_aligned pa \<Longrightarrow> 0x80020000 \<le> pa \<Longrightarrow> pa < 0x88000000 \<Longrightarrow> ram_page 0x80020000 pa"
  by (auto simp: ram_page_def PHYSTOP_def KERNBASE_def)


lemma ex_free_pages [simp]:
  "page_aligned 0x80027000" "page_aligned 0x80028000" "page_aligned 0x80029000" "page_aligned 0x8002a000" "page_aligned 0x8002b000"
  by (simp_all add: page_aligned_def PGSIZE_def)

lemma freed_fields [simp]:
  "procs (freed pa s) = procs s" "curproc (freed pa s) = curproc s" "held (freed pa s) = held s"
  "sym_end (freed pa s) = sym_end s" "klog (freed pa s) = klog s"
  by (simp_all add: freed_def)

lemma ex_demand_inv: "vm_inv ex_demand 0 [(0x80025000, 0, 7)] (0x8002a000 # ex_free)"
proof -
  have r: "ram_page (sym_end ex_base) 0x80027000" "ram_page (sym_end ex_base) 0x80028000"
    "ram_page (sym_end ex_base) 0x80029000" "ram_page (sym_end ex_base) 0x8002a000"
    unfolding ex_base_fields(4) by (rule ex_ram; simp)+
  have "ready (freed 0x80027000 ex_base) 0 [(0x80025000, 0, 7)] [0x80027000, 0x80026000]
     {0x80027000, 0x80026000, 0x80025000, 0x80024000, 0x80021000, 0x80022000, 0x80023000}"
    by (rule ready_freed [OF ex_base_ready r(1)]) simp
  then have "ready (freed 0x80028000 (freed 0x80027000 ex_base)) 0 [(0x80025000, 0, 7)] [0x80028000, 0x80027000, 0x80026000]
     {0x80028000, 0x80027000, 0x80026000, 0x80025000, 0x80024000, 0x80021000, 0x80022000, 0x80023000}"
    by (rule ready_freed) (use r in simp_all)
  then have "ready (freed 0x80029000 (freed 0x80028000 (freed 0x80027000 ex_base))) 0 [(0x80025000, 0, 7)] ex_free
     {0x80029000, 0x80028000, 0x80027000, 0x80026000, 0x80025000, 0x80024000, 0x80021000, 0x80022000, 0x80023000}"
    unfolding ex_free_def by (rule ready_freed) (use r in simp_all)
  then have "ready ex_demand 0 [(0x80025000, 0, 7)] (0x8002a000 # ex_free)
     {0x8002a000, 0x80029000, 0x80028000, 0x80027000, 0x80026000, 0x80025000, 0x80024000, 0x80021000, 0x80022000, 0x80023000}"
    unfolding ex_demand_def fold_simps comp_def id_def by (rule ready_freed) (use r in simp_all)
  then show ?thesis by (simp add: ready_def)
qed

lemma ex_demand_fields:
  "procs ex_demand 0 = (ex_proc 0x1000 (replicate 128 0))\<lparr>p_trapframe := 0x8002b000\<rparr>" "curproc ex_demand = Some 0"
  "held ex_demand = []"
  by (simp_all add: ex_demand_def ex_base_fields)

lemma same_except_fold_freed:
  "\<forall>pa \<in> set ps. page_aligned pa \<Longrightarrow> same_except (set ps) (mem s) (mem (fold freed ps s))"
proof (induction ps arbitrary: s)
  case (Cons pa ps)
  then show ?case using same_except_trans [OF same_except_freed [of pa s] Cons.IH [of "freed pa s"]] by simp
qed (simp add: same_except_def)

lemma ex_demand_mem:
  "same_except {0x80027000, 0x80028000, 0x80029000, 0x8002a000} (mem ex_base) (mem ex_demand)"
  using same_except_fold_freed [of "[0x80027000, 0x80028000, 0x80029000, 0x8002a000]" ex_base]
  by (simp add: ex_demand_def)


lemma ex_demand_leaf:
  "leaf (mem ex_demand) 0x80021000 va = leaf (ex_mem 23) 0x80021000 va"
  "pte_of (mem ex_demand) 0x80021000 va = pte_of (ex_mem 23) 0x80021000 va"
proof -
  have m: "same_except {0x80027000, 0x80028000, 0x80029000, 0x8002a000, 0x8002b000} (ex_mem 23) (mem ex_demand)"
    using same_except_trans [OF ex_base_fields(5) ex_demand_mem] by (simp add: insert_commute)
  have d: "tables (ex_mem 23) 0x80021000 \<inter> {0x80027000, 0x80028000, 0x80029000, 0x8002a000, 0x8002b000} = {}"
    by (simp add: ex_tables)
  show "leaf (mem ex_demand) 0x80021000 va = leaf (ex_mem 23) 0x80021000 va"
    "pte_of (mem ex_demand) 0x80021000 va = pte_of (ex_mem 23) 0x80021000 va"
    using pt_frame [OF _ m d] by simp_all
qed

lemma ex_demand_pages:
  "leaf (mem ex_demand) 0x80021000 0x1000 = Some 0x80023008" "pte_of (mem ex_demand) 0x80021000 0x1000 = 0"
  "leaf (mem ex_demand) 0x80021000 0x2000 = Some 0x80023010" "pte_of (mem ex_demand) 0x80021000 0x2000 = 0"
  "leaf (mem ex_demand) 0x80021000 0x3000 = Some 0x80023018" "pte_of (mem ex_demand) 0x80021000 0x3000 = 0"
  "leaf (mem ex_demand) 0x80021000 0x40000000 = None"
proof -
  have px: "PX 2 0x1000 = 0" "PX (Suc 0) 0x1000 = 0" "PX 0 0x1000 = 1" "PX 2 0x2000 = 0" "PX (Suc 0) 0x2000 = 0" "PX 0 0x2000 = 2"
    "PX 2 0x3000 = 0" "PX (Suc 0) 0x3000 = 0" "PX 0 0x3000 = 3" "PX 2 0x40000000 = 1"
    by code_simp+
  note r = ex_read [where t = "0x80023000" and l = 0 and g = 23]
  show "leaf (mem ex_demand) 0x80021000 0x1000 = Some 0x80023008" "pte_of (mem ex_demand) 0x80021000 0x1000 = 0"
    "leaf (mem ex_demand) 0x80021000 0x2000 = Some 0x80023010" "pte_of (mem ex_demand) 0x80021000 0x2000 = 0"
    "leaf (mem ex_demand) 0x80021000 0x3000 = Some 0x80023018" "pte_of (mem ex_demand) 0x80021000 0x3000 = 0"
    "leaf (mem ex_demand) 0x80021000 0x40000000 = None"
    using r [where va = "0x1000"] r [where va = "0x2000"] r [where va = "0x3000"]
    unfolding ex_demand_leaf by (simp_all add: pte_of_def leaf_def ex_tables px)
qed

lemma ex_demand_sp: "read64 (mem ex_demand) (tf_sp 0x8002b000) = 0x3000"
proof -
  have "aligned8 (0x8002b000 + 48)" "PGROUNDDOWN (0x8002b000 + 48) = 0x8002b000"
    by (rule aligned8_page_offset PGROUNDDOWN_add_word; simp)+
  then have "read64 (mem ex_demand) 0x8002b030 = read64 (mem ex_base) 0x8002b030"
    by (intro read64_same_except [OF ex_demand_mem]) simp_all
  then show ?thesis by (simp add: ex_base_fields tf_sp_def)
qed

definition ex_trap :: "u64 \<Rightarrow> trapregs" where
  "ex_trap va = \<lparr>r_sstatus = 0, r_sepc = 0, r_scause = 15, r_stval = va\<rparr>"

theorem heap_fault_correct_witness:
  "\<exists>t. page_fault 0 (ex_trap 0x1234) ex_demand = Ok () t \<and> load_bytes (mem t) 0x8002a000 4096 = replicate 4096 0 \<and>
    p_fifo_seq_num (procs t 0) = 9"
proof -
  have "PGROUNDDOWN 0x1234 = (0x1000 :: u64)" by code_simp
  then show ?thesis
    using heap_fault_correct [OF ex_demand_inv, of "ex_trap 0x1234" "0x80023008"] ex_demand_pages
    by (auto simp: ex_demand_fields ex_proc_def ex_free_def ex_trap_def MAXVA_def)
qed

theorem stack_fault_correct_witness:
  "\<exists>t. page_fault 0 (ex_trap 0x2ff8) ex_demand = Ok () t \<and> load_bytes (mem t) 0x8002a000 4096 = replicate 4096 0"
proof -
  have "PGROUNDDOWN 0x2ff8 = (0x2000 :: u64)" by code_simp
  then show ?thesis
    using stack_fault_correct [OF ex_demand_inv, of "ex_trap 0x2ff8" "0x80023010"] ex_demand_pages
    by (auto simp: ex_demand_fields ex_demand_sp ex_proc_def ex_free_def ex_trap_def MAXVA_def PGSIZE_def)
qed

theorem invalid_fault_kills_witness:
  "\<exists>t. page_fault 0 (ex_trap 0x3008) ex_demand = Ok () t \<and> p_killed (procs t 0) \<and>
    vm_inv t 0 [(0x80025000, 0, 7)] (0x8002a000 # ex_free)"
proof -
  have "PGROUNDDOWN 0x3008 = (0x3000 :: u64)" by code_simp
  then show ?thesis
    using invalid_fault_kills [OF ex_demand_inv, of "ex_trap 0x3008" "0x80023018"] ex_demand_pages
    by (auto simp: ex_demand_fields ex_demand_sp ex_proc_def ex_trap_def MAXVA_def)
qed

theorem high_access_panics_witness:
  "usertrap (ex_trap 0x4000000000) \<lparr>d_irq = 0, d_tx_idle = True, d_input = [], d_cpuid = 0\<rparr> ex_demand = Panic ''walk''"
proof -
  have "aligned8 (0x8002b000 + 24)" by (rule aligned8_page_offset) simp_all
  then show ?thesis
    using high_access_panics [of ex_demand 0 "ex_trap 0x4000000000"]
    by (simp add: ex_demand_fields ex_trap_def MAXVA_def tf_epc_def)
qed

theorem untouched_region_kills_witness:
  "\<exists>t. page_fault 0 (ex_trap 0x40000000) ex_demand = Ok () t \<and> p_killed (procs t 0)"
proof -
  have "PGROUNDDOWN 0x40000000 = (0x40000000 :: u64)" by code_simp
  then show ?thesis
    using untouched_region_kills [of ex_demand 0 "ex_trap 0x40000000"] ex_demand_pages(7)
    by (auto simp: ex_demand_fields ex_proc_def ex_trap_def MAXVA_def)
qed

end
