(* ===== verification/Xv6_Copy.thy ===== *)
theory Xv6_Copy
  imports Xv6_Demand
begin

text \<open>
  User memory as a process sees it, through its page table, and the copies of kernel/vm.c in and out of it.
\<close>

section \<open>User memory\<close>

definition uaddr :: "memory \<Rightarrow> u64 \<Rightarrow> u64 \<Rightarrow> u64" where
  "uaddr m root va = PTE2PA (pte_of m root va) + (va - PGROUNDDOWN va)"

definition umem :: "memory \<Rightarrow> u64 \<Rightarrow> u64 \<Rightarrow> u8" where
  "umem m root va = m (uaddr m root va)"

definition readable :: "memory \<Rightarrow> u64 \<Rightarrow> u64 \<Rightarrow> bool" where
  "readable m root va \<longleftrightarrow> va < MAXVA \<and> (let e = pte_of m root va in
     pte_valid e \<and> e AND PTE_U \<noteq> 0 \<and> PTE2PA e \<noteq> 0)"

definition writable :: "memory \<Rightarrow> u64 \<Rightarrow> u64 \<Rightarrow> bool" where
  "writable m root va \<longleftrightarrow> readable m root va \<and> pte_of m root va AND PTE_W \<noteq> 0"

lemma PGROUNDDOWN_MAXVA: "va < MAXVA \<Longrightarrow> PGROUNDDOWN va < MAXVA"
  using PGROUNDDOWN_le [of va] by simp

lemma pte_of_rounded: "pte_of m root (PGROUNDDOWN va) = pte_of m root va"
  by (rule pte_of_page) simp

lemma walkaddr_readable:
  assumes "pt_wf (mem s) root" "readable (mem s) root va"
  shows "walkaddr root (PGROUNDDOWN va) s = Ok (PTE2PA (pte_of (mem s) root va)) s"
  using assms walkaddr_run [OF assms(1), of "PGROUNDDOWN va"] PGROUNDDOWN_MAXVA
  by (simp add: readable_def Let_def pte_of_rounded)

text \<open>The part of a range in the page of its first byte.\<close>

definition in_page :: "u64 \<Rightarrow> nat" where
  "in_page va = unat (PGSIZE - (va - PGROUNDDOWN va))"

lemma page_off: "unat (va - PGROUNDDOWN va) = unat va mod 4096"
  by (rule unat_sub_page) simp_all

lemma in_page_mod: "in_page va = 4096 - unat va mod 4096"
proof -
  have "unat (va - PGROUNDDOWN va) \<le> unat PGSIZE" unfolding page_off by (simp add: less_imp_le)
  then have "va - PGROUNDDOWN va \<le> PGSIZE" by (simp only: word_le_nat_alt)
  then show ?thesis unfolding in_page_def using page_off [of va] by (simp only: unat_sub unat_PGSIZE)
qed

lemma in_page_pos: "0 < in_page va" "in_page va \<le> 4096"
  by (simp_all add: in_page_mod)

lemma same_page:
  assumes "i < in_page va"
  shows "PGROUNDDOWN (va + of_nat i) = PGROUNDDOWN va"
proof -
  let ?p = "PGROUNDDOWN va"
  have "va + of_nat i = ?p + of_nat (unat va mod 4096 + i)"
    unfolding page_off [symmetric] by simp
  moreover have "unat va mod 4096 + i < 4096" using assms by (simp add: in_page_mod)
  ultimately show ?thesis by (simp only: PGROUNDDOWN_add(1) PGROUNDDOWN_aligned)
qed

lemma next_page: "PGROUNDDOWN va + PGSIZE = va + of_nat (in_page va)"
  by (simp add: in_page_def)

lemma uaddr_same_page: "i < in_page va \<Longrightarrow> uaddr m root (va + of_nat i) = uaddr m root va + of_nat i"
  using same_page [of i va] pte_of_page [of "va + of_nat i" va m root] by (simp add: uaddr_def algebra_simps)

lemma load_user:
  "n \<le> in_page va \<Longrightarrow> load_bytes m (uaddr m root va) n = map (\<lambda>i. umem m root (va + of_nat i)) [0..<n]"
  by (simp add: load_bytes_def umem_def uaddr_same_page)

lemma upt_split: "k \<le> n \<Longrightarrow> [0..<n] = [0..<k] @ map (\<lambda>i. k + i) [0..<n - k]"
  by (rule nth_equalityI) (auto simp: nth_append)

section \<open>Copies from resident pages\<close>

lemma copyin_loop_run:
  assumes "pt_wf (mem s) root" "len \<le> fuel" "\<forall>i < len. readable (mem s) root (va + of_nat i)"
  shows "copyin_loop fuel root va len dst s =
    Ok (dst @ map (\<lambda>i. umem (mem s) root (va + of_nat i)) [0..<len], True) s"
  using assms(2,3)
proof (induction fuel arbitrary: va len dst)
  case (Suc fuel)
  show ?case
  proof (cases "len = 0")
    case False
    let ?k = "min (in_page va) len" let ?f = "\<lambda>i. umem (mem s) root (va + of_nat i)"
    let ?va = "va + of_nat (in_page va)"
    have k: "0 < ?k" "?k \<le> in_page va" using False in_page_pos(1) by auto
    have r: "readable (mem s) root va" using Suc.prems(2) False by force
    then have pa: "PTE2PA (pte_of (mem s) root va) \<noteq> 0" by (auto simp: readable_def Let_def)
    have ih: "copyin_loop fuel root ?va (len - ?k) (dst @ map ?f [0..<?k]) s =
      Ok ((dst @ map ?f [0..<?k]) @ map (\<lambda>i. umem (mem s) root (?va + of_nat i)) [0..<len - ?k], True) s"
    proof (rule Suc.IH)
      show "len - ?k \<le> fuel" using Suc.prems(1) k by linarith
      show "\<forall>i < len - ?k. readable (mem s) root (?va + of_nat i)"
      proof (intro allI impI)
        fix i assume "i < len - ?k"
        then have "in_page va + i < len" by auto
        then show "readable (mem s) root (?va + of_nat i)" using Suc.prems(2) by (metis add.assoc of_nat_add)
      qed
    qed
    have "map (\<lambda>i. umem (mem s) root (?va + of_nat i)) [0..<len - ?k] = map ?f (map (\<lambda>i. ?k + i) [0..<len - ?k])"
      by (auto simp: min_def algebra_simps)
    then have split: "map ?f [0..<?k] @ map (\<lambda>i. umem (mem s) root (?va + of_nat i)) [0..<len - ?k] = map ?f [0..<len]"
      using upt_split [of ?k len] by (metis map_append min.cobounded2)
    have "load_bytes (mem s) (PTE2PA (pte_of (mem s) root va) + (va - PGROUNDDOWN va)) ?k = map ?f [0..<?k]"
      using load_user [OF k(2), of "mem s" root] by (simp add: uaddr_def)
    then show ?thesis
      using False walkaddr_readable [OF assms(1) r] pa ih split
      by (simp add: Let_def bnd_Ok next_page flip: in_page_def)
  qed simp
qed simp

lemma copyin_run:
  "pt_wf (mem s) root \<Longrightarrow> \<forall>i < len. readable (mem s) root (va + of_nat i) \<Longrightarrow>
   copyin root va len s = Ok (map (\<lambda>i. umem (mem s) root (va + of_nat i)) [0..<len], True) s"
  unfolding copyin_def by (subst copyin_loop_run) simp_all


section \<open>Copies to resident pages\<close>

definition urange :: "u64 \<Rightarrow> nat \<Rightarrow> u64 set" where
  "urange va n = (\<lambda>i. va + of_nat i) ` {..<n}"

text \<open>
  \<open>separate m root A\<close>: the frames behind the addresses \<open>A\<close> are not page-table pages, and two different
  pages have different frames.
\<close>

definition separate :: "memory \<Rightarrow> u64 \<Rightarrow> u64 set \<Rightarrow> bool" where
  "separate m root A \<longleftrightarrow> (\<forall>a \<in> A. PTE2PA (pte_of m root a) \<notin> tables m root) \<and>
     (\<forall>a \<in> A. \<forall>b \<in> A. PTE2PA (pte_of m root a) = PTE2PA (pte_of m root b) \<longrightarrow> PGROUNDDOWN a = PGROUNDDOWN b)"

lemma page_off_less: "va - PGROUNDDOWN va < 4096"
  by (simp add: word_less_nat_alt page_off)

lemma uaddr_page: "PGROUNDDOWN (uaddr m root va) = PTE2PA (pte_of m root va)"
  unfolding uaddr_def by (rule PGROUNDDOWN_add_word) (simp_all add: page_off_less)

lemma uaddr_inject:
  assumes "separate m root A" "a \<in> A" "b \<in> A" "uaddr m root a = uaddr m root b"
  shows "a = b"
proof -
  have "PTE2PA (pte_of m root a) = PTE2PA (pte_of m root b)" 
    using arg_cong [OF assms(4), of PGROUNDDOWN] by (simp only: uaddr_page)
  moreover from this have "PGROUNDDOWN a = PGROUNDDOWN b" using assms(1-3) unfolding separate_def by blast
  ultimately show ?thesis using assms(4) by (simp add: uaddr_def)
qed

lemma urange_Suc: "n \<le> m \<Longrightarrow> urange (va + of_nat n) (m - n) \<subseteq> urange va m"
proof
  fix x assume "n \<le> m" "x \<in> urange (va + of_nat n) (m - n)"
  then obtain i where "i < m - n" "x = va + of_nat (n + i)" by (auto simp: urange_def add.assoc)
  then show "x \<in> urange va m" unfolding urange_def by (intro image_eqI [of _ _ "n + i"]) auto
qed

lemma separate_mono: "separate m root A \<Longrightarrow> B \<subseteq> A \<Longrightarrow> separate m root B"
  unfolding separate_def by blast

text \<open>A write to a user frame changes no translation.\<close>

lemma user_write_frame:
  assumes "pt_wf m root" "same_except P m m'" "tables m root \<inter> P = {}"
  shows "pte_of m' root = pte_of m root" "pt_wf m' root" "uaddr m' root = uaddr m root"
    "readable m' root = readable m root" "writable m' root = writable m root" "separate m' root = separate m root"
proof -
  have al: "page_aligned root" using assms(1) by (simp add: pt_wf_def)
  note f = pt_frame [OF al assms(2,3)]
  show p: "pte_of m' root = pte_of m root" using f(4) by auto
  show "pt_wf m' root" using f(3) assms(1) by simp
  show "uaddr m' root = uaddr m root" by (rule ext) (simp add: uaddr_def p)
  show r: "readable m' root = readable m root" by (rule ext) (simp add: readable_def p)
  show "writable m' root = writable m root" by (rule ext) (simp add: writable_def p r)
  show "separate m' root = separate m root" by (rule ext) (simp add: separate_def p f(2))
qed

lemma store_user:
  assumes "length bs \<le> in_page va"
  shows "same_except {PTE2PA (pte_of m root va)} m (store_bytes m (uaddr m root va) bs)"
    "i < length bs \<Longrightarrow> store_bytes m (uaddr m root va) bs (uaddr m root va + of_nat i) = bs ! i"
    "\<forall>i < length bs. x \<noteq> uaddr m root va + of_nat i \<Longrightarrow> store_bytes m (uaddr m root va) bs x = m x"
proof -
  have "unat (uaddr m root va) mod 4096 = unat va mod 4096"
  proof -
    have "unat (uaddr m root va) mod 4096 = unat (uaddr m root va - PGROUNDDOWN (uaddr m root va))" by (simp add: page_off)
    also have "\<dots> = unat (va - PGROUNDDOWN va)" unfolding uaddr_page by (simp add: uaddr_def)
    finally show ?thesis by (simp add: page_off)
  qed
  then have "unat (uaddr m root va) mod 4096 + length bs \<le> 4096" using assms by (simp add: in_page_mod)
  then show "same_except {PTE2PA (pte_of m root va)} m (store_bytes m (uaddr m root va) bs)"
    using store_bytes_other_page [of "uaddr m root va" bs] by (auto simp: same_except_def uaddr_page)
  have l: "length bs \<le> 4096" using assms in_page_pos(2) [of va] by simp
  show "i < length bs \<Longrightarrow> store_bytes m (uaddr m root va) bs (uaddr m root va + of_nat i) = bs ! i"
    using l by (simp add: store_bytes_def unat_of_nat)
  assume a: "\<forall>i < length bs. x \<noteq> uaddr m root va + of_nat i"
  have "\<not> unat (x - uaddr m root va) < length bs"
  proof
    assume "unat (x - uaddr m root va) < length bs"
    then have "x \<noteq> uaddr m root va + of_nat (unat (x - uaddr m root va))" using a by blast
    then show False by simp
  qed
  then show "store_bytes m (uaddr m root va) bs x = m x" by (simp add: store_bytes_def)
qed


text \<open>What \<open>copyout\<close> leaves in physical memory.\<close>

definition copied :: "memory \<Rightarrow> u64 \<Rightarrow> u64 \<Rightarrow> u8 list \<Rightarrow> memory \<Rightarrow> bool" where
  "copied m root va bs M \<longleftrightarrow> (\<forall>i < length bs. M (uaddr m root (va + of_nat i)) = bs ! i) \<and>
     (\<forall>x. x \<notin> uaddr m root ` urange va (length bs) \<longrightarrow> M x = m x)"

lemma copied_step:
  assumes sep: "separate m root (urange va (length bs))" and len: "unat va + length bs \<le> 2 ^ 38"
    and k: "k = min (in_page va) (length bs)"
    and rest: "copied m1 root (va + of_nat (in_page va)) (drop k bs) M" "uaddr m1 root = uaddr m root"
    and m1: "m1 = store_bytes m (uaddr m root va) (take k bs)"
  shows "copied m root va bs M"
proof -
  have kl: "length (take k bs) \<le> in_page va" "length (take k bs) = k" using k by simp_all
  note st = store_user [OF kl(1), where m = m and root = root, folded m1, unfolded kl(2)]
  have nxt: "k < length bs \<Longrightarrow> k = in_page va" using k by auto
  have inj: "i = j" if "i < length bs" "j < length bs" "uaddr m root (va + of_nat i) = uaddr m root (va + of_nat j)" for i j
  proof -
    have "va + of_nat i = va + of_nat j"
      by (rule uaddr_inject [OF sep _ _ that(3)]; use that(1,2) in \<open>simp add: urange_def\<close>)
    then have "unat (of_nat i :: u64) = unat (of_nat j :: u64)" by simp
    then show ?thesis using that len by (simp add: unat_of_nat)
  qed
  have later: "x \<in> uaddr m root ` urange (va + of_nat (in_page va)) (length bs - k) \<longleftrightarrow>
      (\<exists>j. k \<le> j \<and> j < length bs \<and> x = uaddr m root (va + of_nat j))" for x
  proof (cases "k < length bs")
    case True
    have "urange (va + of_nat (in_page va)) (length bs - k) = (\<lambda>j. va + of_nat j) ` {k..<length bs}"
      unfolding urange_def nxt [OF True, symmetric]
    proof (intro subset_antisym image_subsetI)
      fix i assume "i \<in> {..<length bs - k}"
      then show "va + of_nat k + of_nat i \<in> (\<lambda>j. va + of_nat j) ` {k..<length bs}"
        by (intro image_eqI [of _ _ "k + i"]) (simp_all add: add.assoc)
    next
      fix j assume "j \<in> {k..<length bs}"
      then have "j - k \<in> {..<length bs - k}" "k + (j - k) = j" by auto
      then show "va + of_nat j \<in> (\<lambda>i. va + of_nat k + of_nat i) ` {..<length bs - k}"
        by (intro image_eqI [of _ _ "j - k"]) (simp_all only: add.assoc flip: of_nat_add)
    qed
    then show ?thesis by auto
  qed (auto simp: urange_def)
  have R: "M (uaddr m root (va + of_nat (in_page va) + of_nat i)) = bs ! (k + i)" if "i < length bs - k" for i
    using rest that by (auto simp: copied_def)
  have S: "M x = m1 x" if "\<not> (\<exists>j. k \<le> j \<and> j < length bs \<and> x = uaddr m root (va + of_nat j))" for x
    using rest that later [of x] by (auto simp: copied_def)
  show ?thesis unfolding copied_def
  proof (intro conjI allI impI)
    fix i assume i: "i < length bs"
    show "M (uaddr m root (va + of_nat i)) = bs ! i"
    proof (cases "i < k")
      case True
      then have "M (uaddr m root (va + of_nat i)) = m1 (uaddr m root (va + of_nat i))"
      proof (intro S notI, elim exE conjE)
        fix j assume "k \<le> j" "j < length bs" "uaddr m root (va + of_nat i) = uaddr m root (va + of_nat j)"
        then show False using inj [OF i, of j] True by simp
      qed
      also have "\<dots> = take k bs ! i" using st(2) [OF True] True k by (simp add: uaddr_same_page)
      finally show ?thesis using True by simp
    next
      case False
      then have "i - k < length bs - k" "k + (i - k) = i" "in_page va = k" using i nxt by auto
      moreover from this(2) have "va + of_nat k + of_nat (i - k) = va + of_nat i" by (simp add: add.assoc flip: of_nat_add)
      ultimately show ?thesis using R [of "i - k"] by simp
    qed
  next
    fix x assume x: "x \<notin> uaddr m root ` urange va (length bs)"
    then have nx: "x \<noteq> uaddr m root (va + of_nat j)" if "j < length bs" for j using that by (auto simp: urange_def)
    have "m1 x = m x"
    proof (rule st(3), intro allI impI)
      fix i assume "i < k"
      then show "x \<noteq> uaddr m root va + of_nat i" using nx [of i] k uaddr_same_page [of i va m root] by simp
    qed
    then show "M x = m x" using S [of x] nx by auto
  qed
qed


lemma copyout_step:
  fixes s va bs root
  defines "k \<equiv> min (in_page va) (length bs)"
  assumes wf: "pt_wf (mem s) root" and bs: "bs \<noteq> []" and w: "writable (mem s) root va"
  shows "copyout_loop (Suc fuel) root va bs s =
    copyout_loop fuel root (va + of_nat (in_page va)) (drop k bs)
      (s\<lparr>mem := store_bytes (mem s) (uaddr (mem s) root va) (take k bs)\<rparr>)"
proof -
  let ?va = "PGROUNDDOWN va"
  have r: "readable (mem s) root va" "pte_of (mem s) root va AND PTE_W \<noteq> 0" using w by (simp_all add: writable_def)
  then have va: "?va < MAXVA" and v: "pte_valid (pte_of (mem s) root va)" "PTE2PA (pte_of (mem s) root va) \<noteq> 0"
    using PGROUNDDOWN_MAXVA by (auto simp: readable_def Let_def)
  then obtain a where a: "leaf (mem s) root ?va = Some a" "a \<noteq> 0" "read64 (mem s) a = pte_of (mem s) root va" "aligned8 a"
    using walk0_pte [OF wf va] leaf_aligned by (auto simp: pte_of_rounded pte_valid_def split: if_splits)
  then show ?thesis
    using bs va [folded not_le] walkaddr_readable [OF wf r(1)] v(2) r(2)
    by (simp add: k_def Let_def bnd_Ok bnd_walk0 [OF va] next_page uaddr_def upd_mem_def flip: in_page_def)
qed

lemma copyout_loop_run:
  assumes "pt_wf (mem s) root" "length bs \<le> fuel" "\<forall>a \<in> urange va (length bs). writable (mem s) root a"
    "separate (mem s) root (urange va (length bs))" "unat va + length bs \<le> 2 ^ 38"
  shows "\<exists>M. copyout_loop fuel root va bs s = Ok 0 (s\<lparr>mem := M\<rparr>) \<and> copied (mem s) root va bs M"
  using assms
proof (induction fuel arbitrary: va bs s)
  case 0
  then show ?case by (intro exI [of _ "mem s"]) (simp add: copied_def)
next
  case (Suc fuel)
  show ?case
  proof (cases "bs = []")
    case True
    then show ?thesis by (intro exI [of _ "mem s"]) (simp add: copied_def)
  next
    case False
    define k where "k = min (in_page va) (length bs)"
    define m1 where "m1 = store_bytes (mem s) (uaddr (mem s) root va) (take k bs)"
    let ?s = "s\<lparr>mem := m1\<rparr>" let ?va = "va + of_nat (in_page va)" let ?bs = "drop k bs"
    have k: "0 < k" "k \<le> length bs" "length (take k bs) \<le> in_page va" using False in_page_pos(1) [of va] by (auto simp: k_def)
    have "va \<in> urange va (length bs)" using False unfolding urange_def by (intro image_eqI [of _ _ 0]) auto
    then have w: "writable (mem s) root va" "PTE2PA (pte_of (mem s) root va) \<notin> tables (mem s) root"
      using Suc.prems(3,4) by (auto simp: separate_def)
    then have "tables (mem s) root \<inter> {PTE2PA (pte_of (mem s) root va)} = {}" by simp
    note fr = user_write_frame [OF Suc.prems(1) store_user(1) [OF k(3)] this, folded m1_def]
    have sub: "urange ?va (length ?bs) \<subseteq> urange va (length bs)"
    proof (cases "k < length bs")
      case True
      then have "in_page va = k" by (auto simp: k_def)
      then show ?thesis using urange_Suc [of k "length bs" va] k(2) by simp
    qed (simp add: urange_def)
    have nx: "unat ?va + length ?bs \<le> 2 ^ 38" if "k < length bs"
    proof -
      have "in_page va = k" using that by (auto simp: k_def)
      moreover have "unat (va + of_nat k) = unat va + k"
        using Suc.prems(5) k(2) by (intro offset_inject) simp
      ultimately show ?thesis using Suc.prems(5) k(2) by simp
    qed
    have "\<exists>M. copyout_loop fuel root ?va ?bs ?s = Ok 0 (?s\<lparr>mem := M\<rparr>) \<and> copied (mem ?s) root ?va ?bs M"
    proof (cases "k < length bs")
      case True
      then show ?thesis
        using Suc.prems k sub nx fr separate_mono by (intro Suc.IH) auto
    next
      case False
      then have "?bs = []" by simp
      then show ?thesis by (intro exI [of _ m1], cases fuel) (simp_all add: copied_def)
    qed
    then obtain M where M: "copyout_loop fuel root ?va ?bs ?s = Ok 0 (s\<lparr>mem := M\<rparr>)" "copied m1 root ?va ?bs M" by auto
    have "copied (mem s) root va bs M"
      by (rule copied_step [OF Suc.prems(4,5) k_def M(2) fr(3) m1_def])
    moreover have "copyout_loop (Suc fuel) root va bs s = Ok 0 (s\<lparr>mem := M\<rparr>)"
      using copyout_step [OF Suc.prems(1) False w(1), of fuel, folded k_def, folded m1_def] M(1) by simp
    ultimately show ?thesis by blast
  qed
qed


section \<open>Properties\<close>

lemma copied_user:
  assumes wf: "pt_wf m root" and c: "copied m root va bs M" and sep: "separate m root (urange va (length bs))"
  shows "pte_of M root = pte_of m root" "pt_wf M root" "uaddr M root = uaddr m root" "readable M root = readable m root"
proof -
  let ?P = "(\<lambda>a. PTE2PA (pte_of m root a)) ` urange va (length bs)"
  have same: "same_except ?P m M" unfolding same_except_def
  proof (intro allI impI)
    fix x assume x: "PGROUNDDOWN x \<notin> ?P"
    have "x \<notin> uaddr m root ` urange va (length bs)"
    proof
      assume "x \<in> uaddr m root ` urange va (length bs)"
      then have "PGROUNDDOWN x \<in> PGROUNDDOWN ` uaddr m root ` urange va (length bs)" by (rule imageI)
      then show False using x by (simp add: image_image uaddr_page)
    qed
    then show "M x = m x" using c by (simp add: copied_def)
  qed
  have disj: "tables m root \<inter> ?P = {}" using sep by (auto simp: separate_def)
  show "pte_of M root = pte_of m root" "pt_wf M root" "uaddr M root = uaddr m root" "readable M root = readable m root"
    by (rule user_write_frame [OF wf same disj])+
qed

lemma copyout_run:
  assumes "pt_wf (mem s) root" "\<forall>a \<in> urange va (length bs). writable (mem s) root a"
    "separate (mem s) root {a. readable (mem s) root a}" "unat va + length bs \<le> 2 ^ 38"
  shows "\<exists>M. copyout root va bs s = Ok 0 (s\<lparr>mem := M\<rparr>) \<and> pte_of M root = pte_of (mem s) root \<and>
    (\<forall>i < length bs. umem M root (va + of_nat i) = bs ! i) \<and>
    (\<forall>a. readable (mem s) root a \<and> a \<notin> urange va (length bs) \<longrightarrow> umem M root a = umem (mem s) root a)"
proof -
  have sub: "urange va (length bs) \<subseteq> {a. readable (mem s) root a}" using assms(2) by (auto simp: writable_def)
  note sep = separate_mono [OF assms(3) sub]
  obtain M where M: "copyout root va bs s = Ok 0 (s\<lparr>mem := M\<rparr>)" "copied (mem s) root va bs M"
    using copyout_loop_run [OF assms(1) order.refl assms(2) sep assms(4)] by (auto simp: copyout_def)
  note f = copied_user [OF assms(1) M(2) sep]
  have "umem M root a = umem (mem s) root a" if "readable (mem s) root a" "a \<notin> urange va (length bs)" for a
  proof -
    have "uaddr (mem s) root a \<notin> uaddr (mem s) root ` urange va (length bs)"
    proof
      assume "uaddr (mem s) root a \<in> uaddr (mem s) root ` urange va (length bs)"
      then obtain b where b: "b \<in> urange va (length bs)" "uaddr (mem s) root a = uaddr (mem s) root b" by blast
      then have "a = b" using that(1) sub by (intro uaddr_inject [OF assms(3) _ _ b(2)]) auto
      then show False using b(1) that(2) by simp
    qed
    then show ?thesis using M(2) by (simp add: umem_def f copied_def)
  qed
  then show ?thesis using M f by (intro exI [of _ M]) (simp add: umem_def copied_def)
qed

text \<open>
  Property C7. \<open>copyout\<close> to writable user pages: across page boundaries, each byte lands at its virtual address,
  every other readable byte of the address space keeps its value, no translation changes, and
  nothing outside memory does.
\<close>

theorem copyout_correct:
  assumes "pt_wf (mem s) root" "\<forall>a \<in> urange va (length bs). writable (mem s) root a"
    "separate (mem s) root {a. readable (mem s) root a}" "unat va + length bs \<le> 2 ^ 38"
  shows "\<exists>M. copyout root va bs s = Ok 0 (s\<lparr>mem := M\<rparr>) \<and> pte_of M root = pte_of (mem s) root \<and>
    (\<forall>i < length bs. umem M root (va + of_nat i) = bs ! i) \<and>
    (\<forall>a. readable (mem s) root a \<and> a \<notin> urange va (length bs) \<longrightarrow> umem M root a = umem (mem s) root a)"
  by (rule copyout_run [OF assms])

text \<open>
  Property C33. Round trip: what \<open>copyout\<close> wrote to user memory, \<open>copyin\<close> reads back.
\<close>

theorem copyout_copyin:
  assumes "pt_wf (mem s) root" "\<forall>a \<in> urange va (length bs). writable (mem s) root a"
    "separate (mem s) root (urange va (length bs))" "unat va + length bs \<le> 2 ^ 38"
  shows "\<exists>t. copyout root va bs s = Ok 0 t \<and> copyin root va (length bs) t = Ok (bs, True) t"
proof -
  obtain M where M: "copyout root va bs s = Ok 0 (s\<lparr>mem := M\<rparr>)" "copied (mem s) root va bs M"
    using copyout_loop_run [OF assms(1) order.refl assms(2-4)] by (auto simp: copyout_def)
  note f = copied_user [OF assms(1) M(2) assms(3)]
  have "\<forall>i < length bs. readable M root (va + of_nat i)"
    using assms(2) by (auto simp: f writable_def urange_def)
  then have "copyin root va (length bs) (s\<lparr>mem := M\<rparr>) =
      Ok (map (\<lambda>i. umem M root (va + of_nat i)) [0..<length bs], True) (s\<lparr>mem := M\<rparr>)"
    using f(2) by (subst copyin_run) simp_all
  moreover have "map (\<lambda>i. umem M root (va + of_nat i)) [0..<length bs] = bs"
    using M(2) by (intro nth_equalityI) (simp_all add: umem_def f copied_def)
  ultimately show ?thesis using M(1) by auto
qed


section \<open>A copy that faults\<close>

lemma copyin_loop_0: "copyin_loop fuel root va 0 dst s = Ok (dst, True) s"
  by (cases fuel) simp_all

lemma copyin_faults:
  assumes inv: "vm_inv s p xs (f # ps)" "3 \<le> length ps" "curproc s = Some p"
    "KmemLk \<notin> set (held s)" "ProcLk p \<notin> set (held s)"
    and va: "PGROUNDDOWN va < MAXVA" "p_exe_end (procs s p) \<le> PGROUNDDOWN va" "PGROUNDDOWN va < p_sz (procs s p)"
    and inval: "\<not> pte_valid (pte_of (mem s) (p_pagetable (procs s p)) va)"
    and len: "0 < len" "len \<le> in_page va"
  obtains t where "copyin (p_pagetable (procs s p)) va len s = Ok (replicate len 0, True) t"
    "pte_of (mem t) (p_pagetable (procs s p)) va = anon_pte f"
proof -
  let ?root = "p_pagetable (procs s p)" let ?va = "PGROUNDDOWN va"
  have wf: "pt_wf (mem s) ?root" using inv(1) by (simp add: vm_inv_def)
  have al: "page_aligned ?va" by simp
  have iv: "\<not> pte_valid (pte_of (mem s) ?root ?va)" using inval by (simp add: pte_of_rounded)
  have reg: "if ?va < p_sz (procs s p) then p_exe_end (procs s p) \<le> ?va
      else let sp = read64 (mem s) (tf_sp (p_trapframe (procs s p))) in ?va < sp \<and> sp - PGSIZE \<le> ?va"
    using va by simp
  have tf: "p_sz (procs s p) \<le> ?va \<Longrightarrow> page_aligned (p_trapframe (procs s p)) \<and> p_trapframe (procs s p) \<noteq> f"
    using va(3) by simp
  obtain t where t: "vmfault ?root ?va s = Ok f t" "load_bytes (mem t) f 4096 = replicate 4096 0"
    "\<And>va'. va' < MAXVA \<Longrightarrow> pte_of (mem t) ?root va' = (if PGROUNDDOWN va' = ?va then anon_pte f else pte_of (mem s) ?root va')"
    by (rule vmfault_anon [OF inv al va(1) iv reg tf]; (assumption | rule that))
  have f: "f \<noteq> 0" using inv(1) by (auto simp: vm_inv_def free_pages_def)
  have w: "walkaddr ?root ?va s = Ok 0 s" using walkaddr_run [OF wf va(1)] iv by (simp add: Let_def)
  have "load_bytes (mem t) (f + (va - ?va)) len = replicate len 0"
  proof (rule nth_equalityI)
    fix i assume "i < length (load_bytes (mem t) (f + (va - ?va)) len)"
    then have i: "i < len" by (simp add: load_bytes_def)
    have off: "unat va mod 4096 + i < 4096" using i len(2) by (simp add: in_page_mod)
    have eq: "f + (va - ?va) + of_nat i = f + of_nat (unat va mod 4096 + i)"
      unfolding page_off [symmetric] by simp
    have "mem t (f + of_nat k) = 0" if "k < 4096" for k
      using arg_cong [OF t(2), of "\<lambda>bs. bs ! k"] that by (simp add: load_bytes_def)
    from this [OF off, folded eq] show "load_bytes (mem t) (f + (va - ?va)) len ! i = replicate len 0 ! i"
      using i by (simp add: load_bytes_def)
  qed (simp add: load_bytes_def)
  then have "copyin ?root va len s = Ok (replicate len 0, True) t"
    using len w t(1) f by (cases len) (simp_all add: copyin_def copyin_loop_0 Let_def bnd_Ok min_def flip: in_page_def)
  moreover have "pte_of (mem t) ?root ?va = anon_pte f" using t(3) [OF va(1)] by simp
  then have "pte_of (mem t) ?root va = anon_pte f" by (simp only: pte_of_rounded)
  ultimately show thesis using that by blast
qed

text \<open>
  Property C20. \<open>copyin\<close> from a heap page that is in the swap file does not read it back: it gets zeros, and the
  entry that held the slot number is overwritten by the mapping of a fresh page, so that the saved
  contents are lost.
\<close>

theorem copyin_loses_swapped:
  assumes "vm_inv s p xs (f # ps)" "3 \<le> length ps" "curproc s = Some p"
    "KmemLk \<notin> set (held s)" "ProcLk p \<notin> set (held s)"
    "PGROUNDDOWN va < MAXVA" "p_exe_end (procs s p) \<le> PGROUNDDOWN va" "PGROUNDDOWN va < p_sz (procs s p)"
    "pte_of (mem s) (p_pagetable (procs s p)) va = SLOT_PTE slot OR perms OR PTE_S"
    "perms AND PTE_V = 0" "0 < len" "len \<le> in_page va"
  shows "\<exists>t. copyin (p_pagetable (procs s p)) va len s = Ok (replicate len 0, True) t \<and>
    pte_of (mem t) (p_pagetable (procs s p)) va = PA2PTE f OR PTE_W OR PTE_R OR PTE_U OR PTE_V"
proof -
  have "(SLOT_PTE slot OR (perms OR PTE_S)) AND PTE_V = (perms OR PTE_S) AND PTE_V"
    by (rule SLOT_PTE_flags) (simp add: PTE_V_def)
  then have "\<not> pte_valid (pte_of (mem s) (p_pagetable (procs s p)) va)"
    using assms(9,10) by (simp add: pte_valid_def or.assoc bit.conj_disj_distrib2) (simp add: PTE_S_def PTE_V_def)
  then obtain t where "copyin (p_pagetable (procs s p)) va len s = Ok (replicate len 0, True) t"
    "pte_of (mem t) (p_pagetable (procs s p)) va = anon_pte f"
    using copyin_faults [OF assms(1-8) _ assms(11,12)] by blast
  then show ?thesis by (auto simp: anon_pte_def or.assoc)
qed


section \<open>Instances\<close>

text \<open>The page the example process has resident, page 0, is readable and writable.\<close>

lemma ex_user:
  "pte_of (mem ex_demand) 0x80021000 a = (if PGROUNDDOWN a = 0 then PA2PTE 0x80024000 OR 23 else pte_of (mem ex_demand) 0x80021000 a)"
  using pte_of_page [of a 0 "ex_mem 23" "0x80021000"] by (simp add: ex_demand_leaf ex_pte PGROUNDDOWN_def)

lemma ex_writable: "PGROUNDDOWN a = 0 \<Longrightarrow> a < MAXVA \<Longrightarrow> writable (mem ex_demand) 0x80021000 a"
proof -
  assume a: "PGROUNDDOWN a = 0" "a < MAXVA"
  have "(PA2PTE 0x80024000 OR 23) AND g = 23 AND g" if "g < 2 ^ 10" for g using that by (simp add: PA2PTE_flags)
  moreover have "PTE2PA (PA2PTE 0x80024000 OR 23) = 0x80024000" by (rule PTE2PA_PA2PTE) simp_all
  ultimately show ?thesis
    using a ex_user [of a] by (simp add: writable_def readable_def pte_valid_def PTE_V_def PTE_U_def PTE_W_def)
qed

text \<open>Only page 0 is readable there, so the frames are separate.\<close>

lemma ex_other_pte:
  assumes "a < MAXVA" "PGROUNDDOWN a \<noteq> 0"
  shows "pte_of (mem ex_demand) 0x80021000 a = 0"
proof -
  have "PX 2 a \<noteq> 0 \<or> PX 1 a \<noteq> 0 \<or> PX 0 a \<noteq> 0"
    using PX_page_inject [of a 0] assms by (auto simp: MAXVA_def PGROUNDDOWN_def)
  then show ?thesis
    using ex_read [where t = "0x80023000" and l = 0 and va = a and g = 23]
    unfolding ex_demand_leaf by (auto simp: pte_of_def leaf_def ex_tables)
qed

lemma ex_demand_tables: "tables (mem ex_demand) 0x80021000 = {0x80021000, 0x80022000, 0x80023000}"
proof -
  have "tables (mem ex_demand) 0x80021000 = tables (mem ex_base) 0x80021000"
    by (rule pt_frame(2) [OF _ ex_demand_mem]) (simp_all add: pt_frame(2) [OF _ ex_base_fields(5)] ex_tables)
  also have "\<dots> = tables (ex_mem 23) 0x80021000" by (rule pt_frame(2) [OF _ ex_base_fields(5)]) (simp_all add: ex_tables)
  finally show ?thesis by (simp add: ex_tables)
qed

lemma ex_separate: "separate (mem ex_demand) 0x80021000 {a. readable (mem ex_demand) 0x80021000 a}"
proof -
  have z: "PGROUNDDOWN a = 0" if "readable (mem ex_demand) 0x80021000 a" for a
    using that ex_other_pte [of a] by (cases "PGROUNDDOWN a = 0") (simp_all add: readable_def Let_def pte_valid_def)
  have "PTE2PA (PA2PTE 0x80024000 OR 23) = 0x80024000" by (rule PTE2PA_PA2PTE) simp_all
  then have "PTE2PA (pte_of (mem ex_demand) 0x80021000 a) = 0x80024000" if "readable (mem ex_demand) 0x80021000 a" for a
    using z [OF that] ex_user [of a] by simp
  then show ?thesis using z by (simp add: separate_def ex_demand_tables)
qed

lemma ex_urange: "PGROUNDDOWN a = 0" "a < MAXVA" if "a \<in> urange 0xff0 (length [1, 2, 3 :: u8])"
proof -
  have "a = 0xff0 \<or> a = 0xff1 \<or> a = 0xff2"
    using that by (auto simp: urange_def less_Suc_eq)
  then show "PGROUNDDOWN a = 0" "a < MAXVA" by (auto simp: PGROUNDDOWN_def PGSIZE_def MAXVA_def)
qed

lemma ex_demand_wf: "pt_wf (mem ex_demand) 0x80021000"
  using ex_demand_inv by (simp add: vm_inv_def ex_demand_fields ex_proc_def)

lemma ex_range_writable: "\<forall>a \<in> urange 0xff0 (length [1, 2, 3 :: u8]). writable (mem ex_demand) 0x80021000 a"
  using ex_urange ex_writable by blast

theorem copyout_correct_witness:
  "\<exists>M. copyout 0x80021000 0xff0 [1, 2, 3] ex_demand = Ok 0 (ex_demand\<lparr>mem := M\<rparr>) \<and>
    umem M 0x80021000 (0xff0 + of_nat 2) = [1, 2, 3] ! 2"
proof -
  have "unat (0xff0 :: u64) + length [1, 2, 3 :: u8] \<le> 2 ^ 38" by simp
  from copyout_correct [OF ex_demand_wf ex_range_writable ex_separate this]
  obtain M where M: "copyout 0x80021000 0xff0 [1, 2, 3] ex_demand = Ok 0 (ex_demand\<lparr>mem := M\<rparr>)"
    "\<forall>i < length [1, 2, 3 :: u8]. umem M 0x80021000 (0xff0 + of_nat i) = [1, 2, 3] ! i" by blast
  have "2 < length [1, 2, 3 :: u8]" by simp
  then show ?thesis using M by blast
qed

theorem copyout_copyin_witness:
  "\<exists>t. copyout 0x80021000 0xff0 [1, 2, 3] ex_demand = Ok 0 t \<and>
    copyin 0x80021000 0xff0 (length [1, 2, 3 :: u8]) t = Ok ([1, 2, 3], True) t"
proof -
  have "unat (0xff0 :: u64) + length [1, 2, 3 :: u8] \<le> 2 ^ 38" by simp
  moreover have "urange 0xff0 (length [1, 2, 3 :: u8]) \<subseteq> {a. readable (mem ex_demand) 0x80021000 a}"
    using ex_range_writable by (auto simp: writable_def)
  ultimately show ?thesis
    using copyout_copyin [OF ex_demand_wf ex_range_writable separate_mono [OF ex_separate]] by blast
qed

text \<open>A write to the entry of a page that is not resident keeps the invariant.\<close>

lemma vm_inv_write_leaf:
  assumes inv: "vm_inv s p xs ps" and lf: "leaf (mem s) (p_pagetable (procs s p)) va = Some a"
    and va: "va < MAXVA" and out: "\<forall>(n, v, sq) \<in> set xs. v \<noteq> PGROUNDDOWN va"
  shows "vm_inv (s\<lparr>mem := write64 (mem s) a e\<rparr>) p xs ps"
proof -
  let ?root = "p_pagetable (procs s p)" let ?t = "s\<lparr>mem := write64 (mem s) a e\<rparr>"
  note i = inv [unfolded vm_inv_def]
  have wf: "pt_wf (mem s) ?root" using i by simp
  note w = write_leaf [OF wf lf]
  have m: "same_except {PGROUNDDOWN a} (mem s) (mem ?t)" using same_except_write64 [OF leaf_aligned [OF lf]] by simp
  have T: "PGROUNDDOWN a \<in> tables (mem s) ?root" by (rule leaf_in_tables [OF lf])
  have p: "pte_of (mem ?t) ?root v = pte_of (mem s) ?root v" if "(n, v, sq) \<in> set xs" for n v sq
    using pte_of_write_leaf [OF wf lf va, of v e] i out that by fastforce
  then have fr: "frames ?t p xs = frames s p xs" by (auto simp: frames_def frame_of_def)
  have d: "set ps \<inter> {PGROUNDDOWN a} = {}" "set (nodes xs) \<inter> {PGROUNDDOWN a} = {}" using i T by auto
  have "free_pages ?t ps" using i d by (intro free_pages_frame [OF _ m]) auto
  moreover have "resident ?t p xs"
    using i rchain_frame [OF _ m d(2)] by (simp add: resident_def)
  moreover have "\<forall>(n, v, sq) \<in> set xs. pte_valid (pte_of (mem ?t) ?root v) \<and> ram_page (sym_end s) (frame_of ?t p v)"
    using i p by (fastforce simp: frame_of_def)
  ultimately show ?thesis using i w fr by (auto simp: vm_inv_def)
qed

definition ex_swapped :: kstate where
  "ex_swapped = ex_demand\<lparr>mem := write64 (mem ex_demand) 0x80023008 (SLOT_PTE 5 OR (PTE_R OR PTE_W OR PTE_U) OR PTE_S)\<rparr>"

theorem copyin_loses_swapped_witness:
  "\<exists>t. copyin 0x80021000 0x1000 8 ex_swapped = Ok (replicate 8 0, True) t"
proof -
  have pg: "p_pagetable (procs ex_demand 0) = 0x80021000" "p_exe_end (procs ex_demand 0) = 0x1000" "p_sz (procs ex_demand 0) = 0x2000"
    by (simp_all add: ex_demand_fields ex_proc_def)
  have pd: "PGROUNDDOWN 0x1000 = (0x1000 :: u64)" "in_page 0x1000 = 4096" by code_simp+
  have lf: "leaf (mem ex_demand) (p_pagetable (procs ex_demand 0)) 0x1000 = Some 0x80023008" by (simp add: pg ex_demand_pages)
  have inv: "vm_inv ex_swapped 0 [(0x80025000, 0, 7)] (0x8002a000 # ex_free)"
    unfolding ex_swapped_def by (rule vm_inv_write_leaf [OF ex_demand_inv lf]) (simp_all add: MAXVA_def pd)
  have pte: "pte_of (mem ex_swapped) 0x80021000 0x1000 = SLOT_PTE 5 OR (PTE_R OR PTE_W OR PTE_U) OR PTE_S"
    using pte_of_write_leaf [OF ex_demand_wf lf [unfolded pg]] by (simp add: ex_swapped_def MAXVA_def)
  have f: "procs ex_swapped = procs ex_demand" "held ex_swapped = []" "curproc ex_swapped = Some 0"
    by (simp_all add: ex_swapped_def ex_demand_fields)
  show ?thesis
    using copyin_loses_swapped [OF inv, of "0x1000" 5 "PTE_R OR PTE_W OR PTE_U" 8] pte
    by (auto simp: f pg pd ex_free_def MAXVA_def PTE_R_def PTE_W_def PTE_U_def PTE_V_def)
qed

end
