(* ===== verification/Xv6_Pipe.thy ===== *)
theory Xv6_Pipe
  imports Xv6_Copy
begin

text \<open>
  Pipes (kernel/pipe.c) as bounded queues of bytes: the ring buffer and its two 32-bit counters, which wrap
  around, implement a FIFO of at most 512 bytes.
\<close>

section \<open>Bytes of one page\<close>

lemma page_off_inject:
  "page_aligned p \<Longrightarrow> a < 4096 \<Longrightarrow> b < 4096 \<Longrightarrow> p + of_nat a = p + of_nat b \<longleftrightarrow> a = b"
  by (metis PGROUNDDOWN_add(2) add_left_cancel)

lemma write32_apply:
  assumes "page_aligned p" "a + 4 \<le> 4096" "b < 4096" "b < a \<or> a + 4 \<le> b"
  shows "write32 m (p + of_nat a) v (p + of_nat b) = m (p + of_nat b)"
proof -
  have u: "unat (p + of_nat a) = unat p + a" "unat (p + of_nat b) = unat p + b"
    using assms by (simp_all add: PGROUNDDOWN_add(2))
  have "unat p + 4096 \<le> 18446744073709551616" using PGROUNDDOWN_add(2) [OF assms(1), of 4095] unat_u64 [of "p + of_nat 4095"] by simp
  then have "4 \<le> unat (p + of_nat b + of_nat 0 - (p + of_nat a))"
    using assms(2-4) by (intro unat_diff_disjoint [of _ _ _ 1]) (auto simp: u)
  then show ?thesis by (simp add: write32_def store_bytes_outside)
qed

lemma read32_write32_page:
  assumes "page_aligned p" "a + 4 \<le> 4096" "b + 4 \<le> 4096" "b + 4 \<le> a \<or> a + 4 \<le> b"
  shows "read32 (write32 m (p + of_nat a) v) (p + of_nat b) = read32 m (p + of_nat b)"
proof -
  have "write32 m (p + of_nat a) v (p + of_nat b + of_nat i) = m (p + of_nat b + of_nat i)" if "i < 4" for i
    using write32_apply [OF assms(1,2), of "b + i" m v] assms(3,4) that by (auto simp: add.assoc)
  then show ?thesis unfolding read32_def by (intro arg_cong [of _ _ le_word] load_bytes_cong)
qed

lemma read32_upd_page:
  assumes "page_aligned p" "a < 4096" "b + 4 \<le> 4096" "a < b \<or> b + 4 \<le> a"
  shows "read32 (m(p + of_nat a := v)) (p + of_nat b) = read32 m (p + of_nat b)"
proof -
  have "(m(p + of_nat a := v)) (p + of_nat b + of_nat i) = m (p + of_nat b + of_nat i)" if "i < 4" for i
    using page_off_inject [OF assms(1,2), of "b + i"] assms(3,4) that by (auto simp: add.assoc)
  then show ?thesis unfolding read32_def by (intro arg_cong [of _ _ le_word] load_bytes_cong)
qed

section \<open>The ring buffer\<close>

definition nread :: "memory \<Rightarrow> u64 \<Rightarrow> u32" where "nread m pi = read32 m (pi_nread pi)"
definition nwrite :: "memory \<Rightarrow> u64 \<Rightarrow> u32" where "nwrite m pi = read32 m (pi_nwrite pi)"

text \<open>The bytes written and not yet read, oldest first.\<close>

definition pipe_queue :: "memory \<Rightarrow> u64 \<Rightarrow> u8 list" where
  "pipe_queue m pi = map (\<lambda>i. m (pi_data pi (nread m pi + of_nat i))) [0..<unat (nwrite m pi - nread m pi)]"

definition pipe_wf :: "memory \<Rightarrow> u64 \<Rightarrow> bool" where
  "pipe_wf m pi \<longleftrightarrow> page_aligned pi \<and> length (pipe_queue m pi) \<le> PIPESIZE"

definition pipe_put :: "u64 \<Rightarrow> u8 \<Rightarrow> memory \<Rightarrow> memory" where
  "pipe_put pi c m = (write32 m (pi_nwrite pi) (nwrite m pi + 1))(pi_data pi (nwrite m pi) := c)"

definition pipe_get :: "u64 \<Rightarrow> memory \<Rightarrow> memory" where
  "pipe_get pi m = write32 m (pi_nread pi) (nread m pi + 1)"

lemma length_pipe_queue: "length (pipe_queue m pi) = unat (nwrite m pi - nread m pi)"
  by (simp add: pipe_queue_def)

text \<open>The slot of a counter: 512 divides \<open>2 ^ 32\<close>, so that it goes round with the counter.\<close>

lemma pi_data_slot: "pi_data pi (n + of_nat i) = pi + of_nat (24 + (unat n + i) mod 512)"
proof -
  have "unat (n + of_nat i) mod 512 = (unat n + i) mod 512"
    by (rule ring_slot) simp
  then show ?thesis by (simp add: pi_data_def PIPESIZE_def algebra_simps)
qed

lemma pi_data_slot0: "pi_data pi n = pi + of_nat (24 + unat n mod 512)"
  using pi_data_slot [of pi n 0] by simp

lemma slot_bound: "24 + k mod 512 < (536 :: nat)" "24 + k mod 512 < (4096 :: nat)"
proof -
  have "k mod 512 < (512 :: nat)" by simp
  then show "24 + k mod 512 < (536 :: nat)" "24 + k mod 512 < (4096 :: nat)" by linarith+
qed

lemma pi_fields: "pi_nread pi = pi + of_nat 536" "pi_nwrite pi = pi + of_nat 540"
  "pi_readopen pi = pi + of_nat 544" "pi_writeopen pi = pi + of_nat 548"
  by (simp_all add: pi_nread_def pi_nwrite_def pi_readopen_def pi_writeopen_def)

text \<open>What the two operations do to the words and bytes of the page.\<close>

lemma put_fields:
  assumes "page_aligned pi"
  shows "nwrite (pipe_put pi c m) pi = nwrite m pi + 1" "nread (pipe_put pi c m) pi = nread m pi"
    "read32 (pipe_put pi c m) (pi_readopen pi) = read32 m (pi_readopen pi)"
    "read32 (pipe_put pi c m) (pi_writeopen pi) = read32 m (pi_writeopen pi)"
    "pipe_put pi c m (pi_data pi n) = (if unat n mod 512 = unat (nwrite m pi) mod 512 then c else m (pi_data pi n))"
proof -
  note b = slot_bound [of "unat (nwrite m pi)"] slot_bound [of "unat n"]
  note w = read32_write32_page [OF assms]
  have u: "read32 (M(pi + of_nat (24 + unat (nwrite m pi) mod 512) := c)) (pi + of_nat k) = read32 M (pi + of_nat k)"
    if "536 \<le> k" "k + 4 \<le> 4096" for M k
    using b(1) that by (intro read32_upd_page [OF assms b(2)]) linarith+
  show "nwrite (pipe_put pi c m) pi = nwrite m pi + 1" "nread (pipe_put pi c m) pi = nread m pi"
    "read32 (pipe_put pi c m) (pi_readopen pi) = read32 m (pi_readopen pi)"
    "read32 (pipe_put pi c m) (pi_writeopen pi) = read32 m (pi_writeopen pi)"
    by (simp_all add: pipe_put_def pi_data_slot0 nwrite_def [of "_(_ := _)"] nread_def pi_fields u w del: of_nat_numeral of_nat_add)
  have "pi_data pi n = pi_data pi (nwrite m pi) \<longleftrightarrow> unat n mod 512 = unat (nwrite m pi) mod 512"
    unfolding pi_data_slot0 using page_off_inject [OF assms b(4,2)] by simp
  moreover have "write32 m (pi_nwrite pi) v (pi_data pi n) = m (pi_data pi n)" for v
    unfolding pi_data_slot0 pi_fields using b by (intro write32_apply [OF assms]) linarith+
  ultimately show "pipe_put pi c m (pi_data pi n) = (if unat n mod 512 = unat (nwrite m pi) mod 512 then c else m (pi_data pi n))"
    by (simp add: pipe_put_def)
qed

lemma get_fields:
  assumes "page_aligned pi"
  shows "nread (pipe_get pi m) pi = nread m pi + 1" "nwrite (pipe_get pi m) pi = nwrite m pi"
    "read32 (pipe_get pi m) (pi_readopen pi) = read32 m (pi_readopen pi)"
    "read32 (pipe_get pi m) (pi_writeopen pi) = read32 m (pi_writeopen pi)"
    "pipe_get pi m (pi_data pi n) = m (pi_data pi n)"
proof -
  note w = read32_write32_page [OF assms]
  show "nread (pipe_get pi m) pi = nread m pi + 1" "nwrite (pipe_get pi m) pi = nwrite m pi"
    "read32 (pipe_get pi m) (pi_readopen pi) = read32 m (pi_readopen pi)"
    "read32 (pipe_get pi m) (pi_writeopen pi) = read32 m (pi_writeopen pi)"
    by (simp_all add: pipe_get_def nread_def [of "write32 _ _ _"] nwrite_def pi_fields w del: of_nat_numeral)
  show "pipe_get pi m (pi_data pi n) = m (pi_data pi n)"
    unfolding pipe_get_def pi_data_slot0 pi_fields using slot_bound [of "unat n"] by (intro write32_apply [OF assms]) linarith+
qed


text \<open>The two operations on the ring are the two operations of a queue.\<close>

lemma queue_put:
  assumes "pipe_wf m pi" "length (pipe_queue m pi) < PIPESIZE"
  shows "pipe_queue (pipe_put pi c m) pi = pipe_queue m pi @ [c]" "pipe_wf (pipe_put pi c m) pi"
proof -
  have al: "page_aligned pi" using assms(1) by (simp add: pipe_wf_def)
  note f = put_fields [OF al]
  let ?n = "nwrite m pi - nread m pi"
  have l: "unat ?n < 512" using assms(2) by (simp add: length_pipe_queue PIPESIZE_def)
  have S: "unat (nwrite m pi + 1 - nread m pi) = Suc (unat ?n)"
  proof -
    have "nwrite m pi + 1 - nread m pi = ?n + 1" by simp
    moreover have "unat (?n + 1) = Suc (unat ?n)" using l by (simp add: unat_word_ariths)
    ultimately show ?thesis by (simp only:)
  qed
  have slot: "unat (nread m pi + of_nat i) mod 512 = unat (nwrite m pi) mod 512 \<longleftrightarrow> i = unat ?n" if "i \<le> unat ?n" for i
  proof -
    have m: "unat (nread m pi + of_nat k) mod 512 = (unat (nread m pi) + k) mod 512" for k
      by (rule ring_slot) simp
    have "nread m pi + of_nat (unat ?n) = nwrite m pi" by simp
    then have "unat (nwrite m pi) mod 512 = (unat (nread m pi) + unat ?n) mod 512" using m [of "unat ?n"] by simp
    then show ?thesis using m [of i] ring_inject [of i 512 "unat ?n" "unat (nread m pi)"] that l by auto
  qed
  show q: "pipe_queue (pipe_put pi c m) pi = pipe_queue m pi @ [c]"
    using slot by (simp add: pipe_queue_def f S)
  show "pipe_wf (pipe_put pi c m) pi" using assms by (simp add: pipe_wf_def q)
qed

lemma queue_get:
  assumes "pipe_wf m pi" "pipe_queue m pi = c # q"
  shows "m (pi_data pi (nread m pi)) = c" "pipe_queue (pipe_get pi m) pi = q" "pipe_wf (pipe_get pi m) pi"
proof -
  have al: "page_aligned pi" using assms(1) by (simp add: pipe_wf_def)
  note f = get_fields [OF al]
  let ?n = "nwrite m pi - nread m pi"
  have l: "unat ?n = Suc (length q)" using length_pipe_queue [of m pi] assms(2) by simp
  have S: "unat (nwrite m pi - (nread m pi + 1)) = length q"
  proof -
    have e: "nwrite m pi - (nread m pi + 1) = ?n - 1" by simp
    have "unat (?n - 1) = unat ?n - 1" using l by (intro unat_minus_one) auto
    then show ?thesis unfolding e using l by simp
  qed
  have c: "c # q = map (\<lambda>i. m (pi_data pi (nread m pi + of_nat i))) [0..<Suc (length q)]"
    using assms(2) by (simp add: pipe_queue_def l)
  then show "m (pi_data pi (nread m pi)) = c" by (simp add: upt_conv_Cons del: upt_Suc)
  have "q = map (\<lambda>i. m (pi_data pi (nread m pi + of_nat i))) (map Suc [0..<length q])"
    using c by (simp add: upt_conv_Cons map_Suc_upt del: upt_Suc)
  then show q: "pipe_queue (pipe_get pi m) pi = q"
    by (simp add: pipe_queue_def f S comp_def add.assoc)
  show "pipe_wf (pipe_get pi m) pi" using assms by (simp add: pipe_wf_def q)
qed

lemma pipe_full_iff: "nwrite m pi = nread m pi + of_nat PIPESIZE \<longleftrightarrow> length (pipe_queue m pi) = PIPESIZE"
proof -
  have "nwrite m pi = nread m pi + of_nat PIPESIZE \<longleftrightarrow> nwrite m pi - nread m pi = of_nat PIPESIZE"
    by (auto simp: algebra_simps)
  also have "\<dots> \<longleftrightarrow> unat (nwrite m pi - nread m pi) = PIPESIZE"
    by (simp add: word_unat_eq_iff unat_of_nat PIPESIZE_def)
  finally show ?thesis by (simp only: length_pipe_queue)
qed

lemma pipe_empty_iff: "nread m pi = nwrite m pi \<longleftrightarrow> pipe_queue m pi = []"
proof -
  have "nread m pi = nwrite m pi \<longleftrightarrow> unat (nwrite m pi - nread m pi) = 0" by (auto simp: unat_eq_0)
  then show ?thesis unfolding length_pipe_queue [symmetric] by simp
qed


lemma same_except_write32_page:
  assumes "page_aligned p" "k + 4 \<le> 4096" shows "same_except {p} m (write32 m (p + of_nat k) v)"
proof -
  have "unat (p + of_nat k) mod 4096 = k"
    using assms PGROUNDDOWN_add(2) [of p k] page_aligned_unat [of p] by (simp add: mod_add_eq [symmetric])
  then show ?thesis
    using assms store_bytes_other_page [of "p + of_nat k" "le_bytes 4 v" _ m]
    by (auto simp: same_except_def write32_def PGROUNDDOWN_add(1))
qed

lemma same_except_put:
  assumes "page_aligned pi" shows "same_except {pi} m (pipe_put pi c m)"
proof -
  have "PGROUNDDOWN (pi_data pi n) = pi" for n
    unfolding pi_data_slot0 using slot_bound(2) by (rule PGROUNDDOWN_add(1) [OF assms])
  then show ?thesis
    using same_except_write32_page [OF assms, of 540 m "nwrite m pi + 1"]
    by (auto simp: same_except_def pipe_put_def pi_fields)
qed

lemma same_except_get: "page_aligned pi \<Longrightarrow> same_except {pi} m (pipe_get pi m)"
  unfolding pipe_get_def pi_fields by (rule same_except_write32_page) simp_all

section \<open>Writing\<close>

lemma killed_run: "ProcLk p \<notin> set (held s) \<Longrightarrow> killed p s = Ok (p_killed (procs s p)) s"
  by (simp add: killed_def release_run)

lemma bnd_killed: "ProcLk p \<notin> set (held s) \<Longrightarrow> bnd (killed p) f s = f (p_killed (procs s p)) s"
  by (simp add: bnd_Ok killed_run)

text \<open>One turn of the loop of \<open>pipewrite\<close>.\<close>

lemma pipewrite_turn:
  assumes lk: "ProcLk pr \<notin> set (held s)" and run: "read32 (mem s) (pi_readopen pi) \<noteq> 0" "\<not> p_killed (procs s pr)"
    and room: "length (pipe_queue (mem s) pi) \<noteq> PIPESIZE"
    and wf: "pt_wf (mem s) (p_pagetable (procs s pr))" "readable (mem s) (p_pagetable (procs s pr)) (addr + of_nat i)"
  shows "pipewrite_loop (Suc n) pr pi addr i s = pipewrite_loop n pr pi addr (Suc i)
    (s\<lparr>mem := pipe_put pi (umem (mem s) (p_pagetable (procs s pr)) (addr + of_nat i)) (mem s)\<rparr>)"
proof -
  have "copyin (p_pagetable (procs s pr)) (addr + of_nat i) 1 s =
      Ok ([umem (mem s) (p_pagetable (procs s pr)) (addr + of_nat i)], True) s"
    using copyin_run [OF wf(1), of 1 "addr + of_nat i"] wf(2) by simp
  moreover have "read32 (mem s) (pi_nwrite pi) \<noteq> read32 (mem s) (pi_nread pi) + of_nat PIPESIZE"
    using room pipe_full_iff [of "mem s" pi] by (simp add: nwrite_def nread_def)
  ultimately show ?thesis
    using run by (simp add: load32_def bnd_killed [OF lk] bnd_Ok store32_def store8_def upd_mem_def pipe_put_def nwrite_def)
qed


text \<open>The user addresses \<open>A\<close> are readable, and their frames and the page tables are not the pipe's page.\<close>

definition apart :: "memory \<Rightarrow> u64 \<Rightarrow> u64 \<Rightarrow> u64 set \<Rightarrow> bool" where
  "apart m root pi A \<longleftrightarrow> pt_wf m root \<and> pi \<notin> tables m root \<and>
     (\<forall>a \<in> A. readable m root a \<and> PTE2PA (pte_of m root a) \<noteq> pi)"

lemma apart_frame:
  assumes "apart m root pi A" "same_except {pi} m m'"
  shows "apart m' root pi A" "a \<in> A \<Longrightarrow> umem m' root a = umem m root a" "pte_of m' root = pte_of m root"
    "readable m' root = readable m root" "writable m' root = writable m root" "separate m' root = separate m root"
proof -
  have d: "tables m root \<inter> {pi} = {}" and wf: "pt_wf m root" using assms(1) by (auto simp: apart_def)
  have al: "page_aligned root" using wf by (simp add: pt_wf_def)
  note f = user_write_frame [OF wf assms(2) d] and T = pt_frame(2) [OF al assms(2) d]
  show "apart m' root pi A" using assms(1) f T by (simp add: apart_def)
  show "umem m' root a = umem m root a" if "a \<in> A"
    using assms that by (auto simp: umem_def f(3) same_except_def uaddr_page apart_def)
  show "pte_of m' root = pte_of m root" "readable m' root = readable m root" "writable m' root = writable m root"
    "separate m' root = separate m root" by (rule f)+
qed

lemma pipewrite_turns:
  assumes "pipe_wf (mem s) pi" "length (pipe_queue (mem s) pi) + k \<le> PIPESIZE" "k \<le> n"
    "ProcLk pr \<notin> set (held s)" "read32 (mem s) (pi_readopen pi) \<noteq> 0" "\<not> p_killed (procs s pr)"
    "apart (mem s) (p_pagetable (procs s pr)) pi ((\<lambda>j. addr + of_nat (i + j)) ` {..<k})"
  shows "\<exists>M. pipewrite_loop n pr pi addr i s = pipewrite_loop (n - k) pr pi addr (i + k) (s\<lparr>mem := M\<rparr>) \<and>
    pipe_wf M pi \<and> read32 M (pi_readopen pi) \<noteq> 0 \<and> same_except {pi} (mem s) M \<and>
    pipe_queue M pi = pipe_queue (mem s) pi @ map (\<lambda>j. umem (mem s) (p_pagetable (procs s pr)) (addr + of_nat (i + j))) [0..<k]"
  using assms(2,3,7)
proof (induction k)
  case 0
  show ?case using assms(1,5) by (intro exI [of _ "mem s"]) (simp add: same_except_def)
next
  case (Suc k)
  let ?root = "p_pagetable (procs s pr)" let ?f = "\<lambda>j. umem (mem s) ?root (addr + of_nat (i + j))"
  have "apart (mem s) ?root pi ((\<lambda>j. addr + of_nat (i + j)) ` {..<k})"
    using Suc.prems(3) by (auto simp: apart_def)
  then obtain M where M: "pipewrite_loop n pr pi addr i s = pipewrite_loop (n - k) pr pi addr (i + k) (s\<lparr>mem := M\<rparr>)"
    "pipe_wf M pi" "read32 M (pi_readopen pi) \<noteq> 0" "same_except {pi} (mem s) M"
    "pipe_queue M pi = pipe_queue (mem s) pi @ map ?f [0..<k]"
    using Suc.IH Suc.prems(1,2) by auto
  have al: "page_aligned pi" using M(2) by (simp add: pipe_wf_def)
  note fr = apart_frame [OF Suc.prems(3) M(4)]
  have u: "umem M ?root (addr + of_nat (i + k)) = ?f k" by (rule fr(2)) simp
  have len: "length (pipe_queue M pi) < PIPESIZE" using Suc.prems(1) by (simp add: M(5))
  have "pt_wf M ?root" "readable M ?root (addr + of_nat (i + k))" using fr(1) by (simp_all add: apart_def)
  then have "pipewrite_loop (Suc (n - Suc k)) pr pi addr (i + k) (s\<lparr>mem := M\<rparr>) =
      pipewrite_loop (n - Suc k) pr pi addr (Suc (i + k)) (s\<lparr>mem := pipe_put pi (?f k) M\<rparr>)"
    using pipewrite_turn [of pr "s\<lparr>mem := M\<rparr>" pi addr "i + k" "n - Suc k"] assms(4,6) M(3) len u by simp
  moreover have "Suc (n - Suc k) = n - k" using Suc.prems(2) by simp
  moreover have "same_except {pi} (mem s) (pipe_put pi (?f k) M)"
    using same_except_trans [OF M(4) same_except_put [OF al]] by simp
  ultimately show ?case
    using M queue_put [OF M(2) len, of "?f k"] put_fields(3) [OF al, of "?f k" M]
    by (intro exI [of _ "pipe_put pi (?f k) M"]) simp
qed


lemma urange_image: "urange addr k = (\<lambda>j. addr + of_nat (0 + j)) ` {..<k}"
  by (simp add: urange_def)

lemma apart_mono: "apart m root pi A \<Longrightarrow> B \<subseteq> A \<Longrightarrow> apart m root pi B"
  by (auto simp: apart_def)

lemma pipewrite_run:
  assumes "curproc s = Some pr" "held s = []" "pipe_wf (mem s) pi" "read32 (mem s) (pi_readopen pi) \<noteq> 0" "\<not> p_killed (procs s pr)"
    "length (pipe_queue (mem s) pi) + k \<le> PIPESIZE" "k \<le> nat n"
    "apart (mem s) (p_pagetable (procs s pr)) pi (urange addr k)"
  obtains M where "pipewrite pi addr n s = pipewrite_loop (nat n - k) pr pi addr k (s\<lparr>held := [PipeLk pi], mem := M\<rparr>)"
    "pipe_wf M pi" "read32 M (pi_readopen pi) \<noteq> 0" "same_except {pi} (mem s) M"
    "pipe_queue M pi = pipe_queue (mem s) pi @ map (\<lambda>j. umem (mem s) (p_pagetable (procs s pr)) (addr + of_nat j)) [0..<k]"
proof -
  let ?s = "s\<lparr>held := [PipeLk pi]\<rparr>"
  have "apart (mem ?s) (p_pagetable (procs ?s pr)) pi ((\<lambda>j. addr + of_nat (0 + j)) ` {..<k})"
    using assms(8) by (simp only: urange_image) simp
  note w = pipewrite_turns [of ?s pi k "nat n" pr addr 0, OF _ _ assms(7) _ _ _ this]
  have "pipewrite pi addr n s = pipewrite_loop (nat n) pr pi addr 0 ?s"
    using assms(1,2) by (simp add: pipewrite_def)
  then show thesis using w assms(3-6) that by auto
qed

lemma pipewrite_fits:
  assumes "curproc s = Some pr" "held s = []" "pipe_wf (mem s) pi" "read32 (mem s) (pi_readopen pi) \<noteq> 0" "\<not> p_killed (procs s pr)"
    "length (pipe_queue (mem s) pi) + n \<le> PIPESIZE" "apart (mem s) (p_pagetable (procs s pr)) pi (urange addr n)"
  shows "\<exists>M. pipewrite pi addr (int n) s =
      Ok (int n) (s\<lparr>mem := M, procs := wake (ChPipeRead pi) (Some pr) NPROC (procs s)\<rparr>) \<and>
    pipe_wf M pi \<and> same_except {pi} (mem s) M \<and>
    pipe_queue M pi = pipe_queue (mem s) pi @ map (\<lambda>j. umem (mem s) (p_pagetable (procs s pr)) (addr + of_nat j)) [0..<n]"
proof -
  obtain M where M: "pipewrite pi addr (int n) s = pipewrite_loop 0 pr pi addr n (s\<lparr>held := [PipeLk pi], mem := M\<rparr>)"
    "pipe_wf M pi" "same_except {pi} (mem s) M"
    "pipe_queue M pi = pipe_queue (mem s) pi @ map (\<lambda>j. umem (mem s) (p_pagetable (procs s pr)) (addr + of_nat j)) [0..<n]"
    using pipewrite_run [OF assms(1-6) _ assms(7), of "int n"] by auto
  then show ?thesis
    using assms(1,2) by (intro exI [of _ M]) (simp add: pipewrite_end_def)
qed

text \<open>
  Property C13. With room in the pipe \<open>pipewrite\<close> appends the bytes at the user's address, in order, to the bytes
  waiting in the pipe, wakes the processes that wait to read, and returns the number written.
  It changes no memory but the pipe's page.
\<close>

theorem pipewrite_correct:
  assumes "curproc s = Some pr" "held s = []" "pipe_wf (mem s) pi" "read32 (mem s) (pi_readopen pi) \<noteq> 0" "\<not> p_killed (procs s pr)"
    "length (pipe_queue (mem s) pi) + n \<le> PIPESIZE" "apart (mem s) (p_pagetable (procs s pr)) pi (urange addr n)"
  shows "\<exists>M. pipewrite pi addr (int n) s =
      Ok (int n) (s\<lparr>mem := M, procs := wake (ChPipeRead pi) (Some pr) NPROC (procs s)\<rparr>) \<and>
    pipe_wf M pi \<and> same_except {pi} (mem s) M \<and>
    pipe_queue M pi = pipe_queue (mem s) pi @ map (\<lambda>j. umem (mem s) (p_pagetable (procs s pr)) (addr + of_nat j)) [0..<n]"
  by (rule pipewrite_fits [OF assms])

text \<open>
  Property C34. A write of more bytes than there is room for fills the pipe to its 512 bytes and then, rather
  than overwrite or drop a byte, wakes every process that waits to read and puts the writer to
  sleep on the pipe's write channel, with the pipe's lock released.
\<close>

theorem pipewrite_blocks:
  assumes "curproc s = Some pr" "held s = []" "pipe_wf (mem s) pi" "read32 (mem s) (pi_readopen pi) \<noteq> 0" "\<not> p_killed (procs s pr)"
    "length (pipe_queue (mem s) pi) + k = PIPESIZE" "int k < n"
    "apart (mem s) (p_pagetable (procs s pr)) pi (urange addr k)"
  shows "\<exists>t. pipewrite pi addr n s = Sleep (Some (ChPipeWrite pi)) t \<and>
    pipe_queue (mem t) pi = pipe_queue (mem s) pi @ map (\<lambda>j. umem (mem s) (p_pagetable (procs s pr)) (addr + of_nat j)) [0..<k] \<and>
    held t = [ProcLk pr] \<and> p_state (procs t pr) = SLEEPING \<and> p_chan (procs t pr) = Some (ChPipeWrite pi) \<and>
    (\<forall>p < NPROC. p \<noteq> pr \<and> p_state (procs s p) = SLEEPING \<and> p_chan (procs s p) = Some (ChPipeRead pi) \<longrightarrow>
      p_state (procs t p) = RUNNABLE)"
proof -
  have kn: "k \<le> nat n" and le: "length (pipe_queue (mem s) pi) + k \<le> PIPESIZE" using assms(6,7) by auto
  obtain d where d: "nat n - k = Suc d" using assms(7) by (cases "nat n - k") auto
  obtain M where M: "pipewrite pi addr n s = pipewrite_loop (Suc d) pr pi addr k (s\<lparr>held := [PipeLk pi], mem := M\<rparr>)"
    "pipe_wf M pi" "read32 M (pi_readopen pi) \<noteq> 0" "same_except {pi} (mem s) M"
    "pipe_queue M pi = pipe_queue (mem s) pi @ map (\<lambda>j. umem (mem s) (p_pagetable (procs s pr)) (addr + of_nat j)) [0..<k]"
    using pipewrite_run [OF assms(1-5) le kn assms(8)] unfolding d by blast
  have "length (pipe_queue M pi) = PIPESIZE" using assms(6) by (simp add: M(5))
  then have full: "read32 M (pi_nwrite pi) = read32 M (pi_nread pi) + of_nat PIPESIZE"
    using pipe_full_iff [of M pi] by (simp add: nwrite_def nread_def)
  show ?thesis
    using assms(1,2,5) M(3,5) full
    by (simp add: M(1) load32_def bnd_killed sleep_def sched_def upd_proc_def wake_def)
qed


section \<open>Reading\<close>

text \<open>The pipe depends on the bytes of its page alone.\<close>

lemma pipe_cong:
  assumes "page_aligned pi" "\<forall>x. PGROUNDDOWN x = pi \<longrightarrow> m' x = m x"
  shows "nread m' pi = nread m pi" "nwrite m' pi = nwrite m pi" "pipe_queue m' pi = pipe_queue m pi"
    "read32 m' (pi_writeopen pi) = read32 m (pi_writeopen pi)"
proof -
  have r: "read32 m' (pi + of_nat k) = read32 m (pi + of_nat k)" if "k + 4 \<le> 4096" for k
    unfolding read32_def using that assms(2) PGROUNDDOWN_add(1) [OF assms(1), of "k + _"]
    by (intro arg_cong [of _ _ le_word] load_bytes_cong) (simp add: add.assoc)
  show n: "nread m' pi = nread m pi" "nwrite m' pi = nwrite m pi" "read32 m' (pi_writeopen pi) = read32 m (pi_writeopen pi)"
    unfolding nread_def nwrite_def pi_fields by (rule r, simp)+
  have "m' (pi_data pi k) = m (pi_data pi k)" for k
    using assms(2) PGROUNDDOWN_add(1) [OF assms(1) slot_bound(2)] by (simp only: pi_data_slot0)
  then show "pipe_queue m' pi = pipe_queue m pi" by (simp only: pipe_queue_def n)
qed

text \<open>\<open>copyout\<close> of one byte to an address apart from the pipe.\<close>

lemma copyout_byte:
  assumes ap: "apart (mem s) root pi A" and wr: "\<forall>a \<in> A. writable (mem s) root a" and sep: "separate (mem s) root A" and va: "va \<in> A"
  obtains M where "copyout root va [c] s = Ok 0 (s\<lparr>mem := M\<rparr>)" "umem M root va = c"
    "\<forall>a \<in> A - {va}. umem M root a = umem (mem s) root a" "\<forall>x. PGROUNDDOWN x = pi \<longrightarrow> M x = mem s x"
    "apart M root pi A" "\<forall>a \<in> A. writable M root a" "separate M root A"
proof -
  have wf: "pt_wf (mem s) root" using ap by (simp add: apart_def)
  have r: "urange va (length [c]) = {va}" by (auto simp: urange_def)
  have "va < MAXVA" using wr va by (auto simp: writable_def readable_def)
  then have len: "unat va + length [c] \<le> 2 ^ 38" by (simp add: word_less_nat_alt MAXVA_def)
  have sep1: "separate (mem s) root (urange va (length [c]))" using sep va unfolding r by (intro separate_mono [OF sep]) simp
  obtain M where M: "copyout root va [c] s = Ok 0 (s\<lparr>mem := M\<rparr>)" "copied (mem s) root va [c] M"
    using copyout_loop_run [OF wf order.refl _ sep1 len] wr va unfolding r copyout_def by auto
  let ?P = "{PTE2PA (pte_of (mem s) root va)}"
  have out: "M x = mem s x" if "x \<noteq> uaddr (mem s) root va" for x using M(2) that unfolding copied_def r by simp
  have same: "same_except ?P (mem s) M" unfolding same_except_def
  proof (intro allI impI)
    fix x assume "PGROUNDDOWN x \<notin> ?P"
    then have "x \<noteq> uaddr (mem s) root va" using uaddr_page by auto
    then show "M x = mem s x" by (rule out)
  qed
  have disj: "tables (mem s) root \<inter> ?P = {}" using sep va by (auto simp: separate_def)
  have al: "page_aligned root" using wf by (simp add: pt_wf_def)
  note f = user_write_frame [OF wf same disj] pt_frame(2) [OF al same disj]
  show thesis
  proof (rule that [OF M(1)])
    show "umem M root va = c" using M(2) by (simp add: umem_def f copied_def)
    show "\<forall>a \<in> A - {va}. umem M root a = umem (mem s) root a"
      using uaddr_inject [OF sep _ va] by (auto simp: umem_def f intro!: out)
    have "PGROUNDDOWN (uaddr (mem s) root va) \<noteq> pi" using ap va by (simp add: uaddr_page apart_def)
    then show "\<forall>x. PGROUNDDOWN x = pi \<longrightarrow> M x = mem s x" by (intro allI impI out notI) simp
    show "apart M root pi A" "\<forall>a \<in> A. writable M root a" "separate M root A" using ap wr sep by (simp_all add: apart_def f)
  qed
qed


lemma piperead_turn:
  assumes "pipe_wf (mem s) pi" "pipe_queue (mem s) pi = c # q" "copyout (p_pagetable (procs s pr)) (addr + of_nat i) [c]
      (s\<lparr>mem := pipe_get pi (mem s)\<rparr>) = Ok 0 t"
  shows "piperead_loop (Suc n) pr pi addr i s = piperead_loop n pr pi addr (Suc i) t"
proof -
  have "read32 (mem s) (pi_nread pi) \<noteq> read32 (mem s) (pi_nwrite pi)"
    using pipe_empty_iff [of "mem s" pi] assms(2) by (simp add: nread_def nwrite_def)
  moreover have al: "page_aligned pi" using assms(1) by (simp add: pipe_wf_def)
  have "pipe_get pi (mem s) (pi_data pi (read32 (mem s) (pi_nread pi))) = c"
    using queue_get(1) [OF assms(1,2)] get_fields(5) [OF al] by (simp add: nread_def)
  ultimately show ?thesis
    using assms(3) by (simp add: load32_def load8_def store32_def upd_mem_def bnd_Ok pipe_get_def nread_def)
qed

lemma piperead_turns:
  assumes "pipe_wf (mem s) pi" "k \<le> length (pipe_queue (mem s) pi)" "k \<le> n"
    "apart (mem s) (p_pagetable (procs s pr)) pi A" "\<forall>a \<in> A. writable (mem s) (p_pagetable (procs s pr)) a"
    "separate (mem s) (p_pagetable (procs s pr)) A" "\<forall>j < k. addr + of_nat j \<in> A" "inj_on (\<lambda>j. addr + of_nat j) {..<k}"
  shows "\<exists>M. piperead_loop n pr pi addr 0 s = piperead_loop (n - k) pr pi addr k (s\<lparr>mem := M\<rparr>) \<and>
    pipe_wf M pi \<and> pipe_queue M pi = drop k (pipe_queue (mem s) pi) \<and>
    apart M (p_pagetable (procs s pr)) pi A \<and> (\<forall>a \<in> A. writable M (p_pagetable (procs s pr)) a) \<and>
    separate M (p_pagetable (procs s pr)) A \<and>
    (\<forall>j < k. umem M (p_pagetable (procs s pr)) (addr + of_nat j) = pipe_queue (mem s) pi ! j) \<and>
    (\<forall>a \<in> A. a \<notin> urange addr k \<longrightarrow> umem M (p_pagetable (procs s pr)) a = umem (mem s) (p_pagetable (procs s pr)) a)"
  using assms(2,3,7,8)
proof (induction k)
  case 0
  show ?case using assms by (intro exI [of _ "mem s"]) simp
next
  case (Suc k)
  let ?root = "p_pagetable (procs s pr)" let ?q = "pipe_queue (mem s) pi" let ?a = "addr + of_nat k"
  have inj: "inj_on (\<lambda>j. addr + of_nat j :: u64) {..<k}" using Suc.prems(4) by (rule inj_on_subset) auto
  obtain M where M: "piperead_loop n pr pi addr 0 s = piperead_loop (n - k) pr pi addr k (s\<lparr>mem := M\<rparr>)"
    "pipe_wf M pi" "pipe_queue M pi = drop k ?q" "apart M ?root pi A" "\<forall>a \<in> A. writable M ?root a" "separate M ?root A"
    "\<forall>j < k. umem M ?root (addr + of_nat j) = ?q ! j"
    "\<forall>a \<in> A. a \<notin> urange addr k \<longrightarrow> umem M ?root a = umem (mem s) ?root a"
    using Suc.IH Suc.prems(1-3) inj by (auto simp: less_Suc_eq)
  have q: "pipe_queue M pi = ?q ! k # drop (Suc k) ?q" using Suc.prems(1) M(3) by (simp add: Cons_nth_drop_Suc)
  have al: "page_aligned pi" using M(2) by (simp add: pipe_wf_def)
  let ?m = "pipe_get pi M"
  note fr = apart_frame [OF M(4) same_except_get [OF al, of M]]
  have A: "?a \<in> A" using Suc.prems(3) by simp
  obtain M' where M': "copyout ?root ?a [?q ! k] (s\<lparr>mem := ?m\<rparr>) = Ok 0 (s\<lparr>mem := M'\<rparr>)" "umem M' ?root ?a = ?q ! k"
    "\<forall>a \<in> A - {?a}. umem M' ?root a = umem ?m ?root a" "\<forall>x. PGROUNDDOWN x = pi \<longrightarrow> M' x = ?m x"
    "apart M' ?root pi A" "\<forall>a \<in> A. writable M' ?root a" "separate M' ?root A"
    using copyout_byte [of "s\<lparr>mem := ?m\<rparr>" ?root pi A ?a "?q ! k"] fr M(5,6) A by auto
  note cg = pipe_cong [OF al M'(4)] and g = queue_get [OF M(2) q]
  have "piperead_loop (Suc (n - Suc k)) pr pi addr k (s\<lparr>mem := M\<rparr>) = piperead_loop (n - Suc k) pr pi addr (Suc k) (s\<lparr>mem := M'\<rparr>)"
    using piperead_turn [of "s\<lparr>mem := M\<rparr>" pi "?q ! k" "drop (Suc k) ?q" pr addr k] M(2) q M'(1) by simp
  moreover have "Suc (n - Suc k) = n - k" using Suc.prems(2) by simp
  moreover have "umem M' ?root (addr + of_nat j) = ?q ! j" if "j < Suc k" for j
  proof (cases "j = k")
    case False
    then have j: "j < k" "addr + of_nat j \<noteq> ?a" "addr + of_nat j \<in> A"
      using that Suc.prems(3,4) inj_onD [OF Suc.prems(4), of j k] by auto
    then show ?thesis using M'(3) M(7) fr(2) by simp
  qed (simp add: M'(2))
  moreover have "umem M' ?root a = umem (mem s) ?root a" if "a \<in> A" "a \<notin> urange addr (Suc k)" for a
  proof -
    have "a \<noteq> ?a" "a \<notin> urange addr k" using that(2) by (auto simp: urange_def lessThan_Suc)
    then show ?thesis using that(1) M'(3) M(8) fr(2) by simp
  qed
  ultimately show ?case
    using M(1) M'(5-7) g cg al by (intro exI [of _ M']) (simp add: pipe_wf_def)
qed


lemma urange_inj:
  assumes "unat addr + n \<le> 2 ^ 38" shows "inj_on (\<lambda>j. addr + of_nat j :: u64) {..<n}"
proof (rule inj_onI)
  fix x y assume xy: "x \<in> {..<n}" "y \<in> {..<n}" "addr + of_nat x = addr + of_nat y"
  have "unat (addr + of_nat j) = unat addr + j" if "j < n" for j using assms that by (intro offset_inject) simp
  then have "unat addr + x = unat addr + y" using xy by (metis lessThan_iff)
  then show "x = y" by simp
qed

lemma piperead_run:
  fixes s pi n
  defines "k \<equiv> min n (length (pipe_queue (mem s) pi))"
  assumes "curproc s = Some pr" "held s = []" "pipe_wf (mem s) pi"
    "pipe_queue (mem s) pi \<noteq> [] \<or> read32 (mem s) (pi_writeopen pi) = 0"
    "apart (mem s) (p_pagetable (procs s pr)) pi A" "\<forall>a \<in> A. writable (mem s) (p_pagetable (procs s pr)) a"
    "separate (mem s) (p_pagetable (procs s pr)) A" "urange addr n \<subseteq> A" "unat addr + n \<le> 2 ^ 38"
  shows "\<exists>M. piperead pi addr (int n) s =
      Ok (int k) (s\<lparr>mem := M, procs := wake (ChPipeWrite pi) (Some pr) NPROC (procs s)\<rparr>) \<and>
    pipe_wf M pi \<and> pipe_queue M pi = drop k (pipe_queue (mem s) pi) \<and>
    (\<forall>j < k. umem M (p_pagetable (procs s pr)) (addr + of_nat j) = pipe_queue (mem s) pi ! j) \<and>
    (\<forall>a \<in> A. a \<notin> urange addr k \<longrightarrow> umem M (p_pagetable (procs s pr)) a = umem (mem s) (p_pagetable (procs s pr)) a)"
proof -
  let ?s = "s\<lparr>held := [PipeLk pi]\<rparr>" let ?root = "p_pagetable (procs s pr)"
  have A: "\<forall>j < k. addr + of_nat j \<in> A"
    using assms(9) by (auto simp: k_def urange_def)
  have inj: "inj_on (\<lambda>j. addr + of_nat j :: u64) {..<k}" using assms(10) by (intro urange_inj) (simp add: k_def)
  obtain M where M: "piperead_loop n pr pi addr 0 ?s = piperead_loop (n - k) pr pi addr k (?s\<lparr>mem := M\<rparr>)"
    "pipe_wf M pi" "pipe_queue M pi = drop k (pipe_queue (mem s) pi)"
    "\<forall>j < k. umem M ?root (addr + of_nat j) = pipe_queue (mem s) pi ! j"
    "\<forall>a \<in> A. a \<notin> urange addr k \<longrightarrow> umem M ?root a = umem (mem s) ?root a"
    using piperead_turns [of ?s pi k n pr A addr] assms(4,6-8) A inj by (auto simp: k_def)
  have start: "piperead pi addr (int n) s = piperead_loop n pr pi addr 0 ?s"
    using assms(2,3,5) pipe_empty_iff [of "mem s" pi] by (auto simp: piperead_def load32_def nread_def nwrite_def)
  have stop: "piperead_loop (n - k) pr pi addr k (?s\<lparr>mem := M\<rparr>) = piperead_end pi k (?s\<lparr>mem := M\<rparr>)"
  proof (cases "n - k")
    case (Suc d)
    then have "pipe_queue M pi = []" using M(3) by (auto simp: k_def)
    then have "read32 M (pi_nread pi) = read32 M (pi_nwrite pi)" using pipe_empty_iff [of M pi] by (simp add: nread_def nwrite_def)
    then show ?thesis by (simp add: Suc load32_def)
  qed simp
  show ?thesis
    using M(2-5) assms(2,3) by (intro exI [of _ M]) (simp add: start M(1) stop piperead_end_def)
qed

text \<open>
  Property C14. \<open>piperead\<close> of \<open>n\<close> bytes from a pipe that holds some, or whose writers are gone, delivers the
  oldest \<open>min n\<close> of them in order to the user's buffer, leaves the others in the pipe and every other
  byte of the address space as it was, wakes the writers, and returns the number delivered; 0 is
  the end of the stream.
\<close>

theorem piperead_correct:
  fixes s pi n pr
  defines "k \<equiv> min n (length (pipe_queue (mem s) pi))" and "root \<equiv> p_pagetable (procs s pr)"
  assumes "curproc s = Some pr" "held s = []" "pipe_wf (mem s) pi"
    "pipe_queue (mem s) pi \<noteq> [] \<or> read32 (mem s) (pi_writeopen pi) = 0"
    "apart (mem s) root pi A" "\<forall>a \<in> A. writable (mem s) root a"
    "separate (mem s) root A" "urange addr n \<subseteq> A" "unat addr + n \<le> 2 ^ 38"
  shows "\<exists>M. piperead pi addr (int n) s =
      Ok (int k) (s\<lparr>mem := M, procs := wake (ChPipeWrite pi) (Some pr) NPROC (procs s)\<rparr>) \<and>
    pipe_queue M pi = drop k (pipe_queue (mem s) pi) \<and>
    (\<forall>j < k. umem M root (addr + of_nat j) = pipe_queue (mem s) pi ! j) \<and>
    (\<forall>a \<in> A. a \<notin> urange addr k \<longrightarrow> umem M root a = umem (mem s) root a)"
  using piperead_run [OF assms(3-6) assms(7-9) [unfolded root_def] assms(10,11)] unfolding k_def root_def by blast

lemma wake_self: "wake ch (Some p) n ps p = ps p"
  by (simp add: wake_def)


text \<open>
  Property C35. Round trip: bytes written to an empty pipe come back, in order, from a read of as many.
\<close>

theorem pipe_roundtrip:
  fixes s pr
  defines "root \<equiv> p_pagetable (procs s pr)"
  assumes "curproc s = Some pr" "held s = []" "pipe_wf (mem s) pi" "pipe_queue (mem s) pi = []"
    "read32 (mem s) (pi_readopen pi) \<noteq> 0" "\<not> p_killed (procs s pr)" "0 < n" "n \<le> PIPESIZE"
    "apart (mem s) root pi A" "\<forall>a \<in> A. writable (mem s) root a" "separate (mem s) root A"
    "urange src n \<subseteq> A" "urange dst n \<subseteq> A" "unat dst + n \<le> 2 ^ 38"
  shows "\<exists>t u. pipewrite pi src (int n) s = Ok (int n) t \<and> piperead pi dst (int n) t = Ok (int n) u \<and>
    pipe_queue (mem u) pi = [] \<and> (\<forall>j < n. umem (mem u) root (dst + of_nat j) = umem (mem s) root (src + of_nat j))"
proof -
  let ?q = "map (\<lambda>j. umem (mem s) root (src + of_nat j)) [0..<n]"
  have ap: "apart (mem s) (p_pagetable (procs s pr)) pi (urange src n)"
    using apart_mono [OF assms(10,13)] by (simp add: root_def)
  have room: "length (pipe_queue (mem s) pi) + n \<le> PIPESIZE" using assms(5,9) by simp
  obtain M where M: "pipewrite pi src (int n) s = Ok (int n) (s\<lparr>mem := M, procs := wake (ChPipeRead pi) (Some pr) NPROC (procs s)\<rparr>)"
    "pipe_wf M pi" "same_except {pi} (mem s) M" "pipe_queue M pi = ?q"
    using pipewrite_fits [OF assms(2-4,6,7) room ap] by (auto simp: root_def assms(5))
  note fr = apart_frame [OF assms(10) M(3)]
  let ?t = "s\<lparr>mem := M, procs := wake (ChPipeRead pi) (Some pr) NPROC (procs s)\<rparr>"
  have ne: "pipe_queue (mem ?t) pi \<noteq> [] \<or> read32 (mem ?t) (pi_writeopen pi) = 0" using M(4) assms(8) by simp
  obtain M' where M': "piperead pi dst (int n) ?t = Ok (int n) (?t\<lparr>mem := M', procs := wake (ChPipeWrite pi) (Some pr) NPROC (procs ?t)\<rparr>)"
    "pipe_queue M' pi = []" "\<forall>j < n. umem M' root (dst + of_nat j) = ?q ! j"
    using piperead_run [OF _ _ _ ne, of pr A dst n] M(2,4) assms(2,3,11,12,14,15) fr
    by (auto simp: wake_self root_def)
  show ?thesis
    by (rule exI, rule exI, rule conjI [OF M(1)], rule conjI [OF M'(1)]) (use M'(2,3) in simp)
qed


section \<open>Instances\<close>

text \<open>A pipe in the page \<open>0x80030000\<close>, both ends open, whose counters are about to wrap around.\<close>

definition ex_pipe_mem :: memory where
  "ex_pipe_mem = write32 (write32 (write32 (write32 (mem ex_demand) (0x80030000 + of_nat 536) 0xFFFFFFFE)
     (0x80030000 + of_nat 540) 0xFFFFFFFE) (0x80030000 + of_nat 544) 1) (0x80030000 + of_nat 548) 1"

definition ex_pipe :: kstate where
  "ex_pipe = ex_demand\<lparr>mem := ex_pipe_mem\<rparr>"

lemma ex_pipe_page [simp]: "page_aligned 0x80030000"
  by (simp add: page_aligned_def PGSIZE_def)

lemma ex_pipe_same: "same_except {0x80030000} (mem ex_demand) ex_pipe_mem"
proof -
  have w: "same_except {0x80030000} m (write32 m (0x80030000 + of_nat k) v)" if "k + 4 \<le> 4096" for m k v
    using that by (intro same_except_write32_page) simp_all
  have "same_except {0x80030000} m m' \<Longrightarrow> same_except {0x80030000} m (write32 m' (0x80030000 + of_nat k) v)"
    if "k + 4 \<le> 4096" for m m' k v
    using same_except_trans [OF _ w [OF that]] by fastforce
  then show ?thesis unfolding ex_pipe_mem_def by (simp add: w del: of_nat_numeral)
qed

lemma ex_pipe_fields:
  "nread ex_pipe_mem 0x80030000 = 0xFFFFFFFE" "nwrite ex_pipe_mem 0x80030000 = 0xFFFFFFFE"
  "read32 ex_pipe_mem (pi_readopen 0x80030000) = 1" "read32 ex_pipe_mem (pi_writeopen 0x80030000) = 1"
  by (simp_all add: ex_pipe_mem_def nread_def nwrite_def pi_fields read32_write32_page [where p = "0x80030000"] del: of_nat_numeral)

lemma ex_pipe_wf: "pipe_queue ex_pipe_mem 0x80030000 = []" "pipe_wf ex_pipe_mem 0x80030000"
proof -
  show "pipe_queue ex_pipe_mem 0x80030000 = []" using pipe_empty_iff [of ex_pipe_mem "0x80030000"] by (simp add: ex_pipe_fields)
  then show "pipe_wf ex_pipe_mem 0x80030000" by (simp add: pipe_wf_def)
qed

definition ex_low :: "u64 set" where
  "ex_low = {a. a < 4096}"

lemma ex_low: "a \<in> ex_low \<Longrightarrow> PGROUNDDOWN a = 0 \<and> a < MAXVA"
  by (auto simp: ex_low_def word_unat_eq_iff unat_PGROUNDDOWN word_less_nat_alt MAXVA_def)

lemma ex_pipe_user:
  "apart ex_pipe_mem 0x80021000 0x80030000 ex_low" "\<forall>a \<in> ex_low. writable ex_pipe_mem 0x80021000 a"
  "separate ex_pipe_mem 0x80021000 ex_low"
proof -
  have w: "\<forall>a \<in> ex_low. writable (mem ex_demand) 0x80021000 a" using ex_low ex_writable by blast
  have "PTE2PA (PA2PTE 0x80024000 OR 23) = 0x80024000" by (rule PTE2PA_PA2PTE) simp_all
  then have f: "PTE2PA (pte_of (mem ex_demand) 0x80021000 a) = 0x80024000" if "a \<in> ex_low" for a
    using ex_low [OF that] ex_user [of a] by simp
  have "ex_low \<subseteq> {a. readable (mem ex_demand) 0x80021000 a}" using w by (auto simp: writable_def)
  note s = separate_mono [OF ex_separate this]
  have T: "tables (mem ex_demand) 0x80021000 = {0x80021000, 0x80022000, 0x80023000}" by (rule ex_demand_tables)
  have a: "apart (mem ex_demand) 0x80021000 0x80030000 ex_low"
    using w f by (simp add: apart_def ex_demand_wf T writable_def)
  note fr = apart_frame [OF a ex_pipe_same]
  show "apart ex_pipe_mem 0x80021000 0x80030000 ex_low" "\<forall>a \<in> ex_low. writable ex_pipe_mem 0x80021000 a"
    "separate ex_pipe_mem 0x80021000 ex_low"
    using fr w s by simp_all
qed

lemma ex_pipe_proc:
  "curproc ex_pipe = Some 0" "held ex_pipe = []" "mem ex_pipe = ex_pipe_mem" "\<not> p_killed (procs ex_pipe 0)"
  "p_pagetable (procs ex_pipe 0) = 0x80021000"
  by (simp_all add: ex_pipe_def ex_demand_fields ex_proc_def boot_proc_def)

lemma urange_low: "unat va + n \<le> 4096 \<Longrightarrow> urange va n \<subseteq> ex_low"
proof
  fix a assume le: "unat va + n \<le> 4096" and "a \<in> urange va n"
  then obtain i where i: "i < n" "a = va + of_nat i" by (auto simp: urange_def)
  have "unat a = unat va + i" unfolding i(2) using le i(1) by (intro offset_inject) simp
  then show "a \<in> ex_low" using le i(1) by (simp add: ex_low_def word_less_nat_alt)
qed

lemma ex_apart: "apart (mem ex_pipe) (p_pagetable (procs ex_pipe 0)) 0x80030000 (urange 0x100 n)" if "n \<le> 512"
  using apart_mono [OF ex_pipe_user(1) urange_low [of "0x100" n]] that by (simp add: ex_pipe_proc)

theorem pipewrite_correct_witness:
  "\<exists>t. pipewrite 0x80030000 0x100 (int 5) ex_pipe = Ok (int 5) t \<and> length (pipe_queue (mem t) 0x80030000) = 5"
proof -
  have q: "length (pipe_queue (mem ex_pipe) 0x80030000) + 5 \<le> PIPESIZE" by (simp add: ex_pipe_proc ex_pipe_wf PIPESIZE_def)
  have w: "pipe_wf (mem ex_pipe) 0x80030000" "read32 (mem ex_pipe) (pi_readopen 0x80030000) \<noteq> 0"
    by (simp_all add: ex_pipe_proc ex_pipe_wf ex_pipe_fields)
  show ?thesis
    using pipewrite_correct [OF ex_pipe_proc(1,2) w ex_pipe_proc(4) q ex_apart] by (auto simp: ex_pipe_proc ex_pipe_wf)
qed

theorem pipewrite_blocks_witness:
  "\<exists>t. pipewrite 0x80030000 0x100 600 ex_pipe = Sleep (Some (ChPipeWrite 0x80030000)) t \<and>
    length (pipe_queue (mem t) 0x80030000) = 512 \<and> p_state (procs t 0) = SLEEPING"
proof -
  have q: "length (pipe_queue (mem ex_pipe) 0x80030000) + 512 = PIPESIZE" by (simp add: ex_pipe_proc ex_pipe_wf PIPESIZE_def)
  have w: "pipe_wf (mem ex_pipe) 0x80030000" "read32 (mem ex_pipe) (pi_readopen 0x80030000) \<noteq> 0" "int 512 < 600"
    by (simp_all add: ex_pipe_proc ex_pipe_wf ex_pipe_fields)
  show ?thesis
    using pipewrite_blocks [OF ex_pipe_proc(1,2) w(1,2) ex_pipe_proc(4) q w(3) ex_apart] by (auto simp: ex_pipe_proc ex_pipe_wf)
qed

theorem pipe_roundtrip_witness:
  "\<exists>t u. pipewrite 0x80030000 0x100 (int 300) ex_pipe = Ok (int 300) t \<and> piperead 0x80030000 0x400 (int 300) t = Ok (int 300) u"
proof -
  have w: "pipe_wf (mem ex_pipe) 0x80030000" "pipe_queue (mem ex_pipe) 0x80030000 = []"
    "read32 (mem ex_pipe) (pi_readopen 0x80030000) \<noteq> 0" "300 \<le> PIPESIZE" "(0 :: nat) < 300"
    by (simp_all add: ex_pipe_proc ex_pipe_wf ex_pipe_fields PIPESIZE_def)
  note u = ex_pipe_user [folded ex_pipe_proc(3)]
  show ?thesis
    using pipe_roundtrip [OF ex_pipe_proc(1,2) w(1-3) ex_pipe_proc(4) w(5,4), of ex_low "0x100" "0x400"] u
      urange_low [of "0x100" 300] urange_low [of "0x400" 300]
    by (auto simp: ex_pipe_proc)
qed


theorem piperead_correct_witness:
  "\<exists>t. piperead 0x80030000 0x200 (int 8) (ex_pipe\<lparr>mem := pipe_put 0x80030000 7 ex_pipe_mem\<rparr>) = Ok (int 1) t \<and>
    umem (mem t) 0x80021000 (0x200 + of_nat 0) = 7"
proof -
  let ?m = "pipe_put 0x80030000 7 ex_pipe_mem" let ?s = "ex_pipe\<lparr>mem := ?m\<rparr>"
  have l: "length (pipe_queue ex_pipe_mem 0x80030000) < PIPESIZE" by (simp add: ex_pipe_wf PIPESIZE_def)
  note q = queue_put [OF ex_pipe_wf(2) l, of 7, unfolded ex_pipe_wf(1)]
  note fr = apart_frame [OF ex_pipe_user(1) same_except_put [OF ex_pipe_page, of ex_pipe_mem 7]]
  have "curproc ?s = Some 0" "held ?s = []" "pipe_wf (mem ?s) 0x80030000"
    "pipe_queue (mem ?s) 0x80030000 \<noteq> [] \<or> read32 (mem ?s) (pi_writeopen 0x80030000) = 0"
    using q by (simp_all add: ex_pipe_proc)
  note r = piperead_correct [OF this, of ex_low "0x200" 8]
  have "\<exists>M. piperead 0x80030000 0x200 (int 8) ?s = Ok (int 1) (?s\<lparr>mem := M, procs := wake (ChPipeWrite 0x80030000) (Some 0) NPROC (procs ?s)\<rparr>) \<and>
      umem M 0x80021000 (0x200 + of_nat 0) = [7] ! 0"
    using r fr ex_pipe_user q urange_low [of "0x200" 8] by (auto simp: ex_pipe_proc)
  then show ?thesis by auto
qed

end
