(* ===== verification/Xv6_Line.thy ===== *)
theory Xv6_Line
  imports Xv6_Pipe
begin

text \<open>
  The line discipline of kernel/console.c: the ring buffer with its three wrapping indices stands for the
  input that is ready to be read and the line that is being edited, and a key press acts on these
  two as one expects of a terminal.
\<close>


section \<open>The input buffer\<close>

definition cslice :: "u8 list \<Rightarrow> u32 \<Rightarrow> nat \<Rightarrow> u8 list" where
  "cslice cb a n = map (\<lambda>i. cb ! (unat (a + of_nat i) mod INPUT_BUF_SIZE)) [0..<n]"

text \<open>What \<open>consoleread\<close> may take, and the unfinished line.\<close>

definition committed :: "kstate \<Rightarrow> u8 list" where
  "committed s = cslice (cons_buf s) (cons_r s) (unat (cons_w s - cons_r s))"

definition editing :: "kstate \<Rightarrow> u8 list" where
  "editing s = cslice (cons_buf s) (cons_w s) (unat (cons_e s - cons_w s))"

definition cons_inv :: "kstate \<Rightarrow> bool" where
  "cons_inv s \<longleftrightarrow> length (cons_buf s) = INPUT_BUF_SIZE \<and>
     unat (cons_w s - cons_r s) + unat (cons_e s - cons_w s) \<le> INPUT_BUF_SIZE \<and> 10 \<notin> set (editing s)"

text \<open>A key press.\<close>

definition type_key :: "u8 \<Rightarrow> u8 list \<times> u8 list \<Rightarrow> u8 list \<times> u8 list" where
  "type_key c = (\<lambda>(com, ed).
     if c = 16 \<or> c = 0 then (com, ed)
     else if c = 21 then (com, [])
     else if c = 8 \<or> c = 127 then (com, butlast ed)
     else if length com + length ed < INPUT_BUF_SIZE then
       (let c' = (if c = 13 then 10 else c); ed' = ed @ [c'] in
        if c' = 10 \<or> c' = 4 \<or> length com + length ed' = INPUT_BUF_SIZE then (com @ ed', []) else (com, ed'))
     else (com, ed))"

lemma INPUT_BUF: "INPUT_BUF_SIZE = 128"
  by (simp add: INPUT_BUF_SIZE_def)

lemma length_slice [simp]: "length (cslice cb a n) = n"
  by (simp add: cslice_def)

lemma slice_append: "cslice cb a (n + k) = cslice cb a n @ cslice cb (a + of_nat n) k"
  by (rule nth_equalityI) (auto simp: cslice_def nth_append add.assoc simp flip: of_nat_add)

lemma slice_Suc: "cslice cb a (Suc n) = cslice cb a n @ [cb ! (unat (a + of_nat n) mod INPUT_BUF_SIZE)]"
  by (simp add: cslice_def)

lemma slice_butlast: "cslice cb a (n - Suc 0) = butlast (cslice cb a n)"
  by (cases n) (simp_all add: slice_Suc, simp add: cslice_def)

text \<open>A write to the slot \<open>k\<close> steps ahead does not touch the \<open>n \<le> k\<close> bytes before it.\<close>

lemma slice_update:
  assumes "n \<le> k" "k < INPUT_BUF_SIZE"
  shows "cslice (cb[unat (a + of_nat k) mod INPUT_BUF_SIZE := c]) a n = cslice cb a n"
proof -
  have "unat (a + of_nat k) mod INPUT_BUF_SIZE \<noteq> unat (a + of_nat i) mod INPUT_BUF_SIZE" if "i < n" for i
    using ring_slot [of INPUT_BUF_SIZE a] ring_inject [of i INPUT_BUF_SIZE k "unat a"] that assms by (auto simp: INPUT_BUF)
  then show ?thesis by (simp add: cslice_def)
qed

lemma unat_diff_sum:
  fixes r w e :: u32
  assumes "unat (w - r) + unat (e - w) \<le> 128"
  shows "unat (e - r) = unat (w - r) + unat (e - w)"
proof -
  have "e - r = (w - r) + (e - w)" by simp
  then show ?thesis using assms by (simp only: unat_word_ariths) simp
qed

section \<open>Key presses\<close>

lemma kill_line_all:
  "10 \<notin> set (cslice cb w (unat (e - w))) \<Longrightarrow> kill_line cb w e = w"
proof (induction cb w e rule: kill_line.induct)
  case (1 cb w e)
  show ?case
  proof (cases "e = w")
    case False
    let ?n = "unat (e - w)"
    have n: "unat (e - 1 - w) = ?n - 1" "0 < ?n"
      using False unat_minus_one [of "e - w"] by (simp_all add: diff_right_commute [of e 1 w] unat_gt_0)
    then obtain k where k: "?n = Suc k" "unat (e - 1 - w) = k" by (cases ?n) auto
    have "w + of_nat k = e - 1" unfolding k(2) [symmetric] by simp
    then have "cslice cb w ?n = cslice cb w k @ [cb ! (unat (e - 1) mod INPUT_BUF_SIZE)]"
      by (simp add: k slice_Suc)
    then have "cb ! (unat (e - 1) mod INPUT_BUF_SIZE) \<noteq> 10" "10 \<notin> set (cslice cb w (unat (e - 1 - w)))"
      using "1.prems" by (auto simp: k)
    then show ?thesis using "1.IH" False by (subst kill_line.simps) simp
  qed (subst kill_line.simps, simp)
qed


lemma each_log:
  assumes "\<And>x s. \<exists>ms. f x s = Ok () (s\<lparr>klog := klog s @ ms\<rparr>)"
  shows "\<exists>ms. each f xs s = Ok () (s\<lparr>klog := klog s @ ms\<rparr>)"
proof (induction xs arbitrary: s)
  case (Cons x xs)
  obtain ms where "f x s = Ok () (s\<lparr>klog := klog s @ ms\<rparr>)" using assms by blast
  moreover obtain ns where "each f xs (s\<lparr>klog := klog s @ ms\<rparr>) = Ok () (s\<lparr>klog := klog s @ ms @ ns\<rparr>)"
    using Cons.IH [of "s\<lparr>klog := klog s @ ms\<rparr>"] by auto
  ultimately show ?case by (auto simp: seq_Ok)
qed (auto intro: exI [of _ "[]"])

lemma procdump_run: "\<exists>ms. procdump s = Ok () (s\<lparr>klog := klog s @ ms\<rparr>)"
proof -
  let ?f = "\<lambda>p. bnd (gets (\<lambda>s. procs s p)) (\<lambda>q.
       if p_state q = UNUSED then skip else printk (PROCDUMP (p_pid q) (p_state q) (p_name q)))"
  let ?s = "s\<lparr>klog := klog s @ [MSG ''newline'']\<rparr>"
  have "\<exists>ms. ?f p s = Ok () (s\<lparr>klog := klog s @ ms\<rparr>)" for p s
    by (cases "p_state (procs s p) = UNUSED") (auto simp: printk_def intro: exI [of _ "[]"])
  then obtain ms where "each ?f [0..<NPROC] ?s = Ok () (?s\<lparr>klog := klog ?s @ ms\<rparr>)" using each_log [of ?f] by blast
  then show ?thesis unfolding procdump_def by (intro exI [of _ "MSG ''newline'' # ms"]) (simp add: printk_def)
qed

lemma consputc_backspace: "consputc BACKSPACE s = Ok () (s\<lparr>uart_out := uart_out s @ [8, 32, 8]\<rparr>)"
  by (simp add: consputc_def uartputc_sync_def)

lemma each_backspace: "\<exists>os. each (\<lambda>_. consputc BACKSPACE) xs s = Ok () (s\<lparr>uart_out := uart_out s @ os\<rparr>)"
proof (induction xs arbitrary: s)
  case (Cons x xs)
  obtain os where "each (\<lambda>_. consputc BACKSPACE) xs (s\<lparr>uart_out := uart_out s @ [8, 32, 8]\<rparr>) =
      Ok () (s\<lparr>uart_out := uart_out s @ [8, 32, 8] @ os\<rparr>)"
    using Cons.IH [of "s\<lparr>uart_out := uart_out s @ [8, 32, 8]\<rparr>"] by auto
  then show ?case by (auto simp: seq_Ok [OF consputc_backspace])
qed (auto intro: exI [of _ "[]"])

text \<open>The buffer depends on four fields.\<close>

lemma cons_cong:
  assumes "cons_buf t = cons_buf s" "cons_r t = cons_r s" "cons_w t = cons_w s" "cons_e t = cons_e s"
  shows "committed t = committed s" "editing t = editing s" "cons_inv t = cons_inv s"
  using assms by (simp_all add: committed_def editing_def cons_inv_def)

definition typed :: "u8 \<Rightarrow> kstate \<Rightarrow> kstate \<Rightarrow> bool" where
  "typed c s t \<longleftrightarrow> cons_inv t \<and> (committed t, editing t) = type_key c (committed s, editing s) \<and>
     cons_r t = cons_r s \<and> held t = held s"


lemma consputc_run: "\<exists>os. consputc c s = Ok () (s\<lparr>uart_out := os\<rparr>)"
  by (cases "c = BACKSPACE") (auto simp: consputc_def uartputc_sync_def)

text \<open>The buffer with a byte appended to the line being edited.\<close>

lemma append_byte:
  fixes s c
  defines "t \<equiv> s\<lparr>cons_buf := (cons_buf s)[unat (cons_e s) mod INPUT_BUF_SIZE := c], cons_e := cons_e s + 1\<rparr>"
  assumes inv: "cons_inv s" and room: "length (committed s) + length (editing s) < INPUT_BUF_SIZE"
  shows "committed t = committed s" "editing t = editing s @ [c]" "length (cons_buf t) = INPUT_BUF_SIZE"
    "unat (cons_e t - cons_w t) = Suc (unat (cons_e s - cons_w s))"
proof -
  let ?r = "cons_r s" and ?w = "cons_w s" and ?e = "cons_e s"
  let ?a = "unat (?w - ?r)" and ?b = "unat (?e - ?w)"
  have l: "?a + ?b < INPUT_BUF_SIZE" using room by (simp add: committed_def editing_def)
  have e: "?e = ?r + of_nat (?a + ?b)" "?e = ?w + of_nat ?b" by simp_all
  show "committed t = committed s"
    using slice_update [of ?a "?a + ?b" "cons_buf s" ?r c] l by (simp add: committed_def t_def flip: e(1))
  have n: "unat (?e + 1 - ?w) = Suc ?b"
  proof -
    have "?e + 1 - ?w = (?e - ?w) + 1" by simp
    moreover have "unat ((?e - ?w) + 1) = Suc ?b" using l by (simp add: unat_word_ariths INPUT_BUF)
    ultimately show ?thesis by (simp only:)
  qed
  then show "unat (cons_e t - cons_w t) = Suc ?b" by (simp add: t_def)
  have len: "length (cons_buf s) = INPUT_BUF_SIZE" using inv by (simp add: cons_inv_def)
  then show "length (cons_buf t) = INPUT_BUF_SIZE" by (simp add: t_def)
  have "cslice (cons_buf t) ?w ?b = cslice (cons_buf s) ?w ?b"
    using slice_update [of ?b ?b "cons_buf s" ?w c] l by (simp add: t_def flip: e(2))
  moreover have "cons_buf t ! (unat (?w + of_nat ?b) mod INPUT_BUF_SIZE) = c"
    using len by (simp add: t_def INPUT_BUF flip: e(2))
  ultimately show "editing t = editing s @ [c]" using n by (simp add: editing_def t_def slice_Suc)
qed

lemma commit_line:
  assumes "unat (cons_w s - cons_r s) + unat (cons_e s - cons_w s) \<le> INPUT_BUF_SIZE"
  shows "committed (s\<lparr>cons_w := cons_e s\<rparr>) = committed s @ editing s" "editing (s\<lparr>cons_w := cons_e s\<rparr>) = []"
proof -
  let ?r = "cons_r s" and ?w = "cons_w s" and ?e = "cons_e s"
  have "unat (?e - ?r) = unat (?w - ?r) + unat (?e - ?w)" using assms by (intro unat_diff_sum) (simp add: INPUT_BUF)
  then show "committed (s\<lparr>cons_w := cons_e s\<rparr>) = committed s @ editing s"
    by (simp add: committed_def editing_def slice_append)
  show "editing (s\<lparr>cons_w := cons_e s\<rparr>) = []" by (simp add: editing_def cslice_def)
qed


lemma ucast_key: "(ucast (k :: u8) :: c_int) = of_nat n \<longleftrightarrow> k = of_nat n" if "n < 256"
proof -
  have "unat k < 2 ^ 32" using unsigned_less [of k, where ?'a = nat] by simp
  then have "unat (ucast k :: c_int) = unat k" by (simp add: unsigned_ucast_eq take_bit_nat_eq_self)
  moreover have "unat (of_nat n :: c_int) = n" "unat (of_nat n :: u8) = n" using that by (simp_all add: unat_of_nat)
  ultimately show ?thesis by (simp only: word_unat_eq_iff)
qed

lemma ucast_key_num [simp]:
  "(ucast (k :: u8) :: c_int) = 0 \<longleftrightarrow> k = 0" "(ucast k :: c_int) = 4 \<longleftrightarrow> k = 4" "(ucast k :: c_int) = 8 \<longleftrightarrow> k = 8"
  "(ucast k :: c_int) = 10 \<longleftrightarrow> k = 10" "(ucast k :: c_int) = 13 \<longleftrightarrow> k = 13" "(ucast k :: c_int) = 16 \<longleftrightarrow> k = 16"
  "(ucast k :: c_int) = 21 \<longleftrightarrow> k = 21" "(ucast k :: c_int) = 0x7f \<longleftrightarrow> k = 0x7f"
  using ucast_key [of 0 k] ucast_key [of 4 k] ucast_key [of 8 k] ucast_key [of 10 k] ucast_key [of 13 k] ucast_key [of 16 k]
    ucast_key [of 21 k] ucast_key [of 127 k] by simp_all

lemma ucast_back: "(ucast (ucast (c :: u8) :: c_int) :: u8) = c"
  by (rule bit_word_eqI) (simp add: bit_simps)

lemma cons_key_run:
  fixes k :: u8
  assumes inv: "cons_inv s" and lk: "\<forall>p. ProcLk p \<notin> set (held s)" and k: "k \<notin> {16, 21, 8, 127}"
  shows "\<exists>t. cons_key (ucast k) s = Ok () t \<and> typed k s t"
proof -
  have sum: "unat (cons_e s - cons_r s) = length (committed s) + length (editing s)"
    using inv unat_diff_sum [of "cons_w s" "cons_r s" "cons_e s"] by (simp add: committed_def editing_def cons_inv_def INPUT_BUF)
  show ?thesis
  proof (cases "k \<noteq> 0 \<and> unat (cons_e s - cons_r s) < INPUT_BUF_SIZE")
    case False
    then have "cons_key (ucast k) s = Ok () s" by (auto simp: cons_key_def)
    moreover have "typed k s s" using False k inv sum by (auto simp: typed_def type_key_def)
    ultimately show ?thesis by blast
  next
    case True
    define c :: u8 where "c = (if k = 13 then 10 else k)"
    have cc: "(if (ucast k :: c_int) = 13 then 10 else ucast k) = (ucast c :: c_int)" by (simp add: c_def)
    obtain os where os: "consputc (ucast c) s = Ok () (s\<lparr>uart_out := os\<rparr>)" using consputc_run by blast
    then have sq: "seq (consputc (ucast c)) n s = n (s\<lparr>uart_out := os\<rparr>)" for n :: "unit kop" by (simp add: seq_Ok)
    let ?s = "s\<lparr>uart_out := os\<rparr>"
    let ?t = "?s\<lparr>cons_buf := (cons_buf ?s)[unat (cons_e ?s) mod INPUT_BUF_SIZE := c], cons_e := cons_e ?s + 1\<rparr>"
    note cg = cons_cong [of ?s s, simplified]
    have room: "length (committed ?s) + length (editing ?s) < INPUT_BUF_SIZE" using True sum cg by simp
    have inv': "cons_inv ?s" using inv cg by simp
    note ap = append_byte [OF inv' room, of c]
    have le: "unat (cons_w ?t - cons_r ?t) + unat (cons_e ?t - cons_w ?t) \<le> INPUT_BUF_SIZE"
      using ap(4) room by (simp add: committed_def editing_def)
    have full: "unat (cons_e ?t - cons_r ?t) = length (committed s) + length (editing s @ [c])"
      using unat_diff_sum [of "cons_w ?t" "cons_r ?t" "cons_e ?t"] le ap(4) by (simp add: INPUT_BUF committed_def editing_def)
    let ?line = "c = 10 \<or> c = 4 \<or> length (committed s) + length (editing s @ [c]) = INPUT_BUF_SIZE"
    have run: "cons_key (ucast k) s = (if ?line then Ok () (?t\<lparr>cons_w := cons_e ?t, procs := wake ChCons (curproc s) NPROC (procs s)\<rparr>) else Ok () ?t)"
      unfolding cons_key_def Let_def cc using True full lk by (auto simp: sq wakeup_run ucast_back)
    have ck: "k \<noteq> 0" "length (committed s) + length (editing s) < INPUT_BUF_SIZE" using True sum by simp_all
    have spec: "type_key k (committed s, editing s) =
        (if ?line then (committed s @ editing s @ [c], []) else (committed s, editing s @ [c]))"
      using ck k by (simp add: type_key_def Let_def c_def)
    show ?thesis
    proof (cases ?line)
      case True
      let ?u = "?t\<lparr>cons_w := cons_e ?t, procs := wake ChCons (curproc s) NPROC (procs s)\<rparr>"
      note cm = commit_line [OF le]
      have u: "committed ?u = committed s @ editing s @ [c]" "editing ?u = []"
        using cm ap(1,2) cg cons_cong [of ?u "?t\<lparr>cons_w := cons_e ?t\<rparr>"] by simp_all
      have "cons_inv ?u" using ap(3) full ck(2) u(2) by (simp add: cons_inv_def)
      then have "typed k s ?u" using spec True u by (simp add: typed_def)
      then show ?thesis using run True by auto
    next
      case False
      have "committed ?t = committed s" "editing ?t = editing s @ [c]" using ap(1,2) cg by simp_all
      moreover from this have "cons_inv ?t" using ap(3) le False inv by (simp add: cons_inv_def)
      ultimately have "typed k s ?t" using spec False by (simp add: typed_def)
      then show ?thesis using run False by auto
    qed
  qed
qed


text \<open>A key press, whichever it is, acts as \<open>type_key\<close>.\<close>

lemma consoleintr_run:
  assumes inv: "cons_inv s" and lk: "ConsLk \<notin> set (held s)" "\<forall>p. ProcLk p \<notin> set (held s)"
  shows "\<exists>t. consoleintr (ucast (k :: u8)) s = Ok () t \<and> typed k s t"
proof -
  let ?s = "s\<lparr>held := ConsLk # held s\<rparr>"
  note cg = cons_cong [of ?s s, simplified]
  have inv': "cons_inv ?s" using inv cg by simp
  have lk': "\<forall>p. ProcLk p \<notin> set (held ?s)" using lk by simp
  have fin: "\<exists>t. consoleintr (ucast k) s = Ok () t \<and> typed k s t"
    if "consoleintr (ucast k) s = release ConsLk u" "typed k ?s u" for u
  proof -
    have h: "held u = ConsLk # held s" using that(2) by (simp add: typed_def)
    then have "consoleintr (ucast k) s = Ok () (u\<lparr>held := held s\<rparr>)" using that(1) by (simp add: release_run)
    moreover have "typed k s (u\<lparr>held := held s\<rparr>)"
      using that(2) cg cons_cong [of "u\<lparr>held := held s\<rparr>" u] by (simp add: typed_def)
    ultimately show ?thesis by blast
  qed
  consider "k = 16" | "k = 21" | "k = 8 \<or> k = 127" | "k \<notin> {16, 21, 8, 127}" by auto
  then show ?thesis
  proof cases
    case 1
    obtain ms where "procdump ?s = Ok () (?s\<lparr>klog := klog ?s @ ms\<rparr>)" using procdump_run by blast
    then have "consoleintr (ucast k) s = release ConsLk (?s\<lparr>klog := klog ?s @ ms\<rparr>)"
      using 1 lk by (simp add: consoleintr_def seq_Ok)
    moreover have "typed k ?s (?s\<lparr>klog := klog ?s @ ms\<rparr>)"
      using 1 inv' cons_cong [of "?s\<lparr>klog := klog ?s @ ms\<rparr>" ?s] by (simp add: typed_def type_key_def)
    ultimately show ?thesis by (rule fin)
  next
    case 2
    have kl: "kill_line (cons_buf s) (cons_w s) (cons_e s) = cons_w s"
      using inv by (intro kill_line_all) (simp add: cons_inv_def editing_def)
    obtain os where os: "each (\<lambda>_. consputc BACKSPACE) [0..<unat (cons_e s - cons_w s)] ?s = Ok () (?s\<lparr>uart_out := uart_out ?s @ os\<rparr>)"
      using each_backspace [of "[0..<unat (cons_e s - cons_w s)]" ?s] ..
    let ?u = "?s\<lparr>uart_out := uart_out ?s @ os, cons_e := cons_w s\<rparr>"
    have "consoleintr (ucast k) s = release ConsLk ?u"
      using 2 lk os by (simp add: consoleintr_def seq_Ok kl)
    moreover have "editing ?u = []" "committed ?u = committed ?s"
      by (simp_all add: editing_def committed_def cslice_def)
    then have "typed k ?s ?u" using 2 inv' by (simp add: typed_def type_key_def cons_inv_def)
    ultimately show ?thesis by (rule fin)
  next
    case 4
    obtain u where u: "cons_key (ucast k) ?s = Ok () u" "typed k ?s u" using cons_key_run [OF inv' lk' 4] by blast
    then have "consoleintr (ucast k) s = release ConsLk u" using 4 lk by (simp add: consoleintr_def seq_Ok)
    then show ?thesis using u(2) by (rule fin)
  next
    case 3
    show ?thesis
    proof (cases "cons_e s = cons_w s")
      case True
      then have "editing ?s = []" by (simp add: editing_def cslice_def)
      then have "typed k ?s ?s" using 3 inv' by (auto simp: typed_def type_key_def)
      moreover have "consoleintr (ucast k) s = release ConsLk ?s" using 3 True lk by (auto simp: consoleintr_def)
      ultimately show ?thesis by (intro fin)
    next
      case False
      let ?u = "?s\<lparr>cons_e := cons_e s - 1, uart_out := uart_out s @ [8, 32, 8]\<rparr>"
      have "unat (cons_e s - 1 - cons_w s) = unat (cons_e s - cons_w s) - 1"
        using False unat_minus_one [of "cons_e s - cons_w s"] by (simp add: diff_right_commute [of "cons_e s" 1])
      then have ed: "editing ?u = butlast (editing ?s)" "unat (cons_e ?u - cons_w ?u) \<le> unat (cons_e ?s - cons_w ?s)" "committed ?u = committed ?s"
        by (simp_all add: editing_def slice_butlast committed_def)
      then have "cons_inv ?u" using inv' in_set_butlastD by (fastforce simp: cons_inv_def)
      then have "typed k ?s ?u" using 3 ed by (auto simp: typed_def type_key_def)
      moreover have "consoleintr (ucast k) s = release ConsLk ?u"
        using 3 False lk by (auto simp: consoleintr_def seq_Ok consputc_backspace)
      ultimately show ?thesis by (intro fin)
    qed
  qed
qed


text \<open>
  Property C12. Whatever characters arrive, the console acts on its input as a terminal does: each key is
  applied, in order, to the input that is ready and the line being edited. A carriage return counts
  as a newline; newline, control-D and a full buffer make the line ready; backspace and delete
  remove the last character of the unfinished line, control-U all of it, and neither touches
  input that is ready; keys that find no room are dropped. The buffer's indices may wrap around.
\<close>

theorem console_input_correct:
  assumes "cons_inv s" "ConsLk \<notin> set (held s)" "TxLk \<notin> set (held s)" "\<forall>p. ProcLk p \<notin> set (held s)"
  shows "\<exists>t. uartintr tx_idle input s = Ok () t \<and> cons_inv t \<and>
    (committed t, editing t) = fold type_key input (committed s, editing s) \<and> cons_r t = cons_r s \<and> held t = held s"
proof -
  have keys: "\<exists>t. each (\<lambda>c. consoleintr (ucast c)) input u = Ok () t \<and> cons_inv t \<and>
      (committed t, editing t) = fold type_key input (committed u, editing u) \<and> cons_r t = cons_r u \<and> held t = held u"
    if "cons_inv u" "ConsLk \<notin> set (held u)" "\<forall>p. ProcLk p \<notin> set (held u)" for u
    using that
  proof (induction input arbitrary: u)
    case (Cons c input)
    obtain v where v: "consoleintr (ucast c) u = Ok () v" "typed c u v" using consoleintr_run [OF Cons.prems] by blast
    then obtain t where "each (\<lambda>c. consoleintr (ucast c)) input v = Ok () t" "cons_inv t"
      "(committed t, editing t) = fold type_key input (committed v, editing v)" "cons_r t = cons_r v" "held t = held v"
      using Cons.IH [of v] Cons.prems by (auto simp: typed_def)
    then show ?case using v by (auto simp: seq_Ok typed_def)
  qed simp
  define u where "u = (if tx_idle then s\<lparr>tx_busy := False, procs := wake ChTx (curproc s) NPROC (procs s)\<rparr> else s)"
  have c: "committed u = committed s" "editing u = editing s" "cons_inv u = cons_inv s" "held u = held s" "cons_r u = cons_r s"
    using cons_cong [of u s] by (simp_all add: u_def)
  have "uartintr tx_idle input s = each (\<lambda>c. consoleintr (ucast c)) input u"
    using assms(3,4) by (auto simp: uartintr_def u_def seq_assoc)
  then show ?thesis using keys [of u] assms c by auto
qed

section \<open>Reading a line\<close>

lemma committed_Cons:
  assumes "committed s = c # cs"
  shows "cons_get s (cons_r s) = c" "committed (s\<lparr>cons_r := cons_r s + 1\<rparr>) = cs" "cons_r s \<noteq> cons_w s"
    "unat (cons_w s - (cons_r s + 1)) < unat (cons_w s - cons_r s)"
proof -
  let ?n = "unat (cons_w s - cons_r s)"
  have n: "?n = Suc (length cs)" using arg_cong [OF assms, of length] by (simp add: committed_def)
  have m: "unat (cons_w s - (cons_r s + 1)) = length cs"
  proof -
    have e: "cons_w s - (cons_r s + 1) = (cons_w s - cons_r s) - 1" by simp
    have "unat ((cons_w s - cons_r s) - 1) = ?n - 1" using n by (intro unat_minus_one) auto
    then show ?thesis unfolding e using n by simp
  qed
  have "c # cs = cslice (cons_buf s) (cons_r s) (1 + length cs)" using assms n by (simp add: committed_def)
  then have "c # cs = cons_get s (cons_r s) # cslice (cons_buf s) (cons_r s + 1) (length cs)"
    unfolding slice_append by (simp add: cslice_def cons_get_def)
  then show "cons_get s (cons_r s) = c" "committed (s\<lparr>cons_r := cons_r s + 1\<rparr>) = cs"
    by (simp_all add: committed_def m)
  show "cons_r s \<noteq> cons_w s" "unat (cons_w s - (cons_r s + 1)) < ?n" using n m by auto
qed


text \<open>No table and no frame is at address 1, so every readable address is apart from it.\<close>

lemma apart_1:
  assumes "pt_wf m root" "\<forall>a \<in> A. readable m root a" shows "apart m root 1 A"
proof -
  have n: "\<not> page_aligned 1" by (simp add: page_aligned_def PGSIZE_def)
  have "1 \<notin> tables m root" using tables_aligned [of root 1 m] assms(1) n by (auto simp: pt_wf_def)
  moreover have "PTE2PA e \<noteq> 1" for e using n PTE2PA_aligned by metis
  ultimately show ?thesis using assms by (simp add: apart_def)
qed

lemma consoleread_turn:
  assumes com: "committed s = c # cs" "c \<noteq> 4" and cur: "curproc s = Some p" and lk: "ConsLk \<in> set (held s)"
    and A: "apart (mem s) (p_pagetable (procs s p)) 1 A" "\<forall>a \<in> A. writable (mem s) (p_pagetable (procs s p)) a"
      "separate (mem s) (p_pagetable (procs s p)) A" "dst \<in> A"
  obtains M where "consoleread_loop (Suc n) True dst target s =
      (if c = 10 then Ok (int (target - n)) (s\<lparr>cons_r := cons_r s + 1, mem := M, held := remove1 ConsLk (held s)\<rparr>)
       else consoleread_loop n True (dst + 1) target (s\<lparr>cons_r := cons_r s + 1, mem := M\<rparr>))"
    "umem M (p_pagetable (procs s p)) dst = c"
    "\<forall>a \<in> A - {dst}. umem M (p_pagetable (procs s p)) a = umem (mem s) (p_pagetable (procs s p)) a"
    "apart M (p_pagetable (procs s p)) 1 A" "\<forall>a \<in> A. writable M (p_pagetable (procs s p)) a" "separate M (p_pagetable (procs s p)) A"
proof -
  let ?root = "p_pagetable (procs s p)" let ?s = "s\<lparr>cons_r := cons_r s + 1\<rparr>"
  note c = committed_Cons [OF com(1)]
  have A': "apart (mem ?s) ?root 1 A" "\<forall>a \<in> A. writable (mem ?s) ?root a" "separate (mem ?s) ?root A" using A by simp_all
  show thesis
  proof (rule copyout_byte [OF A' A(4), of c])
    fix M assume M: "copyout ?root dst [c] ?s = Ok 0 (?s\<lparr>mem := M\<rparr>)" "umem M ?root dst = c"
      "\<forall>a \<in> A - {dst}. umem M ?root a = umem (mem ?s) ?root a" "apart M ?root 1 A" "\<forall>a \<in> A. writable M ?root a" "separate M ?root A"
    have "either_copyout True dst [c] ?s = Ok 0 (?s\<lparr>mem := M\<rparr>)" using cur M(1) by (simp add: either_copyout_def)
    then have "consoleread_loop (Suc n) True dst target s =
      (if c = 10 then Ok (int (target - n)) (s\<lparr>cons_r := cons_r s + 1, mem := M, held := remove1 ConsLk (held s)\<rparr>)
       else consoleread_loop n True (dst + 1) target (s\<lparr>cons_r := cons_r s + 1, mem := M\<rparr>))"
      using c(1,3) com(2) lk by (simp add: bnd_Ok)
    then show thesis using that M(2-) by simp
  qed
qed

lemma consoleread_line:
  assumes "committed s = line @ 10 # cs" "10 \<notin> set line" "4 \<notin> set line" "length line < n" "n \<le> target"
    "curproc s = Some p" "ConsLk \<in> set (held s)"
    "apart (mem s) (p_pagetable (procs s p)) 1 A" "\<forall>a \<in> A. writable (mem s) (p_pagetable (procs s p)) a"
    "separate (mem s) (p_pagetable (procs s p)) A" "\<forall>j \<le> length line. dst + of_nat j \<in> A"
    "inj_on (\<lambda>j. dst + of_nat j) {..length line}"
  shows "\<exists>M. consoleread_loop n True dst target s = Ok (int (target - n + Suc (length line)))
      (s\<lparr>cons_r := cons_r s + of_nat (Suc (length line)), mem := M, held := remove1 ConsLk (held s)\<rparr>) \<and>
    (\<forall>j \<le> length line. umem M (p_pagetable (procs s p)) (dst + of_nat j) = (line @ [10]) ! j) \<and>
    (\<forall>a \<in> A - (\<lambda>j. dst + of_nat j) ` {..length line}. umem M (p_pagetable (procs s p)) a = umem (mem s) (p_pagetable (procs s p)) a)"
  using assms
proof (induction line arbitrary: s n dst)
  case Nil
  obtain n' where n: "n = Suc n'" using Nil.prems(4) by (cases n) auto
  have com: "committed s = 10 # cs" and A: "dst \<in> A" using Nil.prems(1,11) by simp_all
  show ?case
  proof (rule consoleread_turn [OF com _ Nil.prems(6-10) A, of n' target])
    have "target - n' = target - n + 1" using n Nil.prems(5) by simp
    then show ?thesis if "consoleread_loop (Suc n') True dst target s =
        (if (10 :: u8) = 10 then Ok (int (target - n')) (s\<lparr>cons_r := cons_r s + 1, mem := M, held := remove1 ConsLk (held s)\<rparr>)
         else consoleread_loop n' True (dst + 1) target (s\<lparr>cons_r := cons_r s + 1, mem := M\<rparr>))"
      "umem M (p_pagetable (procs s p)) dst = 10"
      "\<forall>a \<in> A - {dst}. umem M (p_pagetable (procs s p)) a = umem (mem s) (p_pagetable (procs s p)) a" for M
      using that n by (intro exI [of _ M]) simp
  qed simp
next
  case (Cons c line)
  let ?root = "p_pagetable (procs s p)"
  obtain n' where n: "n = Suc n'" using Cons.prems(4) by (cases n) auto
  have com: "committed s = c # (line @ 10 # cs)" and A: "dst \<in> A" and c: "c \<noteq> 4" "c \<noteq> 10"
    using Cons.prems(1-3,11) by auto
  obtain M where M: "consoleread_loop (Suc n') True dst target s = consoleread_loop n' True (dst + 1) target (s\<lparr>cons_r := cons_r s + 1, mem := M\<rparr>)"
    "umem M ?root dst = c" "\<forall>a \<in> A - {dst}. umem M ?root a = umem (mem s) ?root a"
    "apart M ?root 1 A" "\<forall>a \<in> A. writable M ?root a" "separate M ?root A"
    by (rule consoleread_turn [OF com c(1) Cons.prems(6-10) A, of n' target]) (use c(2) in simp)
  let ?s = "s\<lparr>cons_r := cons_r s + 1, mem := M\<rparr>"
  have step: "dst + 1 + of_nat j = dst + of_nat (Suc j)" for j by (simp add: add.assoc)
  have "committed ?s = line @ 10 # cs"
    using committed_Cons(2) [OF com] cons_cong(1) [of ?s "s\<lparr>cons_r := cons_r s + 1\<rparr>"] by simp
  moreover have "\<forall>j \<le> length line. dst + 1 + of_nat j \<in> A" unfolding step using Cons.prems(11) by (auto simp del: of_nat_Suc)
  moreover have "inj_on (\<lambda>j. dst + 1 + of_nat j) {..length line}"
    unfolding step using Cons.prems(12) by (auto simp: inj_on_def simp del: of_nat_Suc)
  ultimately obtain M' where M': "consoleread_loop n' True (dst + 1) target ?s = Ok (int (target - n' + Suc (length line)))
      (?s\<lparr>cons_r := cons_r ?s + of_nat (Suc (length line)), mem := M', held := remove1 ConsLk (held ?s)\<rparr>)"
    "\<forall>j \<le> length line. umem M' ?root (dst + 1 + of_nat j) = (line @ [10]) ! j"
    "\<forall>a \<in> A - (\<lambda>j. dst + 1 + of_nat j) ` {..length line}. umem M' ?root a = umem M ?root a"
    using Cons.IH [of ?s n' "dst + 1"] Cons.prems M(4-6) n by auto
  have d0: "dst \<notin> (\<lambda>j. dst + 1 + of_nat j) ` {..length line}"
  proof
    assume "dst \<in> (\<lambda>j. dst + 1 + of_nat j) ` {..length line}"
    then obtain j where "j \<le> length line" "dst + of_nat 0 = dst + of_nat (Suc j)" unfolding step by (auto simp del: of_nat_Suc)
    then show False using inj_onD [OF Cons.prems(12), of 0 "Suc j"] by simp
  qed
  have "umem M' ?root (dst + of_nat j) = ((c # line) @ [10]) ! j" if "j \<le> length (c # line)" for j
    using that M'(2,3) M(2) d0 A by (cases j) (simp_all del: of_nat_Suc flip: step)
  moreover have "umem M' ?root a = umem (mem s) ?root a" if "a \<in> A - (\<lambda>j. dst + of_nat j) ` {..length (c # line)}" for a
  proof -
    have "a \<noteq> dst" "a \<notin> (\<lambda>j. dst + 1 + of_nat j) ` {..length line}" using that unfolding step
      by (auto intro: image_eqI [of _ _ 0] simp del: of_nat_Suc)
    then show ?thesis using that M'(3) M(3) by simp
  qed
  moreover have "target - n' = target - n + 1" using n Cons.prems(5) by simp
  ultimately show ?case using M(1) M'(1) n by (intro exI [of _ M']) (simp add: add.assoc)
qed


text \<open>
  Property C36. A read of at least a line's length from a console whose input starts with a line without
  control-D returns exactly that line, with its newline, in the user's buffer; what follows stays
  for the next read, and the line being edited is untouched.
\<close>

theorem consoleread_correct:
  fixes s p
  defines "root \<equiv> p_pagetable (procs s p)"
  assumes "cons_inv s" "committed s = line @ 10 # cs" "10 \<notin> set line" "4 \<notin> set line" "length line < n"
    "curproc s = Some p" "held s = []"
    "pt_wf (mem s) root" "\<forall>a \<in> A. writable (mem s) root a" "separate (mem s) root A"
    "urange dst (Suc (length line)) \<subseteq> A" "unat dst + Suc (length line) \<le> 2 ^ 38"
  shows "\<exists>t. consoleread True dst (int n) s = Ok (int (Suc (length line))) t \<and> cons_inv t \<and>
    committed t = cs \<and> editing t = editing s \<and>
    (\<forall>j \<le> length line. umem (mem t) root (dst + of_nat j) = (line @ [10]) ! j) \<and>
    (\<forall>a \<in> A - urange dst (Suc (length line)). umem (mem t) root a = umem (mem s) root a)"
proof -
  let ?s = "s\<lparr>held := [ConsLk]\<rparr>" and ?k = "Suc (length line)"
  have ap: "apart (mem s) root 1 A" using assms(9,10) by (intro apart_1) (auto simp: writable_def)
  have r: "urange dst ?k = (\<lambda>j. dst + of_nat j) ` {..length line}" by (simp add: urange_def lessThan_Suc_atMost)
  have inj: "inj_on (\<lambda>j. dst + of_nat j :: u64) {..length line}"
    using urange_inj [OF assms(13)] by (simp add: lessThan_Suc_atMost)
  have com: "committed ?s = line @ 10 # cs" using assms(3) cons_cong(1) [of ?s s] by simp
  obtain M where M: "consoleread_loop n True dst n ?s = Ok (int (n - n + ?k))
      (?s\<lparr>cons_r := cons_r ?s + of_nat ?k, mem := M, held := remove1 ConsLk (held ?s)\<rparr>)"
    "\<forall>j \<le> length line. umem M root (dst + of_nat j) = (line @ [10]) ! j"
    "\<forall>a \<in> A - (\<lambda>j. dst + of_nat j) ` {..length line}. umem M root a = umem (mem s) root a"
    using consoleread_line [OF com assms(4-6) order.refl, of p A dst] ap assms(7,10,11,12) inj r
    by (auto simp: root_def)
  let ?t = "s\<lparr>cons_r := cons_r s + of_nat ?k, mem := M, held := []\<rparr>"
  have run: "consoleread True dst (int n) s = Ok (int ?k) ?t" using M(1) assms(8) by (simp add: consoleread_def)
  have l: "unat (cons_w s - cons_r s) = ?k + length cs" using arg_cong [OF assms(3), of length] by (simp add: committed_def)
  have "cons_w s - cons_r s = of_nat (unat (cons_w s - cons_r s))" by simp
  also have "\<dots> = of_nat ?k + of_nat (length cs)" unfolding l by (simp only: of_nat_add)
  finally have "cons_w s - (cons_r s + of_nat ?k) = of_nat (length cs)" by (simp add: algebra_simps del: of_nat_Suc)
  then have e: "unat (cons_w s - (cons_r s + of_nat ?k)) = length cs"
    using l assms(2) by (simp add: cons_inv_def INPUT_BUF unat_of_nat del: of_nat_Suc)
  have "line @ 10 # cs = cslice (cons_buf s) (cons_r s) ?k @ cslice (cons_buf s) (cons_r s + of_nat ?k) (length cs)"
    using assms(3) l by (simp only: committed_def slice_append)
  from arg_cong [OF this, of "drop ?k"] have "committed ?t = cs" by (simp add: committed_def e del: of_nat_Suc)
  moreover have "editing ?t = editing s" by (simp add: editing_def)
  moreover from this have "cons_inv ?t" using assms(2) e l by (simp add: cons_inv_def del: of_nat_Suc)
  ultimately show ?thesis using run M(2,3) r by auto
qed


section \<open>Instances\<close>

text \<open>A console whose indices are about to wrap around: typing \<open>hx<backspace>i<return>\<close> makes \<open>hi\<close> ready to read.\<close>

definition ex_cons :: kstate where
  "ex_cons = ex_demand\<lparr>cons_buf := replicate 128 0, cons_r := 0xFFFFFFFE, cons_w := 0xFFFFFFFE, cons_e := 0xFFFFFFFE\<rparr>"

lemma ex_cons_inv: "cons_inv ex_cons" "committed ex_cons = []" "editing ex_cons = []" "held ex_cons = []"
  by (simp_all add: ex_cons_def cons_inv_def committed_def editing_def cslice_def INPUT_BUF ex_demand_fields)

theorem console_input_correct_witness:
  "\<exists>t. uartintr True [104, 120, 8, 105, 13] ex_cons = Ok () t \<and> committed t = [104, 105, 10] \<and> editing t = []"
proof -
  have "fold type_key [104, 120, 8, 105, 13] ([], []) = ([104, 105, 10], [])" by (simp add: type_key_def Let_def INPUT_BUF)
  then show ?thesis
    using console_input_correct [OF ex_cons_inv(1), of True "[104, 120, 8, 105, 13]"] by (auto simp: ex_cons_inv)
qed

definition ex_ready :: kstate where
  "ex_ready = ex_demand\<lparr>cons_buf := (replicate 128 0)[126 := 104, 127 := 105, 0 := 10], cons_r := 0xFFFFFFFE, cons_w := 1, cons_e := 1\<rparr>"

theorem consoleread_correct_witness:
  "\<exists>t. consoleread True 0x300 (int 100) ex_ready = Ok (int (Suc (length [104, 105 :: u8]))) t \<and> committed t = []"
proof -
  have r: "held ex_ready = []" "curproc ex_ready = Some 0" "mem ex_ready = mem ex_demand" "p_pagetable (procs ex_ready 0) = 0x80021000"
    by (simp_all add: ex_ready_def ex_demand_fields ex_proc_def)
  have com: "committed ex_ready = [104, 105] @ 10 # []"
    by (simp add: ex_ready_def committed_def cslice_def INPUT_BUF upt_rec)
  have inv: "cons_inv ex_ready" by (simp add: ex_ready_def cons_inv_def editing_def cslice_def INPUT_BUF)
  have w: "\<forall>a \<in> ex_low. writable (mem ex_demand) 0x80021000 a" using ex_low ex_writable by blast
  have "ex_low \<subseteq> {a. readable (mem ex_demand) 0x80021000 a}" using w by (auto simp: writable_def)
  note s = separate_mono [OF ex_separate this]
  have u: "urange 0x300 (Suc (length [104, 105 :: u8])) \<subseteq> ex_low" by (rule urange_low) simp
  show ?thesis
    using consoleread_correct [OF inv com _ _ _ r(2,1), of 100 ex_low "0x300"] ex_demand_wf w s u by (auto simp: r)
qed

end
