(* ===== verification/Xv6_Grep.thy ===== *)
theory Xv6_Grep
  imports Xv6_String
begin

text \<open>
  user/grep.c. A C string is the list of its bytes before the terminating zero, and a pointer into it the
  suffix it points to, so \<open>*text == 0\<close> is the empty list. The matcher is compared with the set of strings
  a pattern stands for, and the loop over the input with its lines.
\<close>

section \<open>The matcher\<close>

text \<open>The bytes of the operators: \<open>*\<close> is 42, \<open>$\<close> is 36, \<open>.\<close> is 46 and \<open>^\<close> is 94.\<close>

function matchhere :: "u8 list \<Rightarrow> u8 list \<Rightarrow> bool" and matchstar :: "u8 \<Rightarrow> u8 list \<Rightarrow> u8 list \<Rightarrow> bool" where
  "matchhere re text =
     (case re of
        [] \<Rightarrow> True
      | c # re1 \<Rightarrow>
          (case re1 of
             d # re2 \<Rightarrow>
               if d = 42 then matchstar c re2 text
               else if text \<noteq> [] \<and> (c = 46 \<or> c = hd text) then matchhere re1 (tl text) else False
           | [] \<Rightarrow>
               if c = 36 then text = []
               else if text \<noteq> [] \<and> (c = 46 \<or> c = hd text) then matchhere re1 (tl text) else False))"
| "matchstar c re text =
     (if matchhere re text then True
      else if text \<noteq> [] \<and> (hd text = c \<or> c = 46) then matchstar c re (tl text) else False)"
  by pat_completeness auto
termination
  by (relation "measure (\<lambda>x. case x of Inl (re, text) \<Rightarrow> 2 * (length re + length text)
      | Inr (c, re, text) \<Rightarrow> 2 * (length re + length text) + 1)")
    (auto simp: neq_Nil_conv)

declare matchhere.simps [simp del] matchstar.simps [simp del]

lemma matchhere_cases:
  "matchhere [] text"
  "matchhere [c] text \<longleftrightarrow> (if c = 36 then text = [] else text \<noteq> [] \<and> (c = 46 \<or> c = hd text))"
  "matchhere (c # d # re) text \<longleftrightarrow> (if d = 42 then matchstar c re text
     else text \<noteq> [] \<and> (c = 46 \<or> c = hd text) \<and> matchhere (d # re) (tl text))"
  by (subst matchhere.simps, simp add: matchhere.simps [of "[]"])+

lemma matchstar_step:
  "matchstar c re text \<longleftrightarrow>
     matchhere re text \<or> text \<noteq> [] \<and> (hd text = c \<or> c = 46) \<and> matchstar c re (tl text)"
  by (subst matchstar.simps) simp

fun match_loop :: "u8 list \<Rightarrow> u8 list \<Rightarrow> bool" where
  "match_loop re [] = matchhere re []"
| "match_loop re (x # text) = (matchhere re (x # text) \<or> match_loop re text)"

definition match :: "u8 list \<Rightarrow> u8 list \<Rightarrow> bool" where
  "match re text =
     (case re of
        c # re1 \<Rightarrow> if c = 94 then matchhere re1 text else match_loop re text
      | [] \<Rightarrow> match_loop re text)"

section \<open>What a pattern means\<close>

datatype item = One u8 | Star u8

fun items :: "u8 list \<Rightarrow> item list" where
  "items [] = []"
| "items [c] = (if c = 36 then [] else [One c])"
| "items (c # d # re) = (if d = 42 then Star c # items re else One c # items (d # re))"

text \<open>A final \<open>$\<close>, unless it is the operand of a star, ties the match to the end of the text.\<close>

fun anchored :: "u8 list \<Rightarrow> bool" where
  "anchored [] = False"
| "anchored [c] = (c = 36)"
| "anchored (c # d # re) = (if d = 42 then anchored re else anchored (d # re))"

definition accepts :: "u8 \<Rightarrow> u8 \<Rightarrow> bool" where
  "accepts c x \<longleftrightarrow> c = 46 \<or> c = x"

fun lang :: "item list \<Rightarrow> u8 list set" where
  "lang [] = {[]}"
| "lang (One c # r) = {x # w | x w. accepts c x \<and> w \<in> lang r}"
| "lang (Star c # r) = {u @ w | u w. (\<forall>x\<in>set u. accepts c x) \<and> w \<in> lang r}"

definition occurs_here :: "u8 list \<Rightarrow> u8 list \<Rightarrow> bool" where
  "occurs_here re text \<longleftrightarrow> (\<exists>u v. text = u @ v \<and> u \<in> lang (items re) \<and> (anchored re \<longrightarrow> v = []))"

definition occurs :: "u8 list \<Rightarrow> u8 list \<Rightarrow> bool" where
  "occurs re text \<longleftrightarrow>
     (if re \<noteq> [] \<and> hd re = 94 then occurs_here (tl re) text
      else \<exists>a b. text = a @ b \<and> occurs_here re b)"

lemma occurs_here_Nil: "occurs_here [] text"
  by (simp add: occurs_here_def)

lemma occurs_here_one:
  assumes "re1 = [] \<Longrightarrow> c \<noteq> 36" "re1 \<noteq> [] \<Longrightarrow> hd re1 \<noteq> 42"
  shows "occurs_here (c # re1) text \<longleftrightarrow> text \<noteq> [] \<and> accepts c (hd text) \<and> occurs_here re1 (tl text)"
proof -
  have i: "items (c # re1) = One c # items re1" "anchored (c # re1) = anchored re1"
    using assms by (cases re1, simp_all)+
  show ?thesis
  proof (cases "text")
    case (Cons x xs)
    show ?thesis unfolding occurs_here_def i Cons by (auto simp: Cons_eq_append_conv)
  qed (simp add: occurs_here_def i)
qed

lemma occurs_here_star_iff:
  "occurs_here (c # 42 # re) text \<longleftrightarrow>
     (\<exists>u w v. text = u @ w @ v \<and> (\<forall>x\<in>set u. accepts c x) \<and> w \<in> lang (items re) \<and> (anchored re \<longrightarrow> v = []))"
  (is "?l \<longleftrightarrow> (\<exists>u w v. ?P u w v)")
proof
  assume ?l
  then obtain u v where uv: "text = u @ v" "u \<in> lang (Star c # items re)" "anchored re \<longrightarrow> v = []"
    by (auto simp: occurs_here_def)
  then obtain a w where "u = a @ w" "\<forall>x\<in>set a. accepts c x" "w \<in> lang (items re)" by auto
  then have "?P a w v" using uv by simp
  then show "\<exists>u w v. ?P u w v" by blast
next
  assume "\<exists>u w v. ?P u w v"
  then obtain u w v where p: "?P u w v" by blast
  then have "u @ w \<in> lang (items (c # 42 # re))" by auto
  then show ?l unfolding occurs_here_def using p by (intro exI [of _ "u @ w"] exI [of _ v]) simp
qed

lemma occurs_here_star:
  "occurs_here (c # 42 # re) text \<longleftrightarrow>
     occurs_here re text \<or> text \<noteq> [] \<and> accepts c (hd text) \<and> occurs_here (c # 42 # re) (tl text)"
  (is "?l \<longleftrightarrow> ?r")
proof
  assume ?l
  then obtain u w v where t: "text = u @ w @ v" "\<forall>x\<in>set u. accepts c x" "w \<in> lang (items re)" "anchored re \<longrightarrow> v = []"
    unfolding occurs_here_star_iff by blast
  show ?r
  proof (cases u)
    case Nil
    then show ?thesis using t by (auto simp: occurs_here_def)
  next
    case (Cons x xs)
    then have "occurs_here (c # 42 # re) (xs @ w @ v)"
      using t unfolding occurs_here_star_iff by (intro exI [of _ xs] exI [of _ w] exI [of _ v]) auto
    then show ?thesis using Cons t by simp
  qed
next
  assume r: ?r
  show ?l
  proof (cases "occurs_here re text")
    case True
    then obtain w v where "text = w @ v" "w \<in> lang (items re)" "anchored re \<longrightarrow> v = []"
      unfolding occurs_here_def by blast
    then show ?thesis unfolding occurs_here_star_iff by (intro exI [of _ "[]"] exI [of _ w] exI [of _ v]) auto
  next
    case False
    with r obtain x xs where x: "text = x # xs" "accepts c x" "occurs_here (c # 42 # re) xs"
      by (cases "text") auto
    then obtain u w v where "xs = u @ w @ v" "\<forall>x\<in>set u. accepts c x" "w \<in> lang (items re)" "anchored re \<longrightarrow> v = []"
      unfolding occurs_here_star_iff by blast
    then show ?thesis using x unfolding occurs_here_star_iff
      by (intro exI [of _ "x # u"] exI [of _ w] exI [of _ v]) auto
  qed
qed

lemma match_here_star:
  "matchhere re text = occurs_here re text"
  "matchstar c re text = occurs_here (c # 42 # re) text"
proof (induction re "text" and c re "text" rule: matchhere_matchstar.induct)
  case (1 re xs)
  show ?case
  proof (cases re)
    case (Cons c re1)
    show ?thesis
    proof (cases re1)
      case Nil
      then show ?thesis using \<open>re = c # re1\<close> occurs_here_one [of "[]" c xs] occurs_here_Nil
        by (cases "c = 36") (auto simp: matchhere_cases accepts_def occurs_here_def [of "[36]"])
    next
      case re1: (Cons d re2)
      show ?thesis
      proof (cases "d = 42")
        case True
        then show ?thesis using 1(2) [OF Cons re1 True] Cons re1 by (simp add: matchhere_cases)
      next
        case False
        then have "xs \<noteq> [] \<and> (c = 46 \<or> c = hd xs) \<Longrightarrow> matchhere re1 (tl xs) = occurs_here re1 (tl xs)"
          using 1(3) [OF Cons re1 False] by blast
        then show ?thesis using False Cons re1 occurs_here_one [of re1 c xs]
          by (auto simp: matchhere_cases accepts_def)
      qed
    qed
  qed (simp add: matchhere_cases occurs_here_Nil)
next
  case (2 c re xs)
  then show ?case
    using occurs_here_star [of c re xs] by (auto simp: matchstar_step [of c re xs] accepts_def)
qed

lemma match_loop_occurs: "match_loop re text \<longleftrightarrow> (\<exists>a b. text = a @ b \<and> occurs_here re b)"
proof (induction "text")
  case (Cons x xs)
  then show ?case by (auto simp: match_here_star Cons_eq_append_conv)
qed (simp add: match_here_star)

lemma match_occurs: "match re text = occurs re text"
proof (cases re)
  case (Cons c re1)
  then show ?thesis by (simp add: match_def occurs_def match_here_star match_loop_occurs)
qed (simp add: match_def occurs_def match_loop_occurs)

text \<open>
  Property C22. \<open>match\<close> decides what the pattern means: whether some part of the text (the start of it after \<open>^\<close>, the
  end of it before \<open>$\<close>) is in the language of the pattern's literals, dots and stars.
\<close>

theorem match_correct: "match re text \<longleftrightarrow> occurs re text"
  by (rule match_occurs)

section \<open>The loop over the input\<close>

text \<open>
  The input is the list of the pieces in which it arrives; \<open>read_bytes n\<close> is \<open>read(fd, p, n)\<close>, which gives at most
  \<open>n\<close> bytes of the first piece and nothing at the end of the input. \<open>buf\<close> holds \<open>buf[0..m-1]\<close>.
\<close>

fun read_bytes :: "nat \<Rightarrow> u8 list list \<Rightarrow> u8 list \<times> u8 list list" where
  "read_bytes n [] = ([], [])"
| "read_bytes n (c # cs) = (take n c, if drop n c = [] then cs else drop n c # cs)"

text \<open>\<open>strchr(p, '\n')\<close>: the string before the first newline and what follows it, if there is one before a zero byte.\<close>

fun split_line :: "u8 list \<Rightarrow> (u8 list \<times> u8 list) option" where
  "split_line [] = None"
| "split_line (x # p) =
     (if x = 0 then None
      else if x = 10 then Some ([], p)
      else (case split_line p of None \<Rightarrow> None | Some (l, r) \<Rightarrow> Some (x # l, r)))"

lemma split_line_length: "split_line p = Some (l, r) \<Longrightarrow> length r < length p"
  by (induction p arbitrary: l r) (auto split: if_splits option.splits)

function grep_lines :: "u8 list \<Rightarrow> u8 list \<Rightarrow> u8 list \<times> u8 list" where
  "grep_lines pattern p =
     (case split_line p of
        None \<Rightarrow> ([], p)
      | Some (l, r) \<Rightarrow>
          (let (out, rest) = grep_lines pattern r
           in ((if match pattern l then l @ [10] else []) @ out, rest)))"
  by pat_completeness auto
termination
  by (relation "measure (\<lambda>(pattern, p). length p)") (auto dest: split_line_length)

declare grep_lines.simps [simp del]

function grep :: "u8 list \<Rightarrow> u8 list list \<Rightarrow> u8 list \<Rightarrow> u8 list" where
  "grep pattern input buf =
     (let (d, input') = read_bytes (1024 - length buf - 1) input in
      if d = [] then []
      else (let (out, rest) = grep_lines pattern (buf @ d)
            in out @ grep pattern input' rest))"
  by pat_completeness auto
termination
proof (relation "measure (\<lambda>(pattern, input, buf). length (concat input))", simp)
  fix pattern buf d input' rest and input :: "u8 list list" and x y out
  assume "x = read_bytes (1024 - length buf - 1) input" "(d, input') = x" "d \<noteq> []"
  then show "((pattern, input', rest), (pattern, input, buf)) \<in> measure (\<lambda>(pattern, input, buf). length (concat input))"
    by (cases input) (auto split: if_splits)
qed

declare grep.simps [simp del]

text \<open>The lines of a text, each ended by a newline, and what is left after the last one.\<close>

fun lines :: "u8 list \<Rightarrow> u8 list list" and unfinished :: "u8 list \<Rightarrow> u8 list" where
  "lines [] = []"
| "lines (x # p) = (if x = 10 then [] # lines p else (case lines p of [] \<Rightarrow> [] | l # ls \<Rightarrow> (x # l) # ls))"
| "unfinished [] = []"
| "unfinished (x # p) = (if x = 10 then unfinished p else if lines p = [] then x # unfinished p else unfinished p)"

definition selected :: "u8 list \<Rightarrow> u8 list list \<Rightarrow> u8 list" where
  "selected pattern ls = concat (map (\<lambda>l. l @ [10]) (filter (occurs pattern) ls))"

lemma split_line_lines:
  assumes "0 \<notin> set p"
  shows "split_line p = None \<Longrightarrow> lines p = [] \<and> unfinished p = p"
    and "split_line p = Some (l, r) \<Longrightarrow> lines p = l # lines r \<and> unfinished p = unfinished r \<and> set r \<subseteq> set p"
  using assms by (induction p arbitrary: l) (auto split: if_splits option.splits list.splits)

lemma grep_lines_selected:
  assumes "0 \<notin> set p"
  shows "grep_lines pattern p = (selected pattern (lines p), unfinished p)"
  using assms
proof (induction pattern p rule: grep_lines.induct)
  case (1 pattern p)
  show ?case
  proof (cases "split_line p")
    case None
    then show ?thesis using split_line_lines(1) [OF 1(2)] by (simp add: grep_lines.simps [of pattern p] selected_def)
  next
    case (Some lr)
    obtain l r where lr: "lr = (l, r)" by (cases lr)
    note s = split_line_lines(2) [OF 1(2) Some [unfolded lr]]
    have "grep_lines pattern r = (selected pattern (lines r), unfinished r)"
      using 1(1) [OF Some lr [symmetric]] 1(2) s by blast
    then show ?thesis using Some lr s by (simp add: grep_lines.simps [of pattern p] selected_def match_occurs)
  qed
qed

lemma lines_append:
  "lines (p @ q) = lines p @ lines (unfinished p @ q)" "unfinished (p @ q) = unfinished (unfinished p @ q)"
proof -
  show l: "lines (p @ q) = lines p @ lines (unfinished p @ q)" for p
    by (induction p) (auto split: list.splits)
  show "unfinished (p @ q) = unfinished (unfinished p @ q)"
  proof (induction p)
    case (Cons x p)
    then show ?case using l [of p] by (auto split: list.splits)
  qed simp
qed

lemma unfinished_lines: "lines (unfinished p) = []" "set (unfinished p) \<subseteq> set p"
  by (induction p) auto

text \<open>
  \<open>fits\<close>: every line of the text, and what is left after the last one, is shorter than the buffer.
\<close>

definition fits :: "u8 list \<Rightarrow> bool" where
  "fits text \<longleftrightarrow> (\<forall>l\<in>set (lines text). length l < 1023) \<and> length (unfinished text) < 1023"

lemma lines_no_newline:
  assumes "lines buf = []"
  shows "lines (buf @ q) = (case lines q of [] \<Rightarrow> [] | l # ls \<Rightarrow> (buf @ l) # ls)"
    "lines q = [] \<Longrightarrow> unfinished (buf @ q) = buf @ unfinished q"
proof -
  have l: "lines (buf @ q) = (case lines q of [] \<Rightarrow> [] | l # ls \<Rightarrow> (buf @ l) # ls)" if "lines buf = []" for buf
    using that by (induction buf) (auto split: list.splits if_splits)
  then show "lines (buf @ q) = (case lines q of [] \<Rightarrow> [] | l # ls \<Rightarrow> (buf @ l) # ls)" using assms .
  show "lines q = [] \<Longrightarrow> unfinished (buf @ q) = buf @ unfinished q"
    using assms by (induction buf) (auto simp: l split: list.splits if_splits)
qed

lemma fits_room: "lines buf = [] \<Longrightarrow> fits (buf @ q) \<Longrightarrow> length buf < 1023"
  using lines_no_newline [of buf q] by (cases "lines q") (auto simp: fits_def)

text \<open>\<open>grep\<close> prints the lines that match, each with its newline, provided that the lines fit into the buffer.\<close>

lemma grep_selected:
  assumes "0 \<notin> set (buf @ concat input)" "[] \<notin> set input" "lines buf = []" "fits (buf @ concat input)"
  shows "grep pattern input buf = selected pattern (lines (buf @ concat input))"
  using assms
proof (induction pattern input buf rule: grep.induct)
  case (1 pattern input buf)
  have room: "length buf < 1023" by (rule fits_room [OF 1(4,5)])
  show ?case
  proof (cases input)
    case Nil
    then show ?thesis using 1(4) by (subst grep.simps) (simp add: selected_def)
  next
    case (Cons c cs)
    let ?n = "1024 - length buf - 1"
    obtain d input' where r: "read_bytes ?n input = (d, input')" by (cases "read_bytes ?n input")
    have c: "c \<noteq> []" using 1(3) Cons by auto
    then have d: "d \<noteq> []" "d @ concat input' = concat input" "[] \<notin> set input'"
      using r Cons room 1(3) by (auto split: if_splits)
    have z: "0 \<notin> set (buf @ d)" using 1(2) d(2) by (metis Un_iff set_append)
    let ?u = "unfinished (buf @ d)"
    have e: "lines (buf @ concat input) = lines (buf @ d) @ lines (?u @ concat input')"
      "unfinished (buf @ concat input) = unfinished (?u @ concat input')"
      using lines_append [of "buf @ d" "concat input'"] d(2) by simp_all
    have g: "grep_lines pattern (buf @ d) = (selected pattern (lines (buf @ d)), ?u)"
      by (rule grep_lines_selected [OF z])
    have "0 \<notin> set (?u @ concat input')"
    proof -
      have "set (concat input') \<subseteq> set (concat input)" using d(2) by (metis Un_upper2 set_append)
      then show ?thesis using unfinished_lines(2) [of "buf @ d"] z 1(2) by (metis Un_iff set_append subsetD)
    qed
    moreover have "fits (?u @ concat input')" using 1(5) e by (simp add: fits_def)
    ultimately have "grep pattern input' ?u = selected pattern (lines (?u @ concat input'))"
      using 1(1) [OF r [symmetric] refl d(1) g [symmetric] refl] d(3) unfinished_lines(1) by blast
    then show ?thesis using r d(1) g e(1) by (subst grep.simps) (simp add: selected_def)
  qed
qed

end
