(* ===== verification/Xv6_Printf.thy ===== *)
theory Xv6_Printf
  imports Xv6_String
begin

text \<open>
  The formatted output of user/printf.c and kernel/printf.c, as the bytes that \<open>putc\<close> and \<open>consputc\<close> send out (\<open>consputc\<close> turns
  the value 0x100 into a backspace sequence), and \<open>atoi\<close>  of user/ulib.c. A C string is the list of its bytes before the
  terminating zero. The variable arguments are a list of typed values; taking one that is missing or of another
  type is undefined and gives \<open>None\<close>.
\<close>

section \<open>Printing numbers\<close>

definition udigits :: "u8 list" where
  "udigits = [48, 49, 50, 51, 52, 53, 54, 55, 56, 57, 65, 66, 67, 68, 69, 70]"

definition kdigits :: "u8 list" where
  "kdigits = [48, 49, 50, 51, 52, 53, 54, 55, 56, 57, 97, 98, 99, 100, 101, 102]"

text \<open>The do-while loop of \<open>printint\<close>: what it stores into \<open>buf\<close>, the last digit first. Every call passes the base 10 or 16.\<close>

function digit_loop :: "u8 list \<Rightarrow> u64 \<Rightarrow> u64 \<Rightarrow> u8 list" where
  "digit_loop digits x base =
     digits ! unat (x mod base) #
       (if 2 \<le> base \<and> x div base \<noteq> 0 then digit_loop digits (x div base) base else [])"
  by pat_completeness auto
termination
proof (relation "measure (\<lambda>(digits, x, base). unat x)", simp)
  fix digits :: "u8 list" and x base :: u64
  assume "2 \<le> base \<and> x div base \<noteq> 0"
  then have "2 \<le> unat base" "unat x div unat base \<noteq> 0"
    by (auto simp: word_le_nat_alt unat_div simp flip: unat_eq_0)
  then have "unat x div unat base < unat x" by (metis One_nat_def Suc_1 Suc_le_lessD div_0 div_less_dividend neq0_conv)
  then show "((digits, x div base, base), digits, x, base) \<in> measure (\<lambda>(digits, x, base). unat x)"
    by (simp add: unat_div)
qed

declare digit_loop.simps [simp del]

text \<open>The user library's \<open>printint\<close> and the kernel's; \<open>-\<close> is 45.\<close>

definition uprintint :: "u64 \<Rightarrow> u64 \<Rightarrow> bool \<Rightarrow> u8 list" where
  "uprintint xx base sg =
     (let neg = sg \<and> xx <s 0;
          x = (if neg then - xx else xx);
          buf = digit_loop udigits x base;
          buf = (if neg then buf @ [45] else buf)
      in rev buf)"

definition kprintint :: "u64 \<Rightarrow> u64 \<Rightarrow> bool \<Rightarrow> u8 list" where
  "kprintint xx base sign =
     (let neg = sign \<and> xx <s 0;
          x = (if neg then - xx else xx);
          buf = digit_loop kdigits x base;
          buf = (if neg then buf @ [45] else buf)
      in rev buf)"

fun nibbles :: "u8 list \<Rightarrow> nat \<Rightarrow> u64 \<Rightarrow> u8 list" where
  "nibbles digits 0 x = []"
| "nibbles digits (Suc n) x = digits ! unat (drop_bit 60 x) # nibbles digits n (push_bit 4 x)"

definition uprintptr :: "u64 \<Rightarrow> u8 list" where
  "uprintptr x = 48 # 120 # nibbles udigits 16 x"

definition kprintptr :: "u64 \<Rightarrow> u8 list" where
  "kprintptr x = 48 # 120 # nibbles kdigits 16 x"

fun atoi_loop :: "c_int \<Rightarrow> u8 list \<Rightarrow> c_int" where
  "atoi_loop n [] = n"
| "atoi_loop n (c # s) = (if 48 \<le> c \<and> c \<le> 57 then atoi_loop (n * 10 + ucast c - 48) s else n)"

definition atoi :: "u8 list \<Rightarrow> c_int" where
  "atoi s = atoi_loop 0 s"

lemma digit_loop_unfold:
  assumes "2 \<le> base"
  shows "digit_loop digits x base = digits ! unat (x mod base) #
    (if x div base \<noteq> 0 then digit_loop digits (x div base) base else [])"
  using assms by (subst digit_loop.simps) simp

lemma digit_loop_length:
  assumes "2 \<le> unat base" "unat x < unat base ^ Suc n"
  shows "length (digit_loop digits x base) \<le> Suc n"
  using assms
proof (induction n arbitrary: x)
  case 0
  then have "x div base = 0" by (simp add: unat_div flip: unat_eq_0)
  then show ?case using 0 by (simp add: digit_loop.simps [of digits x])
next
  case (Suc n)
  have "unat (x div base) < unat base ^ Suc n"
    using Suc.prems by (simp add: unat_div less_mult_imp_div_less mult.commute)
  then have "length (digit_loop digits (x div base) base) \<le> Suc n" using Suc by blast
  then show ?case by (subst digit_loop.simps) simp
qed

lemma negative_large:
  fixes x :: u64
  assumes "x <s 0"
  shows "2 ^ 63 \<le> uint x"
proof (rule ccontr)
  assume "\<not> 2 ^ 63 \<le> uint x"
  then have "signed_take_bit 63 (uint x) = uint x"
    by (intro signed_take_bit_int_eq_self) (use unsigned_greater_eq [of x, where 'a = int] in linarith)+
  then have "sint x = uint x" by (simp add: sint_uint)
  then show False using assms by (simp add: word_sless_alt)
qed

lemma unat_neg_signed:
  fixes x :: u64
  assumes "x <s 0"
  shows "unat (- x) \<le> 2 ^ 63"
proof -
  have pos: "0 \<le> uint x" "uint x < 2 ^ 64" using unsigned_less [of x, where 'a = int] by simp_all
  note big = negative_large [OF assms]
  have "uint (- x) = (2 ^ 64 - uint x) mod 2 ^ 64"
    by (simp add: uint_word_ariths(4))
  also have "\<dots> = 2 ^ 64 - uint x" using pos big by (intro mod_pos_pos_trivial) simp_all
  finally have "uint (- x) \<le> 2 ^ 63" using big by simp
  then have "nat (uint (- x)) \<le> nat (2 ^ 63)" by (rule nat_mono)
  then show ?thesis by (simp add: nat_power_eq)
qed

lemma digit_loop_buffer:
  assumes "base = 10 \<or> base = 16"
  shows "length (digit_loop digits x base) \<le> 20"
    and "unat x \<le> 2 ^ 63 \<Longrightarrow> length (digit_loop digits x base) \<le> 19"
proof -
  have b: "2 \<le> unat base" "10 \<le> unat base" using assms by auto
  have p: "(10::nat) ^ Suc n \<le> unat base ^ Suc n" for n using b by (intro power_mono) auto
  have "unat x < 2 ^ 64" using unsigned_less [of x, where 'a = nat] by simp
  also have "(2::nat) ^ 64 \<le> 10 ^ Suc 19" by simp
  also note p [of 19]
  finally show "length (digit_loop digits x base) \<le> 20" using digit_loop_length [OF b(1), of x 19 digits] by simp
  assume "unat x \<le> 2 ^ 63"
  also have "(2::nat) ^ 63 < 10 ^ Suc 18" by simp
  also note p [of 18]
  finally show "length (digit_loop digits x base) \<le> 19" using digit_loop_length [OF b(1), of x 18 digits] by simp
qed

lemma printint_buffer:
  assumes "base = 10 \<or> base = 16"
  shows "length (uprintint x base sg) \<le> 20" "length (kprintint x base sg) \<le> 20"
proof -
  have "length (digit_loop ds (- x) base) \<le> 19" if "x <s 0" for ds
    by (rule digit_loop_buffer(2) [OF assms unat_neg_signed [OF that]])
  then show "length (uprintint x base sg) \<le> 20" "length (kprintint x base sg) \<le> 20"
    using digit_loop_buffer(1) [OF assms] by (auto simp: uprintint_def kprintint_def Let_def)
qed

text \<open>The value of the digits, in the wrap-around arithmetic of a 32-bit integer.\<close>

lemma udigits_nth: "n < 10 \<Longrightarrow> udigits ! n = 48 + of_nat n"
  by (auto simp: udigits_def less_Suc_eq numeral_eq_Suc)

lemma ucast_div_mod:
  "ucast (x div 10) * 10 + ucast (x mod 10) = (ucast (x :: u64) :: c_int)"
proof -
  have "ucast (x div 10) = (of_nat (unat x div 10) :: c_int)" "ucast (x mod 10) = (of_nat (unat x mod 10) :: c_int)"
    using of_nat_unat [of "x div 10", where 'a = "32 word"] of_nat_unat [of "x mod 10", where 'a = "32 word"]
    by (simp_all add: unat_div unat_mod)
  then have "ucast (x div 10) * 10 + ucast (x mod 10) = (of_nat (unat x div 10 * 10 + unat x mod 10) :: c_int)"
    by (simp only: of_nat_add of_nat_mult of_nat_numeral)
  also have "\<dots> = ucast x" by (simp add: of_nat_unat)
  finally show ?thesis .
qed

lemma digit_value:
  "48 \<le> udigits ! unat (x mod 10 :: u64)" "udigits ! unat (x mod 10) \<le> 57"
  "ucast (udigits ! unat (x mod 10)) - 48 = (ucast (x mod 10) :: c_int)"
proof -
  define k where "k = unat (x mod 10)"
  have c: "ucast (x mod 10) = (of_nat k :: c_int)" unfolding k_def by (rule of_nat_unat [symmetric])
  have "k < 10" by (simp add: k_def unat_mod)
  then have "k = 0 \<or> k = 1 \<or> k = 2 \<or> k = 3 \<or> k = 4 \<or> k = 5 \<or> k = 6 \<or> k = 7 \<or> k = 8 \<or> k = 9" by presburger
  then have "48 \<le> udigits ! k \<and> udigits ! k \<le> 57 \<and> ucast (udigits ! k) - 48 = (of_nat k :: c_int)"
    by (elim disjE) (simp_all add: udigits_def)
  then show "48 \<le> udigits ! unat (x mod 10)" "udigits ! unat (x mod 10) \<le> 57"
    "ucast (udigits ! unat (x mod 10)) - 48 = (ucast (x mod 10) :: c_int)"
    unfolding c k_def [symmetric] by blast+
qed

lemma atoi_loop_digits:
  "atoi_loop a (rev (digit_loop udigits x 10) @ r) =
   atoi_loop (a * 10 ^ length (digit_loop udigits x 10) + ucast x) r"
proof (induction "unat x" arbitrary: x r rule: less_induct)
  case less
  have d: "digit_loop udigits x 10 = udigits ! unat (x mod 10) #
      (if x div 10 \<noteq> 0 then digit_loop udigits (x div 10) 10 else [])"
    by (rule digit_loop_unfold) simp
  show ?case
  proof (cases "x div 10 = 0")
    case True
    then have "ucast (x mod 10) = (ucast x :: c_int)" using ucast_div_mod [of x] by simp
    then show ?thesis using d True digit_value [of x] by (simp flip: add_diff_eq)
  next
    case False
    let ?y = "x div 10" and ?d = "udigits ! unat (x mod 10)"
    have "unat ?y \<noteq> 0" using False by (simp add: unat_eq_0)
    then have lt: "unat ?y < unat x" by (simp add: unat_div)
    have "rev (digit_loop udigits x 10) @ r = rev (digit_loop udigits ?y 10) @ ?d # r"
      using d False by simp
    then have "atoi_loop a (rev (digit_loop udigits x 10) @ r) =
        atoi_loop (a * 10 ^ length (digit_loop udigits ?y 10) + ucast ?y) (?d # r)"
      using less [OF lt] by simp
    also have "\<dots> = atoi_loop ((a * 10 ^ length (digit_loop udigits ?y 10) + ucast ?y) * 10 + (ucast ?d - 48)) r"
      using digit_value(1,2) [of x] by (simp add: add_diff_eq)
    also have "(a * 10 ^ length (digit_loop udigits ?y 10) + ucast ?y) * 10 + (ucast ?d - 48) =
        a * 10 ^ length (digit_loop udigits x 10) + (ucast ?y * 10 + ucast (x mod 10))"
      using d False digit_value(3) [of x] by (simp add: algebra_simps)
    finally show ?thesis by (simp only: ucast_div_mod)
  qed
qed

section \<open>Formatted output\<close>

datatype va = Vint u32 | Vlong u64 | Vstr "u8 list option"

text \<open>\<open>(null)\<close>.\<close>

definition null_str :: "u8 list" where
  "null_str = [40, 110, 117, 108, 108, 41]"

text \<open>
  One conversion: from the characters \<open>c0\<close>, \<open>c1\<close>, \<open>c2\<close> after the percent sign (0 past the end) and the
  arguments, the output, the arguments left, and how many further characters of the format it takes up.
\<close>

definition uconvert :: "u8 \<Rightarrow> u8 \<Rightarrow> u8 \<Rightarrow> va list \<Rightarrow> (u8 list \<times> va list \<times> nat) option" where
  "uconvert c0 c1 c2 ap =
     (if c0 = 100 then (case ap of Vint v # ap \<Rightarrow> Some (uprintint (scast v) 10 True, ap, 0) | _ \<Rightarrow> None)
      else if c0 = 108 \<and> c1 = 100 then (case ap of Vlong v # ap \<Rightarrow> Some (uprintint v 10 True, ap, 1) | _ \<Rightarrow> None)
      else if c0 = 108 \<and> c1 = 108 \<and> c2 = 100 then (case ap of Vlong v # ap \<Rightarrow> Some (uprintint v 10 True, ap, 2) | _ \<Rightarrow> None)
      else if c0 = 117 then (case ap of Vint v # ap \<Rightarrow> Some (uprintint (ucast v) 10 False, ap, 0) | _ \<Rightarrow> None)
      else if c0 = 108 \<and> c1 = 117 then (case ap of Vlong v # ap \<Rightarrow> Some (uprintint v 10 False, ap, 1) | _ \<Rightarrow> None)
      else if c0 = 108 \<and> c1 = 108 \<and> c2 = 117 then (case ap of Vlong v # ap \<Rightarrow> Some (uprintint v 10 False, ap, 2) | _ \<Rightarrow> None)
      else if c0 = 120 then (case ap of Vint v # ap \<Rightarrow> Some (uprintint (ucast v) 16 False, ap, 0) | _ \<Rightarrow> None)
      else if c0 = 108 \<and> c1 = 120 then (case ap of Vlong v # ap \<Rightarrow> Some (uprintint v 16 False, ap, 1) | _ \<Rightarrow> None)
      else if c0 = 108 \<and> c1 = 108 \<and> c2 = 120 then (case ap of Vlong v # ap \<Rightarrow> Some (uprintint v 16 False, ap, 2) | _ \<Rightarrow> None)
      else if c0 = 112 then (case ap of Vlong v # ap \<Rightarrow> Some (uprintptr v, ap, 0) | _ \<Rightarrow> None)
      else if c0 = 99 then (case ap of Vint v # ap \<Rightarrow> Some ([ucast v], ap, 0) | _ \<Rightarrow> None)
      else if c0 = 115 then
        (case ap of Vstr s # ap \<Rightarrow> Some (case s of None \<Rightarrow> null_str | Some s \<Rightarrow> s, ap, 0) | _ \<Rightarrow> None)
      else if c0 = 37 then Some ([37], ap, 0)
      else Some ([37, c0], ap, 0))"

definition kconvert :: "u8 \<Rightarrow> u8 \<Rightarrow> u8 \<Rightarrow> va list \<Rightarrow> (u8 list \<times> va list \<times> nat) option" where
  "kconvert c0 c1 c2 ap =
     (if c0 = 100 then (case ap of Vint v # ap \<Rightarrow> Some (kprintint (scast v) 10 True, ap, 0) | _ \<Rightarrow> None)
      else if c0 = 108 \<and> c1 = 100 then (case ap of Vlong v # ap \<Rightarrow> Some (kprintint v 10 True, ap, 1) | _ \<Rightarrow> None)
      else if c0 = 108 \<and> c1 = 108 \<and> c2 = 100 then (case ap of Vlong v # ap \<Rightarrow> Some (kprintint v 10 True, ap, 2) | _ \<Rightarrow> None)
      else if c0 = 117 then (case ap of Vint v # ap \<Rightarrow> Some (kprintint (ucast v) 10 False, ap, 0) | _ \<Rightarrow> None)
      else if c0 = 108 \<and> c1 = 117 then (case ap of Vlong v # ap \<Rightarrow> Some (kprintint v 10 False, ap, 1) | _ \<Rightarrow> None)
      else if c0 = 108 \<and> c1 = 108 \<and> c2 = 117 then (case ap of Vlong v # ap \<Rightarrow> Some (kprintint v 10 False, ap, 2) | _ \<Rightarrow> None)
      else if c0 = 120 then (case ap of Vint v # ap \<Rightarrow> Some (kprintint (ucast v) 16 False, ap, 0) | _ \<Rightarrow> None)
      else if c0 = 108 \<and> c1 = 120 then (case ap of Vlong v # ap \<Rightarrow> Some (kprintint v 16 False, ap, 1) | _ \<Rightarrow> None)
      else if c0 = 108 \<and> c1 = 108 \<and> c2 = 120 then (case ap of Vlong v # ap \<Rightarrow> Some (kprintint v 16 False, ap, 2) | _ \<Rightarrow> None)
      else if c0 = 112 then (case ap of Vlong v # ap \<Rightarrow> Some (kprintptr v, ap, 0) | _ \<Rightarrow> None)
      else if c0 = 99 then
        (case ap of Vint v # ap \<Rightarrow> Some (if v = 0x100 then [8, 32, 8] else [ucast v], ap, 0) | _ \<Rightarrow> None)
      else if c0 = 115 then
        (case ap of Vstr s # ap \<Rightarrow> Some (case s of None \<Rightarrow> null_str | Some s \<Rightarrow> s, ap, 0) | _ \<Rightarrow> None)
      else if c0 = 37 then Some ([37], ap, 0)
      else Some ([37, c0], ap, 0))"

text \<open>\<open>fmt[i]\<close>, which is 0 at the end of the format.\<close>

definition chr :: "u8 list \<Rightarrow> nat \<Rightarrow> u8" where
  "chr fmt i = (if i < length fmt then fmt ! i else 0)"

text \<open>
  \<open>vprintf\<close> of the user library: \<open>pct\<close> is \<open>state == '%'\<close>. The kernel's \<open>printf\<close> takes the character after a percent sign in
  the same turn and stops at a format that ends in one.
\<close>

function vprintf :: "bool \<Rightarrow> u8 list \<Rightarrow> va list \<Rightarrow> u8 list option" where
  "vprintf pct fmt ap =
     (case fmt of
        [] \<Rightarrow> Some []
      | c0 # fmt1 \<Rightarrow>
          if \<not> pct then
            if c0 = 37 then vprintf True fmt1 ap
            else map_option ((#) c0) (vprintf False fmt1 ap)
          else
            (case uconvert c0 (chr fmt1 0) (if chr fmt1 0 = 0 then 0 else chr fmt1 1) ap of
               None \<Rightarrow> None
             | Some (out, ap', n) \<Rightarrow> map_option ((@) out) (vprintf False (drop n fmt1) ap')))"
  by pat_completeness auto
termination
  by (relation "measure (\<lambda>(pct, fmt, ap). length fmt)") auto

function kprintf :: "u8 list \<Rightarrow> va list \<Rightarrow> u8 list option" where
  "kprintf fmt ap =
     (case fmt of
        [] \<Rightarrow> Some []
      | cx # fmt1 \<Rightarrow>
          if cx \<noteq> 37 then map_option ((#) cx) (kprintf fmt1 ap)
          else
            (case fmt1 of
               [] \<Rightarrow> Some []
             | c0 # fmt2 \<Rightarrow>
                 (case kconvert c0 (chr fmt2 0) (if chr fmt2 0 = 0 then 0 else chr fmt2 1) ap of
                    None \<Rightarrow> None
                  | Some (out, ap', n) \<Rightarrow> map_option ((@) out) (kprintf (drop n fmt2) ap'))))"
  by pat_completeness auto
termination
  by (relation "measure (\<lambda>(fmt, ap). length fmt)") auto

declare vprintf.simps [simp del] kprintf.simps [simp del]

text \<open>
  The two agree on every format, except that the user library prints hexadecimal digits in upper case: \<open>same_char\<close> is equality
  up to that.
\<close>

definition same_char :: "u8 \<Rightarrow> u8 \<Rightarrow> bool" where
  "same_char a b \<longleftrightarrow> a = b \<or> 65 \<le> a \<and> a \<le> 70 \<and> b = a + 32"

lemma same_char_refl [simp]: "same_char a a"
  by (simp add: same_char_def)

lemma same_digit: "i < 16 \<Longrightarrow> same_char (udigits ! i) (kdigits ! i)"
proof -
  have "list_all2 same_char udigits kdigits" "length udigits = 16"
    by (simp_all add: udigits_def kdigits_def same_char_def)
  then show "i < 16 \<Longrightarrow> same_char (udigits ! i) (kdigits ! i)" by (simp add: list_all2_nthD)
qed

lemma same_digit_loop:
  assumes "base = 10 \<or> base = 16"
  shows "list_all2 same_char (digit_loop udigits x base) (digit_loop kdigits x base)"
proof (induction "unat x" arbitrary: x rule: less_induct)
  case less
  have b: "2 \<le> base" "0 < unat base" "unat base \<le> 16" using assms by auto
  have "unat (x mod base) < 16" using mod_less_divisor [OF b(2), of "unat x"] b(3) by (simp add: unat_mod)
  then have d: "same_char (udigits ! unat (x mod base)) (kdigits ! unat (x mod base))" by (rule same_digit)
  show ?case
  proof (cases "x div base = 0")
    case False
    then have "unat (x div base) \<noteq> 0" by (simp add: unat_eq_0)
    then have "unat (x div base) < unat x" using assms by (auto simp: unat_div)
    then show ?thesis using less d False
      by (simp add: digit_loop_unfold [OF b(1), of udigits x] digit_loop_unfold [OF b(1), of kdigits x])
  qed (simp add: digit_loop_unfold [OF b(1)] d)
qed

lemma same_printint:
  assumes "base = 10 \<or> base = 16"
  shows "list_all2 same_char (uprintint x base sg) (kprintint x base sg)"
  using same_digit_loop [OF assms]
  by (auto simp: uprintint_def kprintint_def Let_def list_all2_rev intro: list_all2_appendI)

lemma same_printptr: "list_all2 same_char (uprintptr x) (kprintptr x)"
proof -
  have "list_all2 same_char (nibbles udigits n x) (nibbles kdigits n x)" for n
  proof (induction n arbitrary: x)
    case (Suc n)
    have "unat x < 2 ^ 64" using unsigned_less [of x, where 'a = nat] by simp
    then have "unat (drop_bit 60 x) < 16"
      by (simp add: drop_bit_eq_div unat_div less_mult_imp_div_less)
    then show ?case using Suc same_digit by simp
  qed simp
  then show ?thesis by (simp add: uprintptr_def kprintptr_def)
qed

lemma same_convert:
  assumes "Vint 0x100 \<notin> set ap"
  shows "rel_option (\<lambda>(o1, a1, n1) (o2, a2, n2). list_all2 same_char o1 o2 \<and> a1 = a2 \<and> n1 = n2 \<and> set a1 \<subseteq> set ap)
    (uconvert c0 c1 c2 ap) (kconvert c0 c1 c2 ap)"
  using assms unfolding uconvert_def kconvert_def
  by (auto simp: same_printint same_printptr list_all2_refl split: list.split va.split)

text \<open>
  The two \<open>printf\<close> functions agree, although one is written as a state machine over the characters and the other
  takes a conversion in one turn: for every format, also one that ends in a percent sign or has unknown conversions, and
  every list of arguments, they print the same bytes up to the case of hexadecimal digits, and are undefined for the same
  formats and arguments. The value 0x100 is excluded, for which \<open>consputc\<close> erases a character instead of printing one.
\<close>

lemma printf_same:
  "Vint 0x100 \<notin> set ap \<Longrightarrow> rel_option (list_all2 same_char) (vprintf False fmt ap) (kprintf fmt ap)"
proof (induction fmt ap rule: kprintf.induct)
  case (1 fmt ap)
  show ?case
  proof (cases fmt)
    case (Cons cx fmt1)
    note fmt = this
    show ?thesis
    proof (cases "cx = 37")
      case False
      then have "rel_option (list_all2 same_char) (vprintf False fmt1 ap) (kprintf fmt1 ap)" using 1 fmt by blast
      then show ?thesis using fmt False
        by (subst vprintf.simps, subst kprintf.simps) (auto simp: option.rel_map elim: option.rel_mono_strong)
    next
      case True
      have v: "vprintf False fmt ap = vprintf True fmt1 ap" using fmt True by (subst vprintf.simps) simp
      show ?thesis
      proof (cases fmt1)
        case Nil
        then show ?thesis using v fmt True by (subst kprintf.simps) (simp add: vprintf.simps [of True])
      next
        case f1: (Cons c0 fmt2)
        let ?c1 = "chr fmt2 0" and ?c2 = "if chr fmt2 0 = 0 then 0 else chr fmt2 1"
        note c = same_convert [OF 1(3), of c0 ?c1 ?c2]
        show ?thesis
        proof (cases "kconvert c0 ?c1 ?c2 ap")
          case None
          then show ?thesis using c v fmt True f1
            by (subst kprintf.simps) (simp add: vprintf.simps [of True])
        next
          case (Some r)
          obtain out ap' n where r: "r = (out, ap', n)" by (cases r) auto
          then obtain out' where u: "uconvert c0 ?c1 ?c2 ap = Some (out', ap', n)" "list_all2 same_char out' out"
            "set ap' \<subseteq> set ap" using c Some by (cases "uconvert c0 ?c1 ?c2 ap") auto
          have "rel_option (list_all2 same_char) (vprintf False (drop n fmt2) ap') (kprintf (drop n fmt2) ap')"
            using 1(2) [OF fmt _ f1 Some r [symmetric] refl] True u(3) 1(3) by auto
          then show ?thesis using v fmt True f1 Some r u
            by (subst kprintf.simps) (auto simp: vprintf.simps [of True] option.rel_map elim: option.rel_mono_strong intro: list_all2_appendI)
        qed
      qed
    qed
  qed (simp add: vprintf.simps kprintf.simps)
qed

section \<open>Numbers as text\<close>

text \<open>The decimal digits of a number, and of an integer with its sign, without reference to words.\<close>

fun decimal :: "nat \<Rightarrow> u8 list" where
  "decimal n = (if n < 10 then [] else decimal (n div 10)) @ [48 + of_nat (n mod 10)]"

declare decimal.simps [simp del]

definition sdecimal :: "int \<Rightarrow> u8 list" where
  "sdecimal i = (if i < 0 then 45 # decimal (nat (- i)) else decimal (nat i))"

lemma digit_loop_decimal:
  assumes "\<And>n. n < 10 \<Longrightarrow> ds ! n = 48 + of_nat n"
  shows "rev (digit_loop ds x 10) = decimal (unat x)"
proof (induction "unat x" arbitrary: x rule: less_induct)
  case less
  have d: "digit_loop ds x 10 = ds ! unat (x mod 10) # (if x div 10 \<noteq> 0 then digit_loop ds (x div 10) 10 else [])"
    by (rule digit_loop_unfold) simp
  have m: "ds ! unat (x mod 10) = 48 + of_nat (unat x mod 10)" using assms by (simp add: unat_mod)
  have z: "x div 10 = 0 \<longleftrightarrow> unat x < 10" by (simp add: unat_div flip: unat_eq_0) auto
  show ?case
  proof (cases "unat x < 10")
    case True
    then show ?thesis using d m z by (simp add: decimal.simps [of "unat x"])
  next
    case False
    then have "rev (digit_loop ds (x div 10) 10) = decimal (unat x div 10)" using less [of "x div 10"] by (simp add: unat_div)
    then show ?thesis using d m z False by (simp add: decimal.simps [of "unat x"])
  qed
qed

lemma kdigits_nth: "n < 10 \<Longrightarrow> kdigits ! n = 48 + of_nat n"
  by (auto simp: kdigits_def less_Suc_eq numeral_eq_Suc)

lemma signed_value:
  fixes x :: u64
  shows "x <s 0 \<longleftrightarrow> sint x < 0" "sint x < 0 \<Longrightarrow> unat (- x) = nat (- sint x)" "\<not> sint x < 0 \<Longrightarrow> unat x = nat (sint x)"
proof -
  show "x <s 0 \<longleftrightarrow> sint x < 0" by (simp add: word_sless_alt)
  have r: "- (2 ^ 63) \<le> sint x" "sint x < 2 ^ 63" using sint_ge [of x] sint_less [of x] by simp_all
  have u: "unat (word_of_int k :: u64) = nat k" if "0 \<le> k" "k \<le> 2 ^ 63" for k
    using that by (simp add: unsigned_of_int take_bit_int_eq_self)
  have x: "x = word_of_int (sint x)" by simp
  show "unat x = nat (sint x)" if "\<not> sint x < 0" using u [of "sint x"] r that by simp
  have "- x = word_of_int (- sint x)" by (subst x) simp
  then show "unat (- x) = nat (- sint x)" if "sint x < 0" using u [of "- sint x"] r that by simp
qed

lemma printint_decimal:
  "uprintint x 10 sg = (if sg then sdecimal (sint x) else decimal (unat x))"
  "kprintint x 10 sg = (if sg then sdecimal (sint x) else decimal (unat x))"
proof -
  have "rev (digit_loop udigits y 10) = decimal (unat y)" "rev (digit_loop kdigits y 10) = decimal (unat y)" for y
    by (rule digit_loop_decimal, rule udigits_nth kdigits_nth, assumption)+
  then show "uprintint x 10 sg = (if sg then sdecimal (sint x) else decimal (unat x))"
    "kprintint x 10 sg = (if sg then sdecimal (sint x) else decimal (unat x))"
    by (auto simp: uprintint_def kprintint_def Let_def signed_value sdecimal_def)
qed

lemma atoi_decimal:
  fixes y :: u64
  assumes "unat y < 2 ^ 31"
  shows "atoi (decimal (unat y)) = ucast y"
proof -
  have "rev (digit_loop udigits y 10) = decimal (unat y)" by (rule digit_loop_decimal, rule udigits_nth)
  then show ?thesis using atoi_loop_digits [of 0 y "[]"] by (simp add: atoi_def)
qed

text \<open>
  Property C23. \<open>printint\<close> of the user library and \<open>printint\<close> of the kernel print the same bytes in base 10: the decimal digits of
  the 64-bit value, read as unsigned or, with a leading minus, as signed, down to the smallest one. In base 10 and in
  base 16 what they print fits into their buffers of 20 characters, and in base 16 the two differ only in the case of
  the letters. For a value below \<open>2 ^ 31\<close>, where a C \<open>int\<close> does not overflow, \<open>atoi\<close> reads the printed number back.
\<close>

theorem printint_correct:
  assumes "base = 10 \<or> base = 16"
  shows "uprintint x 10 sg = (if sg then sdecimal (sint x) else decimal (unat x)) \<and> kprintint x 10 sg = uprintint x 10 sg \<and>
    list_all2 same_char (uprintint x base sg) (kprintint x base sg) \<and>
    length (uprintint x base sg) \<le> 20 \<and> length (kprintint x base sg) \<le> 20 \<and>
    (unat x < 2 ^ 31 \<longrightarrow> atoi (uprintint x 10 False) = ucast x \<and> atoi (kprintint x 10 False) = ucast x)"
  using printint_decimal [of x] same_printint [OF assms] printint_buffer [OF assms] atoi_decimal [of x] by simp

theorem printint_correct_witness:
  "uprintint (- 42) 10 True = [45, 52, 50] \<and> kprintint (- 42) 10 True = [45, 52, 50] \<and>
   length (uprintint (- 1) 16 False) \<le> 20 \<and> atoi (uprintint 2147 10 False) = 2147"
proof -
  have "sdecimal (- 42) = [45, 52, 50]" by (simp add: sdecimal_def decimal.simps)
  then show ?thesis
    using printint_correct [of 10 "- 42" True] printint_correct [of 16 "- 1" False] printint_correct [of 10 2147 False] by auto
qed

end
