(* ===== verification/Xv6_Cache.thy ===== *)
theory Xv6_Cache
  imports Xv6_Log
begin

text \<open>
  What the buffer cache of kernel/bio.c promises. The doubly linked list of \<open>bcache\<close> is a ring
  through all the buffers, so the two scans of \<open>bget\<close> end; a cached block has one buffer; a
  buffer that is neither locked nor pinned agrees with the disk, so that it may be reused. Under this
  invariant \<open>bread\<close>, \<open>bwrite\<close> and \<open>brelse\<close> are reads and writes of one map from block numbers to
  contents.
\<close>

section \<open>The ring of buffers\<close>

text \<open>\<open>links bs a xs c\<close>: the links lead from \<open>a\<close> through \<open>xs\<close> to \<open>c\<close>, and back.\<close>

fun links :: "(nat \<Rightarrow> buf) \<Rightarrow> nat \<Rightarrow> nat list \<Rightarrow> nat \<Rightarrow> bool" where
  "links bs a [] c \<longleftrightarrow> b_next (bs a) = c \<and> b_prev (bs c) = a"
| "links bs a (x # xs) c \<longleftrightarrow> b_next (bs a) = x \<and> b_prev (bs x) = a \<and> links bs x xs c"

definition ring :: "(nat \<Rightarrow> buf) \<Rightarrow> nat list \<Rightarrow> bool" where
  "ring bs xs \<longleftrightarrow> links bs NBUF xs NBUF \<and> distinct xs \<and> set xs = {0..<NBUF}"

lemma links_append:
  "links bs a (xs @ x # ys) c \<longleftrightarrow> links bs a xs x \<and> links bs x ys c"
  by (induction xs arbitrary: a) auto

lemma links_cong:
  assumes "links bs a xs c"
    and "\<And>x. x \<in> insert a (set xs) \<Longrightarrow> b_next (bs' x) = b_next (bs x)"
    and "\<And>x. x \<in> insert c (set xs) \<Longrightarrow> b_prev (bs' x) = b_prev (bs x)"
  shows "links bs' a xs c"
  using assms by (induction xs arbitrary: a) auto

lemma links_next:
  "links bs a xs c \<Longrightarrow> b_next (bs a) = (case xs of [] \<Rightarrow> c | x # _ \<Rightarrow> x)"
  by (cases xs) auto

lemma links_prev:
  "links bs a xs c \<Longrightarrow> b_prev (bs c) = (if xs = [] then a else last xs)"
  by (induction xs arbitrary: a) auto

lemma links_set_next:
  assumes "links bs a xs c" "a \<notin> set xs"
  shows "links (bs(a := (bs a)\<lparr>b_next := n\<rparr>)) a xs c \<longleftrightarrow> b_next (bs a) = n"
  using assms by (cases xs) (auto intro: links_cong)

text \<open>The scans of \<open>bget\<close>, in the two directions.\<close>

lemma bscan_next:
  assumes "links bs a xs NBUF" "NBUF \<notin> set xs" "length xs < n"
  shows "bscan b_next bs P n (b_next (bs a)) = Some (find (\<lambda>b. P (bs b)) xs)"
  using assms
proof (induction xs arbitrary: a n)
  case Nil
  then show ?case by (cases n) auto
next
  case (Cons x xs)
  then obtain m where "n = Suc m" by (cases n) auto
  with Cons show ?case by auto
qed

lemma bscan_prev:
  assumes "links bs NBUF xs c" "NBUF \<notin> set xs" "length xs < n"
  shows "bscan b_prev bs P n (b_prev (bs c)) = Some (find (\<lambda>b. P (bs b)) (rev xs))"
  using assms
proof (induction xs arbitrary: c n rule: rev_induct)
  case Nil
  then show ?case by (cases n) auto
next
  case (snoc x xs)
  then obtain m where "n = Suc m" by (cases n) auto
  with snoc show ?case by (auto simp: links_append)
qed

text \<open>Moving a buffer to the front, as \<open>brelse\<close> does.\<close>

lemma unlink_links:
  assumes "b_next (bs b) \<noteq> b"
  shows "b_next (unlink b bs x) = (if x = b_prev (bs b) then b_next (bs b) else b_next (bs x))"
    and "b_prev (unlink b bs x) = (if x = b_next (bs b) then b_prev (bs b) else b_prev (bs x))"
  using assms by (auto simp: unlink_def Let_def)

lemma links_unlink_frame:
  assumes "links bs a xs c" "b_next (bs b) \<noteq> b"
    and "b_prev (bs b) \<notin> insert a (set xs)" "b_next (bs b) \<notin> insert c (set xs)"
  shows "links (unlink b bs) a xs c"
proof (rule links_cong [OF assms(1)])
  fix x assume "x \<in> insert a (set xs)"
  then have "x \<noteq> b_prev (bs b)" using assms(3) by metis
  then show "b_next (unlink b bs x) = b_next (bs x)" by (simp add: unlink_links assms(2))
next
  fix x assume "x \<in> insert c (set xs)"
  then have "x \<noteq> b_next (bs b)" using assms(4) by metis
  then show "b_prev (unlink b bs x) = b_prev (bs x)" by (simp add: unlink_links assms(2))
qed

lemma links_unlink:
  assumes c: "links bs a (xs @ b # ys) c" and d: "distinct (xs @ b # ys)"
    and ac: "a \<notin> set (xs @ b # ys)" "c \<notin> set (xs @ b # ys)"
  shows "links (unlink b bs) a (xs @ ys) c"
proof -
  have 1: "links bs a xs b" and 2: "links bs b ys c" using c by (auto simp: links_append)
  have pv: "b_prev (bs b) = (if xs = [] then a else last xs)" by (rule links_prev [OF 1])
  have nx: "b_next (bs b) = (case ys of [] \<Rightarrow> c | y # _ \<Rightarrow> y)" by (rule links_next [OF 2])
  have nb: "b_next (bs b) \<noteq> b" using d ac nx by (auto split: list.splits)
  note l = unlink_links [where bs = bs and b = b, OF nb]
  show ?thesis
  proof (cases xs rule: rev_cases)
    case Nil
    show ?thesis
    proof (cases ys)
      case Nil
      then show ?thesis using \<open>xs = []\<close> pv nx by (simp add: l)
    next
      case (Cons y zs)
      have "links (unlink b bs) y zs c"
        using d ac \<open>xs = []\<close> Cons 2 by (intro links_unlink_frame [where bs = bs, OF _ nb]) (auto simp: pv nx)
      then show ?thesis using \<open>xs = []\<close> Cons pv nx by (simp add: l)
    qed
  next
    case (snoc us u)
    have a: "links (unlink b bs) a us u"
      using d ac snoc 1
      by (intro links_unlink_frame [where bs = bs, OF _ nb]) (auto simp: pv nx links_append split: list.splits)
    show ?thesis
    proof (cases ys)
      case Nil
      then show ?thesis using snoc a pv nx by (simp add: l links_append)
    next
      case (Cons y zs)
      have "links (unlink b bs) y zs c"
        using d ac snoc Cons 2 by (intro links_unlink_frame [where bs = bs, OF _ nb]) (auto simp: pv nx)
      then show ?thesis using snoc Cons a pv nx by (simp add: l links_append)
    qed
  qed
qed

lemma link_front_links:
  assumes "b \<noteq> NBUF" "b_next (bs NBUF) \<noteq> b"
  shows "b_next (link_front b bs x) =
      (if x = NBUF then b else if x = b then b_next (bs NBUF) else b_next (bs x))"
    and "b_prev (link_front b bs x) =
      (if x = b then NBUF else if x = b_next (bs NBUF) then b else b_prev (bs x))"
  using assms by (auto simp: link_front_def Let_def)

lemma links_link_front:
  assumes c: "links bs NBUF xs NBUF" and b: "b \<noteq> NBUF" "b \<notin> set xs" and "NBUF \<notin> set xs" "distinct xs"
  shows "links (link_front b bs) NBUF (b # xs) NBUF"
proof -
  have nx: "b_next (bs NBUF) = (case xs of [] \<Rightarrow> NBUF | x # _ \<Rightarrow> x)" by (rule links_next [OF c])
  have nb: "b_next (bs NBUF) \<noteq> b" using b nx by (auto split: list.splits)
  note l = link_front_links [where bs = bs and b = b, OF b(1) nb]
  show ?thesis
  proof (cases xs)
    case Nil
    then show ?thesis using b nx by (simp add: l)
  next
    case (Cons y ys)
    have "links (link_front b bs) y ys NBUF"
    proof (rule links_cong [of bs])
      show "links bs y ys NBUF" using c Cons by simp
    next
      fix x assume "x \<in> insert y (set ys)"
      then have "x \<noteq> NBUF" "x \<noteq> b" using Cons b assms(4) by auto
      then show "b_next (link_front b bs x) = b_next (bs x)" by (simp add: l)
    next
      fix x assume "x \<in> insert NBUF (set ys)"
      then have "x \<noteq> b" "x \<noteq> y" using Cons b assms(4,5) by auto
      then show "b_prev (link_front b bs x) = b_prev (bs x)" using nx Cons by (simp add: l)
    qed
    then show ?thesis using b Cons nx assms(4) by (simp add: l)
  qed
qed

lemma ring_move_front:
  assumes "ring bs xs" "b < NBUF"
  shows "ring (link_front b (unlink b bs)) (b # remove1 b xs)"
proof -
  have "b \<in> set xs" using assms by (simp add: ring_def)
  then obtain us vs where s: "xs = us @ b # vs" "b \<notin> set us" by (metis split_list_first)
  have r: "remove1 b xs = us @ vs" using s by (simp add: remove1_append)
  have u: "links (unlink b bs) NBUF (us @ vs) NBUF"
    using assms s by (intro links_unlink) (auto simp: ring_def)
  have st: "set xs = {0..<NBUF}" "distinct xs" using assms by (auto simp: ring_def)
  have n: "NBUF \<notin> set (us @ vs)" "b \<notin> set (us @ vs)" "distinct (us @ vs)"
  proof -
    have "NBUF \<notin> set xs" using st by simp
    then show "NBUF \<notin> set (us @ vs)" using s by simp
  qed (use s st in auto)
  have "links (link_front b (unlink b bs)) NBUF (b # us @ vs) NBUF"
    by (rule links_link_front [OF u _ n(2,1,3)]) (use assms in simp)
  moreover have "set (b # us @ vs) = {0..<NBUF}" using st s by auto
  ultimately show ?thesis using n r by (auto simp: ring_def)
qed

lemma ring_cong:
  assumes "ring bs xs" "\<And>x. b_next (bs' x) = b_next (bs x)" "\<And>x. b_prev (bs' x) = b_prev (bs x)"
  shows "ring bs' xs"
  using assms unfolding ring_def by (auto intro: links_cong)

lemma ring_length: "ring bs xs \<Longrightarrow> length xs = NBUF"
  by (metis ring_def distinct_card card_atLeastLessThan diff_zero)

lemma ring_scan_next:
  assumes "ring bs xs"
  shows "bscan b_next bs P (Suc NBUF) (b_next (bs NBUF)) = Some (find (\<lambda>b. P (bs b)) xs)"
  using assms ring_length [OF assms] by (intro bscan_next) (auto simp: ring_def)

lemma ring_scan_prev:
  assumes "ring bs xs"
  shows "bscan b_prev bs P (Suc NBUF) (b_prev (bs NBUF)) = Some (find (\<lambda>b. P (bs b)) (rev xs))"
  using assms ring_length [OF assms] by (intro bscan_prev) (auto simp: ring_def)

lemma links_upd:
  assumes "links bs a xs c" "b_next x = b_next (bs n)" "b_prev x = b_prev (bs n)"
  shows "links (bs(n := x)) a xs c"
  by (rule links_cong [OF assms(1)]) (simp_all add: assms)

lemma links_binit:
  assumes "n \<le> NBUF"
  shows "links (fold binit_buf [0..<n] (bs(NBUF := (bs NBUF)\<lparr>b_prev := NBUF, b_next := NBUF\<rparr>)))
    NBUF (rev [0..<n]) NBUF"
  using assms
proof (induction n)
  case (Suc n)
  let ?bs = "fold binit_buf [0..<n] (bs(NBUF := (bs NBUF)\<lparr>b_prev := NBUF, b_next := NBUF\<rparr>))"
  have "links ?bs NBUF (rev [0..<n]) NBUF" by (rule Suc.IH) (use Suc.prems in simp)
  from links_upd [OF this, of "(?bs n)\<lparr>b_lock := \<lparr>sl_locked = False, sl_pid = 0\<rparr>\<rparr>" n]
  have "links (binit_buf n ?bs) NBUF (n # rev [0..<n]) NBUF"
    unfolding binit_buf_def by (rule links_link_front) (use Suc.prems in auto)
  then show ?case by (simp del: links.simps fun_upd_apply)
qed simp

section \<open>The invariant of the cache\<close>

text \<open>
  The invariant, as the thread of process \<open>p\<close> sees it between two operations: \<open>L\<close> is the list of the buffers it
  has locked, \<open>D\<close> the set of the blocks that \<open>log_write\<close> has pinned.
\<close>

definition cached :: "kstate \<Rightarrow> u32 \<Rightarrow> nat \<Rightarrow> bool" where
  "cached s no b \<longleftrightarrow> b < NBUF \<and> b_dev (bufs s b) = ROOTDEV \<and> b_blockno (bufs s b) = no"

definition content :: "kstate \<Rightarrow> u32 \<Rightarrow> u8 list" where
  "content s no = (case filter (cached s no) [0..<NBUF] of [] \<Rightarrow> disk s no | b # _ \<Rightarrow> b_data (bufs s b))"

definition buf_ok :: "c_int \<Rightarrow> nat list \<Rightarrow> u32 set \<Rightarrow> (u32 \<Rightarrow> u8 list) \<Rightarrow> nat \<Rightarrow> buf \<Rightarrow> bool" where
  "buf_ok pid L D d b x \<longleftrightarrow>
     (sl_locked (b_lock x) \<longleftrightarrow> b \<in> set L) \<and>
     (b \<in> set L \<longrightarrow> b_dev x = ROOTDEV \<and> sl_pid (b_lock x) = pid) \<and>
     (b_dev x = ROOTDEV \<longrightarrow> b_valid x \<and> length (b_data x) = BSIZE) \<and>
     unat (b_refcnt x) = of_bool (b \<in> set L) + of_bool (b_dev x = ROOTDEV \<and> b_blockno x \<in> D) \<and>
     (b_dev x = ROOTDEV \<and> b \<notin> set L \<and> b_blockno x \<notin> D \<longrightarrow> b_data x = d (b_blockno x))"

definition cache_inv :: "nat \<Rightarrow> nat list \<Rightarrow> u32 set \<Rightarrow> kstate \<Rightarrow> bool" where
  "cache_inv p L D s \<longleftrightarrow>
     curproc s = Some p \<and> held s = [] \<and> (\<exists>xs. ring (bufs s) xs) \<and>
     (\<forall>no b c. cached s no b \<and> cached s no c \<longrightarrow> b = c) \<and>
     (\<forall>b<NBUF. buf_ok (p_pid (procs s p)) L D (disk s) b (bufs s b)) \<and>
     distinct L \<and> set L \<subseteq> {0..<NBUF} \<and> finite D \<and> (\<forall>no\<in>D. \<exists>b. cached s no b) \<and>
     (\<forall>no. length (disk s no) = BSIZE)"

text \<open>What the operations of the cache may change.\<close>

definition cache_step :: "kstate \<Rightarrow> kstate \<Rightarrow> bool" where
  "cache_step s t \<longleftrightarrow>
     (\<exists>k P B d w. t = s\<lparr>klog := k, procs := P, bufs := B, disk := d, disk_writes := w\<rparr> \<and>
       (\<forall>q. \<exists>st ch. P q = (procs s q)\<lparr>p_state := st, p_chan := ch\<rparr>))"

lemma cache_stepI:
  assumes "\<And>q. P q = (procs s q)\<lparr>p_state := p_state (P q), p_chan := p_chan (P q)\<rparr>"
  shows "cache_step s (s\<lparr>klog := k, procs := P, bufs := B, disk := d, disk_writes := w\<rparr>)"
  using assms unfolding cache_step_def by blast

lemma cache_step_refl [simp]: "cache_step s s"
  using cache_stepI [where k = "klog s" and P = "procs s" and s = s and B = "bufs s" and d = "disk s" and w = "disk_writes s"] by simp

lemma cache_step_bufs: "cache_step s (s\<lparr>bufs := B\<rparr>)"
  using cache_stepI [where k = "klog s" and P = "procs s" and s = s and B = B and d = "disk s" and w = "disk_writes s"] by simp

lemma cache_step_klog: "cache_step s (s\<lparr>klog := k\<rparr>)"
  using cache_stepI [where k = k and P = "procs s" and s = s and B = "bufs s" and d = "disk s" and w = "disk_writes s"]
  by simp

lemma cache_step_trans [trans]:
  assumes "cache_step r s" "cache_step s t"
  shows "cache_step r t"
proof -
  obtain k P B d w where 1: "s = r\<lparr>klog := k, procs := P, bufs := B, disk := d, disk_writes := w\<rparr>"
    "\<And>q. \<exists>st ch. P q = (procs r q)\<lparr>p_state := st, p_chan := ch\<rparr>"
    using assms(1) unfolding cache_step_def by blast
  obtain k' P' B' d' w' where 2: "t = s\<lparr>klog := k', procs := P', bufs := B', disk := d', disk_writes := w'\<rparr>"
    "\<And>q. \<exists>st ch. P' q = (procs s q)\<lparr>p_state := st, p_chan := ch\<rparr>"
    using assms(2) unfolding cache_step_def by blast
  have "\<exists>st ch. P' q = (procs r q)\<lparr>p_state := st, p_chan := ch\<rparr>" for q
  proof -
    obtain st ch where "P' q = (procs s q)\<lparr>p_state := st, p_chan := ch\<rparr>" using 2 by blast
    moreover obtain st' ch' where "P q = (procs r q)\<lparr>p_state := st', p_chan := ch'\<rparr>" using 1 by blast
    ultimately have "P' q = (procs r q)\<lparr>p_state := st, p_chan := ch\<rparr>" using 1(1) by simp
    then show ?thesis by blast
  qed
  moreover have "t = r\<lparr>klog := k', procs := P', bufs := B', disk := d', disk_writes := w'\<rparr>" using 1 2 by simp
  ultimately show ?thesis unfolding cache_step_def by blast
qed

lemma cache_step_fields:
  assumes "cache_step s t"
  shows "lg t = lg s" "itable t = itable s" "curproc t = curproc s" "held t = held s" "mem t = mem s"
    "sblk t = sblk s" "freelist t = freelist s" "p_pid (procs t q) = p_pid (procs s q)"
proof -
  obtain k P B d w where t: "t = s\<lparr>klog := k, procs := P, bufs := B, disk := d, disk_writes := w\<rparr>"
    "\<And>q. \<exists>st ch. P q = (procs s q)\<lparr>p_state := st, p_chan := ch\<rparr>"
    using assms unfolding cache_step_def by blast
  obtain st ch where "P q = (procs s q)\<lparr>p_state := st, p_chan := ch\<rparr>" using t by blast
  then show "p_pid (procs t q) = p_pid (procs s q)" using t by simp
qed (use assms in \<open>auto simp: cache_step_def\<close>)

section \<open>Contents\<close>

lemma content_cached:
  assumes "cache_inv p L D s" "cached s no b"
  shows "content s no = b_data (bufs s b)"
proof -
  have u: "c = b" if "cached s no c" for c using assms that unfolding cache_inv_def by blast
  have "filter (cached s no) [0..<NBUF] \<noteq> []"
    using assms(2) by (auto simp: filter_empty_conv cached_def)
  then obtain c cs where f: "filter (cached s no) [0..<NBUF] = c # cs" by (meson neq_Nil_conv)
  then have "c \<in> set (filter (cached s no) [0..<NBUF])" by simp
  then have "c = b" using u by simp
  then show ?thesis by (simp add: content_def f)
qed

lemma content_uncached: "(\<And>b. \<not> cached s no b) \<Longrightarrow> content s no = disk s no"
  by (simp add: content_def)

lemma content_clean:
  assumes inv: "cache_inv p [] D s" and no: "no \<notin> D"
  shows "content s no = disk s no"
proof (cases "\<exists>b. cached s no b")
  case True
  then obtain b where b: "cached s no b" by blast
  then have "buf_ok (p_pid (procs s p)) [] D (disk s) b (bufs s b)" using inv by (simp add: cache_inv_def cached_def)
  then show ?thesis using content_cached [OF inv b] no b by (simp add: buf_ok_def cached_def)
qed (auto intro: content_uncached)

declare bscan.simps [simp del]

section \<open>Reading a block\<close>

lemma acquiresleep_buf:
  assumes "curproc s = Some p" "held s = []" "\<not> sl_locked (b_lock (bufs s b))"
  shows "acquiresleep (buf_slock b) s =
    Ok () (upd_buf b (\<lambda>x. x\<lparr>b_lock := \<lparr>sl_locked = True, sl_pid = p_pid (procs s p)\<rparr>\<rparr>) s)"
  using assms by (simp add: acquiresleep_def buf_slock_def upd_buf_def release_run)

lemma bget_hit:
  assumes "cache_inv p L D s" "cached s no b" "b \<notin> set L"
  shows "bget ROOTDEV no s = Ok b (upd_buf b (\<lambda>x. x\<lparr>b_refcnt := b_refcnt x + 1,
    b_lock := \<lparr>sl_locked = True, sl_pid = p_pid (procs s p)\<rparr>\<rparr>) s)"
proof -
  obtain xs where r: "ring (bufs s) xs" using assms(1) by (auto simp: cache_inv_def)
  let ?P = "\<lambda>b. b_dev b = ROOTDEV \<and> b_blockno b = no"
  have "find (\<lambda>b. ?P (bufs s b)) xs = Some b"
  proof -
    have "b \<in> set xs" using r assms(2) by (auto simp: ring_def cached_def)
    moreover have "?P (bufs s b)" using assms(2) by (simp add: cached_def)
    ultimately obtain c where c: "find (\<lambda>b. ?P (bufs s b)) xs = Some c" "c \<in> set xs" "?P (bufs s c)"
      by (metis (mono_tags, lifting) find_None_iff find_Some_iff nth_mem option.exhaust)
    then have "cached s no c" using r by (auto simp: ring_def cached_def)
    then have "c = b" using assms unfolding cache_inv_def by blast
    then show ?thesis using c by simp
  qed
  moreover have "held s = []" "curproc s = Some p" "\<not> sl_locked (b_lock (bufs s b))"
    using assms by (auto simp: cache_inv_def buf_ok_def cached_def)
  ultimately show ?thesis
    by (simp add: bget_def ring_scan_next [OF r] acquiresleep_buf upd_buf_def bnd_Ok seq_Ok)
qed

text \<open>A buffer that nothing holds exists as long as the locked and the pinned ones are not all.\<close>

lemma free_buffer:
  assumes inv: "cache_inv p L D s" and room: "card D + length L < NBUF"
  shows "\<exists>b<NBUF. b_refcnt (bufs s b) = 0"
proof (rule ccontr)
  assume no: "\<not> ?thesis"
  let ?Q = "{b. b < NBUF \<and> b_dev (bufs s b) = ROOTDEV \<and> b_blockno (bufs s b) \<in> D}"
  have "b \<in> set L \<union> ?Q" if "b < NBUF" for b
  proof -
    have "buf_ok (p_pid (procs s p)) L D (disk s) b (bufs s b)" using inv that by (simp add: cache_inv_def)
    moreover have "unat (b_refcnt (bufs s b)) \<noteq> 0" using no that by (simp add: unat_eq_0)
    ultimately show ?thesis using that by (auto simp: buf_ok_def)
  qed
  then have sub: "{0..<NBUF} \<subseteq> set L \<union> ?Q" by (meson atLeastLessThan_iff subsetI)
  have "inj_on (\<lambda>b. b_blockno (bufs s b)) ?Q"
    using inv unfolding cache_inv_def cached_def inj_on_def by blast
  then have "card ?Q \<le> card D"
    using inv by (intro card_inj_on_le) (auto simp: cache_inv_def)
  moreover have "card (set L) \<le> length L" by (rule card_length)
  moreover have "card {0..<NBUF} \<le> card (set L \<union> ?Q)" using sub by (intro card_mono) auto
  moreover have "card (set L \<union> ?Q) \<le> card (set L) + card ?Q" by (rule card_Un_le)
  ultimately show False using room by simp
qed

lemma bget_miss:
  assumes inv: "cache_inv p L D s" and miss: "\<And>b. \<not> cached s no b" and room: "card D + length L < NBUF"
    and r: "ring (bufs s) xs"
  obtains b where "find (\<lambda>b. b_refcnt (bufs s b) = 0) (rev xs) = Some b"
    "b < NBUF" "b \<notin> set L" "b_refcnt (bufs s b) = 0"
    "bget ROOTDEV no s = Ok b (upd_buf b (\<lambda>x. x\<lparr>b_dev := ROOTDEV, b_blockno := no, b_valid := False,
      b_refcnt := 1, b_lock := \<lparr>sl_locked = True, sl_pid = p_pid (procs s p)\<rparr>\<rparr>) s)"
proof -
  have st: "set xs = {0..<NBUF}" using r by (simp add: ring_def)
  let ?P = "\<lambda>b. b_dev b = ROOTDEV \<and> b_blockno b = no"
  have f: "find (\<lambda>b. ?P (bufs s b)) xs = None"
    using miss st by (auto simp: find_None_iff cached_def)
  obtain c where "c \<in> set xs" "b_refcnt (bufs s c) = 0"
    using free_buffer [OF inv room] st by auto
  then obtain b where b: "find (\<lambda>b. b_refcnt (bufs s b) = 0) (rev xs) = Some b"
    by (metis (mono_tags, lifting) find_None_iff option.exhaust set_rev)
  then have b': "b \<in> set xs" "b_refcnt (bufs s b) = 0"
    by (metis (no_types, lifting) find_Some_iff nth_mem set_rev, metis (mono_tags, lifting) find_Some_iff)
  then have bn: "b < NBUF" using st by auto
  then have ok: "buf_ok (p_pid (procs s p)) L D (disk s) b (bufs s b)" using inv by (simp add: cache_inv_def)
  then have bl: "b \<notin> set L" using b'(2) by (auto simp: buf_ok_def)
  then have "\<not> sl_locked (b_lock (bufs s b))" using ok by (simp add: buf_ok_def)
  moreover have "held s = []" "curproc s = Some p" using inv by (simp_all add: cache_inv_def)
  ultimately have "bget ROOTDEV no s = Ok b (upd_buf b (\<lambda>x. x\<lparr>b_dev := ROOTDEV, b_blockno := no, b_valid := False,
      b_refcnt := 1, b_lock := \<lparr>sl_locked = True, sl_pid = p_pid (procs s p)\<rparr>\<rparr>) s)"
    using f b
    by (simp add: bget_def ring_scan_next [OF r] ring_scan_prev [OF r] acquiresleep_buf upd_buf_def bnd_Ok seq_Ok)
  then show thesis using that [OF b bn bl b'(2)] by simp
qed

lemma bget_full:
  assumes inv: "cache_inv p L D s" and miss: "\<And>b. \<not> cached s no b" and "\<And>b. b < NBUF \<Longrightarrow> b_refcnt (bufs s b) \<noteq> 0"
  shows "bget ROOTDEV no s = Panic ''bget: no buffers''"
proof -
  obtain xs where r: "ring (bufs s) xs" using inv by (auto simp: cache_inv_def)
  have st: "set xs = {0..<NBUF}" using r by (simp add: ring_def)
  have "find (\<lambda>b. b_dev (bufs s b) = ROOTDEV \<and> b_blockno (bufs s b) = no) xs = None"
    using miss st by (auto simp: find_None_iff cached_def)
  moreover have "find (\<lambda>b. b_refcnt (bufs s b) = 0) (rev xs) = None"
    using assms(3) st by (auto simp: find_None_iff)
  ultimately show ?thesis using inv
    by (simp add: bget_def ring_scan_next [OF r] ring_scan_prev [OF r] cache_inv_def)
qed

lemma virtio_disk_rw_run:
  assumes "curproc s = Some p" "held s = []"
  shows "virtio_disk_rw b False s = Ok () (s\<lparr>procs := (procs s)(p := (procs s p)\<lparr>p_chan := None\<rparr>),
      bufs := (bufs s)(b := (bufs s b)\<lparr>b_data := disk s (b_blockno (bufs s b))\<rparr>)\<rparr>)"
    and "virtio_disk_rw b True s = Ok () (s\<lparr>procs := (procs s)(p := (procs s p)\<lparr>p_chan := None\<rparr>),
      disk := (disk s)(b_blockno (bufs s b) := b_data (bufs s b)),
      disk_writes := disk_writes s @ [(b_blockno (bufs s b), b_data (bufs s b))]\<rparr>)"
  using assms by (simp_all add: virtio_disk_rw_def upd_buf_def upd_proc_def release_run)

section \<open>Preservation of the invariant\<close>

lemma cache_invD:
  assumes "cache_inv p L D s"
  shows "curproc s = Some p" "held s = []" "finite D" "distinct L" "set L \<subseteq> {0..<NBUF}"
    "length (disk s no) = BSIZE" "b < NBUF \<Longrightarrow> buf_ok (p_pid (procs s p)) L D (disk s) b (bufs s b)"
    "cached s no b \<Longrightarrow> cached s no c \<Longrightarrow> b = c" "no \<in> D \<Longrightarrow> \<exists>b. cached s no b"
  using assms unfolding cache_inv_def by blast+

lemma buf_ok_cong:
  assumes "buf_ok pid L D d b x" "b \<in> set L' \<longleftrightarrow> b \<in> set L"
    and "b_dev x = ROOTDEV \<Longrightarrow> (b_blockno x \<in> D' \<longleftrightarrow> b_blockno x \<in> D)"
    and "b_dev x = ROOTDEV \<Longrightarrow> b \<notin> set L \<Longrightarrow> b_blockno x \<notin> D \<Longrightarrow> d' (b_blockno x) = d (b_blockno x)"
  shows "buf_ok pid L' D' d' b x"
  using assms by (auto simp: buf_ok_def)

text \<open>The invariant after a change of one buffer, of the disk, of the locks and of the pins.\<close>

lemma cache_inv_upd:
  assumes inv: "cache_inv p L D s"
    and t: "bufs t = (bufs s)(b := x)" "curproc t = curproc s" "held t = held s"
      "p_pid (procs t p) = p_pid (procs s p)"
    and x: "b < NBUF" "b_next x = b_next (bufs s b)" "b_prev x = b_prev (bufs s b)"
      "buf_ok (p_pid (procs s p)) L' D' (disk t) b x"
    and u: "\<And>c. b_dev x = ROOTDEV \<Longrightarrow> cached s (b_blockno x) c \<Longrightarrow> c = b"
    and L: "distinct L'" "set L' \<subseteq> {0..<NBUF}" "\<And>c. c \<noteq> b \<Longrightarrow> c \<in> set L' \<longleftrightarrow> c \<in> set L"
    and D: "finite D'" "\<And>c. cached s (b_blockno (bufs s c)) c \<Longrightarrow> c \<noteq> b \<Longrightarrow>
        b_blockno (bufs s c) \<in> D' \<longleftrightarrow> b_blockno (bufs s c) \<in> D"
      "\<And>no. no \<in> D' \<Longrightarrow> (b_dev x = ROOTDEV \<and> b_blockno x = no) \<or> (\<exists>c. c \<noteq> b \<and> cached s no c)"
    and d: "\<And>c. cached s (b_blockno (bufs s c)) c \<Longrightarrow> c \<noteq> b \<Longrightarrow>
        disk t (b_blockno (bufs s c)) = disk s (b_blockno (bufs s c))" "\<And>no. length (disk t no) = BSIZE"
  shows "cache_inv p L' D' t"
proof -
  note i = cache_invD [OF inv]
  have cc: "cached t no c \<longleftrightarrow> (if c = b then b_dev x = ROOTDEV \<and> b_blockno x = no else cached s no c)" for no c
    using t(1) x(1) by (simp add: cached_def)
  obtain xs where "ring (bufs s) xs" using inv by (auto simp: cache_inv_def)
  then have "ring (bufs t) xs" by (rule ring_cong) (simp_all add: x t)
  then have "\<exists>xs. ring (bufs t) xs" by blast
  moreover have "c = c'" if "cached t no c" "cached t no c'" for no c c'
  proof (cases "c = b \<or> c' = b")
    case True
    then have "b_dev x = ROOTDEV \<and> b_blockno x = no" using that by (auto simp: cc)
    then show ?thesis using that u by (metis cc)
  qed (use that i(8) in \<open>simp add: cc\<close>)
  moreover have "buf_ok (p_pid (procs t p)) L' D' (disk t) c (bufs t c)" if "c < NBUF" for c
  proof (cases "c = b")
    case False
    have "buf_ok (p_pid (procs s p)) L' D' (disk t) c (bufs s c)"
      by (rule buf_ok_cong [OF i(7) [OF that]]) (use False that L D d in \<open>auto simp: cached_def\<close>)
    then show ?thesis using t False by simp
  qed (use x t in simp)
  moreover have "\<exists>c. cached t no c" if "no \<in> D'" for no
    using D(3) [OF that] by (auto simp: cc)
  moreover have "curproc t = Some p" "held t = []" by (simp_all add: t i)
  ultimately show ?thesis unfolding cache_inv_def using L(1,2) D(1) d(2) by blast
qed

lemma cache_inv_same:
  assumes inv: "cache_inv p L D s" and b: "cached s no b"
    and t: "bufs t = (bufs s)(b := x)" "curproc t = curproc s" "held t = held s"
      "p_pid (procs t p) = p_pid (procs s p)"
    and x: "b_next x = b_next (bufs s b)" "b_prev x = b_prev (bufs s b)" "b_dev x = ROOTDEV" "b_blockno x = no"
      "buf_ok (p_pid (procs s p)) L' D (disk t) b x"
    and L: "distinct L'" "set L' \<subseteq> {0..<NBUF}" "\<And>c. c \<noteq> b \<Longrightarrow> c \<in> set L' \<longleftrightarrow> c \<in> set L"
    and d: "\<And>n. n \<noteq> no \<Longrightarrow> disk t n = disk s n" "length (disk t no) = BSIZE"
  shows "cache_inv p L' D t"
proof (rule cache_inv_upd [OF inv t _ x(1,2,5) _ L])
  note i = cache_invD [OF inv]
  show "b < NBUF" using b by (simp add: cached_def)
  show "c = b" if "cached s (b_blockno x) c" for c using that x(4) b i(8) by simp
  show "finite D" by (rule i(3))
  show "b_dev x = ROOTDEV \<and> b_blockno x = n \<or> (\<exists>c. c \<noteq> b \<and> cached s n c)" if "n \<in> D" for n
  proof (cases "n = no")
    case False
    obtain c where "cached s n c" using i(9) [OF \<open>n \<in> D\<close>] by blast
    then show ?thesis using False b by (auto simp: cached_def)
  qed (use x in simp)
  show "disk t (b_blockno (bufs s c)) = disk s (b_blockno (bufs s c))"
    if "cached s (b_blockno (bufs s c)) c" "c \<noteq> b" for c
  proof -
    have "b_blockno (bufs s c) \<noteq> no" using that b i(8) by blast
    then show ?thesis by (rule d(1))
  qed
  show "length (disk t n) = BSIZE" for n using d i(6) by (cases "n = no") simp_all
qed simp_all

lemma content_upd:
  assumes inv: "cache_inv p L D s" "cache_inv p' L' D' t"
    and t: "bufs t = (bufs s)(b := x)" "disk t = disk s"
    and b: "b < NBUF" "b_dev (bufs s b) = ROOTDEV \<Longrightarrow> \<not> (b_dev x = ROOTDEV \<and> b_blockno x = b_blockno (bufs s b)) \<Longrightarrow>
      b_data (bufs s b) = disk s (b_blockno (bufs s b))"
  shows "content t no = (if b_dev x = ROOTDEV \<and> b_blockno x = no then b_data x else content s no)"
proof -
  have cc: "cached t no c \<longleftrightarrow> (if c = b then b_dev x = ROOTDEV \<and> b_blockno x = no else cached s no c)" for c
    using t(1) b(1) by (simp add: cached_def)
  show ?thesis
  proof (cases "b_dev x = ROOTDEV \<and> b_blockno x = no")
    case True
    then have "cached t no b" by (simp add: cc)
    then show ?thesis using content_cached [OF inv(2)] t True by simp
  next
    case False
    note nx = this
    show ?thesis
    proof (cases "\<exists>c. c \<noteq> b \<and> cached s no c")
      case True
      then obtain c where c: "c \<noteq> b" "cached s no c" by blast
      then have "cached t no c" by (simp add: cc)
      then show ?thesis using c nx content_cached [OF inv(2)] content_cached [OF inv(1)] t by auto
    next
      case False
      then have "content t no = disk t no" using nx by (intro content_uncached) (auto simp: cc)
      moreover have "content s no = disk s no"
      proof (cases "cached s no b")
        case True
        then show ?thesis using content_cached [OF inv(1) True] b nx by (auto simp: cached_def)
      next
        case nb: False
        then have "\<not> cached s no c" for c using False by (cases "c = b") auto
        then show ?thesis by (rule content_uncached)
      qed
      ultimately show ?thesis using nx t by auto
    qed
  qed
qed

section \<open>The operations on blocks\<close>

lemma not_held_blockno:
  assumes "cache_inv p L D s" "cached s no b" "\<And>c. c \<in> set L \<Longrightarrow> b_blockno (bufs s c) \<noteq> no"
  shows "b \<notin> set L"
  using assms by (auto simp: cached_def)

text \<open>The buffer a miss leaves, and the state.\<close>

definition filled :: "kstate \<Rightarrow> nat \<Rightarrow> u32 \<Rightarrow> nat \<Rightarrow> buf" where
  "filled s p no b = (bufs s b)\<lparr>b_dev := ROOTDEV, b_blockno := no, b_refcnt := 1,
     b_lock := \<lparr>sl_locked = True, sl_pid = p_pid (procs s p)\<rparr>, b_data := disk s no, b_valid := True\<rparr>"

lemma bread_miss:
  assumes inv: "cache_inv p L D s" and miss: "\<And>b. \<not> cached s no b" and room: "card D + length L < NBUF"
    and r: "ring (bufs s) xs"
  obtains b where "find (\<lambda>b. b_refcnt (bufs s b) = 0) (rev xs) = Some b"
    "b < NBUF" "b \<notin> set L" "b_refcnt (bufs s b) = 0"
    "bread ROOTDEV no s = Ok b (s\<lparr>procs := (procs s)(p := (procs s p)\<lparr>p_chan := None\<rparr>),
      bufs := (bufs s)(b := filled s p no b)\<rparr>)"
proof (rule bget_miss [OF assms])
  fix b assume b: "find (\<lambda>b. b_refcnt (bufs s b) = 0) (rev xs) = Some b"
    "b < NBUF" "b \<notin> set L" "b_refcnt (bufs s b) = 0"
    and g: "bget ROOTDEV no s = Ok b (upd_buf b (\<lambda>x. x\<lparr>b_dev := ROOTDEV, b_blockno := no, b_valid := False,
      b_refcnt := 1, b_lock := \<lparr>sl_locked = True, sl_pid = p_pid (procs s p)\<rparr>\<rparr>) s)"
  have "bread ROOTDEV no s = Ok b (s\<lparr>procs := (procs s)(p := (procs s p)\<lparr>p_chan := None\<rparr>),
      bufs := (bufs s)(b := filled s p no b)\<rparr>)"
    using g cache_invD(1,2) [OF inv] by (simp add: bread_def bnd_Ok upd_buf_def seq_Ok virtio_disk_rw_run filled_def)
  with b show thesis by (rule that)
qed

lemma bread_run:
  assumes inv: "cache_inv p L D s"
    and nl: "\<And>c. c \<in> set L \<Longrightarrow> b_blockno (bufs s c) \<noteq> no"
    and room: "(\<exists>b. cached s no b) \<or> card D + length L < NBUF"
  obtains b t where "bread ROOTDEV no s = Ok b t" "cache_inv p (b # L) D t" "cached t no b" "b \<notin> set L"
    "b_data (bufs t b) = content s no" "content t = content s" "disk t = disk s"
    "disk_writes t = disk_writes s" "cache_step s t" "\<And>c. c \<noteq> b \<Longrightarrow> bufs t c = bufs s c"
proof -
  note i = cache_invD [OF inv]
  let ?lk = "\<lparr>sl_locked = True, sl_pid = p_pid (procs s p)\<rparr>"
  consider b where "cached s no b" | "\<And>b. \<not> cached s no b" by blast
  then show thesis
  proof cases
    case 1
    then have bL: "b \<notin> set L" and bn: "b < NBUF" using nl by (auto simp: cached_def)
    let ?x = "(bufs s b)\<lparr>b_refcnt := b_refcnt (bufs s b) + 1, b_lock := ?lk\<rparr>"
    let ?t = "upd_buf b (\<lambda>_. ?x) s"
    have ok: "buf_ok (p_pid (procs s p)) L D (disk s) b (bufs s b)" using i(7) bn by blast
    have rc: "unat (b_refcnt (bufs s b) + 1) = Suc (unat (b_refcnt (bufs s b)))"
    proof -
      have "unat (b_refcnt (bufs s b)) \<le> 1" using ok bL by (simp add: buf_ok_def)
      then have "unat (b_refcnt (bufs s b)) + unat (1::u32) < 2 ^ LENGTH(32)" by simp
      then show ?thesis by (simp add: unat_add_lem [THEN iffD1])
    qed
    have dv: "b_dev (bufs s b) = ROOTDEV" "b_blockno (bufs s b) = no" using 1 by (auto simp: cached_def)
    have ti: "cache_inv p (b # L) D ?t"
      by (rule cache_inv_same [OF inv 1, of _ ?x])
        (use bn bL ok i(4-6) dv in \<open>auto simp: upd_buf_def buf_ok_def rc\<close>)
    have "b_valid (bufs s b)" using ok dv by (simp add: buf_ok_def)
    then have "bread ROOTDEV no s = Ok b ?t"
      using bget_hit [OF inv 1 bL] by (simp add: bread_def bnd_Ok upd_buf_def)
    moreover have "content ?t n = content s n" for n
      using content_upd [OF inv ti, of b ?x n] content_cached [OF inv 1] dv bn by (auto simp: upd_buf_def)
    ultimately show thesis
      using that [of b ?t] ti bL 1 content_cached [OF inv 1]
      by (auto simp: upd_buf_def cached_def cache_step_bufs)
  next
    case 2
    note miss = this
    have room': "card D + length L < NBUF" using room miss by blast
    obtain xs where "ring (bufs s) xs" using inv by (auto simp: cache_inv_def)
    from bread_miss [OF inv miss room' this]
    obtain b where b: "b < NBUF" "b \<notin> set L" "b_refcnt (bufs s b) = 0"
      and run: "bread ROOTDEV no s = Ok b (s\<lparr>procs := (procs s)(p := (procs s p)\<lparr>p_chan := None\<rparr>),
        bufs := (bufs s)(b := filled s p no b)\<rparr>)" .
    let ?x = "filled s p no b"
    let ?t = "s\<lparr>procs := (procs s)(p := (procs s p)\<lparr>p_chan := None\<rparr>), bufs := (bufs s)(b := ?x)\<rparr>"
    have ok: "buf_ok (p_pid (procs s p)) L D (disk s) b (bufs s b)" using i(7) b by blast
    have nD: "b_dev (bufs s b) = ROOTDEV \<Longrightarrow> b_blockno (bufs s b) \<notin> D" using ok b by (auto simp: buf_ok_def)
    have nm: "no \<notin> D" using miss i(9) by blast
    have cl: "b_dev (bufs s b) = ROOTDEV \<Longrightarrow> b_data (bufs s b) = disk s (b_blockno (bufs s b))"
      using ok b nD by (simp add: buf_ok_def)
    have oth: "\<exists>c. c \<noteq> b \<and> cached s n c" if "n \<in> D" for n
      using i(9) [OF that] nD that unfolding cached_def by metis
    have ti: "cache_inv p (b # L) D ?t"
      by (rule cache_inv_upd [OF inv, of _ b ?x])
        (use b i(3-6) nm oth miss in \<open>auto simp: buf_ok_def filled_def\<close>)
    have "content ?t n = content s n" for n
      using content_upd [OF inv ti, of b ?x n] content_uncached [OF miss] cl b by (auto simp: filled_def)
    moreover have "cache_step s ?t"
      using cache_stepI [where k = "klog s" and P = "(procs s)(p := (procs s p)\<lparr>p_chan := None\<rparr>)" and s = s and
        B = "(bufs s)(b := ?x)" and d = "disk s" and w = "disk_writes s"] by simp
    ultimately show thesis
      using that [OF run ti] b content_uncached [OF miss] by (auto simp: cached_def filled_def)
  qed
qed

text \<open>Changing the data of a locked buffer, and writing it to the disk.\<close>

lemma set_data_run:
  assumes inv: "cache_inv p L D s" and b: "b \<in> set L" "cached s no b" and len: "length d = BSIZE"
  defines "t \<equiv> upd_buf b (\<lambda>x. x\<lparr>b_data := d\<rparr>) s"
  shows "cache_inv p L D t" "content t = (content s)(no := d)" "cache_step s t"
proof -
  note i = cache_invD [OF inv]
  let ?x = "(bufs s b)\<lparr>b_data := d\<rparr>"
  have bn: "b < NBUF" "b_dev (bufs s b) = ROOTDEV" "b_blockno (bufs s b) = no"
    using b by (auto simp: cached_def)
  have ok: "buf_ok (p_pid (procs s p)) L D (disk s) b (bufs s b)" using i(7) bn by blast
  show ti: "cache_inv p L D t"
    by (rule cache_inv_same [OF inv b(2), of _ ?x])
      (use bn b ok i(4-6) len in \<open>auto simp: t_def upd_buf_def buf_ok_def\<close>)
  show "content t = (content s)(no := d)"
    using content_upd [OF inv ti, of b ?x] bn by (auto simp: t_def upd_buf_def fun_eq_iff)
  show "cache_step s t" by (simp add: t_def upd_buf_def cache_step_bufs)
qed

lemma holdingsleep_buf:
  assumes "cache_inv p L D s" "b \<in> set L"
  shows "holdingsleep (buf_slock b) s = Ok True s"
proof -
  have "b < NBUF" using assms cache_invD(5) by fastforce
  then have "buf_ok (p_pid (procs s p)) L D (disk s) b (bufs s b)" using assms(1) by (simp add: cache_invD(7))
  then have "sl_locked (b_lock (bufs s b))" "sl_pid (b_lock (bufs s b)) = p_pid (procs s p)"
    using assms(2) by (simp_all add: buf_ok_def)
  then show ?thesis using cache_invD(1,2) [OF assms(1)]
    by (simp add: holdingsleep_def buf_slock_def seq_release)
qed

lemma bwrite_run:
  assumes inv: "cache_inv p L D s" and b: "b \<in> set L" "cached s no b"
  obtains t where "bwrite b s = Ok () t" "cache_inv p L D t" "bufs t = bufs s"
    "disk t = (disk s)(no := b_data (bufs s b))"
    "disk_writes t = disk_writes s @ [(no, b_data (bufs s b))]" "content t = content s" "cache_step s t"
proof -
  note i = cache_invD [OF inv]
  let ?P = "(procs s)(p := (procs s p)\<lparr>p_chan := None\<rparr>)"
  let ?t = "s\<lparr>procs := ?P, disk := (disk s)(no := b_data (bufs s b)),
      disk_writes := disk_writes s @ [(no, b_data (bufs s b))]\<rparr>"
  have bn: "b < NBUF" "b_dev (bufs s b) = ROOTDEV" "b_blockno (bufs s b) = no"
    using b by (auto simp: cached_def)
  have ok: "buf_ok (p_pid (procs s p)) L D (disk s) b (bufs s b)" using i(7) bn by blast
  have ti: "cache_inv p L D ?t"
    by (rule cache_inv_same [OF inv b(2), of _ "bufs s b"])
      (use bn b ok i(4-6) in \<open>auto simp: buf_ok_def\<close>)
  have "bwrite b s = Ok () ?t"
    using i(1,2) bn by (simp add: bwrite_def holdingsleep_buf [OF inv b(1)] bnd_Ok virtio_disk_rw_run)
  moreover have "content ?t n = content s n" for n
  proof (cases "n = no")
    case True
    have "cached ?t no b" using b(2) by (simp add: cached_def)
    then show ?thesis using True content_cached [OF ti] content_cached [OF inv b(2)] by simp
  next
    case False
    have "cached ?t n = cached s n" by (rule ext) (simp add: cached_def)
    then show ?thesis using False by (simp add: content_def split: list.split)
  qed
  moreover have "cache_step s ?t"
    using cache_stepI [where k = "klog s" and P = ?P and s = s and B = "bufs s" and d = "disk ?t" and w = "disk_writes ?t"]
    by simp
  ultimately show thesis using that [of ?t] ti by auto
qed

text \<open>Releasing a buffer: the links change, and nothing else of the buffers but the lock and the count.\<close>

definition nolinks :: "buf \<Rightarrow> buf" where
  "nolinks x = x\<lparr>b_prev := 0, b_next := 0\<rparr>"

lemma nolinks_fields:
  assumes "nolinks x = nolinks y"
  shows "b_valid x = b_valid y" "b_dev x = b_dev y" "b_blockno x = b_blockno y" "b_lock x = b_lock y"
    "b_refcnt x = b_refcnt y" "b_data x = b_data y"
  using assms by (auto simp: nolinks_def dest: arg_cong [of _ _ b_valid] arg_cong [of _ _ b_dev]
    arg_cong [of _ _ b_blockno] arg_cong [of _ _ b_lock] arg_cong [of _ _ b_refcnt] arg_cong [of _ _ b_data])

lemma nolinks_unlink: "nolinks (unlink b bs c) = nolinks (bs c)"
  by (simp add: unlink_def nolinks_def Let_def)

lemma nolinks_link_front: "nolinks (link_front b bs c) = nolinks (bs c)"
  by (simp add: link_front_def nolinks_def Let_def)

lemma cache_inv_relink:
  assumes inv: "cache_inv p L D s" and r: "ring B xs" and n: "\<And>c. nolinks (B c) = nolinks (bufs s c)"
  shows "cache_inv p L D (s\<lparr>bufs := B\<rparr>)" "content (s\<lparr>bufs := B\<rparr>) = content s"
proof -
  note f = nolinks_fields [OF n]
  have c: "cached (s\<lparr>bufs := B\<rparr>) = cached s" by (simp add: cached_def fun_eq_iff f)
  have "buf_ok pid L D d b (B b) = buf_ok pid L D d b (bufs s b)" for pid d b
    by (simp add: buf_ok_def f)
  then show "cache_inv p L D (s\<lparr>bufs := B\<rparr>)"
    using inv r by (auto simp: cache_inv_def c)
  show "content (s\<lparr>bufs := B\<rparr>) = content s"
    by (simp add: content_def c f fun_eq_iff split: list.split)
qed

lemma releasesleep_buf:
  assumes "held s = []"
  shows "releasesleep (buf_slock b) s = Ok () (s\<lparr>procs := wake (ChBufLock b) (curproc s) NPROC (procs s),
    bufs := (bufs s)(b := (bufs s b)\<lparr>b_lock := \<lparr>sl_locked = False, sl_pid = 0\<rparr>\<rparr>)\<rparr>)"
  using assms by (simp add: releasesleep_def buf_slock_def upd_buf_def release_run)

lemma wake_step:
  "wake ch me n P q = (P q)\<lparr>p_state := p_state (wake ch me n P q), p_chan := p_chan (wake ch me n P q)\<rparr>"
  "p_pid (wake ch me n P q) = p_pid (P q)"
  by (simp_all add: wake_def)

lemma brelse_eq:
  assumes inv: "cache_inv p L D s" and b: "b \<in> set L"
  defines "B \<equiv> (bufs s)(b := (bufs s b)\<lparr>b_lock := \<lparr>sl_locked = False, sl_pid = 0\<rparr>, b_refcnt := b_refcnt (bufs s b) - 1\<rparr>)"
  shows "brelse b s = Ok () (s\<lparr>procs := wake (ChBufLock b) (Some p) NPROC (procs s),
    bufs := if b_refcnt (bufs s b) - 1 = 0 then link_front b (unlink b B) else B\<rparr>)"
  using cache_invD(1,2) [OF inv]
  by (simp add: brelse_def holdingsleep_buf [OF inv b] bnd_Ok seq_Ok releasesleep_buf upd_buf_def release_run B_def)

lemma brelse_run:
  assumes inv: "cache_inv p L D s" and b: "b \<in> set L" "cached s no b"
    and cl: "no \<in> D \<or> b_data (bufs s b) = disk s no"
  obtains t where "brelse b s = Ok () t" "cache_inv p (remove1 b L) D t" "content t = content s"
    "disk t = disk s" "disk_writes t = disk_writes s" "cache_step s t"
    "\<And>c. b_dev (bufs t c) = b_dev (bufs s c) \<and> b_blockno (bufs t c) = b_blockno (bufs s c)
      \<and> b_data (bufs t c) = b_data (bufs s c)"
proof -
  note i = cache_invD [OF inv]
  let ?x = "(bufs s b)\<lparr>b_lock := \<lparr>sl_locked = False, sl_pid = 0\<rparr>, b_refcnt := b_refcnt (bufs s b) - 1\<rparr>"
  let ?P = "wake (ChBufLock b) (Some p) NPROC (procs s)"
  let ?t = "s\<lparr>procs := ?P, bufs := (bufs s)(b := ?x)\<rparr>"
  define B where "B = link_front b (unlink b ((bufs s)(b := ?x)))"
  have bn: "b < NBUF" "b_dev (bufs s b) = ROOTDEV" "b_blockno (bufs s b) = no"
    using b by (auto simp: cached_def)
  have ok: "buf_ok (p_pid (procs s p)) L D (disk s) b (bufs s b)" using i(7) bn by blast
  have rc: "unat (b_refcnt (bufs s b) - 1) = unat (b_refcnt (bufs s b)) - 1"
  proof -
    have "unat (1::u32) \<le> unat (b_refcnt (bufs s b))" using ok b by (simp add: buf_ok_def)
    then show ?thesis by (simp add: unat_sub word_le_nat_alt)
  qed
  have ti: "cache_inv p (remove1 b L) D ?t"
    by (rule cache_inv_same [OF inv b(2), of _ ?x])
      (use bn b ok i(4-6) cl in \<open>auto simp: buf_ok_def rc wake_step(2) set_remove1_eq distinct_remove1\<close>)
  have ct: "content ?t = content s"
    using content_upd [OF inv ti, of b ?x] content_cached [OF inv b(2)] bn by (auto simp: fun_eq_iff)
  obtain xs where xs: "ring (bufs ?t) xs" using ti by (auto simp: cache_inv_def)
  have nl: "nolinks (B c) = nolinks (bufs ?t c)" for c
    by (simp add: B_def nolinks_link_front nolinks_unlink)
  have r: "ring B (b # remove1 b xs)" using ring_move_front [OF xs bn(1)] by (simp add: B_def)
  note rl = cache_inv_relink [OF ti r nl]
  let ?u = "if b_refcnt (bufs s b) - 1 = 0 then ?t\<lparr>bufs := B\<rparr> else ?t"
  have run: "brelse b s = Ok () ?u" by (simp add: brelse_eq [OF inv b(1)] B_def)
  have st: "cache_step s (s\<lparr>procs := ?P, bufs := B\<rparr>)" for B
    using cache_stepI [where k = "klog s" and P = ?P and s = s and B = B and d = "disk s" and w = "disk_writes s"]
    by (simp add: wake_step(1) [symmetric])
  have fl: "b_dev (bufs ?u c) = b_dev (bufs s c) \<and> b_blockno (bufs ?u c) = b_blockno (bufs s c)
      \<and> b_data (bufs ?u c) = b_data (bufs s c)" for c
    using nolinks_fields [OF nl [of c]] by simp
  show thesis
    by (rule that [of ?u]) (use run ti rl ct st fl in auto)
qed

text \<open>Pinning a locked buffer and unpinning it.\<close>

lemma cache_inv_pins:
  assumes inv: "cache_inv p L D s" and b: "b \<in> set L" "cached s no b"
    and D': "D' - {no} = D - {no}"
    and rc: "unat r = Suc (of_bool (no \<in> D'))"
  defines "t \<equiv> upd_buf b (\<lambda>x. x\<lparr>b_refcnt := r\<rparr>) s"
  shows "cache_inv p L D' t" "content t = content s" "cache_step s t"
proof -
  note i = cache_invD [OF inv]
  let ?x = "(bufs s b)\<lparr>b_refcnt := r\<rparr>"
  have bn: "b < NBUF" "b_dev (bufs s b) = ROOTDEV" "b_blockno (bufs s b) = no"
    using b by (auto simp: cached_def)
  have ok: "buf_ok (p_pid (procs s p)) L D (disk s) b (bufs s b)" using i(7) bn by blast
  have mem: "n \<in> D' \<longleftrightarrow> n \<in> D" if "n \<noteq> no" for n using D' that by blast
  show ti: "cache_inv p L D' t"
  proof (rule cache_inv_upd [OF inv, of _ b ?x])
    show "finite D'" using D' i(3) by (metis finite_insert insert_Diff_single)
    show "b_blockno (bufs s c) \<in> D' \<longleftrightarrow> b_blockno (bufs s c) \<in> D"
      if "cached s (b_blockno (bufs s c)) c" "c \<noteq> b" for c
    proof -
      have "b_blockno (bufs s c) \<noteq> no" using that b i(8) by blast
      then show ?thesis by (rule mem)
    qed
    show "b_dev ?x = ROOTDEV \<and> b_blockno ?x = n \<or> (\<exists>c. c \<noteq> b \<and> cached s n c)" if n: "n \<in> D'" for n
    proof (cases "n = no")
      case False
      then obtain c where "cached s n c" using i(9) n mem by blast
      then show ?thesis using False bn by (auto simp: cached_def)
    qed (use bn in simp)
    show "c = b" if "cached s (b_blockno ?x) c" for c using that bn b i(8) by simp
  qed (use bn b ok i(4-6) rc in \<open>auto simp: t_def upd_buf_def buf_ok_def\<close>)
  show "content t = content s"
    using content_upd [OF inv ti, of b ?x] content_cached [OF inv b(2)] bn
    by (auto simp: t_def upd_buf_def fun_eq_iff)
  show "cache_step s t" by (simp add: t_def upd_buf_def cache_step_bufs)
qed

lemma locked_refcnt:
  assumes "cache_inv p L D s" "b \<in> set L" "cached s no b"
  shows "unat (b_refcnt (bufs s b)) = Suc (of_bool (no \<in> D))"
proof -
  have "buf_ok (p_pid (procs s p)) L D (disk s) b (bufs s b)"
    using assms(3) cache_invD(7) [OF assms(1)] by (auto simp: cached_def)
  then show ?thesis using assms(2,3) by (auto simp: buf_ok_def cached_def)
qed

lemma bpin_run:
  assumes inv: "cache_inv p L D s" and b: "b \<in> set L" "cached s no b" and "no \<notin> D"
  obtains t where "bpin b s = Ok () t" "cache_inv p L (insert no D) t" "content t = content s" "cache_step s t"
    "t = upd_buf b (\<lambda>x. x\<lparr>b_refcnt := b_refcnt x + 1\<rparr>) s"
proof -
  have r: "unat (b_refcnt (bufs s b)) = 1" using locked_refcnt [OF inv b] assms(4) by simp
  then have "unat (b_refcnt (bufs s b)) + unat (1::u32) < 2 ^ LENGTH(32)" by simp
  then have "unat (b_refcnt (bufs s b) + 1) = 2" using r by (simp add: unat_add_lem [THEN iffD1])
  then have r2: "unat (b_refcnt (bufs s b) + 1) = Suc (of_bool (no \<in> insert no D))" by simp
  have run: "bpin b s = Ok () (upd_buf b (\<lambda>x. x\<lparr>b_refcnt := b_refcnt (bufs s b) + 1\<rparr>) s)"
    using cache_invD(2) [OF inv] by (simp add: bpin_def upd_buf_def release_run)
  show thesis
    by (rule that [OF run cache_inv_pins [OF inv b _ r2]]) (auto simp: upd_buf_def)
qed

lemma bunpin_run:
  assumes inv: "cache_inv p L D s" and b: "b \<in> set L" "cached s no b" and "no \<in> D"
  obtains t where "bunpin b s = Ok () t" "cache_inv p L (D - {no}) t" "content t = content s" "cache_step s t"
    "t = upd_buf b (\<lambda>x. x\<lparr>b_refcnt := b_refcnt x - 1\<rparr>) s"
proof -
  have r: "unat (b_refcnt (bufs s b)) = 2" using locked_refcnt [OF inv b] assms(4) by simp
  then have "unat (1::u32) \<le> unat (b_refcnt (bufs s b))" by simp
  then have "unat (b_refcnt (bufs s b) - 1) = 1" using r by (simp add: unat_sub word_le_nat_alt)
  then have r2: "unat (b_refcnt (bufs s b) - 1) = Suc (of_bool (no \<in> D - {no}))" by simp
  have run: "bunpin b s = Ok () (upd_buf b (\<lambda>x. x\<lparr>b_refcnt := b_refcnt (bufs s b) - 1\<rparr>) s)"
    using cache_invD(2) [OF inv] by (simp add: bunpin_def upd_buf_def release_run)
  show thesis
    by (rule that [OF run cache_inv_pins [OF inv b _ r2]]) (auto simp: upd_buf_def)
qed

end
