(* ===== verification/Xv6_Commit.thy ===== *)
theory Xv6_Commit
  imports Xv6_Cache
begin

text \<open>
  Crash safety of kernel/log.c. A transaction's blocks stay in the cache, pinned, until \<open>end_op\<close> commits:
  it copies them to the log, writes the header, installs them, and clears the header. At whatever
  point the writes stop, \<open>recover_from_log\<close> on the disk that is left gives either the state before the
  transaction or the state after it.
\<close>

section \<open>Sequences of block writes\<close>

definition apply_writes :: "(u32 \<times> u8 list) list \<Rightarrow> (u32 \<Rightarrow> u8 list) \<Rightarrow> u32 \<Rightarrow> u8 list" where
  "apply_writes ws d = fold (\<lambda>(no, v) d. d(no := v)) ws d"

lemma apply_writes_simps [simp]:
  "apply_writes [] d = d"
  "apply_writes ((no, v) # ws) d = apply_writes ws (d(no := v))"
  "apply_writes (us @ ws) d = apply_writes ws (apply_writes us d)"
  by (simp_all add: apply_writes_def)

lemma apply_writes_other: "no \<notin> fst ` set ws \<Longrightarrow> apply_writes ws d no = d no"
  by (induction ws arbitrary: d) (auto simp: apply_writes_def)

lemma apply_writes_mem:
  assumes "(no, v) \<in> set ws" "distinct (map fst ws)"
  shows "apply_writes ws d no = v"
  using assms
proof (induction ws arbitrary: d)
  case (Cons w ws)
  obtain n u where w: "w = (n, u)" by (cases w)
  show ?case
  proof (cases "no \<in> fst ` set ws")
    case True
    then have "(no, v) \<in> set ws" using Cons.prems w by (auto simp: rev_image_eqI)
    then show ?thesis using Cons w by simp
  next
    case False
    then have "n = no" "u = v" using Cons.prems w by (auto simp: rev_image_eqI)
    then show ?thesis using False w by (simp add: apply_writes_other)
  qed
qed simp

section \<open>Fields of a block\<close>

lemma splice_length [simp]: "off + length xs \<le> length bs \<Longrightarrow> length (splice bs off xs) = length bs"
  by (simp add: splice_def)

lemma splice_same:
  "off + length xs \<le> length bs \<Longrightarrow> take (length xs) (drop off (splice bs off xs)) = xs"
  by (simp add: splice_def)

lemma splice_other:
  assumes "off + length xs \<le> length bs" "o2 + n \<le> off \<or> off + length xs \<le> o2"
  shows "take n (drop o2 (splice bs off xs)) = take n (drop o2 bs)"
  using assms by (auto simp: splice_def take_drop min_def)

lemma put32_length [simp]: "off + 4 \<le> length bs \<Longrightarrow> length (put32 bs off v) = length bs"
  by (simp add: put32_def)

lemma get32_put32_same: "off + 4 \<le> length bs \<Longrightarrow> get32 (put32 bs off v) off = v"
  using splice_same [of off "le_bytes 4 v" bs]
  by (simp add: get32_def put32_def le_word_le_bytes take_bit_word_eq_self)

lemma get32_put32_other:
  "off + 4 \<le> length bs \<Longrightarrow> o2 + 4 \<le> off \<or> off + 4 \<le> o2 \<Longrightarrow> get32 (put32 bs off v) o2 = get32 bs o2"
  using splice_other [of off "le_bytes 4 v" bs o2 4] by (simp add: get32_def put32_def)

text \<open>The header block that \<open>write_head\<close> writes, and its fields as \<open>read_head\<close> reads them.\<close>

definition log_header :: "u8 list \<Rightarrow> u32 list \<Rightarrow> u8 list" where
  "log_header d bl = fold (\<lambda>i d. put32 d (4 + 4 * i) (bl ! i)) [0..<length bl] (put32 d 0 (of_nat (length bl)))"

lemma fold_put32:
  assumes "length d = BSIZE" "n \<le> LOGBLOCKS"
  shows "length (fold (\<lambda>i d. put32 d (4 + 4 * i) (bl ! i)) [0..<n] d) = BSIZE"
    and "get32 (fold (\<lambda>i d. put32 d (4 + 4 * i) (bl ! i)) [0..<n] d) 0 = get32 d 0"
    and "i < n \<Longrightarrow> get32 (fold (\<lambda>i d. put32 d (4 + 4 * i) (bl ! i)) [0..<n] d) (4 + 4 * i) = bl ! i"
proof -
  have "length (fold (\<lambda>i d. put32 d (4 + 4 * i) (bl ! i)) [0..<n] d) = BSIZE \<and>
    get32 (fold (\<lambda>i d. put32 d (4 + 4 * i) (bl ! i)) [0..<n] d) 0 = get32 d 0 \<and>
    (\<forall>i<n. get32 (fold (\<lambda>i d. put32 d (4 + 4 * i) (bl ! i)) [0..<n] d) (4 + 4 * i) = bl ! i)"
    using assms(2)
  proof (induction n)
    case (Suc n)
    let ?d = "fold (\<lambda>i d. put32 d (4 + 4 * i) (bl ! i)) [0..<n] d"
    have IH: "length ?d = BSIZE" "get32 ?d 0 = get32 d 0" "\<forall>i<n. get32 ?d (4 + 4 * i) = bl ! i"
      using Suc by auto
    have fit: "4 + 4 * n + 4 \<le> length ?d" using IH(1) Suc.prems by (simp add: const_defs)
    have "get32 (put32 ?d (4 + 4 * n) (bl ! n)) (4 + 4 * i) = bl ! i" if "i < Suc n" for i
    proof (cases "i = n")
      case True
      then show ?thesis by (simp add: get32_put32_same [OF fit])
    next
      case False
      then have "get32 (put32 ?d (4 + 4 * n) (bl ! n)) (4 + 4 * i) = get32 ?d (4 + 4 * i)"
        by (intro get32_put32_other [OF fit]) (use that in simp)
      then show ?thesis using False that IH(3) by simp
    qed
    moreover have "get32 (put32 ?d (4 + 4 * n) (bl ! n)) 0 = get32 d 0"
      using get32_put32_other [OF fit, of 0] IH(2) by simp
    moreover have "length (put32 ?d (4 + 4 * n) (bl ! n)) = BSIZE"
      using fit IH(1) by simp
    ultimately show ?case by simp
  qed (use assms in simp)
  then show "length (fold (\<lambda>i d. put32 d (4 + 4 * i) (bl ! i)) [0..<n] d) = BSIZE"
    and "get32 (fold (\<lambda>i d. put32 d (4 + 4 * i) (bl ! i)) [0..<n] d) 0 = get32 d 0"
    and "i < n \<Longrightarrow> get32 (fold (\<lambda>i d. put32 d (4 + 4 * i) (bl ! i)) [0..<n] d) (4 + 4 * i) = bl ! i"
    by auto
qed

lemma log_header_fields:
  assumes "length d = BSIZE" "length bl \<le> LOGBLOCKS"
  shows "length (log_header d bl) = BSIZE" "get32 (log_header d bl) 0 = of_nat (length bl)"
    "i < length bl \<Longrightarrow> get32 (log_header d bl) (4 + 4 * i) = bl ! i"
    "sint (get32 (log_header d bl) 0) = int (length bl)"
proof -
  have f: "0 + 4 \<le> length d" using assms by (simp add: const_defs)
  have l: "length (put32 d 0 (of_nat (length bl))) = BSIZE" using f assms(1) by simp
  note h = fold_put32 [where bl = bl, OF l assms(2)]
  show "length (log_header d bl) = BSIZE" using h(1) by (simp add: log_header_def)
  show g: "get32 (log_header d bl) 0 = of_nat (length bl)"
    using h(2) by (simp add: log_header_def get32_put32_same [OF f])
  show "i < length bl \<Longrightarrow> get32 (log_header d bl) (4 + 4 * i) = bl ! i"
    using h(3) by (simp add: log_header_def)
  have "length bl < 2 ^ 31" using assms(2) by (simp add: const_defs)
  then show "sint (get32 (log_header d bl) 0) = int (length bl)"
    unfolding g by (simp add: signed_of_nat signed_take_bit_int_eq_self)
qed

section \<open>Steps that write blocks\<close>

definition wrote :: "kstate \<Rightarrow> (u32 \<times> u8 list) list \<Rightarrow> kstate \<Rightarrow> bool" where
  "wrote s ws t \<longleftrightarrow> cache_step s t \<and> disk t = apply_writes ws (disk s) \<and> disk_writes t = disk_writes s @ ws"

lemma wrote_trans: "wrote r us s \<Longrightarrow> wrote s ws t \<Longrightarrow> wrote r (us @ ws) t"
  by (auto simp: wrote_def intro: cache_step_trans)

lemma wrote_Nil: "cache_step s t \<Longrightarrow> disk t = disk s \<Longrightarrow> disk_writes t = disk_writes s \<Longrightarrow> wrote s [] t"
  by (simp add: wrote_def)

lemma wrote_fields:
  assumes "wrote s ws t"
  shows "lg t = lg s" "itable t = itable s" "curproc t = curproc s" "held t = held s"
  using assms cache_step_fields by (auto simp: wrote_def)

definition log_block :: "u32 \<Rightarrow> nat \<Rightarrow> u32" where
  "log_block S i = S + of_nat i + 1"

definition log_area :: "u32 \<Rightarrow> u32 set" where
  "log_area S = insert S (log_block S ` {..<LOGBLOCKS})"

lemma unat_of_nat32: "n < 2 ^ 32 \<Longrightarrow> unat (of_nat n :: u32) = n"
  by (simp add: unsigned_of_nat take_bit_nat_eq_self)

lemma log_block_inj:
  assumes "i < LOGBLOCKS" "j < LOGBLOCKS" "log_block S i = log_block S j"
  shows "i = j"
proof -
  have "unat (of_nat i :: u32) = unat (of_nat j :: u32)" using assms(3) by (simp add: log_block_def)
  then show ?thesis using assms by (simp add: unat_of_nat32 const_defs)
qed

lemma log_block_not_start: "i < LOGBLOCKS \<Longrightarrow> log_block S i \<noteq> S"
proof
  assume i: "i < LOGBLOCKS" and "log_block S i = S"
  then have "of_nat (Suc i) = (0::u32)" by (simp add: log_block_def add.assoc add.commute)
  then have "unat (of_nat (Suc i) :: u32) = 0" by simp
  moreover have "unat (of_nat (Suc i) :: u32) = Suc i"
    using i by (intro unat_of_nat32) (simp add: const_defs)
  ultimately show False by simp
qed

text \<open>Two blocks are read; a block is changed and written; a block is released.\<close>

lemma bread2_run:
  assumes inv: "cache_inv p [] D s" and ne: "a \<noteq> no" and room: "card D < NBUF" "no \<in> D \<or> Suc (card D) < NBUF"
  obtains x y t where "\<And>k :: nat \<Rightarrow> nat \<Rightarrow> unit kop. bnd (bread ROOTDEV a) (\<lambda>x. bnd (bread ROOTDEV no) (\<lambda>y. k x y)) s = k x y t"
    "cache_inv p [y, x] D t" "cached t a x" "cached t no y" "x \<noteq> y"
    "b_data (bufs t x) = content s a" "b_data (bufs t y) = content s no" "content t = content s" "wrote s [] t"
proof -
  obtain x s1 where 1: "bread ROOTDEV a s = Ok x s1" "cache_inv p [x] D s1" "cached s1 a x"
    "b_data (bufs s1 x) = content s a" "content s1 = content s" "disk s1 = disk s"
    "disk_writes s1 = disk_writes s" "cache_step s s1"
    by (rule bread_run [OF inv, of a]) (use room in auto)
  have "(\<exists>b. cached s1 no b) \<or> card D + length [x] < NBUF"
    using room(2) cache_invD(9) [OF 1(2)] by auto
  then obtain y s2 where 2: "bread ROOTDEV no s1 = Ok y s2" "cache_inv p [y, x] D s2" "cached s2 no y" "y \<notin> {x}"
    "b_data (bufs s2 y) = content s1 no" "content s2 = content s1" "disk s2 = disk s1"
    "disk_writes s2 = disk_writes s1" "cache_step s1 s2" "\<And>c. c \<noteq> y \<Longrightarrow> bufs s2 c = bufs s1 c"
    using bread_run [OF 1(2), of no] 1(3) ne by (auto simp: cached_def)
  have "wrote s [] s2" using 1 2 by (auto intro!: wrote_Nil intro: cache_step_trans)
  moreover have "cached s2 a x" "b_data (bufs s2 x) = content s a" using 1(3,4) 2(4,10) by (auto simp: cached_def)
  ultimately show thesis using that [of x y s2] 1 2 by (simp add: bnd_Ok)
qed

lemma bwrite_data_run:
  assumes inv: "cache_inv p L D s" and b: "b \<in> set L" "cached s no b" and len: "length d = BSIZE"
  obtains t where "bwrite b (upd_buf b (\<lambda>x. x\<lparr>b_data := d\<rparr>) s) = Ok () t" "cache_inv p L D t"
    "cached t = cached s" "\<And>c. b_data (bufs t c) = (if c = b then d else b_data (bufs s c))"
    "content t = (content s)(no := d)" "wrote s [(no, d)] t"
proof -
  let ?u = "upd_buf b (\<lambda>x. x\<lparr>b_data := d\<rparr>) s"
  note u = set_data_run [OF inv b len]
  have c: "cached ?u = cached s" by (simp add: cached_def upd_buf_def fun_eq_iff)
  then have "cached ?u no b" using b by simp
  then obtain t where t: "bwrite b ?u = Ok () t" "cache_inv p L D t" "bufs t = bufs ?u"
    "disk t = (disk ?u)(no := b_data (bufs ?u b))"
    "disk_writes t = disk_writes ?u @ [(no, b_data (bufs ?u b))]" "content t = content ?u" "cache_step ?u t"
    using bwrite_run [OF u(1) b(1)] by blast
  have "cached t = cached s" using t(3) c by (simp add: cached_def fun_eq_iff)
  moreover have "wrote s [(no, d)] t"
    using t(4,5) cache_step_trans [OF u(3) t(7)] by (simp add: wrote_def upd_buf_def)
  ultimately show thesis using that [OF t(1,2)] t u(2) by (simp add: upd_buf_def)
qed

lemma brelse_clean_run:
  assumes inv: "cache_inv p L D s" and b: "b \<in> set L" "cached s no b"
    and cl: "no \<in> D \<or> b_data (bufs s b) = disk s no"
  obtains t where "brelse b s = Ok () t" "cache_inv p (remove1 b L) D t" "cached t = cached s"
    "\<And>c. b_data (bufs t c) = b_data (bufs s c)" "content t = content s" "wrote s [] t"
proof (rule brelse_run [OF assms])
  fix t assume t: "brelse b s = Ok () t" "cache_inv p (remove1 b L) D t" "content t = content s"
    "disk t = disk s" "disk_writes t = disk_writes s" "cache_step s t"
    "\<And>c. b_dev (bufs t c) = b_dev (bufs s c) \<and> b_blockno (bufs t c) = b_blockno (bufs s c)
      \<and> b_data (bufs t c) = b_data (bufs s c)"
  then have "cached t = cached s" by (simp add: cached_def fun_eq_iff)
  with t show thesis by (intro that [of t]) (auto intro: wrote_Nil)
qed

lemma cached_data_length:
  assumes "cache_inv p L D s" "cached s no b"
  shows "length (b_data (bufs s b)) = BSIZE"
  using assms cache_invD(7) [OF assms(1), of b] by (auto simp: cached_def buf_ok_def)

lemma wrote_disk: "wrote s ws t \<Longrightarrow> disk t = apply_writes ws (disk s)"
  by (simp add: wrote_def)

lemma copy_to_log_run:
  assumes inv: "cache_inv p [] D s" and l: "l_dev (lg s) = ROOTDEV" "log_block (l_start (lg s)) i = a"
    "l_block (lg s) ! i = no" and no: "no \<in> D" "a \<notin> D" and room: "card D < NBUF"
  obtains t where "write_log_block i s = Ok () t" "cache_inv p [] D t" "wrote s [(a, content s no)] t"
    "content t = (content s)(a := content s no)"
proof -
  have "a \<noteq> no" using no by auto
  from bread2_run [OF inv this room] no(1)
  obtain x y s2 where 2: "\<And>k :: nat \<Rightarrow> nat \<Rightarrow> unit kop. bnd (bread ROOTDEV a) (\<lambda>x. bnd (bread ROOTDEV no) (\<lambda>y. k x y)) s = k x y s2"
    "cache_inv p [y, x] D s2" "cached s2 a x" "cached s2 no y" "x \<noteq> y" "b_data (bufs s2 y) = content s no"
    "content s2 = content s" "wrote s [] s2" by metis
  have len: "length (content s no) = BSIZE" using cached_data_length [OF 2(2,4)] 2(6) by simp
  obtain s3 where 3: "bwrite x (upd_buf x (\<lambda>z. z\<lparr>b_data := content s no\<rparr>) s2) = Ok () s3"
    "cache_inv p [y, x] D s3" "cached s3 = cached s2"
    "\<And>c. b_data (bufs s3 c) = (if c = x then content s no else b_data (bufs s2 c))"
    "content s3 = (content s2)(a := content s no)" "wrote s2 [(a, content s no)] s3"
    by (rule bwrite_data_run [OF 2(2) _ 2(3) len]) auto
  obtain s4 where 4: "brelse y s3 = Ok () s4" "cache_inv p [x] D s4" "cached s4 = cached s3"
    "\<And>c. b_data (bufs s4 c) = b_data (bufs s3 c)" "content s4 = content s3" "wrote s3 [] s4"
    using brelse_clean_run [OF 3(2), of y no] 2(4) 3(3) no(1) by auto
  have "b_data (bufs s4 x) = disk s4 a" using 3(4) 4(4) wrote_disk [OF 4(6)] wrote_disk [OF 3(6)] by simp
  then obtain s5 where 5: "brelse x s4 = Ok () s5" "cache_inv p [] D s5" "content s5 = content s4" "wrote s4 [] s5"
    using brelse_clean_run [OF 4(2), of x a] 2(3) 3(3) 4(3) by auto
  have "write_log_block i s = Ok () s5"
    using 2(1,6) 3(1) 4(1) 5(1) l by (simp add: write_log_block_def log_block_def bnd_Ok seq_Ok)
  moreover have "wrote s [(a, content s no)] s5"
    using wrote_trans [OF wrote_trans [OF wrote_trans [OF 2(8) 3(6)] 4(6)] 5(4)] by simp
  ultimately show thesis using that 5(2,3) 4(5) 3(5) 2(7) by simp
qed

lemma cache_inv_klog:
  assumes "cache_inv p L D s"
  shows "cache_inv p L D (s\<lparr>klog := k\<rparr>)" "content (s\<lparr>klog := k\<rparr>) = content s" "wrote s [] (s\<lparr>klog := k\<rparr>)"
proof -
  have c: "cached (s\<lparr>klog := k\<rparr>) = cached s" by (simp add: cached_def fun_eq_iff)
  show "cache_inv p L D (s\<lparr>klog := k\<rparr>)" using assms by (simp add: cache_inv_def c)
  show "content (s\<lparr>klog := k\<rparr>) = content s" by (simp add: content_def c fun_eq_iff split: list.split)
  show "wrote s [] (s\<lparr>klog := k\<rparr>)" by (simp add: wrote_def cache_step_klog)
qed

lemma unpin_step:
  assumes inv: "cache_inv p L D s" and b: "b \<in> set L" "cached s no b" and no: "no \<in> D \<or> rec" "rec \<Longrightarrow> no \<notin> D"
  obtains t where "(if rec then skip else bunpin b) s = Ok () t" "cache_inv p L (D - {no}) t"
    "cached t = cached s" "\<And>c. b_data (bufs t c) = b_data (bufs s c)" "content t = content s" "wrote s [] t"
proof (cases rec)
  case True
  then show thesis using that [of s] inv no by (simp add: wrote_def)
next
  case False
  then have "no \<in> D" using no by simp
  then show thesis
  proof (rule bunpin_run [OF inv b])
    fix t assume "bunpin b s = Ok () t" "cache_inv p L (D - {no}) t" "content t = content s" "cache_step s t"
      "t = upd_buf b (\<lambda>x. x\<lparr>b_refcnt := b_refcnt x - 1\<rparr>) s"
    with False show thesis by (intro that [of t]) (auto simp: upd_buf_def cached_def fun_eq_iff wrote_def)
  qed
qed

lemma install_block_run:
  assumes inv: "cache_inv p [] D s" and l: "l_dev (lg s) = ROOTDEV" "log_block (l_start (lg s)) i = a"
    "l_block (lg s) ! i = no" and a: "a \<notin> D" "a \<noteq> no"
    and no: "no \<in> D \<or> rec \<and> Suc (card D) < NBUF" "rec \<Longrightarrow> no \<notin> D" and room: "card D < NBUF"
  obtains t where "install_block rec i s = Ok () t" "cache_inv p [] (D - {no}) t" "wrote s [(no, content s a)] t"
    "content t = (content s)(no := content s a)"
proof -
  define s0 where "s0 = (if rec then s\<lparr>klog := klog s @ [MSG ''recovering'']\<rparr> else s)"
  have 0: "cache_inv p [] D s0" "content s0 = content s" "wrote s [] s0"
    using inv cache_inv_klog [OF inv] by (simp_all add: s0_def wrote_def)
  have "no \<in> D \<or> Suc (card D) < NBUF" using no by blast
  from bread2_run [OF 0(1) a(2) room this]
  obtain x y s2 where 2: "\<And>k :: nat \<Rightarrow> nat \<Rightarrow> unit kop. bnd (bread ROOTDEV a) (\<lambda>x. bnd (bread ROOTDEV no) (\<lambda>y. k x y)) s0 = k x y s2"
    "cache_inv p [y, x] D s2" "cached s2 a x" "cached s2 no y" "x \<noteq> y" "b_data (bufs s2 x) = content s a"
    "content s2 = content s" "wrote s0 [] s2" unfolding 0(2) by metis
  have len: "length (content s a) = BSIZE" using cached_data_length [OF 2(2,3)] 2(6) by simp
  obtain s3 where 3: "bwrite y (upd_buf y (\<lambda>z. z\<lparr>b_data := content s a\<rparr>) s2) = Ok () s3"
    "cache_inv p [y, x] D s3" "cached s3 = cached s2"
    "\<And>c. b_data (bufs s3 c) = (if c = y then content s a else b_data (bufs s2 c))"
    "content s3 = (content s2)(no := content s a)" "wrote s2 [(no, content s a)] s3"
    by (rule bwrite_data_run [OF 2(2) _ 2(4) len]) auto
  obtain s4 where 4: "(if rec then skip else bunpin y) s3 = Ok () s4" "cache_inv p [y, x] (D - {no}) s4"
    "cached s4 = cached s3" "\<And>c. b_data (bufs s4 c) = b_data (bufs s3 c)" "content s4 = content s3" "wrote s3 [] s4"
    by (rule unpin_step [OF 3(2), of y no rec]) (use 2(4) 3(3) no in auto)
  have w: "wrote s [(no, content s a)] s4"
    using wrote_trans [OF wrote_trans [OF wrote_trans [OF 0(3) 2(8)] 3(6)] 4(6)] by simp
  have "b_data (bufs s4 x) = disk s4 a"
    using 2(5,6) 3(4) 4(4) wrote_disk [OF w] a(2) content_clean [OF inv a(1)] by simp
  then obtain s5 where 5: "brelse x s4 = Ok () s5" "cache_inv p [y] (D - {no}) s5" "cached s5 = cached s4"
    "\<And>c. b_data (bufs s5 c) = b_data (bufs s4 c)" "content s5 = content s4" "wrote s4 [] s5"
    using brelse_clean_run [OF 4(2), of x a] 2(3,5) 3(3) 4(3) by auto
  have "b_data (bufs s5 y) = disk s5 no"
    using 3(4) 4(4) 5(4) wrote_disk [OF w] wrote_disk [OF 5(6)] by simp
  then obtain s6 where 6: "brelse y s5 = Ok () s6" "cache_inv p [] (D - {no}) s6" "content s6 = content s5" "wrote s5 [] s6"
    using brelse_clean_run [OF 5(2), of y no] 2(4) 3(3) 4(3) 5(3) by auto
  have p: "(if rec then printk (MSG ''recovering'') else skip) s = Ok () s0" by (simp add: s0_def)
  have "install_block rec i s = Ok () s6"
    using p 2(1,6) 3(1) 4(1) 5(1) 6(1) l by (simp add: install_block_def log_block_def bnd_Ok seq_Ok del: printk_run)
  moreover have "wrote s [(no, content s a)] s6"
    using wrote_trans [OF wrote_trans [OF w 5(6)] 6(4)] by simp
  ultimately show thesis using that 6(2,3) 5(5) 4(5) 3(5) 2(7) by simp
qed

section \<open>The phases of a commit\<close>

lemma each_wrote:
  assumes step: "\<And>k s. k < n \<Longrightarrow> I k s \<Longrightarrow> \<exists>t. f k s = Ok () t \<and> I (Suc k) t \<and> wrote s [w k] t"
    and init: "I 0 s"
  shows "\<exists>t. each f [0..<n] s = Ok () t \<and> I n t \<and> wrote s (map w [0..<n]) t"
proof -
  have "m \<le> n \<Longrightarrow> \<exists>t. each f [0..<m] s = Ok () t \<and> I m t \<and> wrote s (map w [0..<m]) t" for m
  proof (induction m)
    case 0
    then show ?case using init by (simp add: wrote_def)
  next
    case (Suc m)
    then obtain t where t: "each f [0..<m] s = Ok () t" "I m t" "wrote s (map w [0..<m]) t" by auto
    moreover obtain u where "f m t = Ok () u" "I (Suc m) u" "wrote t [w m] u" using step [of m t] t(2) Suc.prems by auto
    ultimately show ?case by (auto simp: each_append seq_Ok intro: wrote_trans)
  qed
  then show ?thesis by simp
qed

definition logged :: "log \<Rightarrow> u32 list" where
  "logged l = take (nat (l_n l)) (l_block l)"

definition log_ok :: "log \<Rightarrow> bool" where
  "log_ok l \<longleftrightarrow> l_dev l = ROOTDEV \<and> 0 \<le> l_n l \<and> l_n l \<le> int LOGBLOCKS \<and> length (l_block l) = LOGBLOCKS \<and>
     distinct (logged l) \<and> set (logged l) \<inter> log_area (l_start l) = {}"

lemma log_okD:
  assumes "log_ok l"
  shows "l_dev l = ROOTDEV" "length (logged l) = nat (l_n l)" "nat (l_n l) \<le> LOGBLOCKS" "0 \<le> l_n l"
    "\<not> l_n l > int LOGBLOCKS" "distinct (logged l)" "i < nat (l_n l) \<Longrightarrow> logged l ! i = l_block l ! i"
    "no \<in> set (logged l) \<Longrightarrow> no \<notin> log_area (l_start l)" "card (set (logged l)) = nat (l_n l)"
proof -
  show "length (logged l) = nat (l_n l)" "distinct (logged l)"
    using assms by (auto simp: log_ok_def logged_def)
  then show "card (set (logged l)) = nat (l_n l)" by (simp add: distinct_card)
qed (use assms in \<open>auto simp: log_ok_def logged_def\<close>)

lemma log_block_area: "i < LOGBLOCKS \<Longrightarrow> log_block S i \<in> log_area S" "S \<in> log_area S"
  by (auto simp: log_area_def)

text \<open>\<open>write_log\<close>: the pinned blocks go to the log area.\<close>

definition to_log :: "log \<Rightarrow> (u32 \<Rightarrow> u8 list) \<Rightarrow> (u32 \<times> u8 list) list" where
  "to_log l c = map (\<lambda>i. (log_block (l_start l) i, c (logged l ! i))) [0..<nat (l_n l)]"

lemma to_log_other:
  assumes "log_ok l" "no \<notin> log_area (l_start l)"
  shows "apply_writes (to_log l c) d no = d no"
proof (rule apply_writes_other)
  show "no \<notin> fst ` set (to_log l c)"
  proof
    assume "no \<in> fst ` set (to_log l c)"
    then obtain i where "no = log_block (l_start l) i" "i < nat (l_n l)" by (auto simp: to_log_def)
    then show False using assms log_block_area(1) log_okD(3) [OF assms(1)] by auto
  qed
qed

lemma write_log_run:
  assumes inv: "cache_inv p [] (set (logged (lg s))) s" and ok: "log_ok (lg s)" and room: "nat (l_n (lg s)) < NBUF"
  obtains t where "write_log s = Ok () t" "cache_inv p [] (set (logged (lg s))) t"
    "wrote s (to_log (lg s) (content s)) t" "content t = apply_writes (to_log (lg s) (content s)) (content s)"
proof -
  let ?l = "lg s" and ?S = "l_start (lg s)" and ?D = "set (logged (lg s))"
  note o = log_okD [OF ok]
  define w where "w i = (log_block ?S i, content s (logged ?l ! i))" for i
  define I where "I k t \<longleftrightarrow> cache_inv p [] ?D t \<and> lg t = ?l \<and> content t = apply_writes (map w [0..<k]) (content s)" for k t
  have "\<exists>u. write_log_block k t = Ok () u \<and> I (Suc k) u \<and> wrote t [w k] u" if k: "k < nat (l_n ?l)" and I: "I k t" for k t
  proof -
    let ?no = "logged ?l ! k"
    have noD: "?no \<in> ?D" using k o(2) by simp
    have i: "cache_inv p [] ?D t" "lg t = ?l" "content t = apply_writes (map w [0..<k]) (content s)"
      using I by (auto simp: I_def)
    have kl: "k < LOGBLOCKS" using k o(3) by simp
    have "?no \<notin> fst ` set (map w [0..<k])"
      using o(8) [OF noD] kl log_block_area(1) by (auto simp: w_def)
    then have c: "content t ?no = content s ?no" using i(3) by (simp add: apply_writes_other)
    have "log_block ?S k \<notin> ?D" using o(8) log_block_area(1) [OF kl] by blast
    then obtain u where "write_log_block k t = Ok () u" "cache_inv p [] ?D u"
      "wrote t [(log_block ?S k, content t ?no)] u"
      "content u = (content t)(log_block ?S k := content t ?no)"
      using copy_to_log_run [OF i(1), of k "log_block ?S k" ?no] i(2) o(1) o(7) [OF k] o(9) noD room by auto
    moreover from this have "lg u = ?l" using wrote_fields(1) i(2) by metis
    ultimately show ?thesis using i(3) c by (auto simp: I_def w_def)
  qed
  moreover have "I 0 s" using inv by (simp add: I_def)
  ultimately obtain t where t: "each write_log_block [0..<nat (l_n ?l)] s = Ok () t" "I (nat (l_n ?l)) t"
    "wrote s (map w [0..<nat (l_n ?l)]) t"
    using each_wrote [of "nat (l_n ?l)" I write_log_block w s] by blast
  have "map w [0..<nat (l_n ?l)] = to_log ?l (content s)" by (simp add: to_log_def w_def)
  then show thesis using that [of t] t o(5) by (simp add: write_log_def I_def)
qed

text \<open>\<open>write_head\<close>: the commit point.\<close>

lemma write_head_run:
  assumes inv: "cache_inv p [] D s" and ok: "log_ok (lg s)" and room: "card D < NBUF" and SD: "l_start (lg s) \<notin> D"
  defines "h \<equiv> log_header (content s (l_start (lg s))) (logged (lg s))"
  obtains t where "write_head s = Ok () t" "cache_inv p [] D t" "wrote s [(l_start (lg s), h)] t"
    "content t = (content s)(l_start (lg s) := h)"
proof -
  let ?l = "lg s" and ?S = "l_start (lg s)"
  note o = log_okD [OF ok]
  obtain b s1 where 1: "bread ROOTDEV ?S s = Ok b s1" "cache_inv p [b] D s1" "cached s1 ?S b"
    "b_data (bufs s1 b) = content s ?S" "content s1 = content s" "disk s1 = disk s"
    "disk_writes s1 = disk_writes s" "cache_step s s1"
    by (rule bread_run [OF inv, of ?S]) (use room in auto)
  have "fold (\<lambda>i d. put32 d (4 + 4 * i) (l_block ?l ! i)) [0..<nat (l_n ?l)] d =
      fold (\<lambda>i d. put32 d (4 + 4 * i) (logged ?l ! i)) [0..<nat (l_n ?l)] d" for d
    by (rule fold_cong) (auto simp: o(7))
  moreover have "word_of_int (l_n ?l) = (of_nat (nat (l_n ?l)) :: u32)" using o(4) by (metis int_nat_eq of_int_of_nat_eq)
  ultimately have h: "h = fold (\<lambda>i d. put32 d (4 + 4 * i) (l_block ?l ! i)) [0..<nat (l_n ?l)]
      (put32 (b_data (bufs s1 b)) 0 (word_of_int (l_n ?l)))"
    using o(2) 1(4) by (simp add: h_def log_header_def)
  have "length (content s ?S) = BSIZE" using cached_data_length [OF 1(2,3)] 1(4) by simp
  then have "length h = BSIZE" using log_header_fields(1) o(2,3) by (simp add: h_def)
  then obtain s2 where 2: "bwrite b (upd_buf b (\<lambda>z. z\<lparr>b_data := h\<rparr>) s1) = Ok () s2"
    "cache_inv p [b] D s2" "cached s2 = cached s1"
    "\<And>c. b_data (bufs s2 c) = (if c = b then h else b_data (bufs s1 c))"
    "content s2 = (content s1)(?S := h)" "wrote s1 [(?S, h)] s2"
    using bwrite_data_run [OF 1(2) _ 1(3), of h] by auto
  have "b_data (bufs s2 b) = disk s2 ?S" using 2(4) wrote_disk [OF 2(6)] by simp
  then obtain s3 where 3: "brelse b s2 = Ok () s3" "cache_inv p [] D s3" "content s3 = content s2" "wrote s2 [] s3"
    using brelse_clean_run [OF 2(2), of b ?S] 1(3) 2(3) by auto
  have "upd_buf b (\<lambda>z. z\<lparr>b_data := fold (\<lambda>i d. put32 d (4 + 4 * i) (l_block ?l ! i)) [0..<nat (l_n ?l)]
      (put32 (b_data z) 0 (word_of_int (l_n ?l)))\<rparr>) s1 = upd_buf b (\<lambda>z. z\<lparr>b_data := h\<rparr>) s1"
    by (simp add: upd_buf_def h)
  then have "write_head s = Ok () s3"
    using 1(1) 2(1) 3(1) o(1,5) by (simp add: write_head_def bnd_Ok seq_Ok)
  moreover have "wrote s [(?S, h)] s3"
    using wrote_trans [OF wrote_trans [OF wrote_Nil [OF 1(8,6,7)] 2(6)] 3(4)] by simp
  ultimately show thesis using that 3(2,3) 2(5) 1(5) by simp
qed

text \<open>\<open>install_trans\<close>: the log's blocks go home, either unpinning them or after a crash.\<close>

definition to_home :: "log \<Rightarrow> (u32 \<Rightarrow> u8 list) \<Rightarrow> (u32 \<times> u8 list) list" where
  "to_home l c = map (\<lambda>i. (logged l ! i, c (log_block (l_start l) i))) [0..<nat (l_n l)]"

lemma install_trans_run:
  assumes inv: "cache_inv p [] (if rec then {} else set (logged (lg s))) s" and ok: "log_ok (lg s)"
    and room: "nat (l_n (lg s)) < NBUF \<or> rec"
  obtains t where "install_trans rec s = Ok () t" "cache_inv p [] {} t" "wrote s (to_home (lg s) (content s)) t"
    "content t = apply_writes (to_home (lg s) (content s)) (content s)"
proof -
  let ?l = "lg s" and ?S = "l_start (lg s)" and ?n = "nat (l_n (lg s))"
  define D where "D k = (if rec then {} else set (drop k (logged ?l)))" for k
  note o = log_okD [OF ok]
  define w where "w i = (logged ?l ! i, content s (log_block ?S i))" for i
  define I where "I k t \<longleftrightarrow> cache_inv p [] (D k) t \<and> lg t = ?l \<and> content t = apply_writes (map w [0..<k]) (content s)" for k t
  have "\<exists>u. install_block rec k t = Ok () u \<and> I (Suc k) u \<and> wrote t [w k] u" if k: "k < ?n" and I: "I k t" for k t
  proof -
    let ?no = "logged ?l ! k" and ?a = "log_block ?S k"
    have noL: "?no \<in> set (logged ?l)" using k o(2) by simp
    have i: "cache_inv p [] (D k) t" "lg t = ?l" "content t = apply_writes (map w [0..<k]) (content s)"
      using I by (auto simp: I_def)
    have kl: "k < LOGBLOCKS" using k o(3) by simp
    have aL: "?a \<notin> set (logged ?l)" using o(8) log_block_area(1) [OF kl] by blast
    have "fst ` set (map w [0..<k]) \<subseteq> set (logged ?l)" using k o(2) by (auto simp: w_def)
    then have "?a \<notin> fst ` set (map w [0..<k])" using aL by blast
    from apply_writes_other [OF this, of "content s"] have c: "content t ?a = content s ?a" using i(3) by simp
    have sub: "D k \<subseteq> set (logged ?l)" using set_drop_subset [of k "logged ?l"] by (simp add: D_def)
    have card: "card (D k) \<le> (if rec then 0 else ?n)"
    proof (cases rec)
      case False
      then show ?thesis using card_mono [OF _ sub] o(9) by simp
    qed (simp add: D_def)
    have step: "D k - {?no} = D (Suc k)" "\<not> rec \<longrightarrow> ?no \<in> D k"
    proof -
      have "drop k (logged ?l) = ?no # drop (Suc k) (logged ?l)" using k o(2) by (simp add: Cons_nth_drop_Suc)
      moreover from this have "?no \<notin> set (drop (Suc k) (logged ?l))"
        using distinct_drop [OF o(6), of k] by simp
      ultimately show "D k - {?no} = D (Suc k)" "\<not> rec \<longrightarrow> ?no \<in> D k" by (auto simp: D_def)
    qed
    have "?a \<notin> D k" "?a \<noteq> ?no" using aL sub noL by auto
    moreover have "?no \<in> D k \<or> rec \<and> Suc (card (D k)) < NBUF" "card (D k) < NBUF" "rec \<longrightarrow> ?no \<notin> D k"
      using step(2) card room by (auto simp: D_def const_defs)
    ultimately obtain u where "install_block rec k t = Ok () u" "cache_inv p [] (D k - {?no}) u"
      "wrote t [(?no, content t ?a)] u" "content u = (content t)(?no := content t ?a)"
      using install_block_run [OF i(1), of k ?a ?no rec] i(2) o(1) o(7) [OF k] by auto
    moreover from this have "lg u = ?l" using wrote_fields(1) i(2) by metis
    ultimately show ?thesis using i(3) c step(1) by (auto simp: I_def w_def)
  qed
  moreover have "I 0 s" using inv by (auto simp: I_def D_def split: if_splits)
  ultimately obtain t where t: "each (install_block rec) [0..<?n] s = Ok () t" "I ?n t" "wrote s (map w [0..<?n]) t"
    using each_wrote [of ?n I "install_block rec" w s] by blast
  have "map w [0..<?n] = to_home ?l (content s)" by (simp add: to_home_def w_def)
  moreover have "D ?n = {}" using o(2) by (simp add: D_def)
  ultimately show thesis using that [of t] t o(5) by (simp add: install_trans_def I_def)
qed

lemma upd_log_frame [simp]:
  "cached (upd_log f s) = cached s" "content (upd_log f s) = content s"
  "cache_inv p L D (upd_log f s) = cache_inv p L D s"
  "disk (upd_log f s) = disk s" "disk_writes (upd_log f s) = disk_writes s" "lg (upd_log f s) = f (lg s)"
  "bufs (upd_log f s) = bufs s" "held (upd_log f s) = held s" "procs (upd_log f s) = procs s"
proof -
  show c: "cached (upd_log f s) = cached s" by (simp add: cached_def upd_log_def fun_eq_iff)
  show "content (upd_log f s) = content s"
    unfolding content_def c by (simp add: fun_eq_iff upd_log_def split: list.split)
  show "cache_inv p L D (upd_log f s) = cache_inv p L D s"
    by (simp add: cache_inv_def c) (simp add: upd_log_def)
qed (simp_all add: upd_log_def)

lemma log_ok_clear: "log_ok l \<Longrightarrow> log_ok (l\<lparr>l_n := 0\<rparr>)" "logged (l\<lparr>l_n := 0\<rparr>) = []"
  by (simp_all add: log_ok_def logged_def)

definition commit_writes :: "log \<Rightarrow> (u32 \<Rightarrow> u8 list) \<Rightarrow> (u32 \<times> u8 list) list" where
  "commit_writes l c =
     (let S = l_start l; bl = logged l; h = log_header (c S) bl
      in to_log l c @ [(S, h)] @ map (\<lambda>no. (no, c no)) bl @ [(S, log_header h [])])"

lemma to_log_slot:
  assumes "log_ok l" "i < nat (l_n l)"
  shows "apply_writes (to_log l c) d (log_block (l_start l) i) = c (logged l ! i)"
proof (rule apply_writes_mem)
  show "(log_block (l_start l) i, c (logged l ! i)) \<in> set (to_log l c)" using assms(2) by (auto simp: to_log_def)
  have "inj_on (log_block (l_start l)) {0..<nat (l_n l)}"
    by (rule inj_onI, rule log_block_inj) (use log_okD(3) [OF assms(1)] in auto)
  then show "distinct (map fst (to_log l c))" by (simp add: to_log_def distinct_map o_def)
qed

lemma to_log_start:
  assumes "log_ok l"
  shows "apply_writes (to_log l c) d (l_start l) = d (l_start l)"
proof (rule apply_writes_other)
  have "log_block (l_start l) i \<noteq> l_start l" if "i < nat (l_n l)" for i
    using that log_block_not_start log_okD(3) [OF assms] by simp
  then show "l_start l \<notin> fst ` set (to_log l c)" by (force simp: to_log_def)
qed

lemma to_home_logged:
  assumes ok: "log_ok l" and c: "\<And>i. i < nat (l_n l) \<Longrightarrow> c' (log_block (l_start l) i) = c (logged l ! i)"
  shows "to_home l c' = map (\<lambda>no. (no, c no)) (logged l)"
proof (rule nth_equalityI)
  show "length (to_home l c') = length (map (\<lambda>no. (no, c no)) (logged l))"
    using log_okD(2) [OF ok] by (simp add: to_home_def)
  show "to_home l c' ! i = map (\<lambda>no. (no, c no)) (logged l) ! i" if "i < length (to_home l c')" for i
    using that c log_okD(2) [OF ok] by (simp add: to_home_def)
qed

lemma commit_run:
  assumes inv: "cache_inv p [] (set (logged (lg s))) s" and ok: "log_ok (lg s)"
    and n: "0 < l_n (lg s)" "nat (l_n (lg s)) < NBUF"
  obtains t where "commit s = Ok () t" "cache_inv p [] {} t" "lg t = (lg s)\<lparr>l_n := 0\<rparr>" "held t = held s"
    "disk t = apply_writes (commit_writes (lg s) (content s)) (disk s)"
    "disk_writes t = disk_writes s @ commit_writes (lg s) (content s)"
proof -
  let ?l = "lg s" and ?S = "l_start (lg s)" and ?D = "set (logged (lg s))" and ?c = "content s"
  note o = log_okD [OF ok]
  define h where "h = log_header (?c ?S) (logged ?l)"
  obtain s1 where 1: "write_log s = Ok () s1" "cache_inv p [] ?D s1" "wrote s (to_log ?l ?c) s1"
    "content s1 = apply_writes (to_log ?l ?c) ?c"
    by (rule write_log_run [OF inv ok n(2)])
  have l1: "lg s1 = ?l" by (rule wrote_fields [OF 1(3)])
  have c1: "content s1 ?S = ?c ?S" using 1(4) to_log_start [OF ok] by simp
  have "?S \<notin> ?D" using o(8) log_block_area(2) by blast
  then obtain s2 where 2: "write_head s1 = Ok () s2" "cache_inv p [] ?D s2" "wrote s1 [(?S, h)] s2"
    "content s2 = (content s1)(?S := h)"
    using write_head_run [OF 1(2)] l1 ok o(9) n(2) c1 by (auto simp: h_def)
  have l2: "lg s2 = ?l" using wrote_fields(1) [OF 2(3)] l1 by simp
  have c2: "content s2 (log_block ?S i) = ?c (logged ?l ! i)" if "i < nat (l_n ?l)" for i
    using 2(4) 1(4) to_log_slot [OF ok that] log_block_not_start [of i ?S] that o(3) by simp
  have inv2: "cache_inv p [] (if False then {} else set (logged (lg s2))) s2" using 2(2) l2 by simp
  obtain s3 where 3: "install_trans False s2 = Ok () s3" "cache_inv p [] {} s3"
    "wrote s2 (map (\<lambda>no. (no, ?c no)) (logged ?l)) s3"
    "content s3 = apply_writes (map (\<lambda>no. (no, ?c no)) (logged ?l)) (content s2)"
    using install_trans_run [OF inv2] l2 ok n(2) to_home_logged [of ?l "content s2" ?c, OF ok c2] by auto
  have l3: "lg s3 = ?l" using wrote_fields(1) [OF 3(3)] l2 by simp
  have "?S \<notin> fst ` set (map (\<lambda>no. (no, ?c no)) (logged ?l))" using \<open>?S \<notin> ?D\<close> by (auto simp: image_image)
  from apply_writes_other [OF this, of "content s2"] have c3: "content s3 ?S = h" using 3(4) 2(4) by simp
  let ?f = "\<lambda>l. l\<lparr>l_n := 0\<rparr>"
  obtain s4 where 4: "write_head (upd_log ?f s3) = Ok () s4" "cache_inv p [] {} s4"
    "wrote (upd_log ?f s3) [(?S, log_header h [])] s4"
    by (rule write_head_run [of p "{}" "upd_log ?f s3"]) (use 3(2) l3 ok c3 in \<open>auto simp: const_defs log_ok_clear\<close>)
  have l4: "lg s4 = ?l\<lparr>l_n := 0\<rparr>" "held s4 = held s"
    using wrote_fields [OF 4(3)] l3 wrote_fields(4) [OF 3(3)] wrote_fields(4) [OF 2(3)] wrote_fields(4) [OF 1(3)]
    by (simp_all add: upd_log_def)
  have "commit s = Ok () s4"
    using n(1) 1(1) 2(1) 3(1) 4(1) by (simp add: commit_def seq_Ok)
  moreover have "disk s4 = apply_writes (commit_writes ?l ?c) (disk s)"
    "disk_writes s4 = disk_writes s @ commit_writes ?l ?c"
    using 4(3) 3(3) 2(3) 1(3) by (simp_all add: wrote_def commit_writes_def Let_def h_def)
  ultimately show thesis using that 4(2) l4 by blast
qed

lemma apply_writes_length:
  assumes "\<forall>w\<in>set ws. length (snd w) = BSIZE" "\<And>no. length (d no) = BSIZE"
  shows "length (apply_writes ws d no) = BSIZE"
  using assms by (induction ws arbitrary: d) (auto simp: apply_writes_def split: prod.split)

lemma commit_writes_length:
  assumes ok: "log_ok l" and c: "\<And>no. length (c no) = BSIZE"
  shows "\<forall>w\<in>set (commit_writes l c). length (snd w) = BSIZE"
proof -
  let ?h = "log_header (c (l_start l)) (logged l)"
  have "length ?h = BSIZE" using log_header_fields(1) [OF c] log_okD(2,3) [OF ok] by simp
  moreover from this have "length (log_header ?h []) = BSIZE" using log_header_fields(1) [of ?h "[]"] by simp
  ultimately show ?thesis using c by (auto simp: commit_writes_def Let_def to_log_def)
qed

section \<open>Recovery\<close>

text \<open>\<open>header_is d S bl\<close>: the header block of the log at \<open>S\<close> lists the blocks \<open>bl\<close>.\<close>

definition header_is :: "(u32 \<Rightarrow> u8 list) \<Rightarrow> u32 \<Rightarrow> u32 list \<Rightarrow> bool" where
  "header_is d S bl \<longleftrightarrow> get32 (d S) 0 = of_nat (length bl) \<and> (\<forall>i<length bl. get32 (d S) (4 + 4 * i) = bl ! i)"

lemma read_head_run:
  assumes inv: "cache_inv p [] {} s" and l: "l_dev (lg s) = ROOTDEV" "length (l_block (lg s)) = LOGBLOCKS"
    and h: "header_is (disk s) (l_start (lg s)) bl" and bl: "length bl \<le> LOGBLOCKS"
  obtains t where "read_head s = Ok () t" "cache_inv p [] {} t" "disk t = disk s" "l_dev (lg t) = ROOTDEV"
    "length (l_block (lg t)) = LOGBLOCKS" "l_n (lg t) = int (length bl)" "logged (lg t) = bl" "l_start (lg t) = l_start (lg s)"
    "disk_writes t = disk_writes s"
proof -
  let ?S = "l_start (lg s)"
  obtain b s1 where 1: "bread ROOTDEV ?S s = Ok b s1" "cache_inv p [b] {} s1" "cached s1 ?S b"
    "b_data (bufs s1 b) = content s ?S" "content s1 = content s" "disk s1 = disk s"
    "disk_writes s1 = disk_writes s" "cache_step s s1"
    by (rule bread_run [OF inv, of ?S]) (auto simp: const_defs)
  have cl: "content s ?S = disk s ?S" by (rule content_clean [OF inv]) simp
  have n: "sint (get32 (disk s ?S) 0) = int (length bl)"
    using h bl by (simp add: header_is_def signed_of_nat signed_take_bit_int_eq_self const_defs)
  have m: "map (\<lambda>i. get32 (disk s ?S) (4 + 4 * i)) [0..<length bl] = bl"
    using h by (auto simp: header_is_def intro: nth_equalityI)
  let ?f = "\<lambda>l. l\<lparr>l_n := int (length bl), l_block := bl @ drop (length bl) (l_block l)\<rparr>"
  obtain s2 where 2: "brelse b (upd_log ?f s1) = Ok () s2" "cache_inv p [] {} s2" "wrote (upd_log ?f s1) [] s2"
    by (rule brelse_clean_run [of p "[b]" "{}" "upd_log ?f s1" b ?S])
      (use 1 cl in auto)
  have "read_head s = Ok () s2"
    using 1(1,4) 2(1) l cl n m bl by (simp add: read_head_def bnd_Ok Let_def)
  moreover have "disk s2 = disk s" using wrote_disk [OF 2(3)] 1(6) by simp
  moreover have "lg s2 = ?f (lg s)" using wrote_fields(1) [OF 2(3)] cache_step_fields(1) [OF 1(8)] by simp
  moreover have "disk_writes s2 = disk_writes s" using 2(3) 1(7) by (simp add: wrote_def)
  ultimately show thesis using that [of s2] 2(2) l bl by (simp add: logged_def)
qed

text \<open>The disk that recovery makes of \<open>d\<close> when the header lists \<open>bl\<close>.\<close>

definition recovered :: "u32 \<Rightarrow> u32 list \<Rightarrow> (u32 \<Rightarrow> u8 list) \<Rightarrow> u32 \<Rightarrow> u8 list" where
  "recovered S bl d = apply_writes (map (\<lambda>i. (bl ! i, d (log_block S i))) [0..<length bl]) d"

lemma recovered_Nil [simp]: "recovered S [] d = d"
  by (simp add: recovered_def)

lemma recovered_mem:
  assumes "no \<in> set bl" "distinct bl" "\<And>i. i < length bl \<Longrightarrow> d (log_block S i) = c (bl ! i)"
  shows "recovered S bl d no = c no"
proof -
  let ?ws = "map (\<lambda>i. (bl ! i, d (log_block S i))) [0..<length bl]"
  obtain i where i: "i < length bl" "no = bl ! i" using assms(1) by (metis in_set_conv_nth)
  have "(no, c no) \<in> set ?ws" using i assms(3) [OF i(1)] by (auto intro!: image_eqI [of _ _ i])
  moreover have "map fst ?ws = bl" by (simp add: o_def map_nth)
  ultimately show ?thesis unfolding recovered_def using assms(2) by (simp add: apply_writes_mem)
qed

lemma recovered_other: "no \<notin> set bl \<Longrightarrow> recovered S bl d no = d no"
  unfolding recovered_def by (rule apply_writes_other) auto

definition recovery_writes :: "u32 \<Rightarrow> u32 list \<Rightarrow> (u32 \<Rightarrow> u8 list) \<Rightarrow> (u32 \<times> u8 list) list" where
  "recovery_writes S bl d = map (\<lambda>i. (bl ! i, d (log_block S i))) [0..<length bl] @ [(S, log_header (d S) [])]"

lemma recovery_writes_disk:
  "apply_writes (recovery_writes S bl d) d = (recovered S bl d)(S := log_header (d S) [])"
  by (simp add: recovery_writes_def recovered_def)

lemma recover_run:
  assumes inv: "cache_inv p [] {} s" and l: "l_dev (lg s) = ROOTDEV" "length (l_block (lg s)) = LOGBLOCKS"
    and h: "header_is (disk s) (l_start (lg s)) bl" and bl: "length bl \<le> LOGBLOCKS" "distinct bl"
      "set bl \<inter> log_area (l_start (lg s)) = {}"
  defines "S \<equiv> l_start (lg s)"
  obtains t where "recover_from_log s = Ok () t" "cache_inv p [] {} t" "lg t = (lg t)\<lparr>l_n := 0, l_start := S\<rparr>"
    "log_ok (lg t)" "disk t = apply_writes (recovery_writes S bl (disk s)) (disk s)"
    "disk_writes t = disk_writes s @ recovery_writes S bl (disk s)"
proof -
  obtain s1 where 1: "read_head s = Ok () s1" "cache_inv p [] {} s1" "disk s1 = disk s" "l_dev (lg s1) = ROOTDEV"
    "length (l_block (lg s1)) = LOGBLOCKS" "l_n (lg s1) = int (length bl)" "logged (lg s1) = bl" "l_start (lg s1) = S"
    "disk_writes s1 = disk_writes s"
    by (rule read_head_run [OF inv l h bl(1)]) (auto simp: S_def)
  have ok: "log_ok (lg s1)" using 1 bl by (simp add: log_ok_def S_def)
  have cl: "content s1 = disk s" using content_clean [OF 1(2)] 1(3) by auto
  have hm: "to_home (lg s1) (disk s) = map (\<lambda>i. (bl ! i, disk s (log_block S i))) [0..<length bl]"
    using 1(6-8) by (simp add: to_home_def)
  obtain s2 where 2: "install_trans True s1 = Ok () s2" "cache_inv p [] {} s2" "wrote s1 (to_home (lg s1) (disk s)) s2"
    by (rule install_trans_run [of p True s1]) (use 1(2) ok cl in auto)
  have l2: "lg s2 = lg s1" by (rule wrote_fields [OF 2(3)])
  have d2: "disk s2 = recovered S bl (disk s)" using wrote_disk [OF 2(3)] 1(3) hm by (simp add: recovered_def)
  have "S \<notin> set bl" using bl(3) log_block_area(2) by (auto simp: S_def)
  then have c2: "content s2 S = disk s S" using content_clean [OF 2(2), of S] d2 recovered_other by simp
  let ?f = "\<lambda>l. l\<lparr>l_n := 0\<rparr>" and ?h = "log_header (disk s S) []"
  have ok2: "log_ok (?f (lg s2))" using ok l2 by (simp add: log_ok_clear)
  obtain s3 where 3: "write_head (upd_log ?f s2) = Ok () s3" "cache_inv p [] {} s3" "wrote (upd_log ?f s2) [(S, ?h)] s3"
    by (rule write_head_run [of p "{}" "upd_log ?f s2"])
      (use 2(2) ok2 l2 1(8) c2 in \<open>auto simp: const_defs log_ok_clear(2)\<close>)
  have "recover_from_log s = Ok () s3"
    using 1(1) 2(1) 3(1) by (simp add: recover_from_log_def seq_Ok)
  moreover have l3: "lg s3 = ?f (lg s1)" using wrote_fields(1) [OF 3(3)] l2 by simp
  moreover have "disk s3 = apply_writes (recovery_writes S bl (disk s)) (disk s)"
    using wrote_disk [OF 3(3)] d2 by (simp add: recovery_writes_disk)
  moreover have "disk_writes s3 = disk_writes s @ recovery_writes S bl (disk s)"
    using 3(3) 2(3) hm 1(9) by (simp add: wrote_def recovery_writes_def)
  ultimately show thesis using that [of s3] 3(2) ok l2 1(8) by (simp add: log_ok_clear)
qed

section \<open>Atomicity of a commit\<close>

lemma take_commit_writes:
  fixes c :: "u32 \<Rightarrow> u8 list"
  assumes ok: "log_ok l"
  defines "S \<equiv> l_start l" and "n \<equiv> nat (l_n l)"
  obtains "k \<le> n" "take k (commit_writes l c) = take k (to_log l c)"
  | j where "n < k" "j \<le> n" "take k (commit_writes l c) =
      to_log l c @ [(l_start l, log_header (c (l_start l)) (logged l))] @ map (\<lambda>no. (no, c no)) (take j (logged l))"
  | "n < k" "take k (commit_writes l c) = commit_writes l c"
proof -
  let ?h = "log_header (c S) (logged l)"
  have w: "commit_writes l c = to_log l c @ [(S, ?h)] @ map (\<lambda>no. (no, c no)) (logged l) @ [(S, log_header ?h [])]"
    by (simp add: commit_writes_def Let_def S_def)
  have len: "length (to_log l c) = n" "length (logged l) = n"
    using log_okD(2) [OF ok] by (simp_all add: to_log_def n_def)
  consider "k \<le> n" | "n < k" "k < 2 * n + 2" | "2 * n + 2 \<le> k" by linarith
  then show thesis
  proof cases
    case 1
    then show thesis using that(1) w len by simp
  next
    case 2
    then obtain j where k: "k = Suc (n + j)" using less_imp_Suc_add by blast
    then have "j \<le> n" using 2 by linarith
    then show thesis using that(2) [of j] w len 2 k by (simp add: take_map S_def)
  next
    case 3
    then show thesis using that(3) w len by simp
  qed
qed

lemma crash_disk:
  fixes c :: "u32 \<Rightarrow> u8 list" and k :: nat
  assumes ok: "log_ok l" and cl: "\<And>no. no \<notin> set (logged l) \<Longrightarrow> c no = d no"
    and h0: "header_is d (l_start l) []" and len: "length (d (l_start l)) = BSIZE"
  defines "S \<equiv> l_start l" and "dk \<equiv> apply_writes (take k (commit_writes l c)) d"
  shows "\<exists>bl. header_is dk S bl \<and> (bl = [] \<or> bl = logged l) \<and>
    (\<forall>no. no \<notin> log_area S \<longrightarrow> recovered S bl dk no = (if k \<le> nat (l_n l) then d no else c no))"
proof -
  note o = log_okD [OF ok]
  define h where "h = log_header (c S) (logged l)"
  have S: "S \<notin> set (logged l)" using o(8) log_block_area(2) by (auto simp: S_def)
  have lh: "length (c S) = BSIZE" using cl [OF S] len by (simp add: S_def)
  have lb: "length (logged l) \<le> LOGBLOCKS" using o(2,3) by simp
  have slot: "log_block S i \<notin> set (logged l)" "log_block S i \<noteq> S" if "i < length (logged l)" for i
    using that o(2,3,8) log_block_area(1) [of i S] log_block_not_start [of i S] by (auto simp: S_def)
  show ?thesis
  proof (cases rule: take_commit_writes [OF ok, of k c])
    case 1
    have sub: "fst ` set (take k (to_log l c)) \<subseteq> log_block S ` {..<LOGBLOCKS}"
      using o(3) by (fastforce simp: to_log_def take_map S_def dest: in_set_takeD)
    then have dk: "dk no = d no" if "no \<notin> log_block S ` {..<LOGBLOCKS}" for no
      using that unfolding dk_def 1(2) by (intro apply_writes_other) blast
    have "S \<notin> log_block S ` {..<LOGBLOCKS}" using log_block_not_start by (metis imageE lessThan_iff)
    then have "header_is dk S []" using h0 dk by (simp add: header_is_def S_def)
    moreover have "dk no = d no" if "no \<notin> log_area S" for no using that dk by (simp add: log_area_def)
    ultimately show ?thesis using 1(1) by (intro exI [of _ "[]"]) simp
  next
    case (2 j)
    let ?B = "map (\<lambda>no. (no, c no)) (take j (logged l))"
    let ?d = "(apply_writes (to_log l c) d)(S := h)"
    have dk: "dk = apply_writes ?B ?d" unfolding dk_def 2(3) by (simp add: h_def S_def)
    have B: "apply_writes ?B ?d no = ?d no" if "no \<notin> set (logged l)" for no
      using that by (intro apply_writes_other) (auto dest: in_set_takeD)
    have "dk S = h" using dk B [OF S] by simp
    then have "header_is dk S (logged l)"
      using log_header_fields [OF lh lb] by (simp add: header_is_def h_def)
    moreover have "dk (log_block S i) = c (logged l ! i)" if "i < length (logged l)" for i
      using dk B [OF slot(1) [OF that]] slot(2) [OF that] to_log_slot [OF ok] that o(2) by (simp add: S_def)
    then have "recovered S (logged l) dk no = c no" if "no \<in> set (logged l)" for no
      using that o(6) by (intro recovered_mem) auto
    moreover have "recovered S (logged l) dk no = c no" if "no \<notin> set (logged l)" "no \<notin> log_area S" for no
    proof -
      have "no \<noteq> S" using that(2) log_block_area(2) by blast
      then show ?thesis
        using that dk B to_log_other [OF ok] cl recovered_other by (simp add: S_def)
    qed
    ultimately show ?thesis using 2(1) by (intro exI [of _ "logged l"]) (auto simp: not_le)
  next
    case 3
    let ?B = "map (\<lambda>no. (no, c no)) (logged l)"
    have dk: "dk = (apply_writes ?B ((apply_writes (to_log l c) d)(S := h)))(S := log_header h [])"
      unfolding dk_def 3(2) by (simp add: commit_writes_def Let_def h_def S_def)
    have "length h = BSIZE" using log_header_fields(1) [OF lh lb] by (simp add: h_def)
    then have "header_is dk S []" using log_header_fields(2) [of h "[]"] dk by (simp add: header_is_def)
    moreover have "dk no = c no" if no: "no \<notin> log_area S" for no
    proof -
      have ne: "no \<noteq> S" using no log_block_area(2) by blast
      show ?thesis
      proof (cases "no \<in> set (logged l)")
        case True
        then have "apply_writes ?B e no = c no" for e
          using o(6) by (intro apply_writes_mem) (auto simp: o_def)
        then show ?thesis using dk ne by simp
      next
        case False
        then have "apply_writes ?B e no = e no" for e by (intro apply_writes_other) auto
        then show ?thesis using dk ne to_log_other [OF ok] no cl [OF False] by (simp add: S_def)
      qed
    qed
    ultimately show ?thesis using 3(1) by (intro exI [of _ "[]"]) simp
  qed
qed

text \<open>
  The invariant of the log between the operations of a thread that has locked the buffers \<open>L\<close>: the listed
  blocks are the pinned ones, they lie outside the log, and the header on disk is empty.
\<close>

definition log_inv :: "nat \<Rightarrow> nat list \<Rightarrow> kstate \<Rightarrow> bool" where
  "log_inv p L s \<longleftrightarrow> cache_inv p L (set (logged (lg s))) s \<and> log_ok (lg s) \<and> header_is (disk s) (l_start (lg s)) []"

lemma initlog_run:
  assumes inv: "cache_inv p [] {} s" "length (l_block (lg s)) = LOGBLOCKS"
    and h: "header_is (disk s) (sb_logstart sb) bl" and bl: "length bl \<le> LOGBLOCKS" "distinct bl"
      "set bl \<inter> log_area (sb_logstart sb) = {}"
  obtains t where "initlog ROOTDEV sb s = Ok () t" "log_inv p [] t" "l_n (lg t) = 0" "l_start (lg t) = sb_logstart sb"
    "\<And>no. no \<notin> log_area (sb_logstart sb) \<Longrightarrow> content t no = recovered (sb_logstart sb) bl (disk s) no"
    "disk_writes t = disk_writes s @ recovery_writes (sb_logstart sb) bl (disk s)"
proof -
  let ?S = "sb_logstart sb" and ?f = "\<lambda>l. l\<lparr>l_start := sb_logstart sb, l_dev := ROOTDEV\<rparr>"
  obtain t where t: "recover_from_log (upd_log ?f s) = Ok () t" "cache_inv p [] {} t"
    "lg t = (lg t)\<lparr>l_n := 0, l_start := ?S\<rparr>" "log_ok (lg t)"
    "disk t = apply_writes (recovery_writes ?S bl (disk s)) (disk s)"
    "disk_writes t = disk_writes s @ recovery_writes ?S bl (disk s)"
    by (rule recover_run [of p "upd_log ?f s" bl]) (use assms in auto)
  have n: "l_n (lg t) = 0" "l_start (lg t) = ?S" by (subst t(3), simp)+
  have d: "disk t = (recovered ?S bl (disk s))(?S := log_header (disk s ?S) [])"
    using t(5) by (simp add: recovery_writes_disk)
  have "get32 (disk t ?S) 0 = 0"
    using d log_header_fields(2) [of "disk s ?S" "[]"] cache_invD(6) [OF inv(1)] by simp
  moreover have "initlog ROOTDEV sb s = Ok () t" using t(1) by (simp add: initlog_def const_defs)
  moreover have "logged (lg t) = []" using n by (simp add: logged_def)
  moreover have "content t no = recovered ?S bl (disk s) no" if "no \<notin> log_area ?S" for no
  proof -
    have "no \<noteq> ?S" using that log_block_area(2) by blast
    then show ?thesis using content_clean [OF t(2), of no] d by simp
  qed
  ultimately show thesis using that t n by (simp add: log_inv_def header_is_def)
qed

lemma cache_inv_procs:
  assumes "cache_inv p L D s" "\<And>q. p_pid (P q) = p_pid (procs s q)"
  shows "cache_inv p L D (s\<lparr>procs := P\<rparr>)"
proof -
  have "cached (s\<lparr>procs := P\<rparr>) = cached s" by (simp add: cached_def fun_eq_iff)
  then show ?thesis using assms by (simp add: cache_inv_def)
qed

lemma commit_header:
  assumes "log_ok l" "length (c (l_start l)) = BSIZE"
  shows "header_is (apply_writes (commit_writes l c) d) (l_start l) []"
proof -
  let ?h = "log_header (c (l_start l)) (logged l)"
  have "length ?h = BSIZE" using log_header_fields(1) [OF assms(2)] log_okD(2,3) [OF assms(1)] by simp
  then have "get32 (log_header ?h []) 0 = 0" using log_header_fields(2) [of ?h "[]"] by simp
  then show ?thesis by (simp add: header_is_def commit_writes_def Let_def)
qed

lemma content_length:
  assumes "cache_inv p L D s"
  shows "length (content s no) = BSIZE"
proof (cases "\<exists>b. cached s no b")
  case True
  then show ?thesis using cached_data_length [OF assms] content_cached [OF assms] by auto
qed (use cache_invD(6) [OF assms] content_uncached in auto)

lemma end_op_run:
  assumes inv: "log_inv p [] s" and l: "l_outstanding (lg s) = 1" "\<not> l_committing (lg s)"
    and n: "0 < l_n (lg s)" "nat (l_n (lg s)) < NBUF"
  obtains t where "end_op s = Ok () t" "log_inv p [] t" "l_n (lg t) = 0" "l_outstanding (lg t) = 0"
    "disk t = apply_writes (commit_writes (lg s) (content s)) (disk s)"
    "disk_writes t = disk_writes s @ commit_writes (lg s) (content s)"
proof -
  define l1 where "l1 = (lg s)\<lparr>l_outstanding := 0, l_committing := True\<rparr>"
  let ?s1 = "upd_log (\<lambda>_. l1) s"
  have h: "held s = []" using inv by (simp add: log_inv_def cache_inv_def)
  have lg1: "logged l1 = logged (lg s)" "l_start l1 = l_start (lg s)" "l_n l1 = l_n (lg s)" "log_ok l1"
    using inv by (simp_all add: l1_def logged_def log_ok_def log_inv_def)
  have w: "commit_writes l1 (content s) = commit_writes (lg s) (content s)"
    by (simp add: commit_writes_def to_log_def lg1)
  have i1: "cache_inv p [] (set (logged (lg ?s1))) ?s1" using inv lg1 by (simp add: log_inv_def)
  obtain t where t: "commit ?s1 = Ok () t" "cache_inv p [] {} t" "lg t = l1\<lparr>l_n := 0\<rparr>" "held t = []"
    "disk t = apply_writes (commit_writes (lg s) (content s)) (disk s)"
    "disk_writes t = disk_writes s @ commit_writes (lg s) (content s)"
    by (rule commit_run [OF i1]) (use lg1 n h w in auto)
  let ?P = "wake ChLog (curproc t) NPROC (procs t)"
  define u where "u = upd_log (\<lambda>_. l1\<lparr>l_n := 0, l_committing := False\<rparr>) (t\<lparr>procs := ?P\<rparr>)"
  have hs: "s\<lparr>lg := a, held := []\<rparr> = s\<lparr>lg := a\<rparr>" for a by (rule kstate.equality) (simp_all add: h)
  have "end_op s = Ok () u"
    using h l t(1,3,4) by (simp add: end_op_def upd_log_def seq_Ok release_run l1_def u_def hs)
  moreover have ci: "cache_inv p [] {} u"
    using cache_inv_procs [OF t(2), of ?P] by (simp add: u_def wake_step(2))
  moreover have lu: "lg u = l1\<lparr>l_n := 0, l_committing := False\<rparr>" "disk u = disk t" "disk_writes u = disk_writes t"
    by (simp_all add: u_def)
  moreover have "log_inv p [] u"
  proof -
    have "header_is (disk u) (l_start (lg s)) []"
      using inv content_length commit_header [of "lg s" "content s"] t(5) lu(2) by (auto simp: log_inv_def)
    then show ?thesis using ci lg1 lu by (simp add: log_inv_def log_ok_def logged_def)
  qed
  ultimately show thesis using that [of u] l t(5,6) by (simp add: l1_def)
qed

text \<open>A crash during recovery leaves a disk from which recovery gives the same blocks.\<close>

lemma recovery_crash_disk:
  fixes k :: nat
  assumes h: "header_is d S bl" and bl: "length bl \<le> LOGBLOCKS" "distinct bl" "set bl \<inter> log_area S = {}"
    and len: "length (d S) = BSIZE"
  defines "dk \<equiv> apply_writes (take k (recovery_writes S bl d)) d"
  shows "\<exists>bl'. header_is dk S bl' \<and> (bl' = [] \<or> bl' = bl) \<and>
    (\<forall>no. no \<notin> log_area S \<longrightarrow> recovered S bl' dk no = recovered S bl d no)"
proof (cases "k \<le> length bl")
  case True
  let ?W = "map (\<lambda>i. (bl ! i, d (log_block S i))) [0..<k]"
  have dk: "dk = apply_writes ?W d"
    using True by (simp add: dk_def recovery_writes_def take_map)
  have W: "dk no = d no" if "no \<notin> set bl" for no
    using that True unfolding dk by (intro apply_writes_other) auto
  have a: "no \<notin> set bl" if "no \<in> log_area S" for no using that bl(3) by blast
  have lb: "dk (log_block S i) = d (log_block S i)" if "i < length bl" for i
    using that bl(1) by (intro W a log_block_area(1)) simp
  have "header_is dk S bl" using h W [OF a [OF log_block_area(2)]] by (simp add: header_is_def)
  moreover have "recovered S bl dk no = recovered S bl d no" for no
  proof (cases "no \<in> set bl")
    case mem: True
    then obtain i where i: "i < length bl" "bl ! i = no" by (metis in_set_conv_nth)
    define c where "c n = recovered S bl d n" for n
    have "d (log_block S j) = c (bl ! j)" if "j < length bl" for j
    proof -
      have "(bl ! j, d (log_block S j)) \<in> set (map (\<lambda>i. (bl ! i, d (log_block S i))) [0..<length bl])"
        using that by auto
      then show ?thesis unfolding c_def recovered_def using bl(2)
        by (intro apply_writes_mem [symmetric]) (simp_all add: o_def map_nth)
    qed
    then show ?thesis using recovered_mem [OF mem bl(2), of dk S c] lb by (simp add: c_def)
  qed (simp add: recovered_other W)
  ultimately show ?thesis by blast
next
  case False
  then have "take k (recovery_writes S bl d) = recovery_writes S bl d" by (simp add: recovery_writes_def)
  then have dk: "dk = (recovered S bl d)(S := log_header (d S) [])" by (simp add: dk_def recovery_writes_disk)
  then have "header_is dk S []" using log_header_fields(2) [of "d S" "[]"] len by (simp add: header_is_def)
  moreover have "dk no = recovered S bl d no" if "no \<notin> log_area S" for no
    using that dk log_block_area(2) by auto
  ultimately show ?thesis by (intro exI [of _ "[]"]) simp
qed

section \<open>Logging a block\<close>

lemma log_slot_spec:
  "log_slot bl no i k \<le> i + k"
  "log_slot bl no i k < i + k \<Longrightarrow> bl ! log_slot bl no i k = no"
  "log_slot bl no i k = i + k \<Longrightarrow> i \<le> j \<Longrightarrow> j < i + k \<Longrightarrow> bl ! j \<noteq> no"
proof -
  have "log_slot bl no i k \<le> i + k \<and> (log_slot bl no i k < i + k \<longrightarrow> bl ! log_slot bl no i k = no) \<and>
    (log_slot bl no i k = i + k \<longrightarrow> (\<forall>j. i \<le> j \<and> j < i + k \<longrightarrow> bl ! j \<noteq> no))"
  proof (induction k arbitrary: i)
    case (Suc k)
    show ?case
    proof (cases "bl ! i = no")
      case False
      have "bl ! j \<noteq> no" if "log_slot bl no (Suc i) k = Suc i + k" "i \<le> j" "j < i + Suc k" for j
        using Suc [of "Suc i"] that False by (cases "j = i") auto
      then show ?thesis using Suc [of "Suc i"] False by auto
    qed simp
  qed auto
  then show "log_slot bl no i k \<le> i + k"
    "log_slot bl no i k < i + k \<Longrightarrow> bl ! log_slot bl no i k = no"
    "log_slot bl no i k = i + k \<Longrightarrow> i \<le> j \<Longrightarrow> j < i + k \<Longrightarrow> bl ! j \<noteq> no" by auto
qed

lemma log_slot_logged:
  fixes no :: u32
  assumes "log_ok l"
  defines "i \<equiv> log_slot (l_block l) no 0 (nat (l_n l))"
  shows "no \<in> set (logged l) \<longleftrightarrow> i < nat (l_n l)" "no \<in> set (logged l) \<Longrightarrow> l_block l ! i = no"
    "no \<notin> set (logged l) \<Longrightarrow> i = nat (l_n l)"
proof -
  note o = log_okD [OF assms(1)] and sp = log_slot_spec [of "l_block l" no 0 "nat (l_n l)", folded i_def]
  have lt: "no \<in> set (logged l)" if "i < nat (l_n l)"
    using sp(2) that o(2) o(7) [OF that] by (metis add_0 nth_mem)
  have ge: "no \<notin> set (logged l)" if "i = nat (l_n l)"
  proof
    assume "no \<in> set (logged l)"
    then obtain j where "j < nat (l_n l)" "logged l ! j = no" using o(2) by (metis in_set_conv_nth)
    then show False using sp(3) [of j] that o(7) by simp
  qed
  show "no \<in> set (logged l) \<longleftrightarrow> i < nat (l_n l)" "no \<notin> set (logged l) \<Longrightarrow> i = nat (l_n l)"
    using lt ge sp(1) by (auto simp: le_less)
  then show "no \<in> set (logged l) \<Longrightarrow> l_block l ! i = no" using sp(2) by simp
qed

lemma log_write_run:
  assumes inv: "log_inv p L s" and b: "b \<in> set L" "cached s no b" and no: "no \<notin> log_area (l_start (lg s))"
    and l: "l_n (lg s) < int LOGBLOCKS" "1 \<le> l_outstanding (lg s)"
  obtains t where "log_write b s = Ok () t" "log_inv p L t"
    "logged (lg t) = (if no \<in> set (logged (lg s)) then logged (lg s) else logged (lg s) @ [no])"
    "content t = content s" "disk t = disk s" "disk_writes t = disk_writes s"
    "lg t = (lg s)\<lparr>l_n := l_n (lg t), l_block := l_block (lg t)\<rparr>" "cached t = cached s"
    "t = s\<lparr>bufs := bufs t, lg := lg t\<rparr>" "\<And>c. b_data (bufs t c) = b_data (bufs s c)"
proof -
  let ?l = "lg s"
  define i where "i = log_slot (l_block ?l) no 0 (nat (l_n ?l))"
  have ok: "log_ok ?l" and ci: "cache_inv p L (set (logged ?l)) s" and hd: "header_is (disk s) (l_start ?l) []"
    using inv by (simp_all add: log_inv_def)
  note o = log_okD [OF ok] and sl = log_slot_logged [OF ok, of no, folded i_def]
  have h: "held s = []" and bn: "b_blockno (bufs s b) = no"
    using ci b by (auto simp: cache_inv_def cached_def)
  have lb: "length (l_block ?l) = LOGBLOCKS" using ok by (simp add: log_ok_def)
  have ls: "log_slot (l_block ?l) no 0 (nat (l_n ?l)) = i" by (simp add: i_def)
  have hs: "s\<lparr>held := []\<rparr> = s" by (rule kstate.equality) (simp_all add: h)
  show thesis
  proof (cases "no \<in> set (logged ?l)")
    case True
    then have "i < nat (l_n ?l)" "(l_block ?l)[i := no] = l_block ?l" using sl by (auto intro: list_update_same_conv [THEN iffD2])
    moreover from this have "int i \<noteq> l_n ?l" by linarith
    ultimately have "log_write b s = Ok () s"
      using h l bn hs ls by (simp add: log_write_def Let_def upd_log_def release_run)
    then show thesis using that [of s] inv True by simp
  next
    case False
    then have i: "i = nat (l_n ?l)" using sl by simp
    let ?l1 = "?l\<lparr>l_block := (l_block ?l)[i := no]\<rparr>" and ?l2 = "?l\<lparr>l_block := (l_block ?l)[i := no], l_n := l_n ?l + 1\<rparr>"
    obtain t where t: "bpin b s = Ok () t" "cache_inv p L (insert no (set (logged ?l))) t" "content t = content s"
      "cache_step s t" "t = upd_buf b (\<lambda>x. x\<lparr>b_refcnt := b_refcnt x + 1\<rparr>) s"
      by (rule bpin_run [OF ci b False])
    have lg2: "logged ?l2 = logged ?l @ [no]"
      using i lb l o(3,4) by (simp add: logged_def nat_add_distrib take_Suc_conv_app_nth)
    define u where "u = s\<lparr>bufs := bufs t, lg := ?l2\<rparr>"
    have u: "upd_log (\<lambda>_. ?l2) t = u" using t(5) by (simp add: upd_buf_def upd_log_def u_def)
    have "log_write b s = Ok () u"
      unfolding u [symmetric] using h l bn ls i o(4) t(5)
      by (simp add: log_write_def Let_def upd_log_def release_run bpin_def upd_buf_def seq_assoc)
    moreover have "log_ok ?l2"
      using ok lg2 False no l by (auto simp: log_ok_def)
    moreover have "cache_inv p L (insert no (set (logged ?l))) u" "content u = content s"
      unfolding u [symmetric] using t(2,3) by simp_all
    moreover have "disk u = disk s" "disk_writes u = disk_writes s" "cached u = cached s" "lg u = ?l2"
      "u = s\<lparr>bufs := bufs u, lg := lg u\<rparr>" "\<And>c. b_data (bufs u c) = b_data (bufs s c)"
      using t(5) by (simp_all add: upd_buf_def cached_def fun_eq_iff u_def)
    ultimately show thesis
      using lg2 False hd by (intro that [of u]) (simp_all add: log_inv_def)
  qed
qed

end
