(* ===== verification/Xv6_Blocks.thy ===== *)
theory Xv6_Blocks
  imports Xv6_Commit Xv6_Swap
begin

text \<open>
  The operations of kernel/fs.c on blocks, inside a transaction, as operations on the contents of the
  blocks: reading one, changing one, allocating one, and finding the block of a file.
\<close>

section \<open>Steps inside a transaction\<close>

text \<open>
  The state inside a transaction, where the thread holds the buffers \<open>L\<close>, and what a step there may
  change: at most \<open>k\<close> more blocks are in the log.
\<close>

definition tx :: "nat \<Rightarrow> nat list \<Rightarrow> kstate \<Rightarrow> bool" where
  "tx p L s \<longleftrightarrow> log_inv p L s \<and> 1 \<le> l_outstanding (lg s)"

definition txstep :: "kstate \<Rightarrow> kstate \<Rightarrow> nat \<Rightarrow> bool" where
  "txstep s t k \<longleftrightarrow>
     (\<exists>kl P B n bl. t = s\<lparr>klog := kl, procs := P, bufs := B, lg := (lg s)\<lparr>l_n := n, l_block := bl\<rparr>\<rparr> \<and>
       (\<forall>q. \<exists>st ch. P q = (procs s q)\<lparr>p_state := st, p_chan := ch\<rparr>) \<and>
       l_n (lg s) \<le> n \<and> n \<le> l_n (lg s) + int k)"

lemma txstep_fields:
  assumes "txstep s t k"
  shows "itable t = itable s" "curproc t = curproc s" "held t = held s" "mem t = mem s" "sblk t = sblk s"
    "freelist t = freelist s" "l_start (lg t) = l_start (lg s)" "l_outstanding (lg t) = l_outstanding (lg s)"
    "l_n (lg t) \<le> l_n (lg s) + int k" "disk t = disk s" "disk_writes t = disk_writes s" "l_n (lg s) \<le> l_n (lg t)"
  using assms unfolding txstep_def by (elim exE conjE, simp)+

lemma txstep_trans:
  assumes "txstep r s j" "txstep s t k"
  shows "txstep r t (j + k)"
proof -
  obtain kl P B n bl where 1: "s = r\<lparr>klog := kl, procs := P, bufs := B, lg := (lg r)\<lparr>l_n := n, l_block := bl\<rparr>\<rparr>"
    "\<forall>q. \<exists>st ch. P q = (procs r q)\<lparr>p_state := st, p_chan := ch\<rparr>" "l_n (lg r) \<le> n" "n \<le> l_n (lg r) + int j"
    using assms(1) unfolding txstep_def by blast
  obtain kl' P' B' n' bl' where 2: "t = s\<lparr>klog := kl', procs := P', bufs := B', lg := (lg s)\<lparr>l_n := n', l_block := bl'\<rparr>\<rparr>"
    "\<forall>q. \<exists>st ch. P' q = (procs s q)\<lparr>p_state := st, p_chan := ch\<rparr>" "l_n (lg s) \<le> n'" "n' \<le> l_n (lg s) + int k"
    using assms(2) unfolding txstep_def by blast
  have "\<exists>st ch. P' q = (procs r q)\<lparr>p_state := st, p_chan := ch\<rparr>" for q
  proof -
    obtain a b where "P' q = (procs s q)\<lparr>p_state := a, p_chan := b\<rparr>" using 2(2) by blast
    moreover obtain c d where "P q = (procs r q)\<lparr>p_state := c, p_chan := d\<rparr>" using 1(2) by blast
    ultimately have "P' q = (procs r q)\<lparr>p_state := a, p_chan := b\<rparr>" using 1(1) by simp
    then show ?thesis by blast
  qed
  moreover have "t = r\<lparr>klog := kl', procs := P', bufs := B', lg := (lg r)\<lparr>l_n := n', l_block := bl'\<rparr>\<rparr>"
    using 1(1) 2(1) by simp
  moreover have "l_n (lg r) \<le> n'" "n' \<le> l_n (lg r) + int (j + k)" using 1 2 by auto
  ultimately show ?thesis unfolding txstep_def by blast
qed

lemma txstep_cache:
  assumes "cache_step s t" "disk t = disk s" "disk_writes t = disk_writes s"
  shows "txstep s t k"
proof -
  obtain kl P B d w where t: "t = s\<lparr>klog := kl, procs := P, bufs := B, disk := d, disk_writes := w\<rparr>"
    "\<forall>q. \<exists>st ch. P q = (procs s q)\<lparr>p_state := st, p_chan := ch\<rparr>"
    using assms(1) unfolding cache_step_def by blast
  have "t = s\<lparr>klog := kl, procs := P, bufs := B, lg := (lg s)\<lparr>l_n := l_n (lg s), l_block := l_block (lg s)\<rparr>\<rparr>"
    using t(1) assms(2,3) by simp
  moreover have "l_n (lg s) \<le> l_n (lg s) + int k" by simp
  ultimately show ?thesis unfolding txstep_def using t(2) by blast
qed

lemma txstep_refl [simp]: "txstep s s k"
  by (rule txstep_cache) simp_all

lemma tx_fields:
  assumes "tx p L s"
  shows "curproc s = Some p" "held s = []" "length (content s no) = BSIZE" "0 \<le> l_n (lg s)"
    "card (set (logged (lg s))) = nat (l_n (lg s))" "distinct L"
proof -
  have ci: "cache_inv p L (set (logged (lg s))) s" and ok: "log_ok (lg s)"
    using assms by (auto simp: tx_def log_inv_def)
  show "length (content s no) = BSIZE" by (rule content_length [OF ci])
  show "card (set (logged (lg s))) = nat (l_n (lg s))" "0 \<le> l_n (lg s)" using log_okD [OF ok] by auto
  show "curproc s = Some p" "held s = []" "distinct L" using ci by (simp_all add: cache_inv_def)
qed


section \<open>Reading and changing a block\<close>

lemma content_not_held:
  assumes inv: "cache_inv p L D s" and nl: "\<And>c. c \<in> set L \<Longrightarrow> b_blockno (bufs s c) \<noteq> no" and no: "no \<notin> D"
  shows "content s no = disk s no"
proof (cases "\<exists>b. cached s no b")
  case True
  then obtain b where b: "cached s no b" by blast
  then have "b \<notin> set L" using nl by (auto simp: cached_def)
  moreover have "buf_ok (p_pid (procs s p)) L D (disk s) b (bufs s b)"
    using inv b by (simp add: cache_inv_def cached_def)
  ultimately show ?thesis using content_cached [OF inv b] no b by (simp add: buf_ok_def cached_def)
qed (auto intro: content_uncached)

text \<open>Reading needs no transaction; inside one it keeps it.\<close>

lemma bread_log:
  assumes inv: "log_inv p L s" and nl: "\<And>c. c \<in> set L \<Longrightarrow> b_blockno (bufs s c) \<noteq> no"
    and room: "l_n (lg s) + int (length L) < int NBUF"
  obtains b t where "bread ROOTDEV no s = Ok b t" "log_inv p (b # L) t" "cached t no b" "b \<notin> set L"
    "b_data (bufs t b) = content s no" "content t = content s" "txstep s t 0" "\<And>c. c \<noteq> b \<Longrightarrow> bufs t c = bufs s c"
    "no \<in> set (logged (lg t)) \<or> content t no = disk t no" "lg t = lg s"
proof -
  let ?D = "set (logged (lg s))"
  have ci: "cache_inv p L ?D s" and ok: "log_ok (lg s)" using inv by (auto simp: log_inv_def)
  have "card ?D + length L < NBUF" using log_okD(4,9) [OF ok] room by simp
  then have room: "(\<exists>b. cached s no b) \<or> card ?D + length L < NBUF" by simp
  obtain b t where t: "bread ROOTDEV no s = Ok b t" "cache_inv p (b # L) ?D t" "cached t no b" "b \<notin> set L"
    "b_data (bufs t b) = content s no" "content t = content s" "disk t = disk s" "disk_writes t = disk_writes s"
    "cache_step s t" "\<And>c. c \<noteq> b \<Longrightarrow> bufs t c = bufs s c"
    by (rule bread_run [OF ci nl room]) blast+
  have l: "lg t = lg s" using cache_step_fields(1) [OF t(9)] .
  have "log_inv p (b # L) t" using inv t(2,7) l by (simp add: log_inv_def)
  moreover have "no \<in> set (logged (lg t)) \<or> content t no = disk t no"
    using content_not_held [OF ci nl] t(6,7) l by auto
  ultimately show thesis using that t l txstep_cache [OF t(9,7,8)] by blast
qed

lemma brelse_log:
  assumes inv: "log_inv p L s" and b: "b \<in> set L" "cached s no b"
    and cl: "no \<in> set (logged (lg s)) \<or> content s no = disk s no"
  obtains t where "brelse b s = Ok () t" "log_inv p (remove1 b L) t" "content t = content s" "txstep s t 0"
    "cached t = cached s" "lg t = lg s"
proof -
  let ?D = "set (logged (lg s))"
  have ci: "cache_inv p L ?D s" using inv by (auto simp: log_inv_def)
  have "no \<in> ?D \<or> b_data (bufs s b) = disk s no" using cl content_cached [OF ci b(2)] by simp
  from brelse_run [OF ci b this] obtain t where t: "brelse b s = Ok () t" "cache_inv p (remove1 b L) ?D t"
    "content t = content s" "disk t = disk s" "disk_writes t = disk_writes s" "cache_step s t"
    "\<And>c. b_dev (bufs t c) = b_dev (bufs s c) \<and> b_blockno (bufs t c) = b_blockno (bufs s c)
      \<and> b_data (bufs t c) = b_data (bufs s c)" by blast
  have l: "lg t = lg s" using cache_step_fields(1) [OF t(6)] .
  have "log_inv p (remove1 b L) t" using inv t(2,4) l by (simp add: log_inv_def)
  moreover have "cached t = cached s" using t(7) by (simp add: cached_def fun_eq_iff)
  ultimately show thesis using that t(1,3) l txstep_cache [OF t(6,4,5)] by blast
qed

lemma bread_tx:
  assumes inv: "tx p L s" and nl: "\<And>c. c \<in> set L \<Longrightarrow> b_blockno (bufs s c) \<noteq> no"
    and room: "l_n (lg s) + int (length L) < int NBUF"
  obtains b t where "bread ROOTDEV no s = Ok b t" "tx p (b # L) t" "cached t no b" "b \<notin> set L"
    "b_data (bufs t b) = content s no" "content t = content s" "txstep s t 0" "\<And>c. c \<noteq> b \<Longrightarrow> bufs t c = bufs s c"
    "no \<in> set (logged (lg t)) \<or> content t no = disk t no" "lg t = lg s"
proof -
  have l: "log_inv p L s" using inv by (simp add: tx_def)
  show thesis
    by (rule bread_log [OF l nl room]) (use inv in \<open>auto simp: tx_def intro!: that\<close>)
qed

lemma brelse_tx:
  assumes inv: "tx p L s" and b: "b \<in> set L" "cached s no b"
    and cl: "no \<in> set (logged (lg s)) \<or> content s no = disk s no"
  obtains t where "brelse b s = Ok () t" "tx p (remove1 b L) t" "content t = content s" "txstep s t 0"
    "cached t = cached s" "lg t = lg s"
proof -
  have l: "log_inv p L s" using inv by (simp add: tx_def)
  show thesis
    by (rule brelse_log [OF l b cl]) (use inv in \<open>auto simp: tx_def intro!: that\<close>)
qed

lemma write_tx:
  assumes inv: "tx p L s" and b: "b \<in> set L" "cached s no b" and no: "no \<notin> log_area (l_start (lg s))"
    and len: "length d = BSIZE" and l: "l_n (lg s) < int LOGBLOCKS"
  obtains t where "\<And>k :: 'a kop. seq (set_bdata b d) (seq (log_write b) k) s = k t" "tx p L t" "content t = (content s)(no := d)"
    "no \<in> set (logged (lg t))" "set (logged (lg s)) \<subseteq> set (logged (lg t))" "txstep s t 1" "cached t = cached s"
proof -
  let ?D = "set (logged (lg s))" and ?u = "upd_buf b (\<lambda>x. x\<lparr>b_data := d\<rparr>) s"
  have ci: "cache_inv p L ?D s" using inv by (auto simp: tx_def log_inv_def)
  note u = set_data_run [OF ci b len]
  have f: "lg ?u = lg s" "disk ?u = disk s" "cached ?u = cached s"
    by (auto simp: upd_buf_def cached_def fun_eq_iff)
  have lu: "log_inv p L ?u" using inv u(1) f by (simp add: tx_def log_inv_def)
  obtain t where t: "log_write b ?u = Ok () t" "log_inv p L t"
    "logged (lg t) = (if no \<in> set (logged (lg ?u)) then logged (lg ?u) else logged (lg ?u) @ [no])"
    "content t = content ?u" "lg t = (lg ?u)\<lparr>l_n := l_n (lg t), l_block := l_block (lg t)\<rparr>" "cached t = cached ?u"
    "t = ?u\<lparr>bufs := bufs t, lg := lg t\<rparr>"
    by (rule log_write_run [OF lu b(1), of no]) (use b no l inv f in \<open>auto simp: tx_def\<close>)
  have lo: "log_ok (lg s)" "log_ok (lg t)" using inv t(2) by (auto simp: tx_def log_inv_def)
  have "nat (l_n (lg t)) = length (logged (lg t))" "nat (l_n (lg s)) = length (logged (lg s))" using log_okD(2) lo by auto
  then have n: "l_n (lg s) \<le> l_n (lg t)" "l_n (lg t) \<le> l_n (lg s) + 1"
    using t(3) f log_okD(4) [OF lo(1)] log_okD(4) [OF lo(2)] by (auto split: if_splits)
  have "?u\<lparr>bufs := B, lg := lg t\<rparr> = s\<lparr>klog := klog s, procs := procs s, bufs := B,
      lg := (lg ?u)\<lparr>l_n := l_n (lg t), l_block := l_block (lg t)\<rparr>\<rparr>" for B
    using t(5) by (simp add: upd_buf_def)
  with t(7) f(1) have "t = s\<lparr>klog := klog s, procs := procs s, bufs := bufs t, lg := (lg s)\<lparr>l_n := l_n (lg t), l_block := l_block (lg t)\<rparr>\<rparr>"
    by metis
  moreover have "\<exists>st ch. procs s q = (procs s q)\<lparr>p_state := st, p_chan := ch\<rparr>" for q
    by (rule exI [of _ "p_state (procs s q)"], rule exI [of _ "p_chan (procs s q)"]) simp
  ultimately have st: "txstep s t 1" using n unfolding txstep_def by fastforce
  have o: "1 \<le> l_outstanding (lg t)" using txstep_fields(8) [OF st] inv by (simp add: tx_def)
  show thesis
  proof (rule that)
    show "seq (set_bdata b d) (seq (log_write b) k) s = k t" for k :: "'a kop"
      using t(1) by (simp add: set_bdata_def seq_Ok)
    show "tx p L t" using t(2) o by (simp add: tx_def)
    show "content t = (content s)(no := d)" using t(4) u(2) by simp
    show "no \<in> set (logged (lg t))" "set (logged (lg s)) \<subseteq> set (logged (lg t))" using t(3) f(1) by auto
    show "cached t = cached s" using t(6) f(3) by simp
  qed (rule st)
qed

lemma tx_frame [simp]:
  "tx p L (s\<lparr>itable := I\<rparr>) = tx p L s" "content (s\<lparr>itable := I\<rparr>) = content s" "cached (s\<lparr>itable := I\<rparr>) = cached s"
  "tx p L (s\<lparr>mem := M\<rparr>) = tx p L s" "content (s\<lparr>mem := M\<rparr>) = content s" "cached (s\<lparr>mem := M\<rparr>) = cached s"
  "log_inv p L (s\<lparr>mem := M\<rparr>) = log_inv p L s"
  by (auto simp: tx_def log_inv_def cache_inv_def content_def cached_def [abs_def] fun_eq_iff split: list.split)

lemma seq_ret: "seq m (ret ()) = m"
  by (rule ext) (auto simp: seq_def bnd_def ret_def split: outcome.split)

lemma update_tx:
  assumes inv: "tx p L s" and nl: "\<And>c. c \<in> set L \<Longrightarrow> b_blockno (bufs s c) \<noteq> no"
    and room: "l_n (lg s) + int (length L) < int NBUF" and no: "no \<notin> log_area (l_start (lg s))" and len: "length d = BSIZE"
  obtains b u t where "bread ROOTDEV no s = Ok b u" "b_data (bufs u b) = content s no" "sblk u = sblk s" "mem u = mem s"
    "\<And>k :: 'a kop. seq (set_bdata b d) (seq (log_write b) (seq (brelse b) k)) u = k t"
    "tx p L t" "content t = (content s)(no := d)" "txstep s t 1"
    "\<And>c m. c \<in> set L \<Longrightarrow> cached s m c \<Longrightarrow> cached t m c" "set (logged (lg s)) \<subseteq> set (logged (lg t))"
proof -
  obtain b u where u: "bread ROOTDEV no s = Ok b u" "tx p (b # L) u" "cached u no b" "b \<notin> set L"
    "b_data (bufs u b) = content s no" "content u = content s" "txstep s u 0" "\<And>c. c \<noteq> b \<Longrightarrow> bufs u c = bufs s c"
    "lg u = lg s"
    by (rule bread_tx [OF inv nl room]) blast+
  note uf = txstep_fields [OF u(7)]
  have w: "no \<notin> log_area (l_start (lg u))" "l_n (lg u) < int LOGBLOCKS" using no room uf by (auto simp: const_defs)
  obtain v where v: "\<And>k :: 'a kop. seq (set_bdata b d) (seq (log_write b) k) u = k v" "tx p (b # L) v"
    "content v = (content u)(no := d)" "no \<in> set (logged (lg v))" "set (logged (lg u)) \<subseteq> set (logged (lg v))"
    "txstep u v 1" "cached v = cached u"
    by (rule write_tx [OF u(2) _ u(3) w(1) len w(2)]) auto
  obtain t where t: "brelse b v = Ok () t" "tx p (remove1 b (b # L)) t" "content t = content v" "txstep v t 0"
    "cached t = cached v" "lg t = lg v"
    by (rule brelse_tx [OF v(2), of b no]) (use v(4,7) u(3) in auto)
  show thesis
  proof (rule that [OF u(1,5)])
    show "seq (set_bdata b d) (seq (log_write b) (seq (brelse b) k)) u = k t" for k :: "'a kop"
      using t(1) by (simp add: v(1) seq_Ok)
    show "txstep s t 1" using txstep_trans [OF txstep_trans [OF u(7) v(6)] t(4)] by simp
    show "cached t m c" if "c \<in> set L" "cached s m c" for c m
    proof -
      have "bufs u c = bufs s c" using that(1) u(4) by (intro u(8)) auto
      then show ?thesis using that(2) t(5) v(7) by (simp add: cached_def)
    qed
  qed (use t v(3,5) u(6,9) uf in \<open>auto\<close>)
qed

section \<open>Allocating a block\<close>

text \<open>
  The bit of a block in the free map, and the blocks of the disk that are free. A disk of at most
  \<open>BPB\<close> blocks (\<open>FSSIZE\<close> is 2000) has one block of the free map.
\<close>

definition bset :: "u8 list \<Rightarrow> nat \<Rightarrow> bool" where
  "bset d n \<longleftrightarrow> bit (d ! (n div 8)) (n mod 8)"

definition unused :: "superblock \<Rightarrow> (u32 \<Rightarrow> u8 list) \<Rightarrow> nat set" where
  "unused sb c = {n. n < unat (sb_size sb) \<and> \<not> bset (c (sb_bmapstart sb)) n}"

lemma unused_finite [simp]: "finite (unused sb c)"
  by (simp add: unused_def)

lemma free_bit_Some:
  assumes "free_bit d i k = Some n"
  shows "i \<le> n" "n < i + k" "\<not> bset d n"
  using assms by (induction d i k rule: free_bit.induct) (auto simp: and_exp_eq_0_iff_not_bit bset_def split: if_splits)

lemma free_bit_None: "free_bit d i k = None \<Longrightarrow> n \<in> {i..<i + k} \<Longrightarrow> bset d n"
proof (induction d i k rule: free_bit.induct)
  case (2 d i k)
  then have "bset d i" "free_bit d (Suc i) k = None" by (auto simp: and_exp_eq_0_iff_not_bit bset_def split: if_splits)
  with 2 show ?case by (cases "n = i") (auto simp: and_exp_eq_0_iff_not_bit bset_def)
qed simp

definition claim_bit :: "u8 list \<Rightarrow> nat \<Rightarrow> u8 list" where
  "claim_bit d n = d[n div 8 := (d ! (n div 8)) OR push_bit (n mod 8) 1]"

lemma bset_claim:
  assumes "n < 8 * length d"
  shows "bset (claim_bit d n) m \<longleftrightarrow> bset d m \<or> m = n" "length (claim_bit d n) = length d"
proof -
  have "n div 8 < length d" using assms by (simp add: div_less_iff_less_mult)
  then show "bset (claim_bit d n) m \<longleftrightarrow> bset d m \<or> m = n"
    by (auto simp: bset_def claim_bit_def nth_list_update push_bit_eq_mult bit_set_bit dest: div_mod_8_eq)
qed (simp add: claim_bit_def)

text \<open>
  The blocks \<open>M\<close> that hold no file data (the log, the free map, the inodes and block 0) are marked as in use.
\<close>

definition disk_ok :: "u32 \<Rightarrow> u32 set \<Rightarrow> superblock \<Rightarrow> (u32 \<Rightarrow> u8 list) \<Rightarrow> bool" where
  "disk_ok S M sb c \<longleftrightarrow> unat (sb_size sb) \<le> BPB \<and> 0 \<in> M \<and> log_area S \<subseteq> M \<and>
     sb_bmapstart sb \<in> M - log_area S \<and>
     (\<forall>n\<in>unused sb c. of_nat n \<notin> M)"

definition claimed :: "superblock \<Rightarrow> (u32 \<Rightarrow> u8 list) \<Rightarrow> nat \<Rightarrow> (u32 \<Rightarrow> u8 list)" where
  "claimed sb c n = c(sb_bmapstart sb := claim_bit (c (sb_bmapstart sb)) n, of_nat n := replicate BSIZE 0)"

lemma unused_small:
  assumes "disk_ok S M sb c" "n \<in> unused sb c"
  shows "n < BPB" "unat (of_nat n :: u32) = n" "of_nat n \<noteq> sb_bmapstart sb" "of_nat n \<notin> M" "of_nat n \<noteq> (0 :: u32)"
proof -
  show n: "n < BPB" using assms by (auto simp: disk_ok_def unused_def)
  then show "unat (of_nat n :: u32) = n" by (intro unat_of_nat32) (simp add: const_defs)
  show "of_nat n \<noteq> sb_bmapstart sb" "of_nat n \<notin> M" "of_nat n \<noteq> (0 :: u32)" using assms by (auto simp: disk_ok_def)
qed

lemma claimed_unused:
  assumes d: "disk_ok S M sb c" and n: "n \<in> unused sb c" and len: "length (c (sb_bmapstart sb)) = BSIZE"
  shows "unused sb (claimed sb c n) = unused sb c - {n}" "disk_ok S M sb (claimed sb c n)"
    "bset (claimed sb c n (sb_bmapstart sb)) m \<longleftrightarrow> bset (c (sb_bmapstart sb)) m \<or> m = n"
proof -
  have "n < 8 * length (c (sb_bmapstart sb))" using unused_small(1) [OF d n] len by (simp add: const_defs)
  then show b: "bset (claimed sb c n (sb_bmapstart sb)) m \<longleftrightarrow> bset (c (sb_bmapstart sb)) m \<or> m = n" for m
    using unused_small(3) [OF d n] by (simp add: claimed_def bset_claim)
  then show u: "unused sb (claimed sb c n) = unused sb c - {n}" by (auto simp: unused_def)
  then show "disk_ok S M sb (claimed sb c n)" using d by (auto simp: disk_ok_def)
qed

lemma balloc_run:
  assumes inv: "tx p L s" and d: "disk_ok (l_start (lg s)) M (sblk s) (content s)"
    and u: "unused (sblk s) (content s) \<noteq> {}" and room: "l_n (lg s) + int (length L) + 1 < int NBUF"
    and nl: "\<And>c. c \<in> set L \<Longrightarrow> b_blockno (bufs s c) \<noteq> sb_bmapstart (sblk s)"
      "\<And>c n. c \<in> set L \<Longrightarrow> n \<in> unused (sblk s) (content s) \<Longrightarrow> b_blockno (bufs s c) \<noteq> of_nat n"
    and lc: "\<And>c. c \<in> set L \<Longrightarrow> cached s (b_blockno (bufs s c)) c"
  obtains n t where "n \<in> unused (sblk s) (content s)" "balloc ROOTDEV s = Ok (of_nat n) t" "tx p L t"
    "content t = claimed (sblk s) (content s) n" "txstep s t 2" "\<And>c m. c \<in> set L \<Longrightarrow> cached s m c \<Longrightarrow> cached t m c"
    "set (logged (lg s)) \<subseteq> set (logged (lg t))"
proof -
  let ?sb = "sblk s" and ?c = "content s"
  let ?B = "sb_bmapstart ?sb" and ?k = "unat (sb_size ?sb)"
  obtain m where m: "m \<in> unused ?sb ?c" using u by blast
  then have "free_bit (?c ?B) 0 ?k \<noteq> None" using free_bit_None [of "?c ?B" 0 ?k m] by (auto simp: unused_def)
  then obtain n where n: "free_bit (?c ?B) 0 ?k = Some n" by blast
  then have nu: "n \<in> unused ?sb ?c" using free_bit_Some [OF n] by (simp add: unused_def)
  note ns = unused_small [OF d nu]
  have k: "?k \<le> BPB" "0 < ?k" using d m by (auto simp: disk_ok_def unused_def)
  have len: "length (?c ?B) = BSIZE" by (rule tx_fields(3) [OF inv])
  have bl: "length (claim_bit (?c ?B) n) = BSIZE" using len by (simp add: claim_bit_def)
  have BM: "?B \<notin> log_area (l_start (lg s))" "of_nat n \<notin> log_area (l_start (lg s))"
    using d ns by (auto simp: disk_ok_def)
  obtain b v t where t: "bread ROOTDEV ?B s = Ok b v" "b_data (bufs v b) = ?c ?B" "sblk v = ?sb"
    "\<And>k :: u32 kop. seq (set_bdata b (claim_bit (?c ?B) n)) (seq (log_write b) (seq (brelse b) k)) v = k t"
    "tx p L t" "content t = ?c(?B := claim_bit (?c ?B) n)" "txstep s t 1"
    "\<And>c m. c \<in> set L \<Longrightarrow> cached s m c \<Longrightarrow> cached t m c" "set (logged (lg s)) \<subseteq> set (logged (lg t))"
    by (rule update_tx [OF inv nl(1) _ BM(1) bl]) (use room in auto)
  have tl: "content t (of_nat n) = ?c (of_nat n)" using t(6) ns(3) by simp
  note tf = txstep_fields [OF t(7)]
  obtain b' v' w where w: "bread ROOTDEV (of_nat n) t = Ok b' v'"
    "\<And>k :: unit kop. seq (set_bdata b' (replicate BSIZE 0)) (seq (log_write b') (seq (brelse b') k)) v' = k w"
    "tx p L w" "content w = (content t)(of_nat n := replicate BSIZE 0)" "txstep t w 1"
    "\<And>c m. c \<in> set L \<Longrightarrow> cached t m c \<Longrightarrow> cached w m c" "set (logged (lg t)) \<subseteq> set (logged (lg w))"
  proof (rule update_tx [OF t(5), of "of_nat n" "replicate BSIZE 0"])
    show "b_blockno (bufs t c) \<noteq> of_nat n" if "c \<in> set L" for c
      using t(8) [OF that lc [OF that]] nl(2) [OF that nu] by (simp add: cached_def)
  qed (use tf room BM(2) in auto)
  have "bzero ROOTDEV (of_nat n) t = Ok () w"
    using w(1) w(2) [of "ret ()"] by (simp add: bzero_def bnd_Ok seq_ret)
  moreover have "(?k + BPB - 1) div BPB = 1" using k by (simp add: div_nat_eqI)
  moreover have "min BPB ?k = ?k" using k by simp
  ultimately have "balloc ROOTDEV s = Ok (of_nat n) w"
    using t(1-4) n by (simp add: balloc_def BBLOCK_def bnd_Ok bdata_def seq_Ok claim_bit_def)
  moreover have "content w = claimed ?sb ?c n" using w(4) t(6) by (simp add: claimed_def)
  moreover have "txstep s w 2" using txstep_trans [OF t(7) w(5)] by (simp add: numeral_2_eq_2)
  ultimately show thesis using that [of n w] nu w(3) t(8,9) w(6,7) by blast
qed

section \<open>The blocks of a file\<close>

text \<open>
  The address of block \<open>i\<close> of a file (0 where there is none), the contents of the block (zeros where there
  is none), and the invariant: the blocks of the file are distinct data blocks and marked as in use.
\<close>

definition baddr :: "(u32 \<Rightarrow> u8 list) \<Rightarrow> inode \<Rightarrow> nat \<Rightarrow> u32" where
  "baddr c x i = (if i < NDIRECT then i_addrs x ! i else if i_addrs x ! NDIRECT = 0 then 0
     else get32 (c (i_addrs x ! NDIRECT)) (4 * (i - NDIRECT)))"

definition fblock :: "(u32 \<Rightarrow> u8 list) \<Rightarrow> inode \<Rightarrow> nat \<Rightarrow> u8 list" where
  "fblock c x i = (if baddr c x i = 0 then replicate BSIZE 0 else c (baddr c x i))"

definition data_block :: "u32 set \<Rightarrow> superblock \<Rightarrow> (u32 \<Rightarrow> u8 list) \<Rightarrow> u32 \<Rightarrow> bool" where
  "data_block M sb c a \<longleftrightarrow> a \<notin> M \<and> unat a \<notin> unused sb c"

definition file_ok :: "u32 set \<Rightarrow> superblock \<Rightarrow> (u32 \<Rightarrow> u8 list) \<Rightarrow> inode \<Rightarrow> bool" where
  "file_ok M sb c x \<longleftrightarrow> length (i_addrs x) = Suc NDIRECT \<and>
     (\<forall>i<MAXFILE. baddr c x i \<noteq> 0 \<longrightarrow> data_block M sb c (baddr c x i) \<and> baddr c x i \<noteq> i_addrs x ! NDIRECT) \<and>
     (i_addrs x ! NDIRECT \<noteq> 0 \<longrightarrow> data_block M sb c (i_addrs x ! NDIRECT)) \<and>
     (\<forall>i<MAXFILE. \<forall>j<MAXFILE. baddr c x i \<noteq> 0 \<and> baddr c x i = baddr c x j \<longrightarrow> i = j)"

text \<open>Changing blocks that are not the file's changes neither its addresses nor its contents.\<close>

definition own :: "(u32 \<Rightarrow> u8 list) \<Rightarrow> inode \<Rightarrow> u32 set" where
  "own c x = (baddr c x ` {..<MAXFILE} \<union> {i_addrs x ! NDIRECT}) - {0}"

lemma baddr_cong:
  assumes "\<And>a. a \<in> own c x \<Longrightarrow> c' a = c a"
  shows "baddr c' x = baddr c x"
  using assms by (auto simp: baddr_def own_def fun_eq_iff)

lemma own_cong:
  assumes "\<And>a. a \<in> own c x \<Longrightarrow> c' a = c a"
  shows "own c' x = own c x"
proof -
  have "baddr c' x = baddr c x" by (rule baddr_cong) (rule assms)
  then show ?thesis by (simp add: own_def)
qed

lemma fblock_cong:
  assumes "\<And>a. a \<in> own c x \<Longrightarrow> c' a = c a" "i < MAXFILE"
  shows "fblock c' x i = fblock c x i"
proof -
  have "baddr c' x = baddr c x" by (rule baddr_cong) (rule assms(1))
  then show ?thesis using assms(1) [of "baddr c x i"] assms(2) by (auto simp: fblock_def own_def)
qed

lemma file_ok_cong:
  assumes "file_ok M sb c x" "\<And>a. a \<in> own c x \<Longrightarrow> c' a = c a" "unused sb c' \<subseteq> unused sb c"
  shows "file_ok M sb c' x"
proof -
  have "baddr c' x = baddr c x" by (rule baddr_cong) (rule assms(2))
  then show ?thesis using assms(1,3) by (auto simp: file_ok_def data_block_def)
qed

lemma own_data:
  assumes "file_ok M sb c x" "a \<in> own c x"
  shows "data_block M sb c a"
  using assms by (auto simp: file_ok_def own_def)

lemma own_claimed:
  assumes f: "file_ok M sb c x" and d: "disk_ok S M sb c" and n: "n \<in> unused sb c" and a: "a \<in> own c x"
  shows "claimed sb c n a = c a" "a \<noteq> of_nat n"
proof -
  have "a \<noteq> sb_bmapstart sb" "a \<noteq> of_nat n"
    using own_data [OF f a] d n unused_small(2) [OF d n] by (auto simp: data_block_def disk_ok_def)
  then show "claimed sb c n a = c a" "a \<noteq> of_nat n" by (simp_all add: claimed_def)
qed

text \<open>A free block becomes block \<open>i\<close> of the file, or its indirect block.\<close>

lemma file_extend:
  assumes f: "file_ok M sb c x" and d: "disk_ok S M sb c" and n: "n \<in> unused sb c" and i: "i < MAXFILE" "baddr c x i = 0"
    and ba: "\<And>j. j < MAXFILE \<Longrightarrow> baddr c' x' j = (if j = i then of_nat n else baddr c x j)"
    and ind: "length (i_addrs x') = length (i_addrs x)" "i_addrs x' ! NDIRECT = i_addrs x ! NDIRECT"
    and un: "unused sb c' = unused sb c - {n}" and z: "c' (of_nat n) = replicate BSIZE 0"
    and cc: "\<And>a. a \<in> own c x \<Longrightarrow> a \<noteq> i_addrs x ! NDIRECT \<Longrightarrow> c' a = c a"
  shows "file_ok M sb c' x'" "\<And>j. j < MAXFILE \<Longrightarrow> fblock c' x' j = fblock c x j"
proof -
  note ns = unused_small [OF d n]
  have own: "baddr c x j \<in> own c x" if "j < MAXFILE" "baddr c x j \<noteq> 0" for j using that by (auto simp: own_def)
  have nd: "data_block M sb c' (of_nat n)" using ns un by (simp add: data_block_def)
  have od: "data_block M sb c' a" if "a \<in> own c x" for a
    using own_data [OF f that] un by (auto simp: data_block_def)
  have ne: "of_nat n \<noteq> a" if "a \<in> own c x" for a using own_claimed(2) [OF f d n that] by auto
  have oi: "i_addrs x ! NDIRECT \<in> own c x" if "i_addrs x ! NDIRECT \<noteq> 0" using that by (auto simp: own_def)
  have ni: "of_nat n \<noteq> i_addrs x ! NDIRECT" using ne oi ns(5) by metis
  have di: "baddr c x j \<noteq> i_addrs x ! NDIRECT" if "j < MAXFILE" "baddr c x j \<noteq> 0" for j
    using f that by (simp add: file_ok_def)
  have inj: "j = k" if "j < MAXFILE" "k < MAXFILE" "baddr c x j \<noteq> 0" "baddr c x j = baddr c x k" for j k
    using f that by (simp add: file_ok_def)
  show "file_ok M sb c' x'"
    unfolding file_ok_def
  proof (intro conjI allI impI)
    show "length (i_addrs x') = Suc NDIRECT" using f ind by (simp add: file_ok_def)
    show "data_block M sb c' (i_addrs x' ! NDIRECT)" if "i_addrs x' ! NDIRECT \<noteq> 0" using od oi that ind by simp
  next
    fix j assume j: "j < MAXFILE" "baddr c' x' j \<noteq> 0"
    then show "data_block M sb c' (baddr c' x' j)" "baddr c' x' j \<noteq> i_addrs x' ! NDIRECT"
      using nd od own [of j] di [of j] ni ind(2) by (auto simp: ba split: if_splits)
  next
    fix j k assume jk: "j < MAXFILE" "k < MAXFILE" "baddr c' x' j \<noteq> 0 \<and> baddr c' x' j = baddr c' x' k"
    then show "j = k" using inj [of j k] ne own [of j] own [of k] ns(5) i(2) by (auto simp: ba split: if_splits)
  qed
  show "fblock c' x' j = fblock c x j" if "j < MAXFILE" for j
    using that i(2) z ns(5) cc [OF own] di [of j] by (auto simp: fblock_def ba)
qed

lemma file_indirect:
  assumes f: "file_ok M sb c x" and d: "disk_ok S M sb c" and n: "n \<in> unused sb c" and i: "i_addrs x ! NDIRECT = 0"
    and len: "length (c (sb_bmapstart sb)) = BSIZE"
  defines "x' \<equiv> x\<lparr>i_addrs := (i_addrs x)[NDIRECT := of_nat n]\<rparr>"
  shows "file_ok M sb (claimed sb c n) x'" "\<And>j. j < MAXFILE \<Longrightarrow> fblock (claimed sb c n) x' j = fblock c x j"
    "baddr (claimed sb c n) x' j = baddr c x j"
proof -
  let ?c = "claimed sb c n"
  note ns = unused_small [OF d n]
  have l: "length (i_addrs x) = Suc NDIRECT" using f by (simp add: file_ok_def)
  have "get32 (?c (of_nat n)) (4 * k) = 0" for k
    by (simp add: claimed_def get32_def take_replicate drop_replicate le_word_zeros)
  then show ba: "baddr ?c x' j = baddr c x j" for j using l i ns(5) by (simp add: baddr_def x'_def)
  note un = claimed_unused(1) [OF d n len]
  have own: "baddr c x j \<in> own c x" if "j < MAXFILE" "baddr c x j \<noteq> 0" for j using that by (auto simp: own_def)
  have di: "baddr c x j \<noteq> of_nat n" "data_block M sb ?c (baddr c x j)" if "j < MAXFILE" "baddr c x j \<noteq> 0" for j
    using own_claimed(2) [OF f d n own [OF that]] own_data [OF f own [OF that]] un by (auto simp: data_block_def)
  have "data_block M sb ?c (of_nat n)" using ns un by (simp add: data_block_def)
  moreover have "i_addrs x' ! NDIRECT = of_nat n" "length (i_addrs x') = Suc NDIRECT" using l by (simp_all add: x'_def)
  moreover have "\<forall>i<MAXFILE. \<forall>j<MAXFILE. baddr c x i \<noteq> 0 \<and> baddr c x i = baddr c x j \<longrightarrow> i = j"
    using f unfolding file_ok_def by blast
  ultimately show "file_ok M sb ?c x'" unfolding file_ok_def ba using di by simp
  show "fblock ?c x' j = fblock c x j" if "j < MAXFILE" for j
    using own_claimed(1) [OF f d n own [OF that]] by (simp add: fblock_def ba)
qed

section \<open>Finding the block of a file\<close>

text \<open>
  A file \<open>ip\<close> in a transaction, and what an operation on it may change: the addresses and the size in its inode,
  and the blocks in the log, at most \<open>k\<close> more; at most \<open>f\<close> blocks are allocated, and none of the file's is freed.
\<close>

definition free_blocks :: "kstate \<Rightarrow> nat" where
  "free_blocks s = card (unused (sblk s) (content s))"

definition fmapped :: "kstate \<Rightarrow> nat \<Rightarrow> nat set" where
  "fmapped s ip = {j. baddr (content s) (itable s ip) j \<noteq> 0}"

definition file_tx :: "nat \<Rightarrow> u32 set \<Rightarrow> nat \<Rightarrow> kstate \<Rightarrow> bool" where
  "file_tx p M ip s \<longleftrightarrow> tx p [] s \<and> disk_ok (l_start (lg s)) M (sblk s) (content s) \<and>
     file_ok M (sblk s) (content s) (itable s ip) \<and> i_dev (itable s ip) = ROOTDEV"

definition file_step :: "nat \<Rightarrow> kstate \<Rightarrow> kstate \<Rightarrow> nat \<Rightarrow> nat \<Rightarrow> bool" where
  "file_step ip s t k f \<longleftrightarrow>
     (\<exists>a z. txstep (s\<lparr>itable := (itable s)(ip := (itable s ip)\<lparr>i_addrs := a, i_size := z\<rparr>)\<rparr>) t k) \<and>
     free_blocks s \<le> free_blocks t + f \<and> fmapped s ip \<subseteq> fmapped t ip"

definition fdata :: "kstate \<Rightarrow> nat \<Rightarrow> nat \<Rightarrow> u8 list" where
  "fdata s ip i = fblock (content s) (itable s ip) i"

lemma file_step_refl [simp]: "file_step ip s s k f"
proof -
  have "s\<lparr>itable := (itable s)(ip := (itable s ip)\<lparr>i_addrs := i_addrs (itable s ip), i_size := i_size (itable s ip)\<rparr>)\<rparr> = s" by simp
  then show ?thesis unfolding file_step_def by (metis le_add1 txstep_refl order.refl)
qed

lemma file_stepI:
  assumes "txstep (s\<lparr>itable := I\<rparr>) t k" "I = (itable s)(ip := (itable s ip)\<lparr>i_addrs := a, i_size := z\<rparr>)"
    "free_blocks s \<le> free_blocks t + f" "fmapped s ip \<subseteq> fmapped t ip"
  shows "file_step ip s t k f"
  using assms unfolding file_step_def by blast

lemma txstep_itable:
  assumes "txstep s t k"
  shows "txstep (s\<lparr>itable := I\<rparr>) (t\<lparr>itable := I\<rparr>) k"
proof -
  obtain kl P B n bl where 1: "t = s\<lparr>klog := kl, procs := P, bufs := B, lg := (lg s)\<lparr>l_n := n, l_block := bl\<rparr>\<rparr>"
    "\<forall>q. \<exists>st ch. P q = (procs s q)\<lparr>p_state := st, p_chan := ch\<rparr>" "l_n (lg s) \<le> n" "n \<le> l_n (lg s) + int k"
    using assms unfolding txstep_def by blast
  show ?thesis unfolding txstep_def
    by (rule exI [of _ kl], rule exI [of _ P], rule exI [of _ B], rule exI [of _ n], rule exI [of _ bl]) (use 1 in simp)
qed

lemma file_step_trans:
  assumes "file_step ip r s j f" "file_step ip s t k g"
  shows "file_step ip r t (j + k) (f + g)"
proof -
  obtain a z where 1: "txstep (r\<lparr>itable := (itable r)(ip := (itable r ip)\<lparr>i_addrs := a, i_size := z\<rparr>)\<rparr>) s j"
    using assms(1) by (auto simp: file_step_def)
  obtain a' z' where 2: "txstep (s\<lparr>itable := (itable s)(ip := (itable s ip)\<lparr>i_addrs := a', i_size := z'\<rparr>)\<rparr>) t k"
    using assms(2) by (auto simp: file_step_def)
  have s: "itable s = (itable r)(ip := (itable r ip)\<lparr>i_addrs := a, i_size := z\<rparr>)" using txstep_fields(1) [OF 1] by simp
  have "txstep (r\<lparr>itable := (itable r)(ip := (itable r ip)\<lparr>i_addrs := a', i_size := z'\<rparr>)\<rparr>) t (j + k)"
    using txstep_trans [OF txstep_itable [OF 1] 2] s by simp
  then show ?thesis using assms by (auto simp: file_step_def)
qed

lemma file_step_tx:
  "txstep s t k \<Longrightarrow> free_blocks s \<le> free_blocks t + f \<Longrightarrow> fmapped s ip \<subseteq> fmapped t ip \<Longrightarrow> file_step ip s t k f"
  unfolding file_step_def
  by (rule conjI, rule exI [of _ "i_addrs (itable s ip)"], rule exI [of _ "i_size (itable s ip)"]) auto

lemma file_step_fields:
  assumes "file_step ip s t k f"
  shows "curproc t = curproc s" "held t = held s" "mem t = mem s" "sblk t = sblk s"
    "freelist t = freelist s" "l_start (lg t) = l_start (lg s)" "l_outstanding (lg t) = l_outstanding (lg s)"
    "l_n (lg t) \<le> l_n (lg s) + int k" "i_dev (itable t ip) = i_dev (itable s ip)" "i_inum (itable t ip) = i_inum (itable s ip)"
    "free_blocks s \<le> free_blocks t + f" "fmapped s ip \<subseteq> fmapped t ip"
proof -
  obtain a z where "txstep (s\<lparr>itable := (itable s)(ip := (itable s ip)\<lparr>i_addrs := a, i_size := z\<rparr>)\<rparr>) t k"
    using assms by (auto simp: file_step_def)
  note f = txstep_fields [OF this]
  show "curproc t = curproc s" "held t = held s" "mem t = mem s" "sblk t = sblk s"
    "freelist t = freelist s" "l_start (lg t) = l_start (lg s)" "l_outstanding (lg t) = l_outstanding (lg s)"
    "l_n (lg t) \<le> l_n (lg s) + int k" "i_dev (itable t ip) = i_dev (itable s ip)" "i_inum (itable t ip) = i_inum (itable s ip)"
    using f by simp_all
qed (use assms in \<open>simp_all add: file_step_def\<close>)

lemma claimed_baddr:
  assumes f: "file_ok M sb c x" and d: "disk_ok S M sb c" and n: "n \<in> unused sb c"
  shows "baddr (claimed sb c n) x = baddr c x"
  by (rule baddr_cong) (rule own_claimed(1) [OF f d n])

lemma claim_file:
  assumes f: "file_ok M sb c x" and d: "disk_ok S M sb c" and n: "n \<in> unused sb c" and len: "length (c (sb_bmapstart sb)) = BSIZE"
    and k: "k \<le> NDIRECT" "i_addrs x ! k = 0"
  defines "x' \<equiv> x\<lparr>i_addrs := (i_addrs x)[k := of_nat n]\<rparr>"
  shows "file_ok M sb (claimed sb c n) x'" "\<And>j. j < MAXFILE \<Longrightarrow> fblock (claimed sb c n) x' j = fblock c x j"
    "\<And>j. baddr c x j \<noteq> 0 \<Longrightarrow> baddr (claimed sb c n) x' j \<noteq> 0"
proof -
  let ?c = "claimed sb c n"
  have l: "length (i_addrs x) = Suc NDIRECT" using f by (simp add: file_ok_def)
  have "file_ok M sb ?c x' \<and> (\<forall>j<MAXFILE. fblock ?c x' j = fblock c x j) \<and> (\<forall>j. baddr c x j \<noteq> 0 \<longrightarrow> baddr ?c x' j \<noteq> 0)"
  proof (cases "k = NDIRECT")
    case True
    then show ?thesis using file_indirect [OF f d n _ len] k by (simp add: x'_def)
  next
    case False
    then have k12: "k < NDIRECT" using k by simp
    have km: "k < MAXFILE" using k12 by (simp add: MAXFILE_def)
    have b0: "baddr c x k = 0" using k12 k by (simp add: baddr_def)
    have "baddr ?c x' j = (if j = k then of_nat n else baddr ?c x j)" for j
      using k12 l by (simp add: baddr_def x'_def)
    then have ba: "baddr ?c x' j = (if j = k then of_nat n else baddr c x j)" for j
      by (simp add: claimed_baddr [OF f d n])
    have "?c (of_nat n) = replicate BSIZE 0" by (simp add: claimed_def)
    with file_extend [OF f d n km b0 ba _ _ claimed_unused(1) [OF d n len] _ own_claimed(1) [OF f d n]] l k12
      ba unused_small(5) [OF d n]
    show ?thesis by (simp add: x'_def)
  qed
  then show "file_ok M sb ?c x'" "\<And>j. j < MAXFILE \<Longrightarrow> fblock ?c x' j = fblock c x j"
    "\<And>j. baddr c x j \<noteq> 0 \<Longrightarrow> baddr ?c x' j \<noteq> 0" by blast+
qed

lemma free_blocks_claimed:
  assumes d: "disk_ok S M (sblk s) (content s)" and n: "n \<in> unused (sblk s) (content s)"
    and len: "length (content s (sb_bmapstart (sblk s))) = BSIZE"
    and t: "sblk t = sblk s" "unused (sblk s) (content t) = unused (sblk s) (claimed (sblk s) (content s) n)"
  shows "free_blocks s = free_blocks t + 1"
  using claimed_unused(1) [OF d n len] n t card_Suc_Diff1 [OF unused_finite n] by (simp add: free_blocks_def)

lemma claim_addr:
  assumes f: "file_tx p M ip s" and k: "k \<le> NDIRECT" "i_addrs (itable s ip) ! k = 0" and free: "1 \<le> free_blocks s"
    and room: "l_n (lg s) + 1 < int NBUF"
  obtains a t where "bnd (balloc ROOTDEV) (\<lambda>addr. if addr = 0 then ret 0 else
      seq (modify (upd_inode ip (\<lambda>x. x\<lparr>i_addrs := (i_addrs x)[k := addr]\<rparr>))) (ret addr)) s = Ok a t"
    "a \<noteq> 0" "file_tx p M ip t" "file_step ip s t 2 1" "i_addrs (itable t ip) ! k = a"
    "\<And>j. j < MAXFILE \<Longrightarrow> fdata t ip j = fdata s ip j" "i_size (itable t ip) = i_size (itable s ip)"
proof -
  let ?sb = "sblk s" and ?c = "content s" and ?x = "itable s ip"
  have inv: "tx p [] s" and d: "disk_ok (l_start (lg s)) M ?sb ?c" and fo: "file_ok M ?sb ?c ?x"
    and dev: "i_dev ?x = ROOTDEV" using f by (auto simp: file_tx_def)
  have "unused ?sb ?c \<noteq> {}" using free by (auto simp: free_blocks_def)
  then obtain n t where t: "n \<in> unused ?sb ?c" "balloc ROOTDEV s = Ok (of_nat n) t" "tx p [] t" "content t = claimed ?sb ?c n" "txstep s t 2"
    by (rule balloc_run [OF inv d]) (use room in auto)
  note tf = txstep_fields [OF t(5)]
  have len: "length (?c (sb_bmapstart ?sb)) = BSIZE" by (rule tx_fields(3) [OF inv])
  define u where "u = upd_inode ip (\<lambda>x. x\<lparr>i_addrs := (i_addrs x)[k := of_nat n]\<rparr>) t"
  have u: "content u = claimed ?sb ?c n" "itable u ip = ?x\<lparr>i_addrs := (i_addrs ?x)[k := of_nat n]\<rparr>" "sblk u = ?sb"
    "l_start (lg u) = l_start (lg s)" "tx p [] u"
    using t(3,4) tf by (simp_all add: u_def upd_inode_def)
  note cl = claim_file [OF fo d t(1) len k]
  have "file_tx p M ip u"
    using u cl(1) claimed_unused(2) [OF d t(1) len] dev by (simp add: file_tx_def)
  moreover have "file_step ip s u 2 1"
  proof -
    have 1: "txstep (s\<lparr>itable := itable u\<rparr>) u 2" using txstep_itable [OF t(5), of "itable u"] by (simp add: u_def upd_inode_def)
    have 2: "itable u = (itable s)(ip := ?x\<lparr>i_addrs := (i_addrs ?x)[k := of_nat n], i_size := i_size ?x\<rparr>)"
      using tf by (simp add: u_def upd_inode_def)
    have "free_blocks s = free_blocks u + 1" by (rule free_blocks_claimed [OF d t(1) len]) (simp_all add: u)
    then show ?thesis using cl(3) u(1,2) by (intro file_stepI [OF 1 2]) (auto simp: fmapped_def)
  qed
  moreover have "k < length (i_addrs ?x)" using fo k by (simp add: file_ok_def)
  ultimately show thesis
    using that [of "of_nat n" u] t(2) unused_small(5) [OF d t(1)] cl(2) u by (simp add: bnd_Ok u_def fdata_def)
qed

lemma tx_cached: "tx p L s \<Longrightarrow> cached s no b \<Longrightarrow> b_data (bufs s b) = content s no"
  using content_cached by (force simp: tx_def log_inv_def)

lemma file_tx_same:
  assumes "file_tx p M ip s" "tx p [] t" "content t = content s" "txstep s t k"
  shows "file_tx p M ip t" "fdata t ip = fdata s ip" "file_step ip s t k f"
  using assms txstep_fields [OF assms(4)] file_step_tx [OF assms(4), of f ip]
  by (auto simp: file_tx_def fdata_def [abs_def] free_blocks_def fmapped_def)

lemma claim_indirect:
  assumes f: "file_ok M sb c x" and d: "disk_ok S M sb c" and n: "n \<in> unused sb c"
    and len: "length (c (sb_bmapstart sb)) = BSIZE" "length (c (i_addrs x ! NDIRECT)) = BSIZE"
    and k: "k < NINDIRECT" "i_addrs x ! NDIRECT \<noteq> 0" "baddr c x (NDIRECT + k) = 0"
  defines "c' \<equiv> (claimed sb c n)(i_addrs x ! NDIRECT := put32 (c (i_addrs x ! NDIRECT)) (4 * k) (of_nat n))"
  shows "file_ok M sb c' x" "\<And>j. j < MAXFILE \<Longrightarrow> fblock c' x j = fblock c x j" "baddr c' x (NDIRECT + k) = of_nat n"
    "disk_ok S M sb c'" "unused sb c' = unused sb (claimed sb c n)" "i_addrs x ! NDIRECT \<noteq> sb_bmapstart sb"
    "i_addrs x ! NDIRECT \<notin> M" "i_addrs x ! NDIRECT \<noteq> of_nat n"
    "\<And>j. baddr c x j \<noteq> 0 \<Longrightarrow> baddr c' x j \<noteq> 0"
proof -
  let ?i = "i_addrs x ! NDIRECT"
  have io: "?i \<in> own c x" using k(2) by (simp add: own_def)
  show iM: "?i \<notin> M" using own_data [OF f io] by (simp add: data_block_def)
  then show ib: "?i \<noteq> sb_bmapstart sb" using d by (auto simp: disk_ok_def)
  then show un: "unused sb c' = unused sb (claimed sb c n)" by (simp add: c'_def unused_def)
  show "disk_ok S M sb c'" using claimed_unused(2) [OF d n len(1)] un by (simp add: disk_ok_def)
  show ine: "?i \<noteq> of_nat n" using own_claimed(2) [OF f d n io] .
  have fit: "4 * k + 4 \<le> length (c ?i)" using k(1) len(2) by (simp add: const_defs)
  have ba: "baddr c' x j = (if j = NDIRECT + k then of_nat n else baddr c x j)" for j
  proof -
    consider "j < NDIRECT" | "j = NDIRECT + k" | "NDIRECT \<le> j" "j \<noteq> NDIRECT + k" by linarith
    then show ?thesis
    proof cases
      case 2
      then show ?thesis using k(2) get32_put32_same [OF fit] by (simp add: baddr_def c'_def)
    next
      case 3
      then have "4 * (j - NDIRECT) + 4 \<le> 4 * k \<or> 4 * k + 4 \<le> 4 * (j - NDIRECT)" by linarith
      then show ?thesis using 3 k(2) get32_put32_other [OF fit] by (simp add: baddr_def c'_def)
    qed (simp add: baddr_def)
  qed
  then show "baddr c' x (NDIRECT + k) = of_nat n" by simp
  show "baddr c' x j \<noteq> 0" if "baddr c x j \<noteq> 0" for j using ba [of j] that unused_small(5) [OF d n] by simp
  have i: "NDIRECT + k < MAXFILE" using k(1) by (simp add: MAXFILE_def)
  have z: "c' (of_nat n) = replicate BSIZE 0" using ine by (simp add: c'_def claimed_def)
  have cc: "c' a = c a" if "a \<in> own c x" "a \<noteq> ?i" for a using own_claimed(1) [OF f d n that(1)] that(2) by (simp add: c'_def)
  have un': "unused sb c' = unused sb c - {n}" using un claimed_unused(1) [OF d n len(1)] by simp
  note e = file_extend [OF f d n i k(3) ba refl refl un' z cc]
  show "file_ok M sb c' x" by (rule e(1))
  show "\<And>j. j < MAXFILE \<Longrightarrow> fblock c' x j = fblock c x j" by (rule e(2))
qed

text \<open>The entry of the indirect block.\<close>

lemma bmap_entry_run:
  assumes f: "file_tx p M ip s" and ind: "i_addrs (itable s ip) ! NDIRECT = ind" "ind \<noteq> 0" and k: "k < NINDIRECT"
    and free: "1 \<le> free_blocks s" and room: "l_n (lg s) + 2 < int NBUF"
  obtains a t where "bmap_entry ROOTDEV ind k s = Ok a t" "a \<noteq> 0" "file_tx p M ip t" "file_step ip s t 3 1"
    "baddr (content t) (itable t ip) (NDIRECT + k) = a" "\<And>j. j < MAXFILE \<Longrightarrow> fdata t ip j = fdata s ip j" "itable t = itable s"
proof -
  let ?sb = "sblk s" and ?c = "content s" and ?x = "itable s ip"
  have inv: "tx p [] s" and d: "disk_ok (l_start (lg s)) M ?sb ?c" and fo: "file_ok M ?sb ?c ?x"
    and dev: "i_dev ?x = ROOTDEV" using f by (auto simp: file_tx_def)
  obtain b s1 where 1: "bread ROOTDEV ind s = Ok b s1" "tx p [b] s1" "cached s1 ind b" "b_data (bufs s1 b) = ?c ind"
    "content s1 = ?c" "txstep s s1 0" "ind \<in> set (logged (lg s1)) \<or> content s1 ind = disk s1 ind" "lg s1 = lg s"
    by (rule bread_tx [OF inv, of ind]) (use room in auto)
  note f1 = txstep_fields [OF 1(6)]
  have bd: "bdata b s1 = Ok (?c ind) s1" using 1(4) by (simp add: bdata_def)
  have be: "baddr ?c ?x (NDIRECT + k) = get32 (?c ind) (4 * k)" using ind by (simp add: baddr_def)
  show thesis
  proof (cases "get32 (?c ind) (4 * k) = 0")
    case False
    obtain t where t: "brelse b s1 = Ok () t" "tx p (remove1 b [b]) t" "content t = content s1" "txstep s1 t 0"
      by (rule brelse_tx [OF 1(2) _ 1(3,7)]) auto
    have st: "txstep s t 3" using txstep_trans [OF txstep_trans [OF 1(6) t(4)] txstep_refl [of t 3]] by simp
    have tt: "tx p [] t" "content t = ?c" using t(2,3) 1(5) by auto
    note s = file_tx_same [OF f tt st]
    show thesis
      using that [of "get32 (?c ind) (4 * k)" t] False s(1,3) 1(1) bd t(1) tt be txstep_fields(1) [OF st]
      by (simp add: bmap_entry_def bnd_Ok seq_Ok s(2))
  next
    case True
    have io: "ind \<in> own ?c ?x" using ind by (simp add: own_def)
    then have iM: "ind \<notin> M" using own_data [OF fo] by (simp add: data_block_def)
    have bn: "b_blockno (bufs s1 b) = ind" using 1(3) by (simp add: cached_def)
    have ne: "unused (sblk s1) (content s1) \<noteq> {}" using free f1 1(5) by (auto simp: free_blocks_def)
    obtain n s2 where 2: "n \<in> unused (sblk s1) (content s1)" "balloc ROOTDEV s1 = Ok (of_nat n) s2" "tx p [b] s2"
      "content s2 = claimed (sblk s1) (content s1) n" "txstep s1 s2 2" "cached s2 ind b"
    proof (rule balloc_run [OF 1(2)])
      show "disk_ok (l_start (lg s1)) M (sblk s1) (content s1)" using d f1 1(5,8) by simp
      show "l_n (lg s1) + int (length [b]) + 1 < int NBUF" using room 1(8) by simp
      show "b_blockno (bufs s1 c) \<noteq> sb_bmapstart (sblk s1)" if "c \<in> set [b]" for c
        using that bn iM d f1 by (auto simp: disk_ok_def)
      show "b_blockno (bufs s1 c) \<noteq> of_nat n" if "c \<in> set [b]" "n \<in> unused (sblk s1) (content s1)" for c n
        using that bn own_claimed(2) [OF fo d _ io, of n] f1 1(5) by auto
      show "cached s1 (b_blockno (bufs s1 c)) c" if "c \<in> set [b]" for c using that 1(3) bn by simp
    qed (use 1(3) ne in auto)
    have n: "n \<in> unused ?sb ?c" and c2: "content s2 = claimed ?sb ?c n" using 2(1,4) f1 1(5) by auto
    note f2 = txstep_fields [OF 2(5)]
    have len: "length (?c no) = BSIZE" for no by (rule tx_fields(3) [OF inv])
    have k0: "i_addrs ?x ! NDIRECT \<noteq> 0" "baddr ?c ?x (NDIRECT + k) = 0" using ind True be by auto
    note ci = claim_indirect [OF fo d n len len k k0, unfolded ind(1)]
    have d2: "b_data (bufs s2 b) = ?c ind"
      using tx_cached [OF 2(3,6)] c2 own_claimed(1) [OF fo d n io] by simp
    have pl: "length (put32 (?c ind) (4 * k) (of_nat n)) = BSIZE" using len k by (simp add: const_defs)
    have w: "ind \<notin> log_area (l_start (lg s2))" "l_n (lg s2) < int LOGBLOCKS"
      using iM d f1 f2 room 1(8) by (auto simp: disk_ok_def const_defs)
    obtain s3 where 3: "\<And>k' :: u32 kop. seq (set_bdata b (put32 (?c ind) (4 * k) (of_nat n))) (seq (log_write b) k') s2 = k' s3"
      "tx p [b] s3" "content s3 = (content s2)(ind := put32 (?c ind) (4 * k) (of_nat n))" "ind \<in> set (logged (lg s3))"
      "txstep s2 s3 1" "cached s3 = cached s2"
      by (rule write_tx [OF 2(3) _ 2(6) w(1) pl w(2)]) auto
    obtain t where t: "brelse b s3 = Ok () t" "tx p (remove1 b [b]) t" "content t = content s3" "txstep s3 t 0"
      by (rule brelse_tx [OF 3(2), of b ind]) (use 3(4,6) 2(6) in auto)
    have st: "txstep s t 3"
      using txstep_trans [OF txstep_trans [OF txstep_trans [OF 1(6) 2(5)] 3(5)] t(4)] by (simp add: numeral_3_eq_3 numeral_2_eq_2)
    note tf = txstep_fields [OF st]
    have ct: "content t = (claimed ?sb ?c n)(ind := put32 (?c ind) (4 * k) (of_nat n))" using t(3) 3(3) c2 by simp
    have fb: "free_blocks s = free_blocks t + 1"
      by (rule free_blocks_claimed [OF d n len]) (use tf ci(5) ct in simp_all)
    have run: "bmap_entry ROOTDEV ind k s = Ok (of_nat n) t"
      using 1(1) bd True 2(2) unused_small(5) [OF d n] d2 3(1) t(1)
      by (simp add: bmap_entry_def bnd_Ok seq_Ok) (simp add: bdata_def bnd_Ok seq_Ok)
    show thesis
    proof (rule that [OF run unused_small(5) [OF d n]])
      show "file_tx p M ip t" using t(2) ci(1,4) ct tf dev by (simp add: file_tx_def)
      show "file_step ip s t 3 1" using st fb ci(9) ct tf by (intro file_step_tx) (auto simp: fmapped_def)
      show "baddr (content t) (itable t ip) (NDIRECT + k) = of_nat n" using ci(3) ct tf by simp
      show "fdata t ip j = fdata s ip j" if "j < MAXFILE" for j using ci(2) [OF that] ct tf by (simp add: fdata_def)
    qed (use tf in simp)
  qed
qed

end
