(* ===== verification/Xv6_Inode.thy ===== *)
theory Xv6_Inode
  imports Xv6_Blocks
begin

text \<open>
  The bytes of a file: \<open>bmap\<close>, \<open>writei\<close> and \<open>readi\<close> of kernel/fs.c as operations on the array of bytes that the
  inode and the blocks stand for.
\<close>

section \<open>bmap\<close>

lemma bmap_run:
  assumes f: "file_tx p M ip s" and bn: "unat bn < MAXFILE" and free: "2 \<le> free_blocks s" and room: "l_n (lg s) + 4 < int NBUF"
  obtains a t where "bmap ip bn s = Ok a t" "a \<noteq> 0" "file_tx p M ip t" "file_step ip s t 5 2"
    "baddr (content t) (itable t ip) (unat bn) = a" "\<And>j. j < MAXFILE \<Longrightarrow> fdata t ip j = fdata s ip j"
    "i_size (itable t ip) = i_size (itable s ip)"
proof -
  let ?x = "itable s ip" and ?n = "unat bn"
  have dev: "i_dev ?x = ROOTDEV" using f by (simp add: file_tx_def)
  have weak: "file_step ip s t 5 2" if "file_step ip s t j g" "j \<le> 5" "g \<le> 2" for t j g
    using that file_step_trans [OF that(1) file_step_refl [of ip t "5 - j" "2 - g"]] by simp
  show thesis
  proof (cases "?n < NDIRECT")
    case True
    show thesis
    proof (cases "i_addrs ?x ! ?n = 0")
      case False
      then show thesis using that [of "i_addrs ?x ! ?n" s] True f by (simp add: bmap_def baddr_def)
    next
      case z: True
      obtain a t where t: "bnd (balloc ROOTDEV) (\<lambda>addr. if addr = 0 then ret 0 else
          seq (modify (upd_inode ip (\<lambda>x. x\<lparr>i_addrs := (i_addrs x)[?n := addr]\<rparr>))) (ret addr)) s = Ok a t"
        "a \<noteq> 0" "file_tx p M ip t" "file_step ip s t 2 1" "i_addrs (itable t ip) ! ?n = a"
        "\<And>j. j < MAXFILE \<Longrightarrow> fdata t ip j = fdata s ip j" "i_size (itable t ip) = i_size ?x"
        by (rule claim_addr [OF f _ z]) (use True free room in auto)
      have "bmap ip bn s = Ok a t" using t(1) True z dev by (simp add: bmap_def)
      then show thesis using that t weak [OF t(4)] True by (simp add: baddr_def)
    qed
  next
    case False
    obtain k where k: "?n = NDIRECT + k" using False by (metis le_iff_add not_less)
    have kn: "k < NINDIRECT" using bn k by (simp add: MAXFILE_def)
    obtain ind s1 where 1: "(if i_addrs ?x ! NDIRECT \<noteq> 0 then ret (i_addrs ?x ! NDIRECT) else
        bnd (balloc ROOTDEV) (\<lambda>addr. if addr = 0 then ret 0 else
          seq (modify (upd_inode ip (\<lambda>x. x\<lparr>i_addrs := (i_addrs x)[NDIRECT := addr]\<rparr>))) (ret addr))) s = Ok ind s1"
      "ind \<noteq> 0" "file_tx p M ip s1" "file_step ip s s1 2 1" "i_addrs (itable s1 ip) ! NDIRECT = ind"
      "\<And>j. j < MAXFILE \<Longrightarrow> fdata s1 ip j = fdata s ip j" "i_size (itable s1 ip) = i_size ?x"
    proof (cases "i_addrs ?x ! NDIRECT = 0")
      case True
      show ?thesis
        by (rule claim_addr [OF f order.refl True]) (use True free room in \<open>auto intro!: that\<close>)
    next
      case False
      then show ?thesis using that [of "i_addrs ?x ! NDIRECT" s] f by simp
    qed
    note f1 = file_step_fields [OF 1(4)]
    have r: "1 \<le> free_blocks s1" "l_n (lg s1) + 2 < int NBUF" using f1 free room by auto
    obtain a t where t: "bmap_entry ROOTDEV ind k s1 = Ok a t" "a \<noteq> 0" "file_tx p M ip t" "file_step ip s1 t 3 1"
      "baddr (content t) (itable t ip) (NDIRECT + k) = a" "\<And>j. j < MAXFILE \<Longrightarrow> fdata t ip j = fdata s1 ip j"
      "itable t = itable s1"
      by (rule bmap_entry_run [OF 1(3,5,2) kn r]) blast
    have "bmap ip bn s = bnd (if i_addrs ?x ! NDIRECT \<noteq> 0 then ret (i_addrs ?x ! NDIRECT) else
        bnd (balloc ROOTDEV) (\<lambda>addr. if addr = 0 then ret 0 else
          seq (modify (upd_inode ip (\<lambda>x. x\<lparr>i_addrs := (i_addrs x)[NDIRECT := addr]\<rparr>))) (ret addr)))
        (\<lambda>ind. if ind = 0 then ret 0 else bmap_entry ROOTDEV ind k) s"
      using k kn dev by (simp add: bmap_def Let_def cong: if_cong)
    also have "\<dots> = Ok a t" by (subst bnd_def, subst 1(1), simp add: 1(2) t(1))
    finally have run: "bmap ip bn s = Ok a t" .
    have "file_step ip s t 5 2" using file_step_trans [OF 1(4) t(4)] by (simp add: numeral_2_eq_2)
    then show thesis using that [OF run t(2,3)] t(5-7) 1(6,7) k by simp
  qed
qed

section \<open>Writing\<close>

text \<open>The byte of a file at an offset, and the bytes of a range.\<close>

definition fbyte :: "kstate \<Rightarrow> nat \<Rightarrow> nat \<Rightarrow> u8" where
  "fbyte s ip k = fdata s ip (k div BSIZE) ! (k mod BSIZE)"

definition frange :: "kstate \<Rightarrow> nat \<Rightarrow> nat \<Rightarrow> nat \<Rightarrow> u8 list" where
  "frange s ip off n = map (fbyte s ip) [off..<off + n]"

lemma BSIZE_pos [simp]: "0 < BSIZE" "BSIZE \<noteq> 0" by (simp_all add: const_defs)

lemma fdata_length: "tx p L s \<Longrightarrow> length (fdata s ip i) = BSIZE"
  by (simp add: fdata_def fblock_def tx_fields(3))

lemma nth_splice:
  assumes "off + length xs \<le> length bs" "k < length bs"
  shows "splice bs off xs ! k = (if off \<le> k \<and> k < off + length xs then xs ! (k - off) else bs ! k)"
  using assms by (auto simp: splice_def nth_append min_def)

text \<open>One turn of the loop: the block is found or allocated, and the bytes go into it.\<close>

lemma file_update:
  assumes f: "file_ok M sb c x" and d: "disk_ok S M sb c" and a: "a = baddr c x i" "a \<noteq> 0" "i < MAXFILE"
  shows "file_ok M sb (c(a := d')) x" "disk_ok S M sb (c(a := d'))" "unused sb (c(a := d')) = unused sb c"
    "\<And>j. j < MAXFILE \<Longrightarrow> fblock (c(a := d')) x j = (if j = i then d' else fblock c x j)"
    "baddr (c(a := d')) x = baddr c x" "a \<notin> log_area S"
proof -
  have ao: "a \<in> own c x" using a by (auto simp: own_def)
  then have aM: "a \<notin> M" using own_data [OF f] by (simp add: data_block_def)
  then show "a \<notin> log_area S" using d by (auto simp: disk_ok_def)
  have ab: "a \<noteq> sb_bmapstart sb" using aM d by (auto simp: disk_ok_def)
  then show un: "unused sb (c(a := d')) = unused sb c" by (simp add: unused_def)
  then show "disk_ok S M sb (c(a := d'))" using d by (simp add: disk_ok_def)
  have ai: "a \<noteq> i_addrs x ! NDIRECT" using f a by (simp add: file_ok_def)
  then show ba: "baddr (c(a := d')) x = baddr c x" by (simp add: baddr_def fun_eq_iff)
  show "file_ok M sb (c(a := d')) x" using f unfolding file_ok_def ba data_block_def un by blast
  have inj: "j = i" if "j < MAXFILE" "baddr c x j = a" for j
  proof -
    have "\<forall>i<MAXFILE. \<forall>j<MAXFILE. baddr c x i \<noteq> 0 \<and> baddr c x i = baddr c x j \<longrightarrow> i = j"
      using f unfolding file_ok_def by blast
    then show ?thesis using that a by auto
  qed
  show "fblock (c(a := d')) x j = (if j = i then d' else fblock c x j)" if "j < MAXFILE" for j
    unfolding fblock_def ba using inj [OF that] a by auto
qed

lemma block_write:
  assumes f: "file_tx p M ip s" and bn: "bn < MAXFILE" and free: "2 \<le> free_blocks s" and room: "l_n (lg s) + 5 < int NBUF"
    and b: "unat w = bn" and fit: "o1 + length bs \<le> BSIZE"
  obtains a u b1 v t where "bmap ip w s = Ok a u" "a \<noteq> 0" "i_dev (itable u ip) = ROOTDEV" "mem v = mem s"
    "bread ROOTDEV a u = Ok b1 v" "b_data (bufs v b1) = fdata s ip bn"
    "\<And>k :: 'a kop. seq (set_bdata b1 (splice (fdata s ip bn) o1 bs)) (seq (log_write b1) (seq (brelse b1) k)) v = k t"
    "file_tx p M ip t" "file_step ip s t 6 2" "i_size (itable t ip) = i_size (itable s ip)"
    "\<And>j. j < MAXFILE \<Longrightarrow> fdata t ip j = (if j = bn then splice (fdata s ip bn) o1 bs else fdata s ip j)"
    "bn \<in> fmapped t ip"
proof -
  obtain a u where u: "bmap ip w s = Ok a u" "a \<noteq> 0" "file_tx p M ip u" "file_step ip s u 5 2"
    "baddr (content u) (itable u ip) bn = a" "\<And>j. j < MAXFILE \<Longrightarrow> fdata u ip j = fdata s ip j"
    "i_size (itable u ip) = i_size (itable s ip)"
    by (rule bmap_run [OF f, of w]) (use bn free room b in auto)
  let ?c = "content u" and ?x = "itable u ip" and ?d = "splice (fdata s ip bn) o1 bs"
  have inv: "tx p [] u" and d: "disk_ok (l_start (lg u)) M (sblk u) ?c" and fo: "file_ok M (sblk u) ?c ?x"
    and dev: "i_dev ?x = ROOTDEV" using u(3) by (auto simp: file_tx_def)
  note uf = file_step_fields [OF u(4)]
  have ca: "?c a = fdata s ip bn" using u(2,5) u(6) [OF bn] by (simp add: fdata_def fblock_def)
  have len: "length ?d = BSIZE" using fit tx_fields(3) [OF inv] by (simp add: ca [symmetric])
  note fu = file_update(1-5) [OF fo d u(5) [symmetric] u(2) bn, where d' = ?d]
    and na = file_update(6) [OF fo d u(5) [symmetric] u(2) bn]
  obtain b1 v t where t: "bread ROOTDEV a u = Ok b1 v" "b_data (bufs v b1) = ?c a" "mem v = mem u"
    "\<And>k :: 'a kop. seq (set_bdata b1 ?d) (seq (log_write b1) (seq (brelse b1) k)) v = k t"
    "tx p [] t" "content t = ?c(a := ?d)" "txstep u t 1"
    by (rule update_tx [OF inv, of a ?d]) (use room uf na len in auto)
  note tf = txstep_fields [OF t(7)]
  show thesis
  proof (rule that [OF u(1,2) dev _ t(1) _ t(4)])
    have "file_step ip u t 1 0" using t(6) fu(3) tf fu(5) by (intro file_step_tx [OF t(7)]) (simp_all add: free_blocks_def fmapped_def)
    then show "file_step ip s t 6 2" using file_step_trans [OF u(4)] by fastforce
    show "file_tx p M ip t" using t(5,6) fu(1,2) tf dev by (simp add: file_tx_def)
    show "fdata t ip j = (if j = bn then ?d else fdata s ip j)" if "j < MAXFILE" for j
      using fu(4) [OF that] u(6) [OF that] t(6) tf by (simp add: fdata_def)
  qed (use t(2,3,6) ca tf uf u(2,5,7) fu(5) in \<open>auto simp: fmapped_def\<close>)
qed

text \<open>The arithmetic of a turn: \<open>m\<close> bytes from offset \<open>off\<close>, within the block.\<close>

lemma in_block:
  fixes off k :: nat
  assumes "off mod B + m \<le> B" "0 < B"
  shows "k div B = off div B \<and> off mod B \<le> k mod B \<and> k mod B < off mod B + m \<longleftrightarrow> off \<le> k \<and> k < off + m"
proof
  assume "k div B = off div B \<and> off mod B \<le> k mod B \<and> k mod B < off mod B + m"
  moreover have "B * (k div B) + k mod B = k" "B * (off div B) + off mod B = off" by simp_all
  ultimately show "off \<le> k \<and> k < off + m" by (metis add.assoc add_le_cancel_left nat_add_left_cancel_less)
next
  assume k: "off \<le> k \<and> k < off + m"
  have off: "B * (off div B) + off mod B = off" by simp
  have "k div B = off div B"
  proof (rule div_nat_eqI)
    show "B * (off div B) \<le> k" using k off by linarith
    have "k < B + B * (off div B)" using k off assms(1) by linarith
    then show "k < B * Suc (off div B)" by simp
  qed
  moreover have "B * (k div B) + k mod B = k" by simp
  ultimately show "k div B = off div B \<and> off mod B \<le> k mod B \<and> k mod B < off mod B + m"
    using k off by (metis add.assoc add_le_cancel_left nat_add_left_cancel_less)
qed

lemma unat_add_small: "unat (x :: u32) + m \<le> unat (y :: u32) \<Longrightarrow> unat (x + of_nat m) = unat x + m"
proof -
  assume a: "unat x + m \<le> unat y"
  have "unat y < 2 ^ 32" using unsigned_less [of y, where ?'a = nat] by simp
  then have "unat (of_nat m :: u32) = m" "unat x + m < 2 ^ 32" using a by (auto intro: unat_of_nat32)
  then show ?thesis by (simp add: unat_add_lem [THEN iffD1])
qed

lemma diff_shift: "x + y + (n - (t + y)) = x + (n - t)" for x :: u32
  by (simp add: algebra_simps)

lemma fbyte_update:
  fixes off :: nat
  assumes up: "\<And>j. j < MAXFILE \<Longrightarrow> fdata t ip j = (if j = off div BSIZE then splice (fdata s ip (off div BSIZE)) o1 bs else fdata s ip j)"
    and k: "k < MAXFILE * BSIZE" and o1: "o1 = off mod BSIZE" "o1 + m \<le> BSIZE"
    and bs: "bs = load_bytes M (a + of_nat tot) m" and len: "length (fdata s ip (off div BSIZE)) = BSIZE"
  shows "fbyte t ip k = (if off \<le> k \<and> k < off + m then M (a + of_nat (tot + (k - off))) else fbyte s ip k)"
proof -
  have kd: "k div BSIZE < MAXFILE" using k by (simp add: div_less_iff_less_mult)
  have ib: "k div BSIZE = off div BSIZE \<and> off mod BSIZE \<le> k mod BSIZE \<and> k mod BSIZE < off mod BSIZE + m \<longleftrightarrow> off \<le> k \<and> k < off + m"
    by (rule in_block) (use o1 in auto)
  show ?thesis
  proof (cases "k div BSIZE = off div BSIZE")
    case True
    have kk: "BSIZE * (off div BSIZE) + k mod BSIZE = k" "BSIZE * (off div BSIZE) + off mod BSIZE = off"
      using True by (metis mult_div_mod_eq)+
    have "fbyte t ip k = (if o1 \<le> k mod BSIZE \<and> k mod BSIZE < o1 + m then bs ! (k mod BSIZE - o1) else fdata s ip (off div BSIZE) ! (k mod BSIZE))"
      using True up [OF kd] nth_splice [of o1 bs "fdata s ip (off div BSIZE)" "k mod BSIZE"] o1 bs len by (simp add: fbyte_def)
    moreover have "bs ! (k mod BSIZE - o1) = M (a + of_nat (tot + (k - off)))" if "off \<le> k \<and> k < off + m"
    proof -
      have "k mod BSIZE - o1 = k - off" using kk o1 by linarith
      moreover have "k - off < m" using that by linarith
      ultimately show ?thesis using bs by (simp add: add.assoc)
    qed
    ultimately show ?thesis using ib True o1 by (auto simp: fbyte_def)
  qed (use up [OF kd] ib in \<open>auto simp: fbyte_def\<close>)
qed

lemma writei_loop_run:
  assumes "file_tx p M ip s" "unat tot \<le> unat n" "unat off + (unat n - unat tot) \<le> MAXFILE * BSIZE"
    "unat n - unat tot \<le> fuel" "unat n - unat tot = 0 \<or> unat off mod BSIZE + (unat n - unat tot) \<le> nb * BSIZE"
    "2 * nb \<le> free_blocks s" "l_n (lg s) + 6 * int nb \<le> int NBUF"
  shows "\<exists>t. writei_loop fuel (from_kernel a) ip tot off n s = Ok (n, off + (n - tot)) t \<and> file_tx p M ip t \<and>
    file_step ip s t (6 * nb) (2 * nb) \<and> i_size (itable t ip) = i_size (itable s ip) \<and>
    (\<forall>k<MAXFILE * BSIZE. fbyte t ip k = (if unat off \<le> k \<and> k < unat off + (unat n - unat tot)
       then mem s (a + of_nat (unat tot + (k - unat off))) else fbyte s ip k)) \<and>
    (\<forall>k. unat off \<le> k \<and> k < unat off + (unat n - unat tot) \<longrightarrow> k div BSIZE \<in> fmapped t ip)"
  using assms
proof (induction fuel arbitrary: s tot off nb)
  case (0 s tot off nb)
  then have "unat tot = unat n" by simp
  then have "tot = n" by (simp add: word_unat_eq_iff)
  then show ?case using 0 by (auto intro!: exI [of _ s])
next
  case (Suc fuel s tot off nb)
  show ?case
  proof (cases "tot < n")
    case False
    then have "tot = n" using Suc.prems(2) by (simp add: word_unat_eq_iff word_less_nat_alt)
    then show ?thesis using Suc.prems(1) False by (auto intro!: exI [of _ s])
  next
    case True
    define r where "r = unat n - unat tot"
    define o1 where "o1 = unat off mod BSIZE"
    define m where "m = min r (BSIZE - o1)"
    let ?bn = "unat off div BSIZE" and ?w = "off div of_nat BSIZE"
    have r: "0 < r" "unat (n - tot) = r" "unat tot + r = unat n"
      using True Suc.prems(2) by (auto simp: r_def word_less_nat_alt unat_sub word_le_nat_alt)
    have m: "0 < m" "m \<le> r" "o1 + m \<le> BSIZE" "m = r \<or> o1 + m = BSIZE"
      using r(1) by (auto simp: m_def o1_def min_def)
    obtain nb' where nb: "nb = Suc nb'" using Suc.prems(5) r(1) by (cases nb) (auto simp: r_def)
    have w: "unat ?w = ?bn" by (simp add: unat_div const_defs)
    have lim: "unat off + r \<le> MAXFILE * BSIZE" using Suc.prems(3) by (simp add: r_def)
    have bn: "?bn < MAXFILE" using lim r(1) by (simp add: div_less_iff_less_mult)
    define bs where "bs = load_bytes (mem s) (a + of_nat (unat tot)) m"
    obtain x u b1 v t1 where t1: "bmap ip ?w s = Ok x u" "x \<noteq> 0" "i_dev (itable u ip) = ROOTDEV" "mem v = mem s"
      "bread ROOTDEV x u = Ok b1 v" "b_data (bufs v b1) = fdata s ip ?bn"
      "\<And>k :: (u32 \<times> u32) kop. seq (set_bdata b1 (splice (fdata s ip ?bn) o1 bs)) (seq (log_write b1) (seq (brelse b1) k)) v = k t1"
      "file_tx p M ip t1" "file_step ip s t1 6 2" "i_size (itable t1 ip) = i_size (itable s ip)"
      "\<And>j. j < MAXFILE \<Longrightarrow> fdata t1 ip j = (if j = ?bn then splice (fdata s ip ?bn) o1 bs else fdata s ip j)"
      "?bn \<in> fmapped t1 ip"
      by (rule block_write [OF Suc.prems(1) bn, of ?w o1 bs]) (use Suc.prems(6,7) nb w m(3) in \<open>auto simp: bs_def\<close>)
    note f1 = file_step_fields [OF t1(9)]
    let ?tot = "tot + of_nat m" and ?off = "off + of_nat m"
    have ut: "unat ?tot = unat tot + m" by (rule unat_add_small [of _ _ n]) (use m r in simp)
    have uo: "unat ?off = unat off + m"
      by (rule unat_add_small [of _ _ "of_nat (MAXFILE * BSIZE)"]) (use m lim in \<open>simp add: const_defs unsigned_of_nat take_bit_nat_eq_self\<close>)
    have rm: "unat n - unat ?tot = r - m" using ut r m by simp
    have o2: "r - m = 0 \<or> unat ?off mod BSIZE + (r - m) \<le> nb' * BSIZE"
    proof (cases "m = r")
      case False
      then have e: "o1 + m = BSIZE" using m(4) by simp
      have "BSIZE * ?bn + o1 = unat off" by (simp add: o1_def)
      then have "unat off + m = BSIZE + BSIZE * ?bn" using e by linarith
      then have "unat off + m = BSIZE * (?bn + 1)" by simp
      then have "unat ?off mod BSIZE = 0" by (simp only: uo mod_mult_self1_is_0)
      moreover have "o1 + r \<le> BSIZE + nb' * BSIZE" using Suc.prems(5) r(1) nb by (simp add: r_def o1_def)
      ultimately show ?thesis using e by linarith
    qed simp
    have h: "unat ?tot \<le> unat n" "unat ?off + (unat n - unat ?tot) \<le> MAXFILE * BSIZE" "unat n - unat ?tot \<le> fuel"
      "unat n - unat ?tot = 0 \<or> unat ?off mod BSIZE + (unat n - unat ?tot) \<le> nb' * BSIZE"
      "2 * nb' \<le> free_blocks t1" "l_n (lg t1) + 6 * int nb' \<le> int NBUF"
      using ut r m rm uo lim o2 f1 nb Suc.prems(4,6,7) by (simp_all add: r_def [symmetric])
    have e: "unat off + m + (unat n - (unat tot + m)) = unat off + r" using m(2) r(3) by linarith
    from Suc.IH [OF t1(8) h, unfolded uo ut f1(3) e diff_shift] obtain t
      where T: "writei_loop fuel (from_kernel a) ip ?tot ?off n t1 = Ok (n, off + (n - tot)) t \<and> file_tx p M ip t \<and>
        file_step ip t1 t (6 * nb') (2 * nb') \<and> i_size (itable t ip) = i_size (itable t1 ip) \<and>
        (\<forall>k<MAXFILE * BSIZE. fbyte t ip k = (if unat off + m \<le> k \<and> k < unat off + r
           then mem s (a + of_nat (unat tot + m + (k - (unat off + m)))) else fbyte t1 ip k)) \<and>
        (\<forall>k. unat off + m \<le> k \<and> k < unat off + r \<longrightarrow> k div BSIZE \<in> fmapped t ip)" by (elim exE) (rule that)
    note t = T [THEN conjunct1] T [THEN conjunct2, THEN conjunct1] T [THEN conjunct2, THEN conjunct2, THEN conjunct1]
      T [THEN conjunct2, THEN conjunct2, THEN conjunct2, THEN conjunct1]
    have fb: "\<And>k. k < MAXFILE * BSIZE \<Longrightarrow> fbyte t ip k = (if unat off + m \<le> k \<and> k < unat off + r
         then mem s (a + of_nat (unat tot + m + (k - (unat off + m)))) else fbyte t1 ip k)"
      and fm: "\<And>k. unat off + m \<le> k \<and> k < unat off + r \<Longrightarrow> k div BSIZE \<in> fmapped t ip"
      using T by (elim conjE, blast)+
    have run: "writei_loop (Suc fuel) (from_kernel a) ip tot off n s = Ok (n, off + (n - tot)) t"
      using True t1(1-7) t(1) by (simp add: bnd_Ok r m_def [symmetric] o1_def [symmetric] Let_def from_kernel_def bdata_def bs_def)
    have st: "file_step ip s t (6 * nb) (2 * nb)" using file_step_trans [OF t1(9) t(3)] nb by simp
    have b1: "fbyte t1 ip k = (if unat off \<le> k \<and> k < unat off + m then mem s (a + of_nat (unat tot + (k - unat off)))
      else fbyte s ip k)" if "k < MAXFILE * BSIZE" for k
      by (rule fbyte_update [OF t1(11) that]) (use m(3) fdata_length Suc.prems(1) in \<open>auto simp: o1_def bs_def file_tx_def\<close>)
    show ?thesis
    proof (intro exI conjI allI impI)
      show "fbyte t ip k = (if unat off \<le> k \<and> k < unat off + (unat n - unat tot)
         then mem s (a + of_nat (unat tot + (k - unat off))) else fbyte s ip k)" if "k < MAXFILE * BSIZE" for k
        using fb [OF that] b1 [OF that] m(2) by (auto simp: r_def [symmetric])
      show "k div BSIZE \<in> fmapped t ip" if "unat off \<le> k \<and> k < unat off + (unat n - unat tot)" for k
      proof (cases "k < unat off + m")
        case True
        then have "k div BSIZE = ?bn" using that in_block [of "unat off" BSIZE m k] m(3) by (simp add: o1_def)
        then show ?thesis using t1(12) file_step_fields(12) [OF t(3)] by auto
      qed (use fm that in \<open>simp add: r_def\<close>)
    qed (use run st t t1(10) in auto)
  qed
qed

text \<open>\<open>iupdate\<close> writes the inode to its block, which no file owns.\<close>

definition inode_home :: "u32 set \<Rightarrow> nat \<Rightarrow> kstate \<Rightarrow> bool" where
  "inode_home M ip s \<longleftrightarrow> IBLOCK (i_inum (itable s ip)) (sblk s) \<in> M - log_area (l_start (lg s)) - {sb_bmapstart (sblk s)}"

lemma encode_dinode_length: "length (d_addrs d) = Suc NDIRECT \<Longrightarrow> length (encode_dinode d) = 64"
  by (simp add: encode_dinode_def length_concat o_def sum_list_triv const_defs)

lemma iupdate_run:
  assumes f: "file_tx p M ip s" and h: "inode_home M ip s" and room: "l_n (lg s) < int NBUF"
  obtains t where "iupdate ip s = Ok () t" "file_tx p M ip t" "file_step ip s t 1 0" "itable t = itable s"
    "\<And>j. j < MAXFILE \<Longrightarrow> fdata t ip j = fdata s ip j"
proof -
  let ?x = "itable s ip" and ?c = "content s" and ?sb = "sblk s"
  let ?ib = "IBLOCK (i_inum ?x) ?sb"
  have inv: "tx p [] s" and d: "disk_ok (l_start (lg s)) M ?sb ?c" and fo: "file_ok M ?sb ?c ?x"
    and dev: "i_dev ?x = ROOTDEV" using f by (auto simp: file_tx_def)
  have ib: "?ib \<notin> log_area (l_start (lg s))" "?ib \<in> M" "?ib \<noteq> sb_bmapstart ?sb" using h by (auto simp: inode_home_def)
  let ?e = "encode_dinode \<lparr>d_type = i_type ?x, d_major = i_major ?x, d_minor = i_minor ?x,
    d_nlink = i_nlink ?x, d_size = i_size ?x, d_addrs = i_addrs ?x\<rparr>"
  let ?d = "splice (?c ?ib) (64 * (unat (i_inum ?x) mod IPB)) ?e"
  have "length ?e = 64" by (rule encode_dinode_length) (use fo in \<open>simp add: file_ok_def\<close>)
  moreover have "64 * (unat (i_inum ?x) mod IPB) + 64 \<le> BSIZE"
    using mod_less_divisor [of IPB "unat (i_inum ?x)"] by (simp add: const_defs)
  ultimately have len: "length ?d = BSIZE" using tx_fields(3) [OF inv, of ?ib] by simp
  obtain b v t where t: "bread ROOTDEV ?ib s = Ok b v" "b_data (bufs v b) = ?c ?ib" "sblk v = ?sb"
    "\<And>k :: unit kop. seq (set_bdata b ?d) (seq (log_write b) (seq (brelse b) k)) v = k t"
    "tx p [] t" "content t = ?c(?ib := ?d)" "txstep s t 1"
    by (rule update_tx [OF inv _ _ ib(1) len]) (use room in auto)
  note tf = txstep_fields [OF t(7)]
  have own: "content t a = ?c a" if "a \<in> own ?c ?x" for a
    using own_data [OF fo that] ib(2) t(6) by (auto simp: data_block_def)
  have un: "unused ?sb (content t) = unused ?sb ?c" using t(6) ib(3) by (simp add: unused_def)
  have "baddr (content t) ?x = baddr ?c ?x" by (rule baddr_cong) (rule own)
  then have "file_step ip s t 1 0" using un tf by (intro file_step_tx [OF t(7)]) (simp_all add: free_blocks_def fmapped_def)
  moreover have "file_ok M ?sb (content t) ?x" by (rule file_ok_cong [OF fo own]) (simp_all add: un)
  then have "file_tx p M ip t" using t(5) d tf dev un by (simp add: file_tx_def disk_ok_def)
  moreover have "fdata t ip j = fdata s ip j" if "j < MAXFILE" for j
    using fblock_cong [OF own that] tf by (simp add: fdata_def)
  moreover have "iupdate ip s = Ok () t"
    using t(1-3) t(4) [of "ret ()"] dev by (simp add: iupdate_def bnd_Ok bdata_def seq_ret)
  ultimately show thesis using that tf by blast
qed

lemma file_tx_size:
  assumes "file_tx p M ip s" "t = upd_inode ip (\<lambda>x. x\<lparr>i_size := g x\<rparr>) s"
  shows "file_tx p M ip t" "fdata t ip = fdata s ip" "file_step ip s t 0 0" "inode_home M ip t = inode_home M ip s"
proof -
  have b: "baddr c (x\<lparr>i_size := z\<rparr>) = baddr c x" for c x z by (simp add: baddr_def fun_eq_iff)
  have "file_ok M sb c (x\<lparr>i_size := z\<rparr>) = file_ok M sb c x" for sb c x z unfolding file_ok_def b by simp
  then show "file_tx p M ip t" using assms by (simp add: file_tx_def upd_inode_def)
  show "fdata t ip = fdata s ip" using assms(2) by (simp add: fdata_def fun_eq_iff upd_inode_def fblock_def b)
  show "inode_home M ip t = inode_home M ip s" using assms(2) by (simp add: inode_home_def upd_inode_def)
  have "txstep (s\<lparr>itable := itable t\<rparr>) t 0" using assms(2) by (simp add: upd_inode_def)
  moreover have "itable t = (itable s)(ip := (itable s ip)\<lparr>i_addrs := i_addrs (itable s ip), i_size := g (itable s ip)\<rparr>)"
    using assms(2) by (simp add: upd_inode_def)
  ultimately show "file_step ip s t 0 0"
    by (rule file_stepI) (use assms(2) in \<open>simp_all add: free_blocks_def fmapped_def upd_inode_def b\<close>)
qed

lemma sint_small: "unat (n :: u32) < 2147483648 \<Longrightarrow> sint n = int (unat n)"
proof -
  assume a: "unat n < 2147483648"
  have "sint (of_nat (unat n) :: u32) = int (unat n)"
    using a by (simp only: signed_of_nat) (simp add: signed_take_bit_int_eq_self del: of_nat_unat)
  moreover have "(of_nat (unat n) :: u32) = n" by simp
  ultimately show ?thesis by metis
qed

lemma writei_run:
  assumes f: "file_tx p M ip s" and h: "inode_home M ip s" and lim: "unat off + unat n \<le> MAXFILE * BSIZE"
    and sz: "off \<le> i_size (itable s ip)" and nb: "unat off mod BSIZE + unat n \<le> nb * BSIZE"
    and free: "2 * nb \<le> free_blocks s" and room: "l_n (lg s) + 6 * int nb < int NBUF"
  obtains t where "writei (from_kernel a) ip off n s = Ok (int (unat n)) t" "file_tx p M ip t"
    "file_step ip s t (6 * nb + 1) (2 * nb)" "i_size (itable t ip) = max (i_size (itable s ip)) (off + n)"
    "\<And>k. k < MAXFILE * BSIZE \<Longrightarrow> fbyte t ip k =
       (if unat off \<le> k \<and> k < unat off + unat n then mem s (a + of_nat (k - unat off)) else fbyte s ip k)"
    "\<And>k. unat off \<le> k \<Longrightarrow> k < unat off + unat n \<Longrightarrow> k div BSIZE \<in> fmapped t ip"
proof -
  have small: "unat off + unat n \<le> 274432" using lim by (simp add: const_defs)
  have on: "unat (off + n) = unat off + unat n" using small by (simp add: unat_add_lem [THEN iffD1])
  have sn: "sint n = int (unat n)" by (rule sint_small) (use small in simp)
  have guards: "\<not> (off > i_size (itable s ip) \<or> off + n < off)" "\<not> unat (off + n) > MAXFILE * BSIZE"
    using sz on lim by (auto simp: word_less_nat_alt word_le_nat_alt)
  obtain t1 where t1: "writei_loop (unat n) (from_kernel a) ip 0 off n s = Ok (n, off + n) t1" "file_tx p M ip t1"
    "file_step ip s t1 (6 * nb) (2 * nb)" "i_size (itable t1 ip) = i_size (itable s ip)"
    and b1: "\<And>k. k < MAXFILE * BSIZE \<Longrightarrow> fbyte t1 ip k =
       (if unat off \<le> k \<and> k < unat off + unat n then mem s (a + of_nat (k - unat off)) else fbyte s ip k)"
    and m1: "\<And>k. unat off \<le> k \<Longrightarrow> k < unat off + unat n \<Longrightarrow> k div BSIZE \<in> fmapped t1 ip"
    using writei_loop_run [OF f, of 0 n off "unat n" nb a] lim nb free room by auto
  let ?g = "\<lambda>x. if off + n > i_size x then off + n else i_size x"
  define t2 where "t2 = upd_inode ip (\<lambda>x. x\<lparr>i_size := ?g x\<rparr>) t1"
  note s2 = file_tx_size [OF t1(2) t2_def] and f1 = file_step_fields [OF t1(3)]
  have upd: "upd_inode ip (\<lambda>x. if off + n > i_size x then x\<lparr>i_size := off + n\<rparr> else x) t1 = t2"
    by (simp add: t2_def upd_inode_def)
  have h2: "inode_home M ip t2" using h s2(4) f1 by (simp add: inode_home_def)
  obtain t where t: "iupdate ip t2 = Ok () t" "file_tx p M ip t" "file_step ip t2 t 1 0" "itable t = itable t2"
    "\<And>j. j < MAXFILE \<Longrightarrow> fdata t ip j = fdata t2 ip j"
    by (rule iupdate_run [OF s2(1) h2]) (use f1 room in \<open>auto simp: t2_def upd_inode_def\<close>)
  have "writei (from_kernel a) ip off n s = Ok (int (unat n)) t"
    using guards t1(1) upd t(1) sn by (simp add: writei_def bnd_Ok seq_Ok)
  moreover have st: "file_step ip s t (6 * nb + 1) (2 * nb)"
    using file_step_trans [OF file_step_trans [OF t1(3) s2(3)] t(3)] by simp
  moreover have "fbyte t ip k = fbyte t1 ip k" if "k < MAXFILE * BSIZE" for k
    using t(5) [of "k div BSIZE"] that by (simp add: fbyte_def s2(2) div_less_iff_less_mult)
  moreover have "i_size (itable t ip) = max (i_size (itable s ip)) (off + n)"
    using t(4) t1(4) by (simp add: t2_def upd_inode_def max_def) auto
  moreover have "fmapped t1 ip \<subseteq> fmapped t ip"
    using file_step_fields(12) [OF s2(3)] file_step_fields(12) [OF t(3)] by blast
  ultimately show thesis using that [of t] t(2) b1 m1 by auto
qed

section \<open>Reading\<close>

text \<open>A block the file has is found without a transaction, and nothing changes.\<close>

lemma bmap_mapped:
  assumes inv: "log_inv p [] s" and dev: "i_dev (itable s ip) = ROOTDEV" and bn: "unat bn < MAXFILE" "unat bn \<in> fmapped s ip"
    and room: "l_n (lg s) < int NBUF"
  obtains t where "bmap ip bn s = Ok (baddr (content s) (itable s ip) (unat bn)) t" "log_inv p [] t" "content t = content s"
    "txstep s t 0" "lg t = lg s"
proof (cases "unat bn < NDIRECT")
  case True
  then show thesis using that [of s] inv bn by (simp add: bmap_def baddr_def fmapped_def)
next
  case False
  let ?x = "itable s ip" and ?c = "content s"
  let ?ind = "i_addrs ?x ! NDIRECT" and ?k = "unat bn - NDIRECT"
  have k: "?k < NINDIRECT" using bn False by (simp add: MAXFILE_def)
  have i: "?ind \<noteq> 0" "get32 (?c ?ind) (4 * ?k) \<noteq> 0" "baddr ?c ?x (unat bn) = get32 (?c ?ind) (4 * ?k)"
    using bn(2) False by (auto simp: fmapped_def baddr_def split: if_splits)
  obtain b s1 where 1: "bread ROOTDEV ?ind s = Ok b s1" "log_inv p [b] s1" "cached s1 ?ind b" "b_data (bufs s1 b) = ?c ?ind"
    "content s1 = ?c" "txstep s s1 0" "?ind \<in> set (logged (lg s1)) \<or> content s1 ?ind = disk s1 ?ind" "lg s1 = lg s"
    by (rule bread_log [OF inv, of ?ind]) (use room in auto)
  obtain t where t: "brelse b s1 = Ok () t" "log_inv p (remove1 b [b]) t" "content t = content s1" "txstep s1 t 0" "lg t = lg s1"
    by (rule brelse_log [OF 1(2) _ 1(3,7)]) auto
  have "bmap ip bn s = Ok (get32 (?c ?ind) (4 * ?k)) t"
    using False k i 1(1,4) t(1) dev by (simp add: bmap_def bmap_entry_def Let_def bnd_Ok bdata_def seq_Ok)
  moreover have "txstep s t 0" using txstep_trans [OF 1(6) t(4)] by simp
  ultimately show thesis using that [of t] t i(3) 1(5,8) by simp
qed

lemma txstep_mem:
  assumes "txstep s t k"
  shows "txstep (s\<lparr>mem := M\<rparr>) (t\<lparr>mem := M\<rparr>) k"
proof -
  obtain kl P B n bl where 1: "t = s\<lparr>klog := kl, procs := P, bufs := B, lg := (lg s)\<lparr>l_n := n, l_block := bl\<rparr>\<rparr>"
    "\<forall>q. \<exists>st ch. P q = (procs s q)\<lparr>p_state := st, p_chan := ch\<rparr>" "l_n (lg s) \<le> n" "n \<le> l_n (lg s) + int k"
    using assms unfolding txstep_def by blast
  show ?thesis unfolding txstep_def
    by (rule exI [of _ kl], rule exI [of _ P], rule exI [of _ B], rule exI [of _ n], rule exI [of _ bl]) (use 1 in simp)
qed

lemma fmapped_cong: "content t = content s \<Longrightarrow> itable t ip = itable s ip \<Longrightarrow> fmapped t ip = fmapped s ip"
  by (simp add: fmapped_def)

lemma frange_cong: "content t = content s \<Longrightarrow> itable t ip = itable s ip \<Longrightarrow> frange t ip = frange s ip"
  by (rule ext)+ (simp add: frange_def fbyte_def [abs_def] fdata_def)

lemma frange_length [simp]: "length (frange s ip off n) = n"
  by (simp add: frange_def)

lemma frange_append: "frange s ip off (m + n) = frange s ip off m @ frange s ip (off + m) n"
proof -
  have "[off..<off + (m + n)] = [off..<off + m] @ [off + m..<off + m + n]"
    by (metis add.assoc upt_add_eq_append le_add1)
  then show ?thesis by (simp add: frange_def)
qed

lemma frange_block:
  assumes "off mod BSIZE + m \<le> BSIZE" "length (fdata s ip (off div BSIZE)) = BSIZE"
  shows "take m (drop (off mod BSIZE) (fdata s ip (off div BSIZE))) = frange s ip off m"
proof (rule nth_equalityI)
  show "length (take m (drop (off mod BSIZE) (fdata s ip (off div BSIZE)))) = length (frange s ip off m)"
    using assms by (simp add: frange_def)
  fix i assume i: "i < length (take m (drop (off mod BSIZE) (fdata s ip (off div BSIZE))))"
  then have "i < m" by simp
  moreover from this have "(off + i) div BSIZE = off div BSIZE \<and> off mod BSIZE \<le> (off + i) mod BSIZE \<and> (off + i) mod BSIZE < off mod BSIZE + m"
    using in_block [OF assms(1), of "off + i"] by simp
  moreover from this have "(off + i) mod BSIZE = off mod BSIZE + i"
    by (metis add.assoc add_left_cancel mult_div_mod_eq)
  ultimately show "take m (drop (off mod BSIZE) (fdata s ip (off div BSIZE))) ! i = frange s ip off m ! i"
    using assms i by (simp add: frange_def fbyte_def)
qed

lemma store_append:
  assumes "length xs + length ys \<le> 4294967296"
  shows "store_bytes (store_bytes m a xs) (a + of_nat (length xs)) ys = store_bytes m a (xs @ ys)"
proof
  fix x
  let ?y = "x - a" and ?l = "of_nat (length xs) :: u64"
  have l: "unat ?l = length xs" using assms by (simp add: unsigned_of_nat take_bit_nat_eq_self)
  have e: "x - (a + ?l) = ?y - ?l" by simp
  show "store_bytes (store_bytes m a xs) (a + ?l) ys x = store_bytes m a (xs @ ys) x"
  proof (cases "length xs \<le> unat ?y")
    case True
    then have "unat (?y - ?l) = unat ?y - length xs" using l by (simp add: unat_sub word_le_nat_alt)
    then show ?thesis using True by (auto simp: store_bytes_def e nth_append)
  next
    case False
    then have "unat (?y - ?l) = unat ?y + 18446744073709551616 - length xs"
      using l by (simp add: unat_sub_if_size word_size word_le_nat_alt)
    then have "\<not> unat (?y - ?l) < length ys" using False assms by linarith
    then show ?thesis using False by (simp add: store_bytes_def e nth_append)
  qed
qed

lemma log_inv_length: "log_inv p L s \<Longrightarrow> length (content s no) = BSIZE"
  using content_length by (auto simp: log_inv_def)

lemma readi_loop_run:
  assumes "log_inv p [] s" "i_dev (itable s ip) = ROOTDEV" "l_n (lg s) < int NBUF" "unat tot \<le> unat n"
    "unat off + (unat n - unat tot) \<le> MAXFILE * BSIZE" "unat n - unat tot \<le> fuel"
    "\<And>k. unat off \<le> k \<Longrightarrow> k < unat off + (unat n - unat tot) \<Longrightarrow> k div BSIZE \<in> fmapped s ip"
  shows "\<exists>t. readi_loop fuel (to_kernel dst) () ip tot off n s = Ok (sint n, ()) t \<and> log_inv p [] t \<and> content t = content s \<and>
    mem t = store_bytes (mem s) (dst + of_nat (unat tot)) (frange s ip (unat off) (unat n - unat tot)) \<and>
    txstep (s\<lparr>mem := mem t\<rparr>) t 0"
  using assms
proof (induction fuel arbitrary: s tot off)
  case (0 s tot off)
  then have "unat tot = unat n" by simp
  then have "tot = n" by (simp add: word_unat_eq_iff)
  then show ?case using 0 by (auto intro!: exI [of _ s] simp: frange_def store_bytes_def)
next
  case (Suc fuel s tot off)
  show ?case
  proof (cases "tot < n")
    case False
    then have "tot = n" using Suc.prems(4) by (simp add: word_unat_eq_iff word_less_nat_alt)
    then show ?thesis using Suc.prems(1) False by (auto intro!: exI [of _ s] simp: frange_def store_bytes_def)
  next
    case True
    define r where "r = unat n - unat tot"
    define o1 where "o1 = unat off mod BSIZE"
    define m where "m = min r (BSIZE - o1)"
    let ?bn = "unat off div BSIZE" and ?w = "off div of_nat BSIZE" and ?x = "itable s ip" and ?c = "content s"
    let ?tot = "tot + of_nat m" and ?off = "off + of_nat m"
    have r: "0 < r" "unat (n - tot) = r" "unat tot + r = unat n"
      using True Suc.prems(4) by (auto simp: r_def word_less_nat_alt unat_sub word_le_nat_alt)
    have m: "0 < m" "m \<le> r" "o1 + m \<le> BSIZE" using r(1) by (auto simp: m_def o1_def min_def)
    have w: "unat ?w = ?bn" by (simp add: unat_div const_defs)
    have lim: "unat off + r \<le> MAXFILE * BSIZE" using Suc.prems(5) by (simp add: r_def)
    have bn: "?bn < MAXFILE" using lim r(1) by (simp add: div_less_iff_less_mult)
    have bm: "?bn \<in> fmapped s ip" using Suc.prems(7) [of "unat off"] r(1) by (simp add: r_def)
    have ut: "unat ?tot = unat tot + m" by (rule unat_add_small [of _ _ n]) (use m r in simp)
    have uo: "unat ?off = unat off + m"
      by (rule unat_add_small [of _ _ "of_nat (MAXFILE * BSIZE)"]) (use m lim in \<open>simp add: const_defs unsigned_of_nat take_bit_nat_eq_self\<close>)
    let ?a = "baddr ?c ?x ?bn"
    have a: "?a \<noteq> 0" "?c ?a = fdata s ip ?bn" using bm by (auto simp: fmapped_def fdata_def fblock_def)
    obtain s1 where 1: "bmap ip ?w s = Ok ?a s1" "log_inv p [] s1" "content s1 = ?c" "txstep s s1 0" "lg s1 = lg s"
      by (rule bmap_mapped [OF Suc.prems(1,2), of ?w]) (use bn bm w Suc.prems(3) in auto)
    note f1 = txstep_fields [OF 1(4)]
    obtain b s2 where 2: "bread ROOTDEV ?a s1 = Ok b s2" "log_inv p [b] s2" "cached s2 ?a b" "b_data (bufs s2 b) = content s1 ?a"
      "content s2 = content s1" "txstep s1 s2 0" "?a \<in> set (logged (lg s2)) \<or> content s2 ?a = disk s2 ?a" "lg s2 = lg s1"
      by (rule bread_log [OF 1(2), of ?a]) (use 1(5) Suc.prems(3) in auto)
    define bs where "bs = take m (drop o1 (fdata s ip ?bn))"
    have bs: "bs = frange s ip (unat off) m" "length bs = m"
      using frange_block [of "unat off" m s ip] m(3) log_inv_length [OF Suc.prems(1), of ?a] a
      by (simp_all add: bs_def o1_def)
    let ?M = "store_bytes (mem s) (dst + of_nat (unat tot)) bs"
    define s3 where "s3 = s2\<lparr>mem := ?M\<rparr>"
    have s3: "log_inv p [b] s3" "cached s3 ?a b" "content s3 = ?c" "lg s3 = lg s" "disk s3 = disk s2" "mem s3 = ?M"
      using 1(3,5) 2(2,3,5,8) by (simp_all add: s3_def)
    obtain s4 where 4: "brelse b s3 = Ok () s4" "log_inv p (remove1 b [b]) s4" "content s4 = content s3" "txstep s3 s4 0" "lg s4 = lg s3"
      by (rule brelse_log [OF s3(1) _ s3(2)]) (use 1(3,5) 2(5,7,8) s3 in auto)
    note f4 = txstep_fields [OF 4(4)]
    have it: "itable s4 = itable s" using f4(1) txstep_fields(1) [OF 2(6)] f1(1) by (simp add: s3_def)
    have c4: "content s4 = ?c" using 4(3) s3(3) by simp
    have mp: "k div BSIZE \<in> fmapped s4 ip" if "unat ?off \<le> k" "k < unat ?off + (unat n - unat ?tot)" for k
      using Suc.prems(7) [of k] that fmapped_cong [OF c4, of ip] it uo ut m(2) r by (simp add: r_def)
    have ih: "log_inv p [] s4" "i_dev (itable s4 ip) = ROOTDEV" "l_n (lg s4) < int NBUF" "unat ?tot \<le> unat n"
      "unat ?off + (unat n - unat ?tot) \<le> MAXFILE * BSIZE" "unat n - unat ?tot \<le> fuel"
      using 4(2,5) it s3(4) Suc.prems(2,3,6) ut uo m r lim by (auto simp: r_def)
    obtain t where t: "readi_loop fuel (to_kernel dst) () ip ?tot ?off n s4 = Ok (sint n, ()) t" "log_inv p [] t" "content t = content s4"
      "mem t = store_bytes (mem s4) (dst + of_nat (unat ?tot)) (frange s4 ip (unat ?off) (unat n - unat ?tot))"
      "txstep (s4\<lparr>mem := mem t\<rparr>) t 0"
      using Suc.IH [OF ih mp] by blast
    have run: "readi_loop (Suc fuel) (to_kernel dst) () ip tot off n s = Ok (sint n, ()) t"
      using True 1(1) a 2(1,4) 4(1) t(1) f1(1) Suc.prems(2) 1(3) txstep_fields(4) [OF 2(6)] f1(4)
      by (simp add: bnd_Ok seq_Ok r m_def [symmetric] o1_def [symmetric] Let_def to_kernel_def bdata_def bs_def upd_mem_def s3_def)
    have rm: "unat n - (unat tot + m) = r - m" using r by simp
    have "mem t = store_bytes (store_bytes (mem s) (dst + of_nat (unat tot)) bs) (dst + of_nat (unat tot) + of_nat (length bs))
        (frange s ip (unat off + m) (r - m))"
      using t(4) f4(4) s3(6) frange_cong [OF c4, of ip] it bs(2) by (simp add: ut uo rm add.assoc)
    also have "\<dots> = store_bytes (mem s) (dst + of_nat (unat tot)) (frange s ip (unat off) r)"
      using m lim frange_append [of s ip "unat off" m "r - m"] bs by (subst store_append) (simp_all add: const_defs)
    finally have mt: "mem t = store_bytes (mem s) (dst + of_nat (unat tot)) (frange s ip (unat off) r)" .
    have "txstep (s\<lparr>mem := mem t\<rparr>) (s2\<lparr>mem := mem t\<rparr>) 0"
      using txstep_mem [OF txstep_trans [OF 1(4) 2(6)]] by simp
    moreover have "txstep (s2\<lparr>mem := mem t\<rparr>) (s4\<lparr>mem := mem t\<rparr>) 0"
      using txstep_mem [OF 4(4), of "mem t"] by (simp add: s3_def)
    ultimately have "txstep (s\<lparr>mem := mem t\<rparr>) t 0" using txstep_trans t(5) by (metis add_0)
    then show ?thesis using run t(2,3) c4 mt by (auto simp: r_def)
  qed
qed

lemma readi_run:
  assumes inv: "log_inv p [] s" "i_dev (itable s ip) = ROOTDEV" "l_n (lg s) < int NBUF"
    and sz: "unat off + unat n \<le> unat (i_size (itable s ip))" and lim: "unat off + unat n \<le> MAXFILE * BSIZE"
    and map: "\<And>k. unat off \<le> k \<Longrightarrow> k < unat off + unat n \<Longrightarrow> k div BSIZE \<in> fmapped s ip"
  obtains t where "readi (to_kernel dst) () ip off n s = Ok (int (unat n), ()) t" "log_inv p [] t" "content t = content s"
    "mem t = store_bytes (mem s) dst (frange s ip (unat off) (unat n))" "txstep (s\<lparr>mem := mem t\<rparr>) t 0"
proof -
  have small: "unat off + unat n \<le> 274432" using lim by (simp add: const_defs)
  have on: "unat (off + n) = unat off + unat n" using small by (simp add: unat_add_lem [THEN iffD1])
  have sn: "sint n = int (unat n)" by (rule sint_small) (use small in simp)
  have guards: "\<not> (off > i_size (itable s ip) \<or> off + n < off)" "\<not> off + n > i_size (itable s ip)"
    using sz on by (auto simp: word_less_nat_alt)
  obtain t where t: "readi_loop (unat n) (to_kernel dst) () ip 0 off n s = Ok (sint n, ()) t" "log_inv p [] t" "content t = content s"
    "mem t = store_bytes (mem s) dst (frange s ip (unat off) (unat n))" "txstep (s\<lparr>mem := mem t\<rparr>) t 0"
    using readi_loop_run [OF inv, of 0 n off "unat n" dst] lim map by auto
  have "readi (to_kernel dst) () ip off n s = Ok (int (unat n), ()) t"
    using guards t(1) sn by (simp add: readi_def Let_def)
  then show thesis using that t(2-5) by blast
qed

end
