(* ===== verification/Xv6_Crash.thy ===== *)
theory Xv6_Crash
  imports Xv6_Commit
begin

text \<open>
  The properties of the buffer cache and of the log, with states that show their hypotheses can hold.
\<close>

section \<open>The empty cache\<close>

definition idle_buf :: "buf \<Rightarrow> bool" where
  "idle_buf x \<longleftrightarrow> \<not> sl_locked (b_lock x) \<and> b_dev x \<noteq> ROOTDEV \<and> b_refcnt x = 0"

lemma idle_binit_buf:
  assumes "\<And>c. idle_buf (bs c)"
  shows "idle_buf (binit_buf b bs c)"
proof -
  let ?bs = "bs(b := (bs b)\<lparr>b_lock := \<lparr>sl_locked = False, sl_pid = 0\<rparr>\<rparr>)"
  have "idle_buf (?bs c)" using assms [of c] assms [of b] by (simp add: idle_buf_def)
  then show ?thesis
    using nolinks_fields [OF nolinks_link_front [of b ?bs c]] by (simp add: binit_buf_def idle_buf_def)
qed

lemma idle_fold: "(\<And>c. idle_buf (bs c)) \<Longrightarrow> idle_buf (fold binit_buf bl bs c)"
  by (induction bl arbitrary: bs) (simp_all add: idle_binit_buf)

lemma binit_inv:
  assumes "\<And>c. idle_buf (bufs s c)" "held s = []" "\<And>no. length (disk s no) = BSIZE"
  obtains B where "binit s = Ok () (s\<lparr>bufs := B\<rparr>)" "cache_inv p [] {} (s\<lparr>bufs := B, curproc := Some p\<rparr>)"
proof -
  let ?b0 = "(bufs s)(NBUF := (bufs s NBUF)\<lparr>b_prev := NBUF, b_next := NBUF\<rparr>)"
  let ?B = "fold binit_buf [0..<NBUF] ?b0"
  have "idle_buf (?b0 c)" for c using assms(1) [of c] by (auto simp: idle_buf_def)
  then have i: "idle_buf (?B c)" for c by (rule idle_fold)
  have "ring ?B (rev [0..<NBUF])" unfolding ring_def by (intro conjI links_binit) auto
  moreover have "\<not> cached (s\<lparr>bufs := ?B, curproc := Some p\<rparr>) no b" for no b
    using i [of b] by (simp add: cached_def idle_buf_def)
  moreover have "buf_ok pid [] {} d c (?B c)" for pid d c using i [of c] by (simp add: buf_ok_def idle_buf_def)
  ultimately have "cache_inv p [] {} (s\<lparr>bufs := ?B, curproc := Some p\<rparr>)"
    using assms(2,3) unfolding cache_inv_def by auto
  then show thesis using that [of ?B] by (simp add: binit_def)
qed

text \<open>The kernel's state after \<open>binit\<close> at the next boot, with the disk \<open>d\<close>.\<close>

definition rebooted :: "(u32 \<Rightarrow> u8 list) \<Rightarrow> kstate" where
  "rebooted d = (case binit ((boot_state 0 0 0)\<lparr>disk := d\<rparr>) of Ok _ s \<Rightarrow> s\<lparr>curproc := Some 0\<rparr>)"

lemma rebooted_inv:
  assumes "\<And>no. length (d no) = BSIZE"
  shows "cache_inv 0 [] {} (rebooted d)" "disk (rebooted d) = d" "lg (rebooted d) = lg (boot_state 0 0 0)"
proof -
  have "idle_buf (bufs ((boot_state 0 0 0)\<lparr>disk := d\<rparr>) c)" for c
    by (simp add: boot_state_def idle_buf_def const_defs)
  moreover have "held ((boot_state 0 0 0)\<lparr>disk := d\<rparr>) = []" by (simp add: boot_state_def)
  ultimately obtain B where "binit ((boot_state 0 0 0)\<lparr>disk := d\<rparr>) = Ok () ((boot_state 0 0 0)\<lparr>disk := d, bufs := B\<rparr>)"
    "cache_inv 0 [] {} ((boot_state 0 0 0)\<lparr>disk := d, bufs := B, curproc := Some 0\<rparr>)"
    using binit_inv [of "(boot_state 0 0 0)\<lparr>disk := d\<rparr>" 0] assms by auto
  then show "cache_inv 0 [] {} (rebooted d)" "disk (rebooted d) = d" "lg (rebooted d) = lg (boot_state 0 0 0)"
    by (simp_all add: rebooted_def)
qed

section \<open>A transaction in the cache\<close>

text \<open>The blocks 100, 101, ... of a transaction are in the first \<open>n\<close> buffers, pinned.\<close>

definition ex_buf :: "nat \<Rightarrow> nat \<Rightarrow> buf" where
  "ex_buf n b = \<lparr>b_valid = b < n, b_dev = if b < n then ROOTDEV else 0, b_blockno = 100 + of_nat b,
     b_lock = \<lparr>sl_locked = False, sl_pid = 0\<rparr>, b_refcnt = if b < n then 1 else 0,
     b_prev = if b = 0 then 30 else b - 1, b_next = if b = 30 then 0 else b + 1,
     b_data = replicate 1024 7\<rparr>"

definition ex_log :: "nat \<Rightarrow> kstate" where
  "ex_log n = (boot_state 0 0 0)\<lparr>curproc := Some 0, bufs := ex_buf n,
     lg := \<lparr>l_start = 2, l_outstanding = 1, l_committing = False, l_dev = ROOTDEV, l_n = int n,
       l_block = map (\<lambda>i. 100 + of_nat i) [0..<30]\<rparr>\<rparr>"

lemma ex_ring: "ring (ex_buf n) [0..<30]"
proof -
  have "links (ex_buf n) 30 [0..<k] k" if "0 < k" "k \<le> 30" for k
    using that
  proof (induction k)
    case (Suc k)
    show ?case
    proof (cases "k = 0")
      case True
      then show ?thesis by (simp add: ex_buf_def)
    next
      case False
      then have "links (ex_buf n) 30 [0..<k] k" using Suc by simp
      moreover have "links (ex_buf n) k [] (Suc k)" using Suc.prems False by (simp add: ex_buf_def)
      ultimately show ?thesis using links_append [of "ex_buf n" 30 "[0..<k]" k "[]" "Suc k"] by simp
    qed
  qed simp
  from this [of 30] show ?thesis by (simp add: ring_def const_defs) 
qed

lemma ex_blockno_inj: "i < 100 \<Longrightarrow> j < 100 \<Longrightarrow> (100 + of_nat i :: u32) = 100 + of_nat j \<longleftrightarrow> i = j"
proof
  assume "i < 100" "j < 100" "(100 + of_nat i :: u32) = 100 + of_nat j"
  then have "unat (of_nat i :: u32) = unat (of_nat j :: u32)" by simp
  moreover have "unat (of_nat i :: u32) = i" "unat (of_nat j :: u32) = j"
    by (rule unat_of_nat32, use \<open>i < 100\<close> \<open>j < 100\<close> in simp)+
  ultimately show "i = j" by metis
qed simp

lemma ex_area:
  assumes "33 \<le> unat (no :: u32)"
  shows "no \<notin> log_area 2"
proof
  assume "no \<in> log_area 2"
  then consider "no = 2" | j where "j < 30" "no = of_nat (3 + j)"
    by (auto simp: log_area_def log_block_def const_defs add.commute)
  then show False
  proof cases
    case 2
    have "unat (of_nat (3 + j) :: u32) = 3 + j" by (rule unat_of_nat32) (use 2 in simp)
    then show False using 2 assms by simp
  qed (use assms in simp)
qed

lemma ex_log_fields:
  assumes "n \<le> 30"
  shows "logged (lg (ex_log n)) = map (\<lambda>i. 100 + of_nat i) [0..<n]" "log_ok (lg (ex_log n))"
    "cached (ex_log n) no b \<longleftrightarrow> b < n \<and> no = 100 + of_nat b"
proof -
  have t: "take n [0..<30] = [0..<n]" using assms by simp
  show l: "logged (lg (ex_log n)) = map (\<lambda>i. 100 + of_nat i) [0..<n]"
    by (simp add: logged_def ex_log_def take_map t)
  have ds: "distinct (map (\<lambda>i. 100 + of_nat i :: u32) [0..<n])"
    using assms ex_blockno_inj by (auto simp: distinct_map inj_on_def)
  have "(100 + of_nat i :: u32) \<notin> log_area 2" if i: "i < n" for i
  proof (rule ex_area)
    have "unat (of_nat (100 + i) :: u32) = 100 + i" by (rule unat_of_nat32) (use i assms in simp)
    then show "33 \<le> unat (100 + of_nat i :: u32)" by simp
  qed
  then show "log_ok (lg (ex_log n))"
    using l ds assms by (auto simp: log_ok_def) (auto simp: ex_log_def const_defs)
  show "cached (ex_log n) no b \<longleftrightarrow> b < n \<and> no = 100 + of_nat b"
    using assms by (auto simp: cached_def ex_log_def ex_buf_def const_defs)
qed

lemma ex_log_inv:
  assumes n: "n \<le> 30"
  shows "log_inv 0 [] (ex_log n)"
proof -
  note f = ex_log_fields [OF n]
  let ?D = "set (map (\<lambda>i. 100 + of_nat i :: u32) [0..<n])"
  have D: "(100 + of_nat b :: u32) \<in> ?D \<longleftrightarrow> b < n" if "b < 30" for b
    using that n ex_blockno_inj [of b] by (auto simp: image_iff)
  have "ring (bufs (ex_log n)) [0..<30]" using ex_ring by (simp add: ex_log_def)
  moreover have "buf_ok pid [] ?D (disk (ex_log n)) b (bufs (ex_log n) b)" if "b < NBUF" for pid b
    using D [of b] that by (auto simp: buf_ok_def ex_log_def ex_buf_def const_defs)
  moreover have "\<exists>b. cached (ex_log n) no b" if "no \<in> ?D" for no using that by (auto simp: f(3))
  moreover have "b = c" if "cached (ex_log n) no b" "cached (ex_log n) no c" for no b c
    using that ex_blockno_inj [of b c] n by (auto simp: f(3))
  moreover have "curproc (ex_log n) = Some 0" "held (ex_log n) = []" "length (disk (ex_log n) no) = BSIZE" for no
    by (simp_all add: ex_log_def boot_state_def const_defs)
  ultimately have "cache_inv 0 [] ?D (ex_log n)" unfolding cache_inv_def by auto
  moreover have "get32 (replicate 1024 0) 0 = 0" by (simp add: get32_def)
  then have "header_is (disk (ex_log n)) (l_start (lg (ex_log n))) []"
    by (simp add: header_is_def ex_log_def boot_state_def)
  ultimately show ?thesis using f by (simp add: log_inv_def)
qed

section \<open>The buffer cache\<close>

lemma find_rev_last: "find P (rev xs) = Some b \<Longrightarrow> filter P xs \<noteq> [] \<and> b = last (filter P xs)"
  by (induction xs rule: rev_induct) (auto split: if_splits)

text \<open>Operations that never run forever.\<close>

definition terminates :: "'a kop \<Rightarrow> bool" where
  "terminates m \<longleftrightarrow> (\<forall>s. m s \<noteq> Diverge)"

lemma terminates_intros:
  "terminates (ret x)" "terminates (gets f)" "terminates (modify g)" "terminates (panic m)"
  "terminates a \<Longrightarrow> (\<And>x. terminates (k x)) \<Longrightarrow> terminates (bnd a k)"
  "terminates b \<Longrightarrow> terminates c \<Longrightarrow> terminates (seq b c)"
  "terminates (\<lambda>s. Sleep ch s)"
  by (auto simp: terminates_def seq_def bnd_def ret_def gets_def modify_def panic_def split: outcome.splits)

lemma terminates_if: "terminates a \<Longrightarrow> terminates b \<Longrightarrow> terminates (if c then a else b)"
  by simp

lemma terminates_nonnull: "terminates (nonnull x)"
  unfolding nonnull_def by (cases x) (simp_all add: terminates_intros)

lemma terminates_locks: "terminates (holding lk)" "terminates (acquire lk)" "terminates (release lk)" "terminates myproc"
  unfolding acquire_def release_def holding_def myproc_def by (intro terminates_intros terminates_if)+

lemma terminates_sched: "terminates (sched ch)"
  unfolding sched_def by (intro terminates_intros terminates_if terminates_nonnull terminates_locks)

lemma terminates_sleep: "terminates (sleep ch lk)"
  unfolding sleep_def by (intro terminates_intros terminates_if terminates_nonnull terminates_locks terminates_sched)

lemma terminates_acquiresleep: "terminates (acquiresleep k)"
  unfolding acquiresleep_def
  by (intro terminates_intros terminates_if terminates_nonnull terminates_locks terminates_sleep)

lemma terminates_virtio: "terminates (virtio_disk_rw b w)"
  unfolding virtio_disk_rw_def by (intro terminates_intros terminates_if terminates_nonnull terminates_locks)

lemma bnd_not_diverge:
  assumes "a s \<noteq> Diverge" "\<And>x. terminates (f x)"
  shows "bnd a f s \<noteq> Diverge"
  using assms by (auto simp: bnd_def terminates_def split: outcome.splits)

lemma bget_not_diverge:
  assumes r: "ring (bufs s) xs"
  shows "bget dev no s \<noteq> Diverge"
proof -
  have hit: "terminates (seq (release BcacheLk) (seq (acquiresleep (buf_slock b)) (ret b)))" for b :: nat
    by (intro terminates_intros terminates_locks terminates_acquiresleep)
  show ?thesis using hit
    by (cases "BcacheLk \<in> set (held s)")
      (auto simp: bget_def ring_scan_next [OF r] ring_scan_prev [OF r] terminates_def split: option.split)
qed

text \<open>
  Property C38. Reading a block never runs forever: on a ring of buffers both scans of \<open>bget\<close> end, so \<open>bread\<close> returns,
  sleeps on a lock, or panics.
\<close>

theorem bread_terminates:
  assumes "ring (bufs s) xs"
  shows "bread dev no s \<noteq> Diverge"
  unfolding bread_def
  by (intro bnd_not_diverge bget_not_diverge [OF assms] terminates_intros terminates_if terminates_virtio)

theorem bread_terminates_witness: "bread ROOTDEV 7 (ex_log 2) \<noteq> Diverge"
  using bread_terminates [of "ex_log 2" "[0..<30]"] ex_ring by (simp add: ex_log_def)

text \<open>
  Property C37. Reading a block, whether or not it is cached, returns a locked buffer that holds the block's current
  contents, keeps the invariant of the cache, and changes neither the contents of any block nor the disk.
\<close>

theorem bread_correct:
  assumes "cache_inv p L D s" "\<forall>c\<in>set L. b_blockno (bufs s c) \<noteq> no" "card D + length L < NBUF"
  shows "\<exists>b t. bread ROOTDEV no s = Ok b t \<and> cache_inv p (b # L) D t \<and> cached t no b \<and>
    b_data (bufs t b) = content s no \<and> content t = content s \<and> disk t = disk s \<and> disk_writes t = disk_writes s"
  using bread_run [OF assms(1)] assms(2,3) by metis

lemma ex_cache_inv: "cache_inv 0 [] {100, 101} (ex_log 2)"
proof -
  have "logged (lg (ex_log 2)) = [100, 101]" using ex_log_fields(1) [of 2] by (simp add: upt_rec)
  then show ?thesis using ex_log_inv [of 2] by (simp add: log_inv_def)
qed

theorem bread_correct_witness:
  "\<exists>b t. bread ROOTDEV 100 (ex_log 2) = Ok b t \<and> b_data (bufs t b) = replicate 1024 7"
proof -
  have "cached (ex_log 2) 100 0" by (simp add: ex_log_fields)
  from content_cached [OF ex_cache_inv this] have "content (ex_log 2) 100 = replicate 1024 7"
    by (simp add: ex_log_def ex_buf_def)
  then show ?thesis using bread_correct [OF ex_cache_inv, of 100] by (auto simp: const_defs)
qed

text \<open>
  Property C9. The list of buffers is kept in the order of last use: a block that is not cached takes the buffer
  released longest ago among those nothing holds, and its release moves that buffer to the front of the order
  and keeps the rest as it was.
\<close>

theorem cache_lru:
  assumes "cache_inv p L D s" "ring (bufs s) xs" "\<forall>b. \<not> cached s no b" "card D + length L < NBUF"
  shows "\<exists>b t u. bread ROOTDEV no s = Ok b t \<and> b = last (filter (\<lambda>b. b_refcnt (bufs s b) = 0) xs) \<and>
    ring (bufs t) xs \<and> brelse b t = Ok () u \<and> ring (bufs u) (b # remove1 b xs) \<and> cached u no b"
proof -
  have miss: "\<not> cached s no b" for b using assms(3) by blast
  obtain b where b: "find (\<lambda>b. b_refcnt (bufs s b) = 0) (rev xs) = Some b" "b < NBUF" "b \<notin> set L"
    and run: "bread ROOTDEV no s = Ok b (s\<lparr>procs := (procs s)(p := (procs s p)\<lparr>p_chan := None\<rparr>),
      bufs := (bufs s)(b := filled s p no b)\<rparr>)" (is "_ = Ok b ?t")
    by (rule bread_miss [OF assms(1) miss assms(4,2)])
  have "\<forall>c\<in>set L. b_blockno (bufs s c) \<noteq> no"
    using assms(1) miss cache_invD(5,7) [OF assms(1)] by (fastforce simp: cached_def buf_ok_def)
  then have inv: "cache_inv p (b # L) D ?t"
    using bread_run [OF assms(1), of no] assms(4) run by (metis outcome.inject(1))
  have rt: "ring (bufs ?t) xs" by (rule ring_cong [OF assms(2)]) (simp_all add: filled_def)
  let ?x = "(filled s p no b)\<lparr>b_lock := \<lparr>sl_locked = False, sl_pid = 0\<rparr>, b_refcnt := 0\<rparr>"
  let ?B = "link_front b (unlink b ((bufs s)(b := ?x)))"
  have "brelse b ?t = Ok () (?t\<lparr>procs := wake (ChBufLock b) (Some p) NPROC (procs ?t), bufs := ?B\<rparr>)"
    using brelse_eq [OF inv, of b] by (simp add: filled_def)
  moreover have "ring ((bufs s)(b := ?x)) xs" by (rule ring_cong [OF assms(2)]) (simp_all add: filled_def)
  then have "ring ?B (b # remove1 b xs)" by (rule ring_move_front [OF _ b(2)])
  moreover have "nolinks (?B b) = nolinks ?x" by (simp add: nolinks_link_front nolinks_unlink)
  note nolinks_fields [OF this]
  ultimately show ?thesis
    using run rt b find_rev_last [OF b(1)] by (auto simp: cached_def filled_def)
qed

theorem cache_lru_witness:
  "\<exists>t u. bread ROOTDEV 7 (ex_log 2) = Ok 29 t \<and> brelse 29 t = Ok () u \<and> ring (bufs u) (29 # [0..<29])"
proof -
  have r: "ring (bufs (ex_log 2)) [0..<30]" using ex_ring by (simp add: ex_log_def)
  have m: "\<forall>b. \<not> cached (ex_log 2) 7 b"
  proof
    fix b have "b < 2 \<Longrightarrow> (7::u32) \<noteq> 100 + of_nat b" by (auto simp: less_2_cases_iff)
    then show "\<not> cached (ex_log 2) 7 b" by (simp add: ex_log_fields)
  qed
  have l: "last (filter (\<lambda>b. b_refcnt (bufs (ex_log 2) b) = 0) [0..<30]) = 29" "remove1 29 [0..<30] = [0..<29]"
    by (simp_all add: ex_log_def ex_buf_def upt_rec)
  show ?thesis using cache_lru [OF ex_cache_inv r m] l by (auto simp: const_defs)
qed

section \<open>The log\<close>

text \<open>
  Property C39. Inside a transaction \<open>log_write\<close> only records the block: the invariant of the log is kept, the block is
  listed once, and neither the contents of any block nor the disk change.
\<close>

theorem log_write_correct:
  assumes "log_inv p L s" "b \<in> set L" "cached s no b" "no \<notin> log_area (l_start (lg s))"
    "l_n (lg s) < int LOGBLOCKS" "1 \<le> l_outstanding (lg s)"
  shows "\<exists>t. log_write b s = Ok () t \<and> log_inv p L t \<and>
    logged (lg t) = (if no \<in> set (logged (lg s)) then logged (lg s) else logged (lg s) @ [no]) \<and>
    content t = content s \<and> disk t = disk s \<and> disk_writes t = disk_writes s"
  by (rule log_write_run [OF assms]) blast

lemma ex_locked:
  obtains b t where "bread ROOTDEV 200 (ex_log 2) = Ok b t" "log_inv 0 [b] t" "cached t 200 b" "lg t = lg (ex_log 2)"
proof (rule bread_run [OF ex_cache_inv, of 200])
  fix b t
  assume "bread ROOTDEV 200 (ex_log 2) = Ok b t" "cache_inv 0 [b] {100, 101} t" "cached t 200 b"
    and s: "cache_step (ex_log 2) t" "disk t = disk (ex_log 2)"
  moreover have "lg t = lg (ex_log 2)" by (rule cache_step_fields [OF s(1)])
  moreover have "logged (lg (ex_log 2)) = [100, 101]" using ex_log_fields(1) [of 2] by (simp add: upt_rec)
  ultimately show thesis using that [of b t] ex_log_inv [of 2] by (simp add: log_inv_def)
qed (simp_all add: const_defs)

theorem log_write_correct_witness:
  "\<exists>b s t. bread ROOTDEV 200 (ex_log 2) = Ok b s \<and> log_write b s = Ok () t \<and> logged (lg t) = [100, 101, 200] \<and>
    disk_writes t = disk_writes s"
proof (rule ex_locked)
  fix b s assume s: "bread ROOTDEV 200 (ex_log 2) = Ok b s" "log_inv 0 [b] s" "cached s 200 b" "lg s = lg (ex_log 2)"
  have l: "logged (lg s) = [100, 101]" using ex_log_fields(1) [of 2] s(4) by (simp add: upt_rec)
  have "(200::u32) \<notin> log_area (l_start (lg s))" using s(4) by (simp add: ex_area ex_log_def)
  then show ?thesis using log_write_correct [OF s(2) _ s(3)] s(1,4) l by (auto simp: ex_log_def const_defs)
qed

text \<open>
  Property C2. The commit at the end of a transaction is atomic. Wherever the machine stops while \<open>end_op\<close> writes its
  blocks, \<open>initlog\<close> at the next boot restores every block outside the log: to what was on the disk
  before, if the header was not yet written, and to what the transaction made of it from then on.
\<close>

theorem commit_crash_atomic:
  assumes "log_inv p [] s" "l_outstanding (lg s) = 1" "\<not> l_committing (lg s)"
    "0 < l_n (lg s)" "l_n (lg s) < int NBUF"
  shows "\<exists>t ws. end_op s = Ok () t \<and> log_inv p [] t \<and> l_n (lg t) = 0 \<and>
    disk_writes t = disk_writes s @ ws \<and> disk t = apply_writes ws (disk s) \<and> (\<forall>w\<in>set ws. length (snd w) = BSIZE) \<and>
    (\<forall>k q r sb. cache_inv q [] {} r \<and> length (l_block (lg r)) = LOGBLOCKS \<and> sb_logstart sb = l_start (lg s) \<and>
      disk r = apply_writes (take k ws) (disk s) \<longrightarrow>
      (\<exists>u. initlog ROOTDEV sb r = Ok () u \<and> log_inv q [] u \<and> (\<forall>no. no \<notin> log_area (l_start (lg s)) \<longrightarrow>
        content u no = (if k \<le> nat (l_n (lg s)) then disk s no else content s no))))"
proof -
  let ?ws = "commit_writes (lg s) (content s)" and ?S = "l_start (lg s)" and ?l = "lg s"
  have ok: "log_ok ?l" and h0: "header_is (disk s) ?S []" and ci: "cache_inv p [] (set (logged ?l)) s"
    using assms(1) by (simp_all add: log_inv_def)
  have n: "nat (l_n ?l) < NBUF" using assms(4,5) by simp
  have cl: "content s no = disk s no" if "no \<notin> set (logged ?l)" for no using content_clean [OF ci that] .
  have boot: "\<exists>u. initlog ROOTDEV sb r = Ok () u \<and> log_inv q [] u \<and> (\<forall>no. no \<notin> log_area ?S \<longrightarrow>
        content u no = (if k \<le> nat (l_n ?l) then disk s no else content s no))"
    if r: "cache_inv q [] {} r" "length (l_block (lg r)) = LOGBLOCKS" "sb_logstart sb = ?S"
      "disk r = apply_writes (take k ?ws) (disk s)" for k q r sb
  proof -
    obtain bl where bl: "header_is (disk r) ?S bl" "bl = [] \<or> bl = logged ?l"
      "\<forall>no. no \<notin> log_area ?S \<longrightarrow> recovered ?S bl (disk r) no = (if k \<le> nat (l_n ?l) then disk s no else content s no)"
      using crash_disk [OF ok cl h0, of k] cache_invD(6) [OF ci] r(4) by auto
    have "length bl \<le> LOGBLOCKS" "distinct bl" "set bl \<inter> log_area ?S = {}"
      using bl(2) ok log_okD(2,3,6) [OF ok] by (auto simp: log_ok_def)
    then show ?thesis
      using initlog_run [OF r(1,2), of sb bl] bl(1,3) r(3) by metis
  qed
  obtain t where "end_op s = Ok () t" "log_inv p [] t" "l_n (lg t) = 0"
    "disk t = apply_writes ?ws (disk s)" "disk_writes t = disk_writes s @ ?ws"
    by (rule end_op_run [OF assms(1-4) n])
  moreover have "\<forall>w\<in>set ?ws. length (snd w) = BSIZE" by (rule commit_writes_length [OF ok content_length [OF ci]])
  ultimately show ?thesis using boot by (intro exI [of _ t] exI [of _ ?ws] conjI) blast+
qed

theorem commit_crash_atomic_witness:
  "\<exists>t ws. end_op (ex_log 2) = Ok () t \<and> disk_writes t = ws \<and> (\<forall>k. \<exists>u.
     initlog ROOTDEV ((sblk (ex_log 2))\<lparr>sb_logstart := 2\<rparr>) (rebooted (apply_writes (take k ws) (disk (ex_log 2)))) = Ok () u \<and>
     content u 100 = replicate 1024 (if k \<le> 2 then 0 else 7))"
proof -
  let ?s = "ex_log 2" and ?sb = "(sblk (ex_log 2))\<lparr>sb_logstart := 2\<rparr>"
  have f: "l_start (lg ?s) = 2" "l_n (lg ?s) = 2" "l_outstanding (lg ?s) = 1" "\<not> l_committing (lg ?s)"
    "disk_writes ?s = []" "disk ?s 100 = replicate 1024 0" "length (l_block (lg (boot_state 0 0 0))) = LOGBLOCKS"
    by (simp_all add: ex_log_def boot_state_def const_defs)
  have c: "content ?s 100 = replicate 1024 7"
    using content_cached [OF ex_cache_inv, of 100 0] by (simp add: ex_log_fields) (simp add: ex_log_def ex_buf_def)
  have a: "(100::u32) \<notin> log_area 2" by (rule ex_area) simp
  have "log_inv 0 [] ?s" "0 < l_n (lg ?s)" "l_n (lg ?s) < int NBUF"
    using ex_log_inv [of 2] f(2) by (simp_all add: const_defs)
  note atomic = commit_crash_atomic [OF this(1) f(3,4) this(2,3), unfolded f(1,2,5) append_Nil]
  obtain t ws where t: "end_op ?s = Ok () t" "disk_writes t = ws" "\<forall>w\<in>set ws. length (snd w) = BSIZE"
    and b: "\<forall>k q r sb. cache_inv q [] {} r \<and> length (l_block (lg r)) = LOGBLOCKS \<and> sb_logstart sb = 2 \<and>
      disk r = apply_writes (take k ws) (disk ?s) \<longrightarrow>
      (\<exists>u. initlog ROOTDEV sb r = Ok () u \<and> log_inv q [] u \<and> (\<forall>no. no \<notin> log_area 2 \<longrightarrow>
        content u no = (if k \<le> nat 2 then disk ?s no else content ?s no)))"
    using atomic by (elim exE conjE) (rule that)
  have "\<exists>u. initlog ROOTDEV ?sb (rebooted (apply_writes (take k ws) (disk ?s))) = Ok () u \<and>
     content u 100 = replicate 1024 (if k \<le> 2 then 0 else 7)" for k
  proof -
    let ?r = "rebooted (apply_writes (take k ws) (disk ?s))"
    have "\<forall>w\<in>set (take k ws). length (snd w) = BSIZE" using t(3) in_set_takeD by fast
    then have "length (apply_writes (take k ws) (disk ?s) no) = BSIZE" for no
      by (rule apply_writes_length) (simp add: ex_log_def boot_state_def const_defs)
    note r = rebooted_inv [OF this]
    have "cache_inv 0 [] {} ?r \<and> length (l_block (lg ?r)) = LOGBLOCKS \<and> sb_logstart ?sb = 2 \<and>
        disk ?r = apply_writes (take k ws) (disk ?s)" using r f(7) by simp
    from b [rule_format, OF this] show ?thesis using a c f(6) by auto
  qed
  then show ?thesis using t by blast
qed

text \<open>
  Property C8. Recovery may itself be interrupted: wherever \<open>initlog\<close> stops, the next boot's \<open>initlog\<close> ends with
  the contents the uninterrupted one would have given, for every block outside the log.
\<close>

theorem recovery_crash_safe:
  assumes "cache_inv p [] {} s" "length (l_block (lg s)) = LOGBLOCKS" "header_is (disk s) (sb_logstart sb) bl"
    "length bl \<le> LOGBLOCKS" "distinct bl" "set bl \<inter> log_area (sb_logstart sb) = {}"
  shows "\<exists>t ws. initlog ROOTDEV sb s = Ok () t \<and> log_inv p [] t \<and> disk_writes t = disk_writes s @ ws \<and>
    (\<forall>k q r. cache_inv q [] {} r \<and> length (l_block (lg r)) = LOGBLOCKS \<and> disk r = apply_writes (take k ws) (disk s) \<longrightarrow>
      (\<exists>u. initlog ROOTDEV sb r = Ok () u \<and> (\<forall>no. no \<notin> log_area (sb_logstart sb) \<longrightarrow> content u no = content t no)))"
proof -
  let ?S = "sb_logstart sb" and ?ws = "recovery_writes (sb_logstart sb) bl (disk s)"
  obtain t where t: "initlog ROOTDEV sb s = Ok () t" "log_inv p [] t"
    "\<And>no. no \<notin> log_area ?S \<Longrightarrow> content t no = recovered ?S bl (disk s) no" "disk_writes t = disk_writes s @ ?ws"
    by (rule initlog_run [OF assms]) (rule that)
  have "\<exists>u. initlog ROOTDEV sb r = Ok () u \<and> (\<forall>no. no \<notin> log_area ?S \<longrightarrow> content u no = content t no)"
    if r: "cache_inv q [] {} r" "length (l_block (lg r)) = LOGBLOCKS" "disk r = apply_writes (take k ?ws) (disk s)" for k q r
  proof -
    obtain bl' where bl': "header_is (disk r) ?S bl'" "bl' = [] \<or> bl' = bl"
      "\<forall>no. no \<notin> log_area ?S \<longrightarrow> recovered ?S bl' (disk r) no = recovered ?S bl (disk s) no"
      using recovery_crash_disk [OF assms(3-6) cache_invD(6) [OF assms(1)], of k] r(3) by auto
    have "length bl' \<le> LOGBLOCKS" "distinct bl'" "set bl' \<inter> log_area ?S = {}" using bl'(2) assms(4-6) by auto
    then show ?thesis using initlog_run [OF r(1,2) bl'(1)] bl'(3) t(3) by metis
  qed
  then show ?thesis using t by (intro exI [of _ t] exI [of _ ?ws] conjI) blast+
qed

theorem recovery_crash_safe_witness:
  "\<exists>t. initlog ROOTDEV ((sblk (ex_log 2))\<lparr>sb_logstart := 2\<rparr>) (rebooted (disk (ex_log 2))) = Ok () t \<and> log_inv 0 [] t"
proof -
  have d: "length (disk (ex_log 2) no) = BSIZE" for no by (simp add: ex_log_def boot_state_def const_defs)
  note r = rebooted_inv [of "disk (ex_log 2)", OF d]
  have "get32 (replicate 1024 0) 0 = 0" by (simp add: get32_def)
  then have "header_is (disk (ex_log 2)) 2 []" by (simp add: header_is_def ex_log_def boot_state_def)
  moreover have "length (l_block (lg (rebooted (disk (ex_log 2))))) = LOGBLOCKS"
    using r(3) by (simp add: boot_state_def const_defs)
  ultimately show ?thesis
    using recovery_crash_safe [OF r(1), of "(sblk (ex_log 2))\<lparr>sb_logstart := 2\<rparr>" "[]"] r(2) by auto
qed

lemma all_pinned:
  assumes inv: "cache_inv p [] D s" and D: "card D = NBUF" and b: "b < NBUF"
  shows "b_dev (bufs s b) = ROOTDEV \<and> b_blockno (bufs s b) \<in> D"
proof -
  let ?Q = "{b. b < NBUF \<and> b_dev (bufs s b) = ROOTDEV \<and> b_blockno (bufs s b) \<in> D}"
  have fin: "finite ?Q" by simp
  have "D \<subseteq> (\<lambda>b. b_blockno (bufs s b)) ` ?Q"
  proof
    fix no assume no: "no \<in> D"
    then obtain c where "cached s no c" using cache_invD(9) [OF inv] by blast
    then show "no \<in> (\<lambda>b. b_blockno (bufs s b)) ` ?Q" using no by (auto simp: cached_def)
  qed
  then have "card D \<le> card ((\<lambda>b. b_blockno (bufs s b)) ` ?Q)" using fin by (intro card_mono) auto
  also have "\<dots> \<le> card ?Q" by (rule card_image_le [OF fin])
  finally have "card {..<NBUF} \<le> card ?Q" using D by simp
  then have "?Q = {..<NBUF}" by (intro card_seteq) auto
  then show ?thesis using b by blast
qed

lemma write_log_full:
  assumes inv: "cache_inv p [] (set (logged (lg s))) s" and ok: "log_ok (lg s)" and n: "l_n (lg s) = int NBUF"
  shows "write_log s = Panic ''bget: no buffers''"
proof -
  note o = log_okD [OF ok]
  have full: "b_dev (bufs s b) = ROOTDEV \<and> b_blockno (bufs s b) \<in> set (logged (lg s))" if "b < NBUF" for b
    using all_pinned [OF inv _ that] o(9) n by simp
  have "b_refcnt (bufs s b) \<noteq> 0" if "b < NBUF" for b
    using full [OF that] cache_invD(7) [OF inv that] by (auto simp: buf_ok_def)
  moreover have "\<not> cached s (l_start (lg s) + 1) b" for b
    using full [of b] o(8) log_block_area(1) [of 0 "l_start (lg s)"]
    by (auto simp: cached_def log_block_def const_defs)
  ultimately have g: "bget ROOTDEV (l_start (lg s) + 1) s = Panic ''bget: no buffers''"
    by (intro bget_full [OF inv])
  have "write_log_block 0 s = Panic ''bget: no buffers''"
    by (simp add: write_log_block_def bread_def o(1) bnd_def gets_def g)
  moreover have "[0..<nat (l_n (lg s))] = 0 # [Suc 0..<NBUF]" using n by (simp add: const_defs upt_rec)
  ultimately show ?thesis using o(5) by (simp add: write_log_def) (simp add: seq_def bnd_def)
qed

text \<open>
  Property C40. The log and the buffer cache have the same number of entries. When a group of transactions fills the log,
  all buffers are pinned, and the commit finds none for the first block of the log: the kernel panics.
\<close>

theorem full_log_panics:
  assumes "log_inv p [] s" "l_outstanding (lg s) = 1" "\<not> l_committing (lg s)" "l_n (lg s) = int NBUF"
  shows "end_op s = Panic ''bget: no buffers''"
proof -
  define l1 where "l1 = (lg s)\<lparr>l_outstanding := 0, l_committing := True\<rparr>"
  let ?s1 = "upd_log (\<lambda>_. l1) s"
  have h: "held s = []" using assms(1) by (simp add: log_inv_def cache_inv_def)
  have hs: "s\<lparr>lg := a, held := []\<rparr> = s\<lparr>lg := a\<rparr>" for a by (rule kstate.equality) (simp_all add: h)
  have l1: "logged l1 = logged (lg s)" "log_ok l1" "l_n l1 = int NBUF"
    using assms by (simp_all add: l1_def logged_def log_ok_def log_inv_def)
  have "write_log ?s1 = Panic ''bget: no buffers''"
    by (rule write_log_full [of p]) (use l1 assms(1) in \<open>simp_all add: log_inv_def\<close>)
  then have "commit ?s1 = Panic ''bget: no buffers''"
    using l1(3) by (simp add: commit_def const_defs) (simp add: seq_def bnd_def)
  then show ?thesis
    using h assms(2,3) by (simp add: end_op_def upd_log_def l1_def hs) (simp add: seq_def bnd_def)
qed

theorem full_log_panics_witness: "end_op (ex_log 30) = Panic ''bget: no buffers''"
  by (rule full_log_panics [of 0]) (simp_all add: ex_log_inv, simp_all add: ex_log_def const_defs)

end
