(* ===== verification/Xv6_Swapio.thy ===== *)
theory Xv6_Swapio
  imports Xv6_Inode Xv6_Crash Xv6_Copy
begin

text \<open>
  Swapping: a page written to the swap file by page replacement and read back by a page fault.
\<close>

section \<open>Writing a page out\<close>

text \<open>The swap file is open and unlocked, in a transaction with room for a page.\<close>

definition swap_ready :: "nat \<Rightarrow> u32 set \<Rightarrow> nat \<Rightarrow> kstate \<Rightarrow> bool" where
  "swap_ready p M ip s \<longleftrightarrow> file_tx p M ip s \<and> inode_home M ip s \<and> 8 \<le> free_blocks s \<and> l_n (lg s) \<le> 4 \<and>
     p_swap_inode (procs s p) = Some ip \<and> 1 \<le> i_ref (itable s ip) \<and> i_valid (itable s ip) \<and> \<not> sl_locked (i_lock (itable s ip))"

text \<open>What the file system does not look at.\<close>

lemma log_inv_other:
  assumes "log_inv p L s" "bufs t = bufs s" "lg t = lg s" "disk t = disk s" "curproc t = curproc s" "held t = held s"
    "p_pid (procs t p) = p_pid (procs s p)"
  shows "log_inv p L t" "content t = content s"
proof -
  have "cached t = cached s" using assms(2) by (simp add: cached_def [abs_def])
  then show "log_inv p L t" "content t = content s"
    using assms by (simp_all add: log_inv_def cache_inv_def content_def [abs_def] cong: list.case_cong)
qed

lemma file_other:
  assumes c: "content t = content s" "lg t = lg s" "sblk t = sblk s" "itable t ip = (itable s ip)\<lparr>i_lock := l\<rparr>"
  shows "fmapped t ip = fmapped s ip" "fdata t ip = fdata s ip" "fbyte t ip = fbyte s ip" "frange t ip = frange s ip"
    "free_blocks t = free_blocks s" "inode_home M ip t = inode_home M ip s"
    "file_tx p M ip s \<Longrightarrow> log_inv p [] t \<Longrightarrow> file_tx p M ip t"
proof -
  have b: "baddr c (x\<lparr>i_lock := l\<rparr>) = baddr c x" for c x by (simp add: baddr_def fun_eq_iff)
  show "fmapped t ip = fmapped s ip" using c by (simp add: fmapped_def b)
  show f: "fdata t ip = fdata s ip" using c by (simp add: fdata_def [abs_def] fblock_def [abs_def] b cong: if_cong)
  then show "fbyte t ip = fbyte s ip" by (simp add: fbyte_def [abs_def])
  then show "frange t ip = frange s ip" by (simp add: frange_def [abs_def])
  show "free_blocks t = free_blocks s" "inode_home M ip t = inode_home M ip s"
    using c by (simp_all add: free_blocks_def inode_home_def)
  have "file_ok M sb c (x\<lparr>i_lock := l\<rparr>) = file_ok M sb c x" for sb c x unfolding file_ok_def b by simp
  then show "file_tx p M ip s \<Longrightarrow> log_inv p [] t \<Longrightarrow> file_tx p M ip t" using c by (simp add: file_tx_def tx_def)
qed

lemma txstep_procs:
  assumes "txstep s t k"
  shows "\<exists>st ch. procs t q = (procs s q)\<lparr>p_state := st, p_chan := ch\<rparr>" "sym_end t = sym_end s"
  using assms unfolding txstep_def by (elim exE conjE, simp)+

lemma txstep_view:
  assumes "txstep s t k"
  shows "pg_view t = pg_view s" "p_pid (procs t q) = p_pid (procs s q)" "p_swap_slots (procs t q) = p_swap_slots (procs s q)"
    "p_swap_inode (procs t q) = p_swap_inode (procs s q)" "p_killed (procs t q) = p_killed (procs s q)"
    "p_fifo_seq_num (procs t q) = p_fifo_seq_num (procs s q)" "p_pagetable (procs t q) = p_pagetable (procs s q)"
proof -
  have pv: "proc_vm (procs t q) = proc_vm (procs s q)" for q using txstep_procs(1) [OF assms, of q] by (auto simp: proc_vm_def)
  show "pg_view t = pg_view s" using txstep_fields [OF assms] txstep_procs(2) [OF assms] pv by (simp add: pg_view_def)
  obtain st ch where "procs t q = (procs s q)\<lparr>p_state := st, p_chan := ch\<rparr>" using txstep_procs(1) [OF assms] by blast
  then show "p_pid (procs t q) = p_pid (procs s q)" "p_swap_slots (procs t q) = p_swap_slots (procs s q)"
    "p_swap_inode (procs t q) = p_swap_inode (procs s q)" "p_killed (procs t q) = p_killed (procs s q)"
    "p_fifo_seq_num (procs t q) = p_fifo_seq_num (procs s q)" "p_pagetable (procs t q) = p_pagetable (procs s q)"
    by simp_all
qed

lemma file_step_view:
  assumes "file_step ip s t k f"
  shows "pg_view t = pg_view s" "p_pid (procs t q) = p_pid (procs s q)" "p_swap_slots (procs t q) = p_swap_slots (procs s q)"
    "p_swap_inode (procs t q) = p_swap_inode (procs s q)" "i_lock (itable t ip) = i_lock (itable s ip)"
    "i_ref (itable t ip) = i_ref (itable s ip)" "i_valid (itable t ip) = i_valid (itable s ip)"
proof -
  obtain a z where x: "txstep (s\<lparr>itable := (itable s)(ip := (itable s ip)\<lparr>i_addrs := a, i_size := z\<rparr>)\<rparr>) t k"
    using assms by (auto simp: file_step_def)
  show "pg_view t = pg_view s" using txstep_view(1) [OF x] by (simp add: pg_view_def)
  show "p_pid (procs t q) = p_pid (procs s q)" "p_swap_slots (procs t q) = p_swap_slots (procs s q)"
    "p_swap_inode (procs t q) = p_swap_inode (procs s q)"
    using txstep_view(2-4) [OF x, of q] by simp_all
  show "i_lock (itable t ip) = i_lock (itable s ip)" "i_ref (itable t ip) = i_ref (itable s ip)"
    "i_valid (itable t ip) = i_valid (itable s ip)"
    using txstep_fields(1) [OF x] by simp_all
qed

definition swapped_pte :: "nat \<Rightarrow> u64 \<Rightarrow> u64" where
  "swapped_pte slot e = SLOT_PTE (of_nat slot) OR (e AND (PTE_R OR PTE_W OR PTE_X OR PTE_U)) OR PTE_S"

lemma slot_offset:
  assumes "slot < 67"
  shows "unat (word_of_int (int slot) * 4096 :: u32) = slot * 4096"
  using assms by (simp add: unat_word_ariths unat_of_nat)

text \<open>The state after the page's bytes are in the file, before its entry changes.\<close>

definition paged_out :: "nat \<Rightarrow> u32 set \<Rightarrow> nat \<Rightarrow> nat \<Rightarrow> u64 \<Rightarrow> kstate \<Rightarrow> kstate \<Rightarrow> bool" where
  "paged_out p M ip slot pa s t \<longleftrightarrow> file_tx p M ip t \<and> pg_view t = pg_view s \<and> held t = [] \<and> curproc t = Some p \<and>
     l_n (lg t) \<le> l_n (lg s) + 25 \<and> i_size (itable t ip) = max (i_size (itable s ip)) (of_nat (slot * 4096 + 4096)) \<and>
     frange t ip (slot * 4096) 4096 = load_bytes (mem s) pa 4096 \<and>
     (\<forall>k<MAXFILE * BSIZE. k < slot * 4096 \<or> slot * 4096 + 4096 \<le> k \<longrightarrow> fbyte t ip k = fbyte s ip k) \<and>
     (\<forall>k. slot * 4096 \<le> k \<and> k < slot * 4096 + 4096 \<longrightarrow> k div BSIZE \<in> fmapped t ip) \<and>
     1 \<le> i_ref (itable t ip) \<and> i_valid (itable t ip) \<and> \<not> sl_locked (i_lock (itable t ip)) \<and>
     p_swap_inode (procs t p) = Some ip \<and> p_swap_slots (procs t p) = p_swap_slots (procs s p) \<and> p_pid (procs t p) = p_pid (procs s p)"

lemma swap_out_run:
  assumes r: "swap_ready p M ip u" and slot: "slot < 67" "slot * 4096 \<le> unat (i_size (itable u ip))"
    and fr: "ram_page (sym_end u) (PTE2PA e)"
  obtains v where "swap_out p va sq pte e (int slot) u = Ok () (replaced pte (swapped_pte slot e) (PTE2PA e) v)"
    "paged_out p M ip slot (PTE2PA e) u v"
proof -
  let ?pid = "p_pid (procs u p)" and ?off = "word_of_int (int slot) * 4096 :: u32"
  note rd = r [unfolded swap_ready_def]
  have li: "log_inv p [] u" using rd by (simp add: file_tx_def tx_def)
  have cu: "curproc u = Some p" "held u = []" using li by (auto simp: log_inv_def cache_inv_def)
  define u1 where "u1 = u\<lparr>klog := klog u @ [EVICT ?pid va True, SWAPOUT ?pid va slot]\<rparr>"
  define u2 where "u2 = upd_inode ip (\<lambda>x. x\<lparr>i_lock := \<lparr>sl_locked = True, sl_pid = ?pid\<rparr>\<rparr>) u1"
  have l: "ilock ip u1 = Ok () u2" using ilock_run [of u1 ip p] rd cu by (simp add: u1_def u2_def)
  have o2: "log_inv p [] u2" "content u2 = content u"
    by (rule log_inv_other [OF li]; simp add: u1_def u2_def upd_inode_def)+
  have f2: "lg u2 = lg u" "sblk u2 = sblk u" "itable u2 ip = (itable u ip)\<lparr>i_lock := \<lparr>sl_locked = True, sl_pid = ?pid\<rparr>\<rparr>"
    "mem u2 = mem u" "pg_view u2 = pg_view u" "procs u2 = procs u" "curproc u2 = Some p"
    using cu by (simp_all add: u1_def u2_def upd_inode_def pg_view_def)
  note v2 = file_other [OF o2(2) f2(1-3)]
  have ft2: "file_tx p M ip u2" using v2(7) rd o2(1) by blast
  note so = slot_offset [OF slot(1)]
  obtain u3 where u3: "writei (from_kernel (PTE2PA e)) ip ?off 4096 u2 = Ok (int (unat (4096 :: u32))) u3" "file_tx p M ip u3"
    "file_step ip u2 u3 (6 * 4 + 1) (2 * 4)" "i_size (itable u3 ip) = max (i_size (itable u2 ip)) (?off + 4096)"
    "\<And>k. k < MAXFILE * BSIZE \<Longrightarrow> fbyte u3 ip k = (if unat ?off \<le> k \<and> k < unat ?off + unat (4096 :: u32)
       then mem u2 (PTE2PA e + of_nat (k - unat ?off)) else fbyte u2 ip k)"
    "\<And>k. unat ?off \<le> k \<Longrightarrow> k < unat ?off + unat (4096 :: u32) \<Longrightarrow> k div BSIZE \<in> fmapped u3 ip"
  proof (rule writei_run [OF ft2])
    show "inode_home M ip u2" using v2(6) rd by blast
    show "?off \<le> i_size (itable u2 ip)" using slot(2) f2(3) so by (simp add: word_le_nat_alt)
    show "unat ?off mod BSIZE + unat (4096 :: u32) \<le> 4 * BSIZE" using so by (simp add: const_defs)
    show "2 * 4 \<le> free_blocks u2" using v2(5) rd by simp
    show "l_n (lg u2) + 6 * int 4 < int NBUF" using f2(1) rd by (simp add: const_defs)
    show "unat ?off + unat (4096 :: u32) \<le> MAXFILE * BSIZE" using so slot(1) by (simp add: const_defs)
  qed blast
  note f3 = file_step_fields [OF u3(3)] and v3 = file_step_view [OF u3(3)]
  define v where "v = (upd_inode ip (\<lambda>x. x\<lparr>i_lock := \<lparr>sl_locked = False, sl_pid = 0\<rparr>\<rparr>) u3)
    \<lparr>procs := wake (ChInodeLock ip) (Some p) NPROC (procs u3)\<rparr>"
  have un: "iunlock ip u3 = Ok () v"
    using iunlock_run [of u3 ip p] rd f2 f3(1,2) v3 cu by (simp add: v_def u2_def u1_def upd_inode_def)
  have li3: "log_inv p [] u3" using u3(2) by (simp add: file_tx_def tx_def)
  have ov: "log_inv p [] v" "content v = content u3"
    by (rule log_inv_other [OF li3]; simp add: v_def upd_inode_def)+
  have fv: "lg v = lg u3" "sblk v = sblk u3" "itable v ip = (itable u3 ip)\<lparr>i_lock := \<lparr>sl_locked = False, sl_pid = 0\<rparr>\<rparr>" "mem v = mem u3"
    by (simp_all add: v_def upd_inode_def)
  note vv = file_other [OF ov(2) fv(1-3)]
  have pg: "pg_view v = pg_view u" using v3(1) f2(5) by (auto simp: v_def upd_inode_def pg_view_def fun_eq_iff)
  have hv: "held v = []" "curproc v = Some p" using ov(1) by (auto simp: log_inv_def cache_inv_def)
  have mv: "mem v = mem u" "sym_end v = sym_end u" using pg by (simp_all add: pg_view_def)
  have "kfree (PTE2PA e) (v\<lparr>mem := write64 (mem v) pte (swapped_pte slot e)\<rparr>) = Ok () (replaced pte (swapped_pte slot e) (PTE2PA e) v)"
    using kfree_run [of "v\<lparr>mem := write64 (mem v) pte (swapped_pte slot e)\<rparr>" "PTE2PA e"] fr mv hv
    by (simp add: replaced_def freed_def)
  moreover have "SLOT_PTE (word_of_int (int slot)) OR (e AND (PTE_R OR PTE_W OR PTE_X OR PTE_U)) OR PTE_S = swapped_pte slot e"
    by (simp add: swapped_pte_def)
  ultimately have run: "swap_out p va sq pte e (int slot) u = Ok () (replaced pte (swapped_pte slot e) (PTE2PA e) v)"
    using rd l u3(1) un by (simp add: swap_out_def open_swap_def seq_Ok bnd_Ok u1_def)
  have off: "unat ?off = slot * 4096" "unat ?off + unat (4096 :: u32) = slot * 4096 + 4096" "?off + 4096 = of_nat (slot * 4096 + 4096)"
    using so by simp_all
  have lim: "slot * 4096 + 4096 \<le> MAXFILE * BSIZE" using slot(1) by (simp add: const_defs)
  have fb: "fbyte v ip k = (if slot * 4096 \<le> k \<and> k < slot * 4096 + 4096 then mem u (PTE2PA e + of_nat (k - slot * 4096)) else fbyte u ip k)"
    if "k < MAXFILE * BSIZE" for k
    using u3(5) [OF that] vv(3) v2(3) f2(4) unfolding off by simp
  have "frange v ip (slot * 4096) 4096 = load_bytes (mem u) (PTE2PA e) 4096"
    by (rule nth_equalityI) (use fb lim in \<open>auto simp: frange_def\<close>)
  moreover have "k div BSIZE \<in> fmapped v ip" if "slot * 4096 \<le> k" "k < slot * 4096 + 4096" for k
    using u3(6) [of k] vv(1) that unfolding off by simp
  moreover have "i_size (itable v ip) = max (i_size (itable u ip)) (of_nat (slot * 4096 + 4096))"
    using u3(4) fv(3) f2(3) unfolding off(3) by simp
  ultimately have "paged_out p M ip slot (PTE2PA e) u v"
    using vv(7) [OF u3(2) ov(1)] pg hv f3(8) fv f2 v3 fb rd unfolding paged_out_def
    by (auto simp: v_def)
  then show thesis using that run by blast
qed

text \<open>Page replacement of a page that must be swapped.\<close>

lemma swap_ready_other:
  assumes r: "swap_ready p M ip s" and t: "bufs t = bufs s" "lg t = lg s" "disk t = disk s" "curproc t = curproc s" "held t = held s"
    "p_pid (procs t p) = p_pid (procs s p)" "sblk t = sblk s" "itable t = itable s" "p_swap_inode (procs t p) = p_swap_inode (procs s p)"
  shows "swap_ready p M ip t" "fbyte t ip = fbyte s ip"
proof -
  have li: "log_inv p [] s" using r by (simp add: swap_ready_def file_tx_def tx_def)
  note lo = log_inv_other [OF li t(1-6)]
  note fo = file_other [OF lo(2) t(2,7), of ip "i_lock (itable s ip)"]
  show "swap_ready p M ip t" "fbyte t ip = fbyte s ip"
    using r t fo(3) fo(5) fo(6) [of M] fo(7) [of p M] lo(1) by (auto simp: swap_ready_def)
qed

lemma evict_swaps:
  fixes s p
  defines "root \<equiv> p_pagetable (procs s p)"
  assumes inv: "vm_inv s p ((n, va, sq) # xs) ps" and r: "swap_ready p M ip s"
    and dirty: "pte_of (mem s) root va AND PTE_D \<noteq> 0 \<or> p_exe_end (procs s p) \<le> va"
    and sl: "slot_alloc (p_swap_slots (procs s p)) = Some (sl, slot)"
    and slot: "slot < 67" "slot * 4096 \<le> unat (i_size (itable s ip))"
  obtains t where "do_page_replacement p s = Ok 1 t" "vm_inv t p xs (n # frame_of s p va # ps)"
    "pte_of (mem t) root va = swapped_pte slot (pte_of (mem s) root va)" "p_pagetable (procs t p) = root"
    "\<And>va'. va' < MAXVA \<Longrightarrow> PGROUNDDOWN va' \<noteq> va \<Longrightarrow> pte_of (mem t) root va' = pte_of (mem s) root va'"
    "file_tx p M ip t" "l_n (lg t) \<le> l_n (lg s) + 25"
    "frange t ip (slot * 4096) 4096 = load_bytes (mem s) (frame_of s p va) 4096"
    "\<And>k. k < MAXFILE * BSIZE \<Longrightarrow> k < slot * 4096 \<or> slot * 4096 + 4096 \<le> k \<Longrightarrow> fbyte t ip k = fbyte s ip k"
    "\<And>k. slot * 4096 \<le> k \<Longrightarrow> k < slot * 4096 + 4096 \<Longrightarrow> k div BSIZE \<in> fmapped t ip"
    "i_size (itable t ip) = max (i_size (itable s ip)) (of_nat (slot * 4096 + 4096))"
    "1 \<le> i_ref (itable t ip) \<and> i_valid (itable t ip) \<and> \<not> sl_locked (i_lock (itable t ip))"
    "p_swap_inode (procs t p) = Some ip" "p_swap_slots (procs t p) = sl"
proof -
  let ?q = "procs s p" let ?e = "pte_of (mem s) root va" let ?fr = "frame_of s p va"
  note h = vm_inv_head [OF inv]
  have hs: "held s = []" "curproc s = Some p"
    using r by (auto simp: swap_ready_def file_tx_def tx_def log_inv_def cache_inv_def)
  obtain a where lf: "leaf (mem s) root va = Some a" using pte_valid_leaf [OF h(11)] by (auto simp: root_def)
  define v0 where "v0 = (unlinked p (read64 (mem s) (rp_next n)) s)\<lparr>klog := klog s @ [VICTIM (p_pid ?q) va sq]\<rparr>"
  define u where "u = upd_proc p (\<lambda>q. q\<lparr>p_swap_slots := sl\<rparr>) v0"
  have u: "swap_ready p M ip u" "fbyte u ip = fbyte s ip"
    by (rule swap_ready_other [OF r]; simp add: u_def v0_def unlinked_def upd_proc_def)+
  have uf: "itable u = itable s" "lg u = lg s" "mem u = mem s" "sym_end u = sym_end s" "p_swap_slots (procs u p) = sl"
    by (simp_all add: u_def v0_def unlinked_def upd_proc_def)
  have fr: "PTE2PA ?e = ?fr" by (simp add: frame_of_def root_def)
  have ram: "ram_page (sym_end u) (PTE2PA ?e)" using h(10) fr uf by simp
  have sz: "slot * 4096 \<le> unat (i_size (itable u ip))" using slot uf by simp
  obtain v where v: "swap_out p va sq a ?e (int slot) u = Ok () (replaced a (swapped_pte slot ?e) (PTE2PA ?e) v)"
    "paged_out p M ip slot (PTE2PA ?e) u v"
    by (rule swap_out_run [OF u(1) slot(1) sz ram])
  note po = v(2) [unfolded paged_out_def fr]
  let ?w = "replaced a (swapped_pte slot ?e) ?fr v"
  have pgv: "pg_view v = pg_view u" using po by simp
  have wf: "held ?w = []" "sym_end ?w = sym_end s" "mem v = mem s" "freelist v = freelist s"
    using po pgv uf by (auto simp: replaced_def freed_def pg_view_def u_def v0_def unlinked_def upd_proc_def)
  have k: "kfree n ?w = Ok () (freed n ?w)" using kfree_run [of ?w n] h(7) wf by (simp add: freed_def)
  have "do_page_replacement p s = seq (swap_out p va sq a ?e (int slot)) (seq (kfree n) (ret 1)) u"
    using dirty sl hs
    by (auto simp: do_page_replacement_step [OF inv _ lf [unfolded root_def]] evict_page_def bnd_swap_slot_alloc u_def v0_def
        unlinked_def upd_proc_def root_def)
  then have run: "do_page_replacement p s = Ok 1 (freed n ?w)" using v(1) k by (simp add: seq_Ok fr)
  let ?t = "freed n ?w"
  have t: "content ?t = content v" "lg ?t = lg v" "sblk ?t = sblk v" "itable ?t ip = (itable v ip)\<lparr>i_lock := i_lock (itable v ip)\<rparr>"
    "log_inv p [] ?t" "itable ?t = itable v" "procs ?t = procs v"
  proof -
    have lv: "log_inv p [] v" using po by (simp add: file_tx_def tx_def)
    show "content ?t = content v" "log_inv p [] ?t" by (rule log_inv_other [OF lv]; simp add: freed_def replaced_def)+
  qed (simp_all add: freed_def replaced_def)
  note tv = file_other [OF t(1-4)]
  have pv: "proc_vm (procs v p) = proc_vm (procs u p)" using pgv by (auto simp: pg_view_def dest: fun_cong [where x = p])
  note pf = proc_vm_fields [OF pv]
  have tm: "mem ?t = mem (freed n (replaced a (swapped_pte slot ?e) ?fr s))" "freelist ?t = n" "sym_end ?t = sym_end s"
    using wf by (simp_all add: freed_def replaced_def)
  have tp: "p_pagetable (procs ?t p) = p_pagetable ?q" "p_resident_set_head (procs ?t p) = read64 (mem s) (rp_next n)"
    "p_resident_set_tail (procs ?t p) = tail_of xs"
    using pf unlinked_fields [OF inv] t(7) by (simp_all add: u_def v0_def upd_proc_def unlinked_def)
  note ev = vm_inv_evict [OF inv lf [unfolded root_def] tm tp, folded root_def]
  show thesis
  proof (rule that [OF run ev(1-2) _ ev(3)])
    show "file_tx p M ip ?t" using tv(7) po t(5) by blast
    show "l_n (lg ?t) \<le> l_n (lg s) + 25" using po t(2) uf by simp
    show "frange ?t ip (slot * 4096) 4096 = load_bytes (mem s) ?fr 4096" using po tv(4) uf by simp
    show "fbyte ?t ip k = fbyte s ip k" if "k < MAXFILE * BSIZE" "k < slot * 4096 \<or> slot * 4096 + 4096 \<le> k" for k
      using po tv(3) u(2) that by auto
    show "k div BSIZE \<in> fmapped ?t ip" if "slot * 4096 \<le> k" "k < slot * 4096 + 4096" for k using po tv(1) that by simp
  qed (use po t(6,7) tp uf in \<open>auto simp: root_def\<close>)
qed

section \<open>Reading a page in\<close>

lemma spare_frame:
  assumes sp: "spare s p xs ps pa" and mem: "same_except {pa} (mem s) (mem t)"
    and t: "freelist t = freelist s" "sym_end t = sym_end s" "proc_vm (procs t p) = proc_vm (procs s p)"
  shows "spare t p xs ps pa" "pte_of (mem t) (p_pagetable (procs s p)) va = pte_of (mem s) (p_pagetable (procs s p)) va"
proof -
  note f = proc_vm_fields [OF t(3)]
  have inv: "vm_inv s p xs ps" "{pa} \<inter> (set (ps @ nodes xs) \<union> tables (mem s) (p_pagetable (procs s p))) = {}"
    using sp by (auto simp: spare_def)
  note v = vm_inv_frame [OF inv(1) mem inv(2) t(1,2)]
  show "spare t p xs ps pa" using sp v f t by (simp add: spare_def)
  show "pte_of (mem t) (p_pagetable (procs s p)) va = pte_of (mem s) (p_pagetable (procs s p)) va" using v(4) f by simp
qed

lemma spare_write_leaf:
  assumes sp: "spare s p xs ps pa" and lf: "leaf (mem s) (p_pagetable (procs s p)) va = Some a"
    and va: "va < MAXVA" "page_aligned va" and inval: "\<not> pte_valid (pte_of (mem s) (p_pagetable (procs s p)) va)"
  shows "spare (s\<lparr>mem := write64 (mem s) a e\<rparr>) p xs ps pa"
proof -
  let ?root = "p_pagetable (procs s p)" let ?t = "s\<lparr>mem := write64 (mem s) a e\<rparr>"
  have inv: "vm_inv s p xs ps" using sp by (simp add: spare_def)
  have wf: "pt_wf (mem s) ?root" using inv by (simp add: vm_inv_def)
  have out: "v \<noteq> PGROUNDDOWN va" if "(n, v, sq) \<in> set xs" for n v sq
    using inv inval va that by (auto simp: vm_inv_def)
  then have "vm_inv ?t p xs ps" by (intro vm_inv_write_leaf [OF inv lf va(1)]) auto
  moreover have "pte_of (mem ?t) ?root v = pte_of (mem s) ?root v" if "(n, v, sq) \<in> set xs" for n v sq
    using pte_of_write_leaf [OF wf lf va(1), of v e] out [OF that] inv that by (fastforce simp: vm_inv_def)
  then have "frames ?t p xs = frames s p xs" by (auto simp: frames_def frame_of_def)
  ultimately show ?thesis using sp write_leaf(2) [OF wf lf] by (simp add: spare_def)
qed

text \<open>The page comes back: the result of a fault on a swapped-out page.\<close>

lemma ucast_slot:
  assumes "slot < 67"
  shows "(ucast (scast (ucast (of_nat slot :: u64) :: c_int) * PGSIZE :: u64) :: u32) = of_nat (slot * 4096)"
    "sint (ucast (of_nat slot :: u64) :: c_int) = int slot"
proof -
  have 1: "(ucast (of_nat slot :: u64) :: c_int) = of_nat slot"
    using assms by (simp add: unsigned_of_nat take_bit_nat_eq_self)
  show 2: "sint (ucast (of_nat slot :: u64) :: c_int) = int slot"
    unfolding 1 using assms by (simp add: signed_of_nat signed_take_bit_int_eq_self)
  have "(scast (ucast (of_nat slot :: u64) :: c_int) :: u64) = of_nat slot"
    using 2 by (metis of_int_of_nat_eq of_int_sint)
  then have "(scast (ucast (of_nat slot :: u64) :: c_int) * PGSIZE :: u64) = of_nat (slot * 4096)" by (simp add: PGSIZE_def)
  moreover have "(ucast (of_nat (slot * 4096) :: u64) :: u32) = of_nat (slot * 4096)"
    using assms by (simp add: unsigned_of_nat take_bit_nat_eq_self del: of_nat_mult)
  ultimately show "(ucast (scast (ucast (of_nat slot :: u64) :: c_int) * PGSIZE :: u64) :: u32) = of_nat (slot * 4096)" by simp
qed

definition swap_perms :: "u64 \<Rightarrow> u64" where
  "swap_perms e = e AND (PTE_R OR PTE_W OR PTE_X OR PTE_U)"

lemma swap_perms_small: "swap_perms e < 2 ^ 10"
  unfolding swap_perms_def by (rule le_less_trans [OF word_and_le1]) (simp add: PTE_R_def PTE_W_def PTE_X_def PTE_U_def)

lemma page_in_tail:
  assumes "page_in_done p va what u = Ok () t"
  shows "\<exists>k. bnd (gets (\<lambda>s. p_fifo_seq_num (procs s p))) (\<lambda>sq. seq (add_to_resident_set p va sq) (
    bnd (gets (\<lambda>s. procs s p)) (\<lambda>q. seq (printk (RESIDENT (p_pid q) va (p_fifo_seq_num q))) (
    modify (upd_proc p (\<lambda>q. q\<lparr>p_fifo_seq_num := p_fifo_seq_num q + 1\<rparr>)))))) u = Ok () (t\<lparr>klog := k\<rparr>)"
proof -
  obtain t0 where t0: "add_to_resident_set p va (p_fifo_seq_num (procs u p)) u = Ok () t0"
    using assms by (auto simp: page_in_done_def elim!: seq_OkE)
  from page_in_done_run [OF this, of what] have "t = advanced p va what t0" using assms by simp
  then show ?thesis
    using t0 by (intro exI [of _ "klog t0 @ [RESIDENT (p_pid (procs t0 p)) va (p_fifo_seq_num (procs t0 p))]"])
      (simp add: seq_Ok advanced_def upd_proc_def)
qed

lemma swap_in_run:
  fixes s p va
  defines "root \<equiv> p_pagetable (procs s p)" and "e \<equiv> pte_of (mem s) (p_pagetable (procs s p)) va"
  assumes inv: "vm_inv s p xs (f # ps)" "3 \<le> length ps" and li: "log_inv p [] s" "l_n (lg s) < int NBUF"
    and va: "page_aligned va" "va < MAXVA" and lf: "leaf (mem s) root va = Some a" and e: "\<not> pte_valid e" "PTE_SLOT e = of_nat slot" "slot < 67"
    and ip: "p_swap_inode (procs s p) = Some ip" "1 \<le> i_ref (itable s ip) \<and> i_valid (itable s ip) \<and> \<not> sl_locked (i_lock (itable s ip))"
      "i_dev (itable s ip) = ROOTDEV" "slot * 4096 + 4096 \<le> unat (i_size (itable s ip))"
      "\<And>k. slot * 4096 \<le> k \<Longrightarrow> k < slot * 4096 + 4096 \<Longrightarrow> k div BSIZE \<in> fmapped s ip"
  obtains t n ps' where "swap_in p va a acc s = Ok () t" "vm_inv t p (xs @ [(n, va, p_fifo_seq_num (procs s p))]) ps'"
    "\<And>va'. va' < MAXVA \<Longrightarrow> pte_of (mem t) root va' =
      (if PGROUNDDOWN va' = va then PA2PTE f OR (swap_perms e OR PTE_V) OR PTE_V else pte_of (mem s) root va')"
    "load_bytes (mem t) f 4096 = frange s ip (slot * 4096) 4096" "p_killed (procs t p) = p_killed (procs s p)"
    "p_swap_slots (procs t p) = slot_free (int slot) (p_swap_slots (procs s p))"
proof -
  let ?pid = "p_pid (procs s p)"
  have hs: "held s = []" "curproc s = Some p" using li(1) by (auto simp: log_inv_def cache_inv_def)
  define s1 where "s1 = s\<lparr>klog := klog s @ [PAGEFAULT ?pid va acc Cswap, SWAPIN ?pid va (scast (ucast (PTE_SLOT e) :: c_int))]\<rparr>"
  have inv1: "vm_inv s1 p xs (f # ps)" using inv(1) by (simp add: s1_def vm_inv_printk)
  define s2 where "s2 = allocated f s1"
  have ka: "kalloc s1 = Ok f s2"
    unfolding s2_def by (rule kalloc_run) (use inv1 hs in \<open>auto simp: vm_inv_def s1_def\<close>)
  have f0: "f \<noteq> 0" using inv(1) by (auto simp: vm_inv_def free_pages_def)
  define s3 where "s3 = upd_inode ip (\<lambda>x. x\<lparr>i_lock := \<lparr>sl_locked = True, sl_pid = ?pid\<rparr>\<rparr>) s2"
  have il: "ilock ip s2 = Ok () s3" using ilock_run [of s2 ip p] ip hs by (simp add: s3_def s2_def s1_def allocated_def)
  have f3: "lg s3 = lg s" "sblk s3 = sblk s" "itable s3 ip = (itable s ip)\<lparr>i_lock := \<lparr>sl_locked = True, sl_pid = ?pid\<rparr>\<rparr>"
    "procs s3 = procs s" "held s3 = []" "curproc s3 = Some p" "mem s3 = mem s2" "freelist s3 = freelist s2" "sym_end s3 = sym_end s"
    using hs by (simp_all add: s3_def s2_def s1_def allocated_def upd_inode_def)
  have l3: "log_inv p [] s3" "content s3 = content s"
    by (rule log_inv_other [OF li(1)]; simp add: s3_def s2_def s1_def allocated_def upd_inode_def)+
  note v3 = file_other [OF l3(2) f3(1-3)]
  define off where "off = (of_nat (slot * 4096) :: u32)"
  have uo: "unat off = slot * 4096" unfolding off_def by (rule unat_of_nat32) (use e(3) in simp)
  obtain s4 where s4: "readi (to_kernel f) () ip off 4096 s3 = Ok (int (unat (4096 :: u32)), ()) s4" "log_inv p [] s4"
    "mem s4 = store_bytes (mem s3) f (frange s3 ip (unat off) (unat (4096 :: u32)))" "txstep (s3\<lparr>mem := mem s4\<rparr>) s4 0"
    by (rule readi_run [OF l3(1), of ip off 4096 f])
      (use f3(1,3) ip li(2) v3(1) e(3) in \<open>simp_all add: uo const_defs\<close>)
  let ?bs = "frange s ip (slot * 4096) 4096"
  have m4: "mem s4 = store_bytes (mem s2) f ?bs" using s4(3) v3(4) f3(7) by (simp add: uo)
  note f4 = txstep_fields [OF s4(4)] and v4 = txstep_view [OF s4(4)]
  define s5 where "s5 = (upd_inode ip (\<lambda>x. x\<lparr>i_lock := \<lparr>sl_locked = False, sl_pid = 0\<rparr>\<rparr>) s4)
    \<lparr>procs := wake (ChInodeLock ip) (Some p) NPROC (procs s4)\<rparr>"
  have iu: "iunlock ip s4 = Ok () s5"
    using iunlock_run [of s4 ip p] ip f3 f4 v4(2) [of p] by (simp add: s5_def)
  define s6 where "s6 = upd_proc p (\<lambda>q. q\<lparr>p_swap_slots := slot_free (int slot) (p_swap_slots q)\<rparr>) s5"
  have pv: "proc_vm (procs s4 p) = proc_vm (procs s p)" using v4(1) f3(4) by (auto simp: pg_view_def dest: fun_cong [where x = p])
  have s6: "mem s6 = store_bytes (mem s2) f ?bs" "freelist s6 = freelist s2" "sym_end s6 = sym_end s" "held s6 = []"
    "proc_vm (procs s6 p) = proc_vm (procs s p)" "p_killed (procs s6 p) = p_killed (procs s p)"
    "p_swap_slots (procs s6 p) = slot_free (int slot) (p_swap_slots (procs s p))"
  proof -
    have p6: "procs s6 p = (procs s4 p)\<lparr>p_swap_slots := slot_free (int slot) (p_swap_slots (procs s4 p))\<rparr>"
      by (simp add: s6_def s5_def upd_proc_def wake_def)
    then have "proc_vm (procs s6 p) = proc_vm (procs s4 p)" by (simp add: proc_vm_def)
    then show "proc_vm (procs s6 p) = proc_vm (procs s p)" using pv by simp
    show "p_killed (procs s6 p) = p_killed (procs s p)" "p_swap_slots (procs s6 p) = slot_free (int slot) (p_swap_slots (procs s p))"
      using p6 v4(3,5) [of p] f3(4) by simp_all
  qed (use m4 f4 f3 txstep_procs(2) [OF s4(4)] in \<open>simp_all add: s6_def s5_def upd_inode_def upd_proc_def\<close>)
  have "page_aligned f" using inv(1) by (auto simp: vm_inv_def free_pages_def ram_page_def)
  have sp0: "spare ((allocated f s1)\<lparr>mem := store_bytes (mem (allocated f s1)) f (replicate 4096 5)\<rparr>) p xs ps f"
    (is "spare ?u0 _ _ _ _") using take_spare(1) [OF inv1, of 5] .
  have r0: "p_pagetable (procs ?u0 p) = root" "mem ?u0 = store_bytes (mem s2) f (replicate 4096 5)"
    by (simp_all add: allocated_def s1_def root_def s2_def)
  have al: "page_aligned f" using inv(1) by (auto simp: vm_inv_def free_pages_def ram_page_def)
  have "same_except {f} (mem s2) (mem ?u0)" "same_except {f} (mem s2) (mem s6)"
    unfolding r0(2) s6(1) by (rule same_except_store_page [OF al]; simp)+
  then have se: "same_except {f} (mem ?u0) (mem s6)" by (simp add: same_except_def)
  have fu: "freelist s6 = freelist ?u0" "sym_end s6 = sym_end ?u0" "proc_vm (procs s6 p) = proc_vm (procs ?u0 p)"
    using s6 by (simp_all add: allocated_def s1_def s2_def)
  note sp6 = spare_frame(1) [OF sp0 se fu]
  have q6: "pte_of (mem s6) root v = pte_of (mem s) root v" for v
    using spare_frame(2) [OF sp0 se fu, of v] take_spare(3) [OF inv1, where c = 5 and va = v] r0(1)
    by (simp add: s1_def root_def)
  have root6: "p_pagetable (procs s6 p) = root" using proc_vm_fields [OF s6(5)] by (simp add: root_def)
  have lf6: "leaf (mem s6) root va = Some a"
  proof -
    have "same_except {f} (mem s) (mem s2)"
      using free_pages_allocated(2) [of s1 f ps] inv1 by (simp add: vm_inv_def s2_def s1_def)
    moreover have "same_except {f} (mem s2) (mem s6)" unfolding s6(1) by (rule same_except_store_page [OF al]) simp
    ultimately have "same_except {f} (mem s) (mem s6)" by (simp add: same_except_def)
    moreover have "page_aligned root" "tables (mem s) root \<inter> {f} = {}" using inv(1) by (auto simp: vm_inv_def pt_wf_def root_def)
    ultimately show ?thesis using pt_frame(1) [of root "{f}" "mem s" "mem s6" va] lf by simp
  qed
  define s7 where "s7 = s6\<lparr>mem := write64 (mem s6) a 0\<rparr>"
  have wf6: "pt_wf (mem s6) root" using sp6 root6 by (simp add: spare_def vm_inv_def)
  have sp7: "spare s7 p xs ps f"
    unfolding s7_def by (rule spare_write_leaf [OF sp6 _ va(2,1)]) (use lf6 root6 q6 e(1) in \<open>simp_all add: e_def root_def\<close>)
  have q7: "pte_of (mem s7) root v = (if PGROUNDDOWN v = va then 0 else pte_of (mem s) root v)" if "v < MAXVA" for v
    using pte_of_write_leaf [OF wf6 lf6 va(2) that, of 0] q6 va(1) by (simp add: s7_def)
  have p7: "procs s7 = procs s6" "held s7 = []" "p_pagetable (procs s7 p) = root" using s6(4) root6 by (simp_all add: s7_def)
  let ?perm = "swap_perms e OR PTE_V"
  have perm: "?perm < 2 ^ 10" using or_flags [OF swap_perms_small, of PTE_V] by (simp add: PTE_V_def)
  obtain u t where t: "mappages root va PGSIZE f ?perm s7 = Ok 0 u" "procs u = procs s7"
    "page_in_done p va ALLOC u = Ok () t" "paged_in s7 t p va f ?perm xs ps ALLOC"
    by (rule map_and_track [OF sp7 inv(2) _ _ va perm, unfolded p7(3), of ALLOC]) (use p7 q7 va in \<open>simp_all add: pte_valid_def\<close>)
  obtain k where k: "bnd (gets (\<lambda>s. p_fifo_seq_num (procs s p))) (\<lambda>sq. seq (add_to_resident_set p va sq) (
    bnd (gets (\<lambda>s. procs s p)) (\<lambda>q. seq (printk (RESIDENT (p_pid q) va (p_fifo_seq_num q))) (
    modify (upd_proc p (\<lambda>q. q\<lparr>p_fifo_seq_num := p_fifo_seq_num q + 1\<rparr>)))))) u = Ok () (t\<lparr>klog := k\<rparr>)"
    using page_in_tail [OF t(3)] by blast
  have ra: "read64 (mem s) a = e" using lf by (simp add: e_def root_def pte_of_def)
  note la = leaf_aligned [OF lf] and la6 = leaf_aligned [OF lf6]
  have "swap_in_map p va a f (ucast (PTE_SLOT e)) (swap_perms e) s5 = Ok () (t\<lparr>klog := k\<rparr>)"
    using la6 ucast_slot(2) [OF e(3)] e(2) k t(1) p7(1,3) root6
    by (simp add: swap_in_map_def bnd_Ok seq_Ok swap_slot_free_def s6_def [symmetric] s7_def [symmetric])
  moreover have "p_swap_inode (procs s2 p) = Some ip" using ip(1) by (simp add: s2_def s1_def allocated_def)
  moreover have "ucast (scast (ucast (PTE_SLOT e) :: c_int) * PGSIZE :: u64) = off"
    using ucast_slot(1) [OF e(3)] e(2) by (simp add: off_def)
  ultimately have run: "swap_in p va a acc s = Ok () (t\<lparr>klog := k\<rparr>)"
    using ra la ka [unfolded s1_def] f0 il s4(1) iu
    by (simp add: swap_in_def Let_def bnd_Ok seq_Ok swap_perms_def)
  note pin = t(4) [unfolded paged_in_def Let_def]
  obtain n ps' where n: "vm_inv t p (xs @ [(n, va, p_fifo_seq_num (procs s7 p))]) ps'" using pin by blast
  obtain h m where tp: "procs t p = (procs s7 p)\<lparr>p_resident_set_head := h, p_resident_set_tail := m,
    p_fifo_seq_num := p_fifo_seq_num (procs s7 p) + 1\<rparr>" using pin by blast
  have sq: "p_fifo_seq_num (procs s7 p) = p_fifo_seq_num (procs s p)" using proc_vm_fields [OF s6(5)] p7(1) by simp
  show thesis
  proof (rule that [OF run])
    show "vm_inv (t\<lparr>klog := k\<rparr>) p (xs @ [(n, va, p_fifo_seq_num (procs s p))]) ps'" using n sq by (simp add: vm_inv_printk)
    show "pte_of (mem (t\<lparr>klog := k\<rparr>)) root va' =
      (if PGROUNDDOWN va' = va then PA2PTE f OR (swap_perms e OR PTE_V) OR PTE_V else pte_of (mem s) root va')" if "va' < MAXVA" for va'
      using pin p7(3) q7 [OF that] that by simp
    have "PGROUNDDOWN a \<noteq> f"
      using leaf_in_tables [OF lf] inv(1) by (auto simp: vm_inv_def root_def)
    then have "load_bytes (mem s7) f 4096 = load_bytes (mem s6) f 4096"
      unfolding s7_def using same_except_write64 [OF la6] by (intro load_page_same_except [OF _ al]) auto
    then show "load_bytes (mem (t\<lparr>klog := k\<rparr>)) f 4096 = frange s ip (slot * 4096) 4096"
      using pin load_store_same [of "frange s ip (slot * 4096) 4096" "mem s2" f] s6(1) by simp
  qed (use tp p7(1) s6(6,7) in simp_all)
qed

section \<open>Out and in again\<close>

lemma swapped_pte_fields:
  assumes "slot < 67"
  shows "PTE_SLOT (swapped_pte slot e) = of_nat slot" "swap_perms (swapped_pte slot e) = swap_perms e"
    "swapped_pte slot e AND PTE_V = 0" "swapped_pte slot e AND PTE_S \<noteq> 0"
proof -
  let ?f = "swap_perms e OR PTE_S"
  have sp: "swapped_pte slot e = SLOT_PTE (of_nat slot) OR ?f" by (simp add: swapped_pte_def swap_perms_def or.assoc)
  have f: "?f < 2 ^ 10" using or_flags [OF swap_perms_small, of PTE_S] by (simp add: PTE_S_def)
  have "(of_nat slot :: u64) < 2 ^ 54" using assms by (simp add: word_less_nat_alt unsigned_of_nat take_bit_nat_eq_self)
  then show "PTE_SLOT (swapped_pte slot e) = of_nat slot" unfolding sp by (rule PTE_SLOT_SLOT_PTE [OF _ f])
  show "swapped_pte slot e AND PTE_V = 0"
    using swapped_not_valid [of "of_nat slot" e] by (simp add: pte_valid_def swapped_pte_def)
  have "swapped_pte slot e AND PTE_S = ?f AND PTE_S" unfolding sp by (rule SLOT_PTE_flags) (simp add: PTE_S_def)
  then show "swapped_pte slot e AND PTE_S \<noteq> 0" by (simp add: flags_and) (simp add: PTE_S_def)
  have "(SLOT_PTE (of_nat slot) OR ?f) AND (PTE_R OR PTE_W OR PTE_X OR PTE_U) = ?f AND (PTE_R OR PTE_W OR PTE_X OR PTE_U)"
    by (rule SLOT_PTE_flags) (simp add: PTE_R_def PTE_W_def PTE_X_def PTE_U_def)
  then have "swap_perms (swapped_pte slot e) = ?f AND (PTE_R OR PTE_W OR PTE_X OR PTE_U)"
    unfolding sp by (simp only: swap_perms_def [of "SLOT_PTE (of_nat slot) OR ?f"])
  also have "\<dots> = swap_perms e"
  proof -
    have z: "PTE_S AND (PTE_R OR PTE_W OR PTE_X OR PTE_U) = 0" by (simp add: PTE_R_def PTE_W_def PTE_X_def PTE_U_def PTE_S_def)
    have "\<not> (bit PTE_S i \<and> bit (PTE_R OR PTE_W OR PTE_X OR PTE_U) i)" for i
      using arg_cong [OF z, where f = "\<lambda>w. bit w i"] by (simp add: bit_and_iff)
    then show ?thesis unfolding swap_perms_def by (intro bit_word_eqI) (auto simp: bit_and_iff bit_or_iff)
  qed
  finally show "swap_perms (swapped_pte slot e) = swap_perms e" .
qed

lemma page_fault_swapped:
  assumes va: "PGROUNDDOWN (r_stval r) < MAXVA" and lf: "leaf (mem s) (p_pagetable (procs s p)) (PGROUNDDOWN (r_stval r)) = Some a" "a \<noteq> 0"
    and e: "read64 (mem s) a AND PTE_V = 0" "read64 (mem s) a AND PTE_S \<noteq> 0"
  shows "page_fault p r s = swap_in p (PGROUNDDOWN (r_stval r)) a (access_type (r_scause r)) s"
  using assms by (simp add: page_fault_def Let_def bnd_walk0 leaf_aligned)

text \<open>
  Property C1. A page survives being swapped out: inside a transaction with room for it, page replacement writes the victim to
  its slot of the swap file, and the fault at the next access to the page brings it back, whatever frame it gets:
  the entry is valid again with the same permissions, the frame holds the same 4096 bytes, every other translation is
  what it was before, the slot is free again and the page is the youngest of the resident set.
\<close>

theorem swap_roundtrip:
  fixes s p
  defines "root \<equiv> p_pagetable (procs s p)"
  assumes inv: "vm_inv s p ((n, va, sq) # xs) ps" "2 \<le> length ps" and r: "swap_ready p M ip s"
    and dirty: "pte_of (mem s) root va AND PTE_D \<noteq> 0 \<or> p_exe_end (procs s p) \<le> va"
    and sl: "length (p_swap_slots (procs s p)) = 128" "slot_alloc (p_swap_slots (procs s p)) = Some (sl, slot)"
    and slot: "slot < 67" "slot * 4096 \<le> unat (i_size (itable s ip))"
    and fault: "PGROUNDDOWN (r_stval r) = va"
  shows "\<exists>t u f m ps'. do_page_replacement p s = Ok 1 t \<and> pte_of (mem t) root va = swapped_pte slot (pte_of (mem s) root va) \<and>
    page_fault p r t = Ok () u \<and> pte_of (mem u) root va = PA2PTE f OR swap_perms (pte_of (mem s) root va) OR PTE_V \<and>
    load_bytes (mem u) f 4096 = load_bytes (mem s) (frame_of s p va) 4096 \<and>
    (\<forall>va'. va' < MAXVA \<and> PGROUNDDOWN va' \<noteq> va \<longrightarrow> pte_of (mem u) root va' = pte_of (mem s) root va') \<and>
    used (p_swap_slots (procs u p)) = used (p_swap_slots (procs s p)) \<and>
    vm_inv u p (xs @ [(m, va, p_fifo_seq_num (procs t p))]) ps'"
proof -
  let ?e = "pte_of (mem s) root va"
  note h = vm_inv_head [OF inv(1)]
  obtain t where t: "do_page_replacement p s = Ok 1 t" "vm_inv t p xs (n # frame_of s p va # ps)"
    "pte_of (mem t) root va = swapped_pte slot ?e" "p_pagetable (procs t p) = root"
    "\<And>va'. va' < MAXVA \<Longrightarrow> PGROUNDDOWN va' \<noteq> va \<Longrightarrow> pte_of (mem t) root va' = pte_of (mem s) root va'"
    "file_tx p M ip t" "l_n (lg t) \<le> l_n (lg s) + 25" "frange t ip (slot * 4096) 4096 = load_bytes (mem s) (frame_of s p va) 4096"
    "\<And>k. slot * 4096 \<le> k \<Longrightarrow> k < slot * 4096 + 4096 \<Longrightarrow> k div BSIZE \<in> fmapped t ip"
    "i_size (itable t ip) = max (i_size (itable s ip)) (of_nat (slot * 4096 + 4096))"
    "1 \<le> i_ref (itable t ip) \<and> i_valid (itable t ip) \<and> \<not> sl_locked (i_lock (itable t ip))"
    "p_swap_inode (procs t p) = Some ip" "p_swap_slots (procs t p) = sl"
    by (rule evict_swaps [OF inv(1) r _ sl(2) slot, folded root_def]) (use dirty in auto)
  note sf = swapped_pte_fields [OF slot(1), of ?e]
  have wf: "pt_wf (mem t) root" using t(2,4) by (simp add: vm_inv_def)
  obtain a where a: "leaf (mem t) root va = Some a" "read64 (mem t) a = swapped_pte slot ?e" "a \<noteq> 0"
  proof -
    have "pte_of (mem t) root va \<noteq> 0" using t(3) sf(4) by auto
    then obtain a where a: "leaf (mem t) root va = Some a" by (auto simp: pte_of_def split: option.splits)
    then have "read64 (mem t) a = pte_of (mem t) root va" by (simp add: pte_of_def)
    then show ?thesis using that [OF a] t(3) leaf_nonzero [OF wf a] by simp
  qed
  have "unat (of_nat (slot * 4096 + 4096) :: u32) = slot * 4096 + 4096" by (rule unat_of_nat32) (use slot in simp)
  then have sz: "slot * 4096 + 4096 \<le> unat (i_size (itable t ip))"
    using t(10) by (metis max.cobounded2 word_le_nat_alt)
  have dev: "i_dev (itable t ip) = ROOTDEV" and li: "log_inv p [] t" using t(6) by (simp_all add: file_tx_def tx_def)
  have room: "l_n (lg t) < int NBUF" using t(7) r by (simp add: swap_ready_def const_defs)
  obtain u m ps' where u: "swap_in p va a (access_type (r_scause r)) t = Ok () u"
    "vm_inv u p (xs @ [(m, va, p_fifo_seq_num (procs t p))]) ps'"
    "\<And>va'. va' < MAXVA \<Longrightarrow> pte_of (mem u) root va' =
      (if PGROUNDDOWN va' = va then PA2PTE n OR (swap_perms (swapped_pte slot ?e) OR PTE_V) OR PTE_V else pte_of (mem t) root va')"
    "load_bytes (mem u) n 4096 = frange t ip (slot * 4096) 4096"
    "p_swap_slots (procs u p) = slot_free (int slot) (p_swap_slots (procs t p))"
    by (rule swap_in_run [OF t(2) _ li room h(8,9), unfolded t(4) t(3), OF _ a(1)])
      (use inv(2) slot(1) sf t(9,11,12) dev sz in \<open>auto simp: pte_valid_def\<close>)
  have pf: "page_fault p r t = Ok () u"
    using page_fault_swapped [of r t p a] fault h(9) t(4) a sf(3,4) u(1) by simp
  have "PA2PTE n OR (swap_perms (swapped_pte slot ?e) OR PTE_V) OR PTE_V = PA2PTE n OR swap_perms ?e OR PTE_V"
    unfolding sf(2) by (rule bit_word_eqI) (auto simp: bit_or_iff)
  then have pu: "pte_of (mem u) root va = PA2PTE n OR swap_perms ?e OR PTE_V" using u(3) [OF h(9)] h(8) by simp
  note fresh = slot_alloc_Some [OF sl(2,1)]
  have "used (p_swap_slots (procs u p)) = used (p_swap_slots (procs s p))"
    using u(5) t(13) fresh by (simp add: used_slot_free)
  then show ?thesis using t(1,3,5,8) pf pu u(2-4) by (intro exI conjI allI impI) (assumption | simp)+
qed


section \<open>A swap file on a small disk\<close>

text \<open>
  A disk of 64 blocks: the log at 2, the inodes at 33, the free map at 34 with the first 40 blocks taken. Process 0 has one
  resident page, above the program, and an empty swap file.
\<close>

definition ex_map :: "u8 list" where
  "ex_map = replicate 5 255 @ replicate 1019 0"

definition ex_swap :: kstate where
  "ex_swap = ex_demand\<lparr>procs := (procs ex_demand)(0 := (procs ex_demand 0)\<lparr>p_exe_end := 0, p_swap_inode := Some 1\<rparr>),
     bufs := ex_buf 0, lg := lg (ex_log 0), disk := (\<lambda>_. replicate 1024 0)(34 := ex_map),
     sblk := (sblk (ex_log 0))\<lparr>sb_size := 64, sb_logstart := 2, sb_inodestart := 33, sb_bmapstart := 34\<rparr>,
     itable := (\<lambda>_. \<lparr>i_dev = ROOTDEV, i_inum = 5, i_ref = 1, i_lock = \<lparr>sl_locked = False, sl_pid = 0\<rparr>, i_valid = True,
       i_type = 2, i_major = 0, i_minor = 0, i_nlink = 1, i_size = 0, i_addrs = replicate 13 0\<rparr>)\<rparr>"

definition ex_meta :: "u32 set" where
  "ex_meta = {a. unat a < 40}"

lemma ex_swap_fields:
  "procs ex_swap 0 = (ex_proc 0x1000 (replicate 128 0))\<lparr>p_trapframe := 0x8002b000, p_exe_end := 0, p_swap_inode := Some 1\<rparr>"
  "mem ex_swap = mem ex_demand" "freelist ex_swap = freelist ex_demand" "sym_end ex_swap = sym_end ex_demand"
  "bufs ex_swap = ex_buf 0" "lg ex_swap = lg (ex_log 0)" "curproc ex_swap = Some 0" "held ex_swap = []"
  "disk ex_swap = (\<lambda>_. replicate 1024 0)(34 := ex_map)" "sb_size (sblk ex_swap) = 64" "sb_bmapstart (sblk ex_swap) = 34"
  "sb_inodestart (sblk ex_swap) = 33"
  by (simp_all add: ex_swap_def ex_demand_fields)

lemma ex_swap_inv: "vm_inv ex_swap 0 [(0x80025000, 0, 7)] (0x8002a000 # ex_free)"
  by (rule vm_inv_frame(1) [OF ex_demand_inv, where P = "{}"])
    (simp_all add: ex_swap_fields ex_demand_fields ex_proc_def same_except_def)

lemma ex_swap_not_cached: "\<not> cached ex_swap no b"
  by (simp add: cached_def ex_swap_fields ex_buf_def const_defs)

lemma ex_swap_content: "content ex_swap = disk ex_swap"
  by (simp add: fun_eq_iff content_def ex_swap_not_cached)

lemma ex_swap_log: "log_inv 0 [] ex_swap"
proof -
  have l: "logged (lg ex_swap) = []" "log_ok (lg ex_swap)" using ex_log_fields [of 0] by (simp_all add: ex_swap_fields)
  have "ring (bufs ex_swap) [0..<30]" using ex_ring by (simp add: ex_swap_fields)
  moreover have "buf_ok pid [] {} (disk ex_swap) b (bufs ex_swap b)" for pid b
    by (simp add: buf_ok_def ex_swap_fields ex_buf_def const_defs)
  moreover have "length (disk ex_swap no) = BSIZE" for no by (simp add: ex_swap_fields ex_map_def const_defs)
  ultimately have "cache_inv 0 [] {} ex_swap" unfolding cache_inv_def by (auto simp: ex_swap_not_cached ex_swap_fields)
  moreover have "get32 (replicate 1024 0) 0 = 0" by (simp add: get32_def)
  then have "header_is (disk ex_swap) (l_start (lg ex_swap)) []" by (simp add: header_is_def ex_swap_fields) (simp add: ex_log_def)
  ultimately show ?thesis using l by (simp add: log_inv_def)
qed

lemma ex_map_bits: "n < 64 \<Longrightarrow> bset ex_map n \<longleftrightarrow> n < 40"
proof -
  have "bit (255 :: u8) k" if "k < 8" for k
  proof -
    have "(255 :: u8) = mask 8" by (simp add: mask_eq_exp_minus_1)
    then show ?thesis using that by (simp only: bit_mask_iff) simp
  qed
  then have b: "bit (255 :: u8) (n mod 8)" by simp
  assume n: "n < 64"
  show "bset ex_map n \<longleftrightarrow> n < 40"
  proof (cases "n < 40")
    case True
    then have "n div 8 < 5" by simp
    then show ?thesis using b True by (simp add: bset_def ex_map_def nth_append)
  next
    case False
    then have "5 \<le> n div 8" "n div 8 < 8" using n by auto
    then show ?thesis using False by (simp add: bset_def ex_map_def nth_append)
  qed
qed

lemma ex_unused: "unused (sblk ex_swap) (content ex_swap) = {40..<64}"
  using ex_map_bits by (auto simp: unused_def ex_swap_content ex_swap_fields)

lemma ex_swap_file: "file_tx 0 ex_meta 1 ex_swap"
proof -
  have "unat a < 40" if "a \<in> log_area 2" for a :: u32
    using ex_area [of a] that by (cases "33 \<le> unat a") auto
  moreover have "unat (of_nat n :: u32) = n" if "n < 64" for n by (rule unat_of_nat32) (use that in simp)
  ultimately have "disk_ok 2 ex_meta (sblk ex_swap) (content ex_swap)"
    using ex_area [of 34] by (auto simp: disk_ok_def ex_unused ex_meta_def ex_swap_fields const_defs)
  moreover have "file_ok ex_meta (sblk ex_swap) (content ex_swap) (itable ex_swap 1)"
  proof -
    have "baddr (content ex_swap) (itable ex_swap 1) i = 0" for i by (simp add: baddr_def ex_swap_def const_defs)
    then show ?thesis by (simp add: file_ok_def) (simp add: ex_swap_def const_defs)
  qed
  ultimately show ?thesis using ex_swap_log
    by (simp add: file_tx_def tx_def ex_swap_fields) (simp add: ex_log_def ex_swap_def)
qed

lemma ex_swap_ready: "swap_ready 0 ex_meta 1 ex_swap"
proof -
  have "IBLOCK (i_inum (itable ex_swap 1)) (sblk ex_swap) = 33"
    by (simp add: IBLOCK_def ex_swap_fields) (simp add: ex_swap_def const_defs)
  then have "inode_home ex_meta 1 ex_swap"
    using ex_area [of 33] by (simp add: inode_home_def ex_meta_def ex_swap_fields) (simp add: ex_log_def)
  then show ?thesis using ex_swap_file
    by (simp add: swap_ready_def free_blocks_def ex_unused ex_swap_fields) (simp add: ex_swap_def ex_log_def)
qed

theorem swap_roundtrip_witness:
  "\<exists>t u f. do_page_replacement 0 ex_swap = Ok 1 t \<and> pte_of (mem t) 0x80021000 0 AND PTE_V = 0 \<and>
     page_fault 0 (ex_trap 0x123) t = Ok () u \<and> pte_of (mem u) 0x80021000 0 AND PTE_V \<noteq> 0 \<and>
     load_bytes (mem u) f 4096 = load_bytes (mem ex_demand) 0x80024000 4096"
proof -
  have sl: "slot_alloc (p_swap_slots (procs ex_swap 0)) = Some ((replicate 128 0)[0 := 1], 0)"
    unfolding ex_swap_fields by (simp add: ex_proc_def) code_simp
  have pg: "p_pagetable (procs ex_swap 0) = 0x80021000" "length (p_swap_slots (procs ex_swap 0)) = 128"
    "p_exe_end (procs ex_swap 0) = 0" by (simp_all add: ex_swap_fields ex_proc_def)
  have r: "PGROUNDDOWN (r_stval (ex_trap 0x123)) = 0" by (simp add: ex_trap_def PGROUNDDOWN_def PGSIZE_def)
  have "PTE2PA (PA2PTE 0x80024000 OR 23) = 0x80024000" by (rule PTE2PA_PA2PTE) simp_all
  then have fr: "frame_of ex_swap 0 0 = 0x80024000"
    unfolding frame_of_def pg by (simp add: ex_swap_fields(2) ex_demand_leaf ex_pte)
  from swap_roundtrip [OF ex_swap_inv _ ex_swap_ready _ pg(2) sl _ _ r]
  obtain t u f where "do_page_replacement 0 ex_swap = Ok 1 t"
    "pte_of (mem t) 0x80021000 0 = swapped_pte 0 (pte_of (mem ex_swap) 0x80021000 0)"
    "page_fault 0 (ex_trap 0x123) t = Ok () u"
    "pte_of (mem u) 0x80021000 0 = PA2PTE f OR swap_perms (pte_of (mem ex_swap) 0x80021000 0) OR PTE_V"
    "load_bytes (mem u) f 4096 = load_bytes (mem ex_demand) 0x80024000 4096"
    by (auto simp: pg fr ex_free_def ex_swap_fields(2))
  moreover have "(x OR y OR PTE_V) AND PTE_V \<noteq> 0" for x y
  proof -
    have "(x OR y OR PTE_V) AND PTE_V = PTE_V" by (rule bit_word_eqI) (auto simp: bit_and_iff bit_or_iff)
    then show ?thesis by (simp add: PTE_V_def)
  qed
  ultimately show ?thesis using swapped_pte_fields(3) [of 0] by auto
qed

end
