(* ===== verification/Xv6_Fileio.thy ===== *)
theory Xv6_Fileio
  imports Xv6_Swapio
begin

text \<open>
  The contents of a file as one array of bytes: \<open>writei\<close> replaces a range of it, \<open>readi\<close> copies a range out of it.
  The contract of the two operations is the locale \<open>byte_file\<close>; what a client may conclude from it is proved there once.
\<close>

section \<open>The contract\<close>

locale byte_file =
  fixes ok :: "nat \<Rightarrow> kstate \<Rightarrow> bool" and bytes :: "kstate \<Rightarrow> u8 list" and span :: "nat \<Rightarrow> nat \<Rightarrow> nat" and limit :: nat
    and wr rd :: "u64 \<Rightarrow> u32 \<Rightarrow> u32 \<Rightarrow> int kop"
  assumes wr: "ok (span (unat off) (unat n) + k) s \<Longrightarrow> unat off \<le> length (bytes s) \<Longrightarrow> unat off + unat n \<le> limit \<Longrightarrow>
      \<exists>t. wr a off n s = Ok (int (unat n)) t \<and> ok k t \<and> mem t = mem s \<and>
        bytes t = splice (bytes s) (unat off) (load_bytes (mem s) a (unat n))"
    and rd: "ok k s \<Longrightarrow> unat off + unat n < 2 ^ 32 \<Longrightarrow> bs = take (unat n) (drop (unat off) (bytes s)) \<Longrightarrow>
      \<exists>t. rd a off n s = Ok (int (length bs)) t \<and> ok k t \<and> mem t = store_bytes (mem s) a bs \<and> bytes t = bytes s"
    and limit: "limit < 2 ^ 32"
begin

lemma write_read:
  assumes s: "ok (span (unat off) (unat n) + k) s" "unat off \<le> length (bytes s)" "unat off + unat n \<le> limit"
  shows "\<exists>t u. wr a off n s = Ok (int (unat n)) t \<and> rd b off n t = Ok (int (unat n)) u \<and> ok k u \<and>
    mem u = store_bytes (mem s) b (load_bytes (mem s) a (unat n)) \<and>
    bytes u = splice (bytes s) (unat off) (load_bytes (mem s) a (unat n))"
proof -
  let ?bs = "load_bytes (mem s) a (unat n)"
  obtain t where t: "wr a off n s = Ok (int (unat n)) t" "ok k t" "mem t = mem s" "bytes t = splice (bytes s) (unat off) ?bs"
    using wr [OF s, of a] by blast
  have "take (unat n) (drop (unat off) (bytes t)) = ?bs" using s(2) t(4) by (simp add: splice_def)
  then show ?thesis using rd [OF t(2), of off n ?bs b] s(3) limit t by (auto simp: splice_def)
qed

text \<open>Two writes, the second where the first ended, are one write of both.\<close>

lemma write_write:
  assumes s: "ok (span (unat off) (unat n) + (span (unat off + unat n) (unat m) + k)) s" "unat off \<le> length (bytes s)"
    "unat off + unat n + unat m \<le> limit"
  shows "\<exists>t u. wr a off n s = Ok (int (unat n)) t \<and> wr (a + of_nat (unat n)) (off + n) m t = Ok (int (unat m)) u \<and> ok k u \<and>
    mem u = mem s \<and> bytes u = splice (bytes s) (unat off) (load_bytes (mem s) a (unat n + unat m))"
proof -
  have on: "unat (off + n) = unat off + unat n" using s(3) limit by (simp add: unat_add_lem [THEN iffD1])
  let ?bs = "load_bytes (mem s) a (unat n)" and ?cs = "load_bytes (mem s) (a + of_nat (unat n)) (unat m)"
  obtain t where t: "wr a off n s = Ok (int (unat n)) t" "ok (span (unat off + unat n) (unat m) + k) t" "mem t = mem s"
    "bytes t = splice (bytes s) (unat off) ?bs"
    using wr [OF s(1,2), of a] s(3) by auto
  obtain u where u: "wr (a + of_nat (unat n)) (off + n) m t = Ok (int (unat m)) u" "ok k u" "mem u = mem t"
    "bytes u = splice (bytes t) (unat off + unat n) ?cs"
    using wr [of "off + n" m k t "a + of_nat (unat n)"] t(2-4) s(2,3) by (auto simp: on splice_def)
  have "load_bytes (mem s) a (unat n + unat m) = ?bs @ ?cs"
    by (rule nth_equalityI) (auto simp: nth_append)
  then have "bytes u = splice (bytes s) (unat off) (load_bytes (mem s) a (unat n + unat m))"
    using s(2) u(4) t(4) by (simp add: splice_def min_def add_ac)
  then show ?thesis using t u by auto
qed

end

section \<open>Files of the file system\<close>

definition file_bytes :: "nat \<Rightarrow> kstate \<Rightarrow> u8 list" where
  "file_bytes ip s = frange s ip 0 (unat (i_size (itable s ip)))"

text \<open>The blocks a range touches, and a transaction with room to write \<open>k\<close> of them.\<close>

definition file_span :: "nat \<Rightarrow> nat \<Rightarrow> nat" where
  "file_span off n = Suc ((off mod BSIZE + n - 1) div BSIZE)"

definition file_room :: "nat \<Rightarrow> u32 set \<Rightarrow> nat \<Rightarrow> nat \<Rightarrow> kstate \<Rightarrow> bool" where
  "file_room p M ip k s \<longleftrightarrow> file_tx p M ip s \<and> inode_home M ip s \<and> 2 * k \<le> free_blocks s \<and> l_n (lg s) + 7 * int k < int NBUF \<and>
     unat (i_size (itable s ip)) \<le> MAXFILE * BSIZE \<and> (\<forall>k < unat (i_size (itable s ip)). k div BSIZE \<in> fmapped s ip)"

lemma file_bytes_length [simp]: "length (file_bytes ip s) = unat (i_size (itable s ip))"
  by (simp add: file_bytes_def)

lemma file_bytes_nth: "k < unat (i_size (itable s ip)) \<Longrightarrow> file_bytes ip s ! k = fbyte s ip k"
  by (simp add: file_bytes_def frange_def)

lemma file_bytes_range:
  assumes "off + n \<le> unat (i_size (itable s ip))"
  shows "take n (drop off (file_bytes ip s)) = frange s ip off n"
  by (rule nth_equalityI) (use assms in \<open>auto simp: file_bytes_nth, auto simp: frange_def\<close>)

lemma file_span_blocks: "off mod BSIZE + n \<le> file_span off n * BSIZE"
proof -
  let ?x = "off mod BSIZE + n"
  have "?x - 1 < BSIZE + BSIZE * ((?x - 1) div BSIZE)" by (rule dividend_less_times_div) simp
  then show ?thesis by (simp add: file_span_def mult.commute)
qed

lemma writei_file:
  assumes r: "file_room p M ip (file_span (unat off) (unat n) + k) s" and off: "unat off \<le> length (file_bytes ip s)"
    and lim: "unat off + unat n \<le> MAXFILE * BSIZE"
  shows "\<exists>t. writei (from_kernel a) ip off n s = Ok (int (unat n)) t \<and> file_room p M ip k t \<and> mem t = mem s \<and>
    file_bytes ip t = splice (file_bytes ip s) (unat off) (load_bytes (mem s) a (unat n))"
proof -
  let ?nb = "file_span (unat off) (unat n)"
  have nb: "1 \<le> ?nb" by (simp add: file_span_def)
  note rr = r [unfolded file_room_def]
  have room: "l_n (lg s) + 6 * int ?nb < int NBUF" using rr nb by auto
  obtain t where t: "writei (from_kernel a) ip off n s = Ok (int (unat n)) t" "file_tx p M ip t"
    "file_step ip s t (6 * ?nb + 1) (2 * ?nb)" "i_size (itable t ip) = max (i_size (itable s ip)) (off + n)"
    and b: "\<And>k. k < MAXFILE * BSIZE \<Longrightarrow> fbyte t ip k =
       (if unat off \<le> k \<and> k < unat off + unat n then mem s (a + of_nat (k - unat off)) else fbyte s ip k)"
    and m: "\<And>k. unat off \<le> k \<Longrightarrow> k < unat off + unat n \<Longrightarrow> k div BSIZE \<in> fmapped t ip"
    by (rule writei_run [OF _ _ lim _ file_span_blocks _ room]) (use rr off in \<open>auto simp: word_le_nat_alt\<close>)
  note f = file_step_fields [OF t(3)]
  have "unat (off + n) = unat off + unat n" using lim by (simp add: unat_add_lem [THEN iffD1] const_defs)
  then have sz: "unat (i_size (itable t ip)) = max (unat (i_size (itable s ip))) (unat off + unat n)"
    using t(4) by (auto simp: max_def word_le_nat_alt)
  have ih: "inode_home M ip t" using rr f by (simp add: inode_home_def)
  have mp: "j div BSIZE \<in> fmapped t ip" if "j < unat (i_size (itable t ip))" for j
    using that rr m [of j] f(12) sz off by (cases "j < unat (i_size (itable s ip))") auto
  have sl: "unat (i_size (itable t ip)) \<le> MAXFILE * BSIZE" using rr lim sz by simp
  have "file_room p M ip k t" unfolding file_room_def using t(2) ih mp sl rr f(8,11) nb by auto
  moreover have "file_bytes ip t = splice (file_bytes ip s) (unat off) (load_bytes (mem s) a (unat n))"
  proof (rule nth_equalityI)
    show "length (file_bytes ip t) = length (splice (file_bytes ip s) (unat off) (load_bytes (mem s) a (unat n)))"
      using off by (simp add: sz splice_def)
    fix j assume j: "j < length (file_bytes ip t)"
    then have "fbyte t ip j = (if unat off \<le> j \<and> j < unat off + unat n then mem s (a + of_nat (j - unat off)) else fbyte s ip j)"
      using b sl by simp
    then show "file_bytes ip t ! j = splice (file_bytes ip s) (unat off) (load_bytes (mem s) a (unat n)) ! j"
      using j off sz by (auto simp: file_bytes_nth splice_def nth_append)
  qed
  ultimately show ?thesis using t(1) f(3) by blast
qed

lemma store_nil [simp]: "store_bytes m a [] = m"
  by (simp add: store_bytes_def fun_eq_iff)

lemma readi_clamp:
  assumes "off \<le> i_size (itable s ip)" "\<not> off + n < off" "i_size (itable s ip) < off + n"
  shows "readi cp x ip off n s = readi cp x ip off (i_size (itable s ip) - off) s"
  using assms by (auto simp: readi_def bnd_def gets_def Let_def)

text \<open>\<open>readi\<close> stops at the end of the file, and reads nothing beyond it.\<close>

lemma readi_file:
  assumes r: "file_room p M ip k s" and n: "unat off + unat n < 2 ^ 32"
    and bs: "bs = take (unat n) (drop (unat off) (file_bytes ip s))"
  shows "\<exists>t. readi (to_kernel dst) () ip off n s = Ok (int (length bs), ()) t \<and> file_room p M ip k t \<and>
    mem t = store_bytes (mem s) dst bs \<and> file_bytes ip t = file_bytes ip s"
proof (cases "off \<le> i_size (itable s ip)")
  case False
  then have "readi (to_kernel dst) () ip off n s = Ok (0, ()) s" by (simp add: readi_def bnd_def gets_def ret_def not_le)
  then show ?thesis using r False bs by (simp add: word_le_nat_alt)
next
  case True
  note rr = r [unfolded file_room_def]
  let ?size = "i_size (itable s ip)"
  have on: "unat (off + n) = unat off + unat n" using n by (simp add: unat_add_lem [THEN iffD1])
  define m where "m = (if ?size < off + n then ?size - off else n)"
  have um: "unat m = min (unat n) (unat ?size - unat off)"
    using True on by (auto simp: m_def word_less_nat_alt word_le_nat_alt unat_sub min_def)
  have eq: "readi (to_kernel dst) () ip off n s = readi (to_kernel dst) () ip off m s"
    using readi_clamp [of off s ip n "to_kernel dst" "()"] True on by (simp add: m_def word_less_nat_alt)
  have le: "unat off + unat m \<le> unat ?size" using um True by (auto simp: word_le_nat_alt)
  have bm: "bs = frange s ip (unat off) (unat m)"
    using bs um file_bytes_range [OF le] by (metis file_bytes_length length_drop take_all_iff min_def nle_le take_take)
  obtain t where t: "readi (to_kernel dst) () ip off m s = Ok (int (unat m), ()) t" "log_inv p [] t" "content t = content s"
    "mem t = store_bytes (mem s) dst (frange s ip (unat off) (unat m))" "txstep (s\<lparr>mem := mem t\<rparr>) t 0"
    by (rule readi_run [of p s ip off m dst]) (use rr le in \<open>auto simp: file_tx_def tx_def\<close>)
  note f = txstep_fields [OF t(5)]
  have it: "itable t ip = itable s ip" and sb: "sblk t = sblk s" using f by simp_all
  have "file_tx p M ip t" using rr t(2,3) it f by (simp add: file_tx_def tx_def)
  then have "file_room p M ip k t"
    unfolding file_room_def using rr f t(3) it fmapped_cong [OF t(3) it] by (simp add: inode_home_def free_blocks_def)
  moreover have "file_bytes ip t = file_bytes ip s" using frange_cong [OF t(3) it] it by (simp add: file_bytes_def)
  ultimately show ?thesis using eq t(1,4) bm by (metis frange_length)
qed

definition readi_to :: "nat \<Rightarrow> u64 \<Rightarrow> u32 \<Rightarrow> u32 \<Rightarrow> int kop" where
  "readi_to ip dst off n = bnd (readi (to_kernel dst) () ip off n) (\<lambda>(r, _). ret r)"

lemma readi_to_file:
  assumes "file_room p M ip k s" "unat off + unat n < 2 ^ 32" "bs = take (unat n) (drop (unat off) (file_bytes ip s))"
  shows "\<exists>t. readi_to ip dst off n s = Ok (int (length bs)) t \<and> file_room p M ip k t \<and>
    mem t = store_bytes (mem s) dst bs \<and> file_bytes ip t = file_bytes ip s"
  using readi_file [OF assms, of dst] by (auto simp: readi_to_def bnd_Ok ret_def)

interpretation inode_file: byte_file "file_room p M ip" "file_bytes ip" file_span "MAXFILE * BSIZE"
  "\<lambda>a. writei (from_kernel a) ip" "readi_to ip" for p M ip
proof (unfold_locales, goal_cases)
  case (1 off n k s a)
  then show ?case by (rule writei_file)
next
  case (2 k s off n bs a)
  then show ?case by (rule readi_to_file)
qed (simp add: const_defs)

section \<open>Properties\<close>

text \<open>
  Property C4. The file system as a byte store: inside a transaction with room for it, \<open>writei\<close> of \<open>n\<close> bytes at any offset
  within the file replaces exactly that range of the file's contents, extending it at the end, through the direct and the
  indirect blocks; and \<open>readi\<close> of the range puts the same bytes at any other place in memory.
\<close>

theorem writei_readi:
  assumes "file_room p M ip (file_span (unat off) (unat n) + k) s" "unat off \<le> length (file_bytes ip s)"
    "unat off + unat n \<le> MAXFILE * BSIZE"
  shows "\<exists>t u. writei (from_kernel a) ip off n s = Ok (int (unat n)) t \<and>
    readi (to_kernel b) () ip off n t = Ok (int (unat n), ()) u \<and>
    file_room p M ip k u \<and> mem u = store_bytes (mem s) b (load_bytes (mem s) a (unat n)) \<and>
    file_bytes ip u = splice (file_bytes ip s) (unat off) (load_bytes (mem s) a (unat n))"
  using inode_file.write_read [OF assms, of a b] by (force simp: readi_to_def ret_def elim!: bnd_OkE)

text \<open>
  Property C21. A write may be split: writing \<open>n\<close> bytes and then the next \<open>m\<close> where the first write ended leaves the same
  file contents as writing the \<open>n + m\<close> bytes at once, which is what \<open>filewrite\<close> relies on when it cuts a write into
  transactions.
\<close>

theorem writei_split:
  assumes "file_room p M ip (file_span (unat off) (unat n) + (file_span (unat off + unat n) (unat m) + k)) s"
    "file_room p M ip (file_span (unat off) (unat (n + m)) + k') s"
    "unat off \<le> length (file_bytes ip s)" "unat off + unat n + unat m \<le> MAXFILE * BSIZE"
  shows "\<exists>t u v. writei (from_kernel a) ip off n s = Ok (int (unat n)) t \<and>
    writei (from_kernel (a + of_nat (unat n))) ip (off + n) m t = Ok (int (unat m)) u \<and>
    writei (from_kernel a) ip off (n + m) s = Ok (int (unat n) + int (unat m)) v \<and> file_bytes ip u = file_bytes ip v"
proof -
  have nm: "unat (n + m) = unat n + unat m" using assms(4) by (simp add: unat_add_lem [THEN iffD1] const_defs)
  show ?thesis
    using inode_file.write_write [OF assms(1,3,4), of a] inode_file.wr [OF assms(2,3), of a] assms(4) by (auto simp: nm)
qed

lemma ex_swap_room: "k \<le> 4 \<Longrightarrow> file_room 0 ex_meta 1 k ex_swap"
  using ex_swap_ready by (simp add: file_room_def swap_ready_def free_blocks_def ex_unused ex_swap_fields)
    (simp add: ex_swap_def ex_log_def const_defs)

lemma ex_swap_empty: "file_bytes 1 ex_swap = []"
  by (simp add: file_bytes_def frange_def) (simp add: ex_swap_def)

theorem writei_readi_witness:
  "\<exists>t u. writei (from_kernel 0x80024000) 1 0 4096 ex_swap = Ok 4096 t \<and>
     readi (to_kernel 0x80026000) () 1 0 4096 t = Ok (4096, ()) u \<and> file_bytes 1 u = load_bytes (mem ex_swap) 0x80024000 4096"
  using writei_readi [OF ex_swap_room, of 0 4096 0 "0x80024000" "0x80026000"]
  by (simp add: file_span_def ex_swap_empty splice_def const_defs del: One_nat_def) blast

theorem writei_split_witness:
  "\<exists>t u v. writei (from_kernel 0x80024000) 1 0 1000 ex_swap = Ok 1000 t \<and>
     writei (from_kernel 0x800243e8) 1 1000 500 t = Ok 500 u \<and>
     writei (from_kernel 0x80024000) 1 0 1500 ex_swap = Ok 1500 v \<and> file_bytes 1 u = file_bytes 1 v"
  using writei_split [OF ex_swap_room ex_swap_room, of 0 1000 500 0 0 "0x80024000"]
  by (simp add: file_span_def ex_swap_empty const_defs del: One_nat_def)

end
