(* ===== verification/Xv6_Swap_Outside.thy ===== *)
theory Xv6_Swap_Outside
  imports Xv6_Swapio
begin

text \<open>
  Page replacement outside a file-system transaction: writing to the swap file ends in the panic of \<open>log_write\<close>.
\<close>

section \<open>The first change of a block panics\<close>

lemma bnd_Panic: "m s = Panic e \<Longrightarrow> bnd m f s = Panic e"
  by (simp add: bnd_def)

lemma seq_Panic: "m s = Panic e \<Longrightarrow> seq m n s = Panic e"
  by (simp add: seq_def bnd_def)

abbreviation outside_trans :: string where
  "outside_trans \<equiv> ''log_write outside of trans''"

lemma log_write_panics:
  assumes "log_inv p L s" "l_n (lg s) < int LOGBLOCKS" "l_outstanding (lg s) < 1"
  shows "seq (set_bdata b d) (seq (log_write b) k) s = Panic outside_trans"
proof -
  have "held s = []" using assms(1) by (auto simp: log_inv_def cache_inv_def)
  then have "log_write b (upd_buf b (\<lambda>x. x\<lparr>b_data := d\<rparr>) s) = Panic outside_trans"
    using assms(2,3) by (simp add: log_write_def upd_buf_def)
  then show ?thesis by (simp add: set_bdata_def seq_Panic)
qed

lemma balloc_outside:
  assumes inv: "log_inv p L s" "l_outstanding (lg s) < 1" and d: "disk_ok (l_start (lg s)) M (sblk s) (content s)"
    and u: "unused (sblk s) (content s) \<noteq> {}" and room: "l_n (lg s) + int (length L) < int NBUF"
    and nl: "\<And>c. c \<in> set L \<Longrightarrow> b_blockno (bufs s c) \<noteq> sb_bmapstart (sblk s)"
  shows "balloc ROOTDEV s = Panic outside_trans"
proof -
  let ?sb = "sblk s" and ?c = "content s"
  let ?B = "sb_bmapstart ?sb" and ?k = "unat (sb_size ?sb)"
  obtain m where m: "m \<in> unused ?sb ?c" using u by blast
  then have "free_bit (?c ?B) 0 ?k \<noteq> None" using free_bit_None [of "?c ?B" 0 ?k m] by (auto simp: unused_def)
  then obtain n where n: "free_bit (?c ?B) 0 ?k = Some n" by blast
  have k: "?k \<le> BPB" "0 < ?k" using d m by (auto simp: disk_ok_def unused_def)
  obtain b v where v: "bread ROOTDEV ?B s = Ok b v" "log_inv p (b # L) v" "b_data (bufs v b) = ?c ?B" "txstep s v 0" "lg v = lg s"
    by (rule bread_log [OF inv(1) nl room]) blast+
  have "sblk v = ?sb" using txstep_fields [OF v(4)] by simp
  moreover have "seq (set_bdata b x) (seq (log_write b) k) v = Panic outside_trans" for x and k :: "u32 kop"
    by (rule log_write_panics [OF v(2)]) (use v(5) inv(2) room in \<open>auto simp: const_defs\<close>)
  moreover have "(?k + BPB - 1) div BPB = 1" using k by (simp add: div_nat_eqI)
  moreover have "min BPB ?k = ?k" using k by simp
  ultimately show ?thesis using v(1,3) n by (simp add: balloc_def BBLOCK_def bnd_Ok bdata_def)
qed

lemma bmap_outside:
  assumes inv: "log_inv p [] s" "l_outstanding (lg s) < 1" and d: "disk_ok (l_start (lg s)) M (sblk s) (content s)"
    and f: "file_ok M (sblk s) (content s) (itable s ip)" "i_dev (itable s ip) = ROOTDEV"
    and u: "unused (sblk s) (content s) \<noteq> {}" and room: "l_n (lg s) + 1 < int NBUF"
    and bn: "unat bn < MAXFILE" "unat bn \<notin> fmapped s ip"
  shows "bmap ip bn s = Panic outside_trans"
proof -
  let ?x = "itable s ip" and ?c = "content s"
  have 0: "balloc ROOTDEV s = Panic outside_trans" by (rule balloc_outside [OF inv d u]) (use room in auto)
  show ?thesis
  proof (cases "unat bn < NDIRECT")
    case True
    then show ?thesis using bn f(2) 0 by (simp add: bmap_def fmapped_def baddr_def bnd_Panic)
  next
    case False
    let ?ind = "i_addrs ?x ! NDIRECT" and ?k = "unat bn - NDIRECT"
    have k: "?k < NINDIRECT" using bn False by (simp add: MAXFILE_def)
    show ?thesis
    proof (cases "?ind = 0")
      case True
      then show ?thesis using False k f(2) 0 by (simp add: bmap_def Let_def bnd_Panic)
    next
      case i: False
      obtain b t where t: "bread ROOTDEV ?ind s = Ok b t" "log_inv p [b] t" "cached t ?ind b" "b_data (bufs t b) = ?c ?ind"
        "content t = ?c" "txstep s t 0" "lg t = lg s"
        by (rule bread_log [OF inv(1), of ?ind]) (use room in auto)
      have e: "get32 (?c ?ind) (4 * ?k) = 0" using bn(2) False i by (simp add: fmapped_def baddr_def)
      have sb: "sblk t = sblk s" using txstep_fields [OF t(6)] by simp
      have "?ind \<notin> M" using f(1) i by (simp add: file_ok_def data_block_def)
      then have "?ind \<noteq> sb_bmapstart (sblk s)" using d by (auto simp: disk_ok_def)
      then have "balloc ROOTDEV t = Panic outside_trans"
        by (intro balloc_outside [OF t(2)]) (use t(3,5,7) inv(2) d u room sb in \<open>auto simp: cached_def\<close>)
      then have "bmap_entry ROOTDEV ?ind ?k s = Panic outside_trans"
        using t(1,4) e by (simp add: bmap_entry_def bnd_Ok bdata_def bnd_Panic)
      then show ?thesis using False k i f(2) by (simp add: bmap_def Let_def)
    qed
  qed
qed

lemma writei_panics:
  assumes inv: "log_inv p [] s" "l_outstanding (lg s) < 1" and d: "disk_ok (l_start (lg s)) M (sblk s) (content s)"
    and f: "file_ok M (sblk s) (content s) (itable s ip)" "i_dev (itable s ip) = ROOTDEV"
    and u: "unused (sblk s) (content s) \<noteq> {}" and room: "l_n (lg s) + 1 < int NBUF"
    and off: "off \<le> i_size (itable s ip)" "unat off + unat n \<le> MAXFILE * BSIZE" "0 < n"
  shows "writei (from_kernel a) ip off n s = Panic outside_trans"
proof -
  have on: "unat (off + n) = unat off + unat n" using off(2) by (simp add: unat_add_lem [THEN iffD1] const_defs)
  have n: "0 < unat n" using off(3) by (simp add: word_less_nat_alt)
  then obtain k where k: "unat n = Suc k" by (cases "unat n") auto
  let ?w = "off div of_nat BSIZE :: u32"
  have w: "unat ?w = unat off div BSIZE" by (simp add: unat_div const_defs)
  have bn: "unat ?w < MAXFILE" unfolding w using off(2) n by (simp add: div_less_iff_less_mult)
  have "writei_loop (Suc k) (from_kernel a) ip 0 off n s = Panic outside_trans"
  proof (cases "unat ?w \<in> fmapped s ip")
    case False
    have "bmap ip ?w s = Panic outside_trans" by (rule bmap_outside [OF inv d f u room bn False])
    then show ?thesis using off(3) by (simp add: bnd_Panic)
  next
    case True
    let ?a = "baddr (content s) (itable s ip) (unat ?w)"
    obtain s1 where 1: "bmap ip ?w s = Ok ?a s1" "log_inv p [] s1" "content s1 = content s" "txstep s s1 0" "lg s1 = lg s"
      by (rule bmap_mapped [OF inv(1) f(2) bn True]) (use room in auto)
    have it: "itable s1 = itable s" using txstep_fields [OF 1(4)] by simp
    obtain b s2 where 2: "bread ROOTDEV ?a s1 = Ok b s2" "log_inv p [b] s2" "lg s2 = lg s1"
      by (rule bread_log [OF 1(2), of ?a]) (use 1(5) room in auto)
    have "seq (set_bdata b x) (seq (log_write b) k) s2 = Panic outside_trans" for x and k :: "(u32 \<times> u32) kop"
      by (rule log_write_panics [OF 2(2)]) (use 1(5) 2(3) inv(2) room in \<open>auto simp: const_defs\<close>)
    moreover have "?a \<noteq> 0" using True by (simp add: fmapped_def)
    ultimately show ?thesis using off(3) 1(1) 2(1) it f(2) by (simp add: bnd_Ok Let_def from_kernel_def bdata_def)
  qed
  then show ?thesis
    using off on by (simp add: writei_def k bnd_Panic word_less_nat_alt word_le_nat_alt)
qed

section \<open>Page replacement\<close>

text \<open>The swap file is open and unlocked, and no transaction is needed to describe the disk it is on.\<close>

definition swap_idle :: "nat \<Rightarrow> u32 set \<Rightarrow> nat \<Rightarrow> kstate \<Rightarrow> bool" where
  "swap_idle p M ip s \<longleftrightarrow> log_inv p [] s \<and> disk_ok (l_start (lg s)) M (sblk s) (content s) \<and>
     file_ok M (sblk s) (content s) (itable s ip) \<and> i_dev (itable s ip) = ROOTDEV \<and> 1 \<le> free_blocks s \<and> l_n (lg s) + 1 < int NBUF \<and>
     p_swap_inode (procs s p) = Some ip \<and> 1 \<le> i_ref (itable s ip) \<and> i_valid (itable s ip) \<and> \<not> sl_locked (i_lock (itable s ip))"

lemma swap_out_panics:
  assumes r: "swap_idle p M ip u" "l_outstanding (lg u) < 1" and slot: "slot < 67" "slot * 4096 \<le> unat (i_size (itable u ip))"
  shows "swap_out p va sq pte e (int slot) u = Panic outside_trans"
proof -
  let ?pid = "p_pid (procs u p)" and ?off = "word_of_int (int slot) * 4096 :: u32"
  note rd = r(1) [unfolded swap_idle_def]
  have li: "log_inv p [] u" using rd by simp
  have cu: "curproc u = Some p" "held u = []" using li by (auto simp: log_inv_def cache_inv_def)
  define u1 where "u1 = u\<lparr>klog := klog u @ [EVICT ?pid va True, SWAPOUT ?pid va slot]\<rparr>"
  define u2 where "u2 = upd_inode ip (\<lambda>x. x\<lparr>i_lock := \<lparr>sl_locked = True, sl_pid = ?pid\<rparr>\<rparr>) u1"
  have l: "ilock ip u1 = Ok () u2" using ilock_run [of u1 ip p] rd cu by (simp add: u1_def u2_def)
  have o2: "log_inv p [] u2" "content u2 = content u"
    by (rule log_inv_other [OF li]; simp add: u1_def u2_def upd_inode_def)+
  have f2: "lg u2 = lg u" "sblk u2 = sblk u" "itable u2 ip = (itable u ip)\<lparr>i_lock := \<lparr>sl_locked = True, sl_pid = ?pid\<rparr>\<rparr>"
    by (simp_all add: u1_def u2_def upd_inode_def)
  have b: "baddr c (x\<lparr>i_lock := k\<rparr>) = baddr c x" for c x k by (simp add: baddr_def fun_eq_iff)
  have fo: "file_ok M sb c (x\<lparr>i_lock := k\<rparr>) = file_ok M sb c x" for sb c x k unfolding file_ok_def b by simp
  note so = slot_offset [OF slot(1)]
  have "writei (from_kernel (PTE2PA e)) ip ?off 4096 u2 = Panic outside_trans"
  proof (rule writei_panics [OF o2(1)])
    show "unused (sblk u2) (content u2) \<noteq> {}" using rd o2(2) f2(2) by (auto simp: free_blocks_def)
    show "?off \<le> i_size (itable u2 ip)" using slot(2) f2(3) so by (simp add: word_le_nat_alt)
    show "unat ?off + unat (4096 :: u32) \<le> MAXFILE * BSIZE" using so slot(1) by (simp add: const_defs)
  qed (use rd r(2) o2 f2 fo in auto)
  then show ?thesis
    using rd l by (simp add: swap_out_def open_swap_def seq_Ok bnd_Ok u1_def bnd_Panic)
qed

lemma evict_outside:
  fixes s p
  defines "root \<equiv> p_pagetable (procs s p)"
  assumes inv: "vm_inv s p ((n, va, sq) # xs) ps" and r: "swap_idle p M ip s" "l_outstanding (lg s) < 1"
    and dirty: "pte_of (mem s) root va AND PTE_D \<noteq> 0 \<or> p_exe_end (procs s p) \<le> va"
    and sl: "slot_alloc (p_swap_slots (procs s p)) = Some (sl, slot)"
    and slot: "slot < 67" "slot * 4096 \<le> unat (i_size (itable s ip))"
  shows "do_page_replacement p s = Panic outside_trans"
proof -
  let ?e = "pte_of (mem s) root va"
  note h = vm_inv_head [OF inv] and rd = r(1) [unfolded swap_idle_def]
  have li: "log_inv p [] s" using rd by simp
  have hs: "held s = []" "curproc s = Some p" using li by (auto simp: log_inv_def cache_inv_def)
  obtain a where lf: "leaf (mem s) root va = Some a" using pte_valid_leaf [OF h(11)] by (auto simp: root_def)
  define u where "u = upd_proc p (\<lambda>q. q\<lparr>p_swap_slots := sl\<rparr>)
    ((unlinked p (read64 (mem s) (rp_next n)) s)\<lparr>klog := klog s @ [VICTIM (p_pid (procs s p)) va sq]\<rparr>)"
  have uf: "itable u = itable s" "lg u = lg s" "sblk u = sblk s" "p_swap_inode (procs u p) = Some ip"
    using rd by (simp_all add: u_def unlinked_def upd_proc_def)
  have uo: "log_inv p [] u" "content u = content s"
    by (rule log_inv_other [OF li]; simp add: u_def unlinked_def upd_proc_def)+
  then have "swap_idle p M ip u" using rd uf by (simp add: swap_idle_def free_blocks_def)
  then have "swap_out p va sq a ?e (int slot) u = Panic outside_trans"
    by (rule swap_out_panics) (use uf r(2) slot in auto)
  moreover have "do_page_replacement p s = seq (swap_out p va sq a ?e (int slot)) (seq (kfree n) (ret 1)) u"
    using dirty sl hs
    by (auto simp: do_page_replacement_step [OF inv _ lf [unfolded root_def]] evict_page_def bnd_swap_slot_alloc u_def
        unlinked_def upd_proc_def root_def)
  ultimately show ?thesis by (simp add: seq_Panic)
qed

text \<open>
  Property C19. Outside a file-system transaction replacement never leaves the victim swapped out. With the swap file open
  and unlocked, a free block on the disk, and a free slot within the file's limit and not past its end, the replacement
  of a page that needs swap (it is dirty, or lies at or above the end of the program) ends in the panic of
  \<open>log_write\<close>. And in every case, whenever replacement returns without a transaction, the victim's entry is 0: the
  page has been dropped and no slot is recorded for it.
\<close>

theorem no_swap_outside_transaction:
  assumes "vm_inv s p ((n, va, sq) # xs) ps" "l_outstanding (lg s) < 1"
  shows "(swap_idle p M ip s \<and> (pte_of (mem s) (p_pagetable (procs s p)) va AND PTE_D \<noteq> 0 \<or> p_exe_end (procs s p) \<le> va) \<and>
      slot_alloc (p_swap_slots (procs s p)) = Some (sl, slot) \<and> slot < 67 \<and> slot * 4096 \<le> unat (i_size (itable s ip)) \<longrightarrow>
      do_page_replacement p s = Panic ''log_write outside of trans'') \<and>
    (\<forall>r t. do_page_replacement p s = Ok r t \<longrightarrow> pte_of (mem t) (p_pagetable (procs t p)) va = 0)"
  using evict_outside [OF assms(1) _ assms(2)] evicted_outside [OF assms(1)] assms(2) by (auto simp: outstanding_def)

section \<open>The example disk outside a transaction\<close>

definition ex_idle :: kstate where
  "ex_idle = ex_swap\<lparr>lg := (lg ex_swap)\<lparr>l_outstanding := 0\<rparr>\<rparr>"

lemma ex_idle_swap: "swap_idle 0 ex_meta 1 ex_idle"
proof -
  have c: "content ex_idle = content ex_swap" by (simp add: ex_idle_def content_def [abs_def] cached_def [abs_def] cong: list.case_cong)
  have "log_inv 0 [] ex_idle"
    using ex_swap_log by (simp add: ex_idle_def log_inv_def cache_inv_def cached_def log_ok_def logged_def)
  moreover have "lg ex_idle = (lg ex_swap)\<lparr>l_outstanding := 0\<rparr>" "sblk ex_idle = sblk ex_swap" "itable ex_idle = itable ex_swap"
    "procs ex_idle = procs ex_swap" by (simp_all add: ex_idle_def)
  ultimately show ?thesis
    using ex_swap_ready c by (simp add: swap_idle_def swap_ready_def file_tx_def free_blocks_def const_defs)
qed

theorem no_swap_outside_transaction_witness:
  "do_page_replacement 0 ex_idle = Panic ''log_write outside of trans''"
proof -
  have inv: "vm_inv ex_idle 0 [(0x80025000, 0, 7)] (0x8002a000 # ex_free)"
    by (rule vm_inv_frame(1) [OF ex_swap_inv, where P = "{}"]) (simp_all add: ex_idle_def same_except_def)
  have sl: "slot_alloc (p_swap_slots (procs ex_idle 0)) = Some ((replicate 128 0)[0 := 1], 0)"
    unfolding ex_idle_def by (simp add: ex_swap_fields ex_proc_def) code_simp
  have "p_exe_end (procs ex_idle 0) = 0" "l_outstanding (lg ex_idle) < 1" by (simp_all add: ex_idle_def ex_swap_fields)
  then show ?thesis
    using no_swap_outside_transaction [OF inv, of ex_meta 1 "(replicate 128 0)[0 := 1]" 0] ex_idle_swap sl by simp
qed

end
