(* ===== verification/Xv6_Virtio.thy ===== *)
theory Xv6_Virtio
  imports Xv6_Vm
begin

text \<open>
  kernel/virtio_disk.c and kernel/virtio.h: the driver of the disk. Its descriptors, rings and request headers are the
  state; each operation below is the code between taking \<open>vdisk_lock\<close> and releasing it or going to sleep, which no other
  thread can interrupt. The threads inside \<open>virtio_disk_rw\<close>, the turns of the interrupt handler and the device interleave
  as the steps of \<open>vstep\<close>. The device acts between these pieces of code, not inside one: it reads a request only once the
  index of the ring has been advanced, and the driver reads a completion only once the device has advanced the other index.
  Writing the notification register tells the device nothing the ring does not, and is left out.
\<close>

section \<open>Definitions of virtio.h\<close>

definition VIRTIO_MMIO_MAGIC_VALUE :: nat where "VIRTIO_MMIO_MAGIC_VALUE = 0x000"
definition VIRTIO_MMIO_VERSION :: nat where "VIRTIO_MMIO_VERSION = 0x004"
definition VIRTIO_MMIO_DEVICE_ID :: nat where "VIRTIO_MMIO_DEVICE_ID = 0x008"
definition VIRTIO_MMIO_VENDOR_ID :: nat where "VIRTIO_MMIO_VENDOR_ID = 0x00c"
definition VIRTIO_MMIO_DEVICE_FEATURES :: nat where "VIRTIO_MMIO_DEVICE_FEATURES = 0x010"
definition VIRTIO_MMIO_DRIVER_FEATURES :: nat where "VIRTIO_MMIO_DRIVER_FEATURES = 0x020"
definition VIRTIO_MMIO_QUEUE_SEL :: nat where "VIRTIO_MMIO_QUEUE_SEL = 0x030"
definition VIRTIO_MMIO_QUEUE_NUM_MAX :: nat where "VIRTIO_MMIO_QUEUE_NUM_MAX = 0x034"
definition VIRTIO_MMIO_QUEUE_NUM :: nat where "VIRTIO_MMIO_QUEUE_NUM = 0x038"
definition VIRTIO_MMIO_QUEUE_READY :: nat where "VIRTIO_MMIO_QUEUE_READY = 0x044"
definition VIRTIO_MMIO_STATUS :: nat where "VIRTIO_MMIO_STATUS = 0x070"
definition VIRTIO_MMIO_QUEUE_DESC_LOW :: nat where "VIRTIO_MMIO_QUEUE_DESC_LOW = 0x080"
definition VIRTIO_MMIO_QUEUE_DESC_HIGH :: nat where "VIRTIO_MMIO_QUEUE_DESC_HIGH = 0x084"
definition VIRTIO_MMIO_DRIVER_DESC_LOW :: nat where "VIRTIO_MMIO_DRIVER_DESC_LOW = 0x090"
definition VIRTIO_MMIO_DRIVER_DESC_HIGH :: nat where "VIRTIO_MMIO_DRIVER_DESC_HIGH = 0x094"
definition VIRTIO_MMIO_DEVICE_DESC_LOW :: nat where "VIRTIO_MMIO_DEVICE_DESC_LOW = 0x0a0"
definition VIRTIO_MMIO_DEVICE_DESC_HIGH :: nat where "VIRTIO_MMIO_DEVICE_DESC_HIGH = 0x0a4"

definition VIRTIO_CONFIG_S_ACKNOWLEDGE :: u32 where "VIRTIO_CONFIG_S_ACKNOWLEDGE = 1"
definition VIRTIO_CONFIG_S_DRIVER :: u32 where "VIRTIO_CONFIG_S_DRIVER = 2"
definition VIRTIO_CONFIG_S_DRIVER_OK :: u32 where "VIRTIO_CONFIG_S_DRIVER_OK = 4"
definition VIRTIO_CONFIG_S_FEATURES_OK :: u32 where "VIRTIO_CONFIG_S_FEATURES_OK = 8"

definition VIRTIO_BLK_F_RO :: nat where "VIRTIO_BLK_F_RO = 5"
definition VIRTIO_BLK_F_SCSI :: nat where "VIRTIO_BLK_F_SCSI = 7"
definition VIRTIO_BLK_F_CONFIG_WCE :: nat where "VIRTIO_BLK_F_CONFIG_WCE = 11"
definition VIRTIO_BLK_F_MQ :: nat where "VIRTIO_BLK_F_MQ = 12"
definition VIRTIO_F_ANY_LAYOUT :: nat where "VIRTIO_F_ANY_LAYOUT = 27"
definition VIRTIO_RING_F_INDIRECT_DESC :: nat where "VIRTIO_RING_F_INDIRECT_DESC = 28"
definition VIRTIO_RING_F_EVENT_IDX :: nat where "VIRTIO_RING_F_EVENT_IDX = 29"

definition NUM :: nat where "NUM = 8"
definition VRING_DESC_F_NEXT :: u16 where "VRING_DESC_F_NEXT = 1"
definition VRING_DESC_F_WRITE :: u16 where "VRING_DESC_F_WRITE = 2"
definition VIRTIO_BLK_T_IN :: u32 where "VIRTIO_BLK_T_IN = 0"
definition VIRTIO_BLK_T_OUT :: u32 where "VIRTIO_BLK_T_OUT = 1"

text \<open>
  The addresses the driver puts into descriptors: of a request header \<open>ops[i]\<close>, of the data of a buffer, of a status byte
  \<open>info[i].status\<close>.
\<close>

datatype dma = DmaNull | DmaOps nat | DmaData nat | DmaStatus nat

record virtq_desc =
  d_addr :: dma
  d_len :: u32
  d_flags :: u16
  d_next :: u16

record virtq_used_elem =
  u_id :: u32
  u_len :: u32

record virtio_blk_req =
  r_type :: u32
  r_reserved :: u32
  r_sector :: u64

record vinfo =
  in_b :: "nat option"
  in_status :: u8

section \<open>The state of the driver\<close>

text \<open>
  \<open>struct disk\<close> with the three shared areas it points to, the fields of \<open>struct buf\<close> the driver uses, the channels on which
  threads sleep; and of the device, how far it has read the ring of requests, the requests it has taken from it, and the
  sectors of the medium.
\<close>

record vdisk =
  v_desc :: "nat \<Rightarrow> virtq_desc"
  v_avail_idx :: u16
  v_avail_ring :: "nat \<Rightarrow> u16"
  v_used_idx :: u16
  v_used_ring :: "nat \<Rightarrow> virtq_used_elem"
  v_free :: "nat \<Rightarrow> bool"
  v_seen :: u16
  v_info :: "nat \<Rightarrow> vinfo"
  v_ops :: "nat \<Rightarrow> virtio_blk_req"
  v_blockno :: "nat \<Rightarrow> u32"
  v_data :: "nat \<Rightarrow> u8 list"
  v_disk :: "nat \<Rightarrow> bool"
  v_chan :: "nat \<Rightarrow> chan option"
  v_last :: u16
  v_taken :: "nat set"
  v_media :: "u64 \<Rightarrow> u8 list"

type_synonym 'a vop = "(vdisk, 'a) op"

text \<open>What \<open>wakeup\<close>, and \<open>sleep\<close> of thread \<open>t\<close>, do to the channels; the functions themselves are in \<open>Xv6_Locks\<close>.\<close>

definition vwakeup :: "chan \<Rightarrow> vdisk \<Rightarrow> vdisk" where
  "vwakeup c d = d\<lparr>v_chan := \<lambda>t. if v_chan d t = Some c then None else v_chan d t\<rparr>"

definition vsleep :: "nat \<Rightarrow> chan \<Rightarrow> vdisk \<Rightarrow> vdisk" where
  "vsleep t c d = d\<lparr>v_chan := (v_chan d)(t := Some c)\<rparr>"

section \<open>Descriptors\<close>

definition alloc_desc :: "int vop" where
  "alloc_desc =
     bnd (gets (\<lambda>d. find (v_free d) [0..<NUM])) (\<lambda>r.
     case r of
       Some i \<Rightarrow> seq (modify (\<lambda>d. d\<lparr>v_free := (v_free d)(i := False)\<rparr>)) (ret (int i))
     | None \<Rightarrow> ret (- 1))"

definition free_desc :: "nat \<Rightarrow> unit vop" where
  "free_desc i =
     (if NUM \<le> i then panic ''free_desc 1'' else
      bnd (gets (\<lambda>d. v_free d i)) (\<lambda>f.
      if f then panic ''free_desc 2'' else
      seq (modify (\<lambda>d. d\<lparr>v_desc := (v_desc d)(i := \<lparr>d_addr = DmaNull, d_len = 0, d_flags = 0, d_next = 0\<rparr>)\<rparr>)) (
      seq (modify (\<lambda>d. d\<lparr>v_free := (v_free d)(i := True)\<rparr>)) (
      modify (vwakeup ChDisk)))))"

text \<open>The table of descriptors is a page, so that an index below 256 is inside it.\<close>

fun free_chain_loop :: "nat \<Rightarrow> nat \<Rightarrow> unit vop" where
  "free_chain_loop 0 i = diverge"
| "free_chain_loop (Suc fuel) i =
     (if 256 \<le> i then undefined_behaviour else
      bnd (gets (\<lambda>d. v_desc d i)) (\<lambda>e.
      seq (free_desc i) (
      if d_flags e AND VRING_DESC_F_NEXT \<noteq> 0 then free_chain_loop fuel (unat (d_next e)) else skip)))"

definition free_chain :: "nat \<Rightarrow> unit vop" where
  "free_chain i = free_chain_loop (Suc NUM) i"

fun free_descs :: "nat list \<Rightarrow> unit vop" where
  "free_descs [] = skip"
| "free_descs (i # is) = seq (free_desc i) (free_descs is)"

fun alloc3_loop :: "nat \<Rightarrow> nat list \<Rightarrow> nat list option vop" where
  "alloc3_loop 0 idx = ret (Some idx)"
| "alloc3_loop (Suc k) idx =
     bnd alloc_desc (\<lambda>i.
     if i < 0 then seq (free_descs idx) (ret None) else alloc3_loop k (idx @ [nat i]))"

definition alloc3_desc :: "nat list option vop" where
  "alloc3_desc = alloc3_loop 3 []"

section \<open>Requests\<close>

text \<open>The product is one of 32-bit integers, as \<open>blockno\<close> is an \<open>uint\<close>.\<close>

definition sector_of :: "u32 \<Rightarrow> u64" where
  "sector_of blockno = ucast (blockno * of_nat (BSIZE div 512))"

definition format_request :: "nat \<Rightarrow> bool \<Rightarrow> nat \<Rightarrow> nat \<Rightarrow> nat \<Rightarrow> vdisk \<Rightarrow> vdisk" where
  "format_request b write i0 i1 i2 d = d\<lparr>
     v_ops := (v_ops d)(i0 := \<lparr>r_type = if write then VIRTIO_BLK_T_OUT else VIRTIO_BLK_T_IN, r_reserved = 0,
       r_sector = sector_of (v_blockno d b)\<rparr>),
     v_desc := (v_desc d)(
       i0 := \<lparr>d_addr = DmaOps i0, d_len = 16, d_flags = VRING_DESC_F_NEXT, d_next = of_nat i1\<rparr>,
       i1 := \<lparr>d_addr = DmaData b, d_len = of_nat BSIZE,
         d_flags = (if write then 0 else VRING_DESC_F_WRITE) OR VRING_DESC_F_NEXT, d_next = of_nat i2\<rparr>,
       i2 := \<lparr>d_addr = DmaStatus i0, d_len = 1, d_flags = VRING_DESC_F_WRITE, d_next = 0\<rparr>),
     v_disk := (v_disk d)(b := True),
     v_info := (v_info d)(i0 := \<lparr>in_b = Some b, in_status = 0xff\<rparr>)\<rparr>"

definition publish :: "nat \<Rightarrow> vdisk \<Rightarrow> vdisk" where
  "publish i0 d = d\<lparr>
     v_avail_ring := (v_avail_ring d)(unat (v_avail_idx d) mod NUM := of_nat i0),
     v_avail_idx := v_avail_idx d + 1\<rparr>"

text \<open>
  \<open>virtio_disk_rw\<close> up to its first sleep: the first descriptor of the request, or none when the thread must wait for
  descriptors; and after the interrupt handler has cleared \<open>b->disk\<close>.
\<close>

definition vd_start :: "nat \<Rightarrow> bool \<Rightarrow> nat option vop" where
  "vd_start b write =
     bnd alloc3_desc (\<lambda>r.
     case r of
       None \<Rightarrow> ret None
     | Some idx \<Rightarrow>
         seq (modify (format_request b write (idx ! 0) (idx ! 1) (idx ! 2))) (
         seq (modify (publish (idx ! 0))) (
         ret (Some (idx ! 0)))))"

definition vd_finish :: "nat \<Rightarrow> unit vop" where
  "vd_finish i0 =
     seq (modify (\<lambda>d. d\<lparr>v_info := (v_info d)(i0 := (v_info d i0)\<lparr>in_b := None\<rparr>)\<rparr>)) (
     free_chain i0)"

text \<open>
  The completion interrupt: one turn of the loop of \<open>virtio_disk_intr\<close>, which says whether there was an entry of the used
  ring to handle, and the loop, which runs until the driver has seen as many entries as the device has added. The
  acknowledgement of the interrupt changes nothing the driver reads.
\<close>

definition vd_intr_turn :: "bool vop" where
  "vd_intr_turn =
     bnd (gets (\<lambda>d. v_seen d \<noteq> v_used_idx d)) (\<lambda>more.
     if \<not> more then ret False else
     bnd (gets (\<lambda>d. unat (u_id (v_used_ring d (unat (v_seen d) mod NUM))))) (\<lambda>i.
     if NUM \<le> i then undefined_behaviour else
     bnd (gets (\<lambda>d. v_info d i)) (\<lambda>x.
     if in_status x \<noteq> 0 then panic ''virtio_disk_intr status'' else
     case in_b x of
       None \<Rightarrow> undefined_behaviour
     | Some b \<Rightarrow>
         seq (modify (\<lambda>d. d\<lparr>v_disk := (v_disk d)(b := False)\<rparr>)) (
         seq (modify (vwakeup (ChBuf b))) (
         seq (modify (\<lambda>d. d\<lparr>v_seen := v_seen d + 1\<rparr>)) (
         ret True))))))"

fun vd_intr_loop :: "nat \<Rightarrow> unit vop" where
  "vd_intr_loop 0 = diverge"
| "vd_intr_loop (Suc fuel) = bnd vd_intr_turn (\<lambda>more. if more then vd_intr_loop fuel else skip)"

definition vd_intr :: "unit vop" where
  "vd_intr = bnd (gets (\<lambda>d. Suc (unat (v_used_idx d - v_seen d)))) vd_intr_loop"

section \<open>Initialisation\<close>

text \<open>
  \<open>virtio_disk_init\<close>: \<open>rd\<close> gives what the device answers for a register, \<open>st\<close> the status it shows after the features have
  been negotiated. The result is the sequence of register writes and the three pages of the queue.
\<close>

definition blk_features :: "u32 \<Rightarrow> u64" where
  "blk_features f = ucast f AND NOT (push_bit VIRTIO_BLK_F_RO 1) AND NOT (push_bit VIRTIO_BLK_F_SCSI 1) AND
     NOT (push_bit VIRTIO_BLK_F_CONFIG_WCE 1) AND NOT (push_bit VIRTIO_BLK_F_MQ 1) AND NOT (push_bit VIRTIO_F_ANY_LAYOUT 1) AND
     NOT (push_bit VIRTIO_RING_F_EVENT_IDX 1) AND NOT (push_bit VIRTIO_RING_F_INDIRECT_DESC 1)"

definition virtio_disk_init :: "(nat \<Rightarrow> u32) \<Rightarrow> u32 \<Rightarrow> ((nat \<times> u32) list \<times> u64 \<times> u64 \<times> u64) kop" where
  "virtio_disk_init rd st =
     (let s1 = VIRTIO_CONFIG_S_ACKNOWLEDGE; s2 = s1 OR VIRTIO_CONFIG_S_DRIVER; s3 = s2 OR VIRTIO_CONFIG_S_FEATURES_OK in
      if rd VIRTIO_MMIO_MAGIC_VALUE \<noteq> 0x74726976 \<or> rd VIRTIO_MMIO_VERSION \<noteq> 2 \<or> rd VIRTIO_MMIO_DEVICE_ID \<noteq> 2 \<or>
         rd VIRTIO_MMIO_VENDOR_ID \<noteq> 0x554d4551 then panic ''could not find virtio disk''
      else if st AND VIRTIO_CONFIG_S_FEATURES_OK = 0 then panic ''virtio disk FEATURES_OK unset''
      else if rd VIRTIO_MMIO_QUEUE_READY \<noteq> 0 then panic ''virtio disk should not be ready''
      else if rd VIRTIO_MMIO_QUEUE_NUM_MAX = 0 then panic ''virtio disk has no queue 0''
      else if rd VIRTIO_MMIO_QUEUE_NUM_MAX < of_nat NUM then panic ''virtio disk max queue too short''
      else
        bnd kalloc (\<lambda>desc.
        bnd kalloc (\<lambda>avail.
        bnd kalloc (\<lambda>used.
        if desc = 0 \<or> avail = 0 \<or> used = 0 then panic ''virtio disk kalloc'' else
        seq (fill_page desc 0) (
        seq (fill_page avail 0) (
        seq (fill_page used 0) (
        ret ([(VIRTIO_MMIO_STATUS, 0), (VIRTIO_MMIO_STATUS, s1), (VIRTIO_MMIO_STATUS, s2),
              (VIRTIO_MMIO_DRIVER_FEATURES, ucast (blk_features (rd VIRTIO_MMIO_DEVICE_FEATURES))),
              (VIRTIO_MMIO_STATUS, s3), (VIRTIO_MMIO_QUEUE_SEL, 0), (VIRTIO_MMIO_QUEUE_NUM, of_nat NUM),
              (VIRTIO_MMIO_QUEUE_DESC_LOW, ucast desc), (VIRTIO_MMIO_QUEUE_DESC_HIGH, ucast (drop_bit 32 desc)),
              (VIRTIO_MMIO_DRIVER_DESC_LOW, ucast avail), (VIRTIO_MMIO_DRIVER_DESC_HIGH, ucast (drop_bit 32 avail)),
              (VIRTIO_MMIO_DEVICE_DESC_LOW, ucast used), (VIRTIO_MMIO_DEVICE_DESC_HIGH, ucast (drop_bit 32 used)),
              (VIRTIO_MMIO_QUEUE_READY, 1), (VIRTIO_MMIO_STATUS, st OR VIRTIO_CONFIG_S_DRIVER_OK)],
             desc, avail, used))))))))"

text \<open>The driver's state then: every descriptor is free, the rings are zero.\<close>

definition vdisk_boot :: "(nat \<Rightarrow> u32) \<Rightarrow> (nat \<Rightarrow> u8 list) \<Rightarrow> (u64 \<Rightarrow> u8 list) \<Rightarrow> vdisk" where
  "vdisk_boot blockno data media = \<lparr>
     v_desc = (\<lambda>_. \<lparr>d_addr = DmaNull, d_len = 0, d_flags = 0, d_next = 0\<rparr>), v_avail_idx = 0, v_avail_ring = (\<lambda>_. 0),
     v_used_idx = 0, v_used_ring = (\<lambda>_. \<lparr>u_id = 0, u_len = 0\<rparr>), v_free = (\<lambda>i. i < NUM), v_seen = 0,
     v_info = (\<lambda>_. \<lparr>in_b = None, in_status = 0\<rparr>), v_ops = (\<lambda>_. \<lparr>r_type = 0, r_reserved = 0, r_sector = 0\<rparr>),
     v_blockno = blockno, v_data = data, v_disk = (\<lambda>_. False), v_chan = (\<lambda>_. None), v_last = 0, v_taken = {},
     v_media = media\<rparr>"

section \<open>Threads, interrupts and the device\<close>

text \<open>
  A thread is outside \<open>virtio_disk_rw\<close>, waits for descriptors for buffer \<open>b\<close>, or waits for its request, whose chain
  starts at descriptor \<open>i\<close>; then \<open>bs\<close> remembers what the buffer held when the request was made.
\<close>

datatype vthread = VOut | VTry nat bool | VWait nat bool nat "u8 list"

fun vbuf :: "vthread \<Rightarrow> nat option" where
  "vbuf VOut = None"
| "vbuf (VTry b w) = Some b"
| "vbuf (VWait b w i bs) = Some b"

record vsys =
  sd :: vdisk
  thr :: "nat \<Rightarrow> vthread"
  intr :: bool

text \<open>
  The rules are: a buffer nobody transfers may change hands, with any contents and block number; a call of
  \<open>virtio_disk_rw\<close> by the holder of the buffer's lock, which is the only one for its block; the turn of the first loop that
  finds descriptors, and one that does not; the second loop, which ends when the interrupt handler has cleared \<open>b->disk\<close>;
  the handler, which holds the lock from its first turn to its last; and the device, at any time. That a block has one
  buffer and a buffer one holder is what the buffer cache provides. Block numbers are below \<open>2 ^ 31\<close>, so that the
  product in \<open>sector_of\<close> does not wrap; the disk has \<open>FSSIZE\<close> = 2000 blocks.
\<close>

inductive vstep :: "(vdisk \<Rightarrow> vdisk \<Rightarrow> bool) \<Rightarrow> vsys \<Rightarrow> vsys \<Rightarrow> bool" for dev where
  own: "\<forall>t. vbuf (thr g t) \<noteq> Some b \<Longrightarrow> length bs = BSIZE \<Longrightarrow> unat n < 2 ^ 31 \<Longrightarrow>
    vstep dev g (g\<lparr>sd := (sd g)\<lparr>v_data := (v_data (sd g))(b := bs), v_blockno := (v_blockno (sd g))(b := n)\<rparr>\<rparr>)"
| call: "thr g t = VOut \<Longrightarrow> \<forall>u c. vbuf (thr g u) = Some c \<longrightarrow> c \<noteq> b \<and> v_blockno (sd g) c \<noteq> v_blockno (sd g) b \<Longrightarrow>
    vstep dev g (g\<lparr>thr := (thr g)(t := VTry b w)\<rparr>)"
| start: "thr g t = VTry b w \<Longrightarrow> v_chan (sd g) t = None \<Longrightarrow> \<not> intr g \<Longrightarrow> vd_start b w (sd g) = Ok (Some i) d \<Longrightarrow>
    vstep dev g (g\<lparr>sd := vsleep t (ChBuf b) d, thr := (thr g)(t := VWait b w i (v_data (sd g) b))\<rparr>)"
| full: "thr g t = VTry b w \<Longrightarrow> v_chan (sd g) t = None \<Longrightarrow> \<not> intr g \<Longrightarrow> vd_start b w (sd g) = Ok None d \<Longrightarrow>
    vstep dev g (g\<lparr>sd := vsleep t ChDisk d\<rparr>)"
| again: "thr g t = VWait b w i bs \<Longrightarrow> v_chan (sd g) t = None \<Longrightarrow> \<not> intr g \<Longrightarrow> v_disk (sd g) b \<Longrightarrow>
    vstep dev g (g\<lparr>sd := vsleep t (ChBuf b) (sd g)\<rparr>)"
| finish: "thr g t = VWait b w i bs \<Longrightarrow> v_chan (sd g) t = None \<Longrightarrow> \<not> intr g \<Longrightarrow> \<not> v_disk (sd g) b \<Longrightarrow>
    vd_finish i (sd g) = Ok () d \<Longrightarrow> vstep dev g (g\<lparr>sd := d, thr := (thr g)(t := VOut)\<rparr>)"
| intr_on: "\<not> intr g \<Longrightarrow> vstep dev g (g\<lparr>intr := True\<rparr>)"
| intr_turn: "intr g \<Longrightarrow> vd_intr_turn (sd g) = Ok m d \<Longrightarrow> vstep dev g (g\<lparr>sd := d, intr := m\<rparr>)"
| device: "dev (sd g) d \<Longrightarrow> vstep dev g (g\<lparr>sd := d\<rparr>)"

inductive vreach :: "(vdisk \<Rightarrow> vdisk \<Rightarrow> bool) \<Rightarrow> vsys \<Rightarrow> bool" for dev where
  boot: "\<forall>b. length (data b) = BSIZE \<and> unat (blockno b) < 2 ^ 31 \<Longrightarrow> \<forall>x. length (media x) = 512 \<Longrightarrow>
    vreach dev \<lparr>sd = vdisk_boot blockno data media, thr = \<lambda>_. VOut, intr = False\<rparr>"
| step: "vreach dev g \<Longrightarrow> vstep dev g g' \<Longrightarrow> vreach dev g'"

text \<open>
  What the driver relies on of the device: it takes requests from the ring in order, and serves each request it has taken
  once, in any order, by moving the sectors the descriptors describe, clearing the status byte and only then adding the
  chain to the used ring.
\<close>

definition device_fetches :: "vdisk \<Rightarrow> vdisk option" where
  "device_fetches d =
     (if v_last d = v_avail_idx d then None
      else Some (d\<lparr>v_taken := insert (unat (v_avail_ring d (unat (v_last d) mod NUM))) (v_taken d), v_last := v_last d + 1\<rparr>))"

definition dma_transfer :: "virtio_blk_req \<Rightarrow> nat \<Rightarrow> nat \<Rightarrow> vdisk \<Rightarrow> vdisk" where
  "dma_transfer r b n d =
     (if r_type r = VIRTIO_BLK_T_IN then
        d\<lparr>v_data := (v_data d)(b := concat (map (\<lambda>k. v_media d (r_sector r + of_nat k)) [0..<n]))\<rparr>
      else
        d\<lparr>v_media := \<lambda>x. if unat (x - r_sector r) < n then take 512 (drop (512 * unat (x - r_sector r)) (v_data d b))
          else v_media d x\<rparr>)"

definition device_completes :: "nat \<Rightarrow> vdisk \<Rightarrow> vdisk option" where
  "device_completes i d =
     (let e0 = v_desc d i; e1 = v_desc d (unat (d_next e0)); e2 = v_desc d (unat (d_next e1)) in
      case (d_addr e0, d_addr e1, d_addr e2) of
        (DmaOps j, DmaData b, DmaStatus k) \<Rightarrow>
          (let d' = dma_transfer (v_ops d j) b (unat (d_len e1) div 512) d in
           Some (d'\<lparr>v_info := (v_info d)(k := (v_info d k)\<lparr>in_status := 0\<rparr>),
             v_used_ring := (v_used_ring d)(unat (v_used_idx d) mod NUM := \<lparr>u_id = of_nat i, u_len = d_len e1\<rparr>),
             v_used_idx := v_used_idx d + 1, v_taken := v_taken d - {i}\<rparr>))
      | _ \<Rightarrow> None)"

definition device_step :: "vdisk \<Rightarrow> vdisk \<Rightarrow> bool" where
  "device_step d d' \<longleftrightarrow> device_fetches d = Some d' \<or> (\<exists>i \<in> v_taken d. device_completes i d = Some d')"

definition serves :: "(vdisk \<Rightarrow> vdisk \<Rightarrow> bool) \<Rightarrow> bool" where
  "serves dev \<longleftrightarrow> (\<forall>d d'. dev d d' \<longrightarrow> device_step d d')"

definition willing :: "(vdisk \<Rightarrow> vdisk \<Rightarrow> bool) \<Rightarrow> bool" where
  "willing dev \<longleftrightarrow> (\<forall>d d'. device_step d d' \<longrightarrow> dev d d')"

end
