(* ===== verification/Xv6_Vdisk.thy ===== *)
theory Xv6_Vdisk
  imports Xv6_Virtio
begin

text \<open>
  The disk driver under every interleaving of threads, interrupts and device: its invariant, and what follows from it.
\<close>

section \<open>Allocating and freeing descriptors\<close>

definition desc0 :: virtq_desc where
  "desc0 = \<lparr>d_addr = DmaNull, d_len = 0, d_flags = 0, d_next = 0\<rparr>"

text \<open>The state after the descriptors \<open>I\<close> have been freed.\<close>

definition released :: "nat set \<Rightarrow> vdisk \<Rightarrow> vdisk" where
  "released I d = d\<lparr>v_desc := \<lambda>i. if i \<in> I then desc0 else v_desc d i, v_free := \<lambda>i. i \<in> I \<or> v_free d i,
     v_chan := \<lambda>t. if I \<noteq> {} \<and> v_chan d t = Some ChDisk then None else v_chan d t\<rparr>"

definition free_set :: "vdisk \<Rightarrow> nat set" where
  "free_set d = {i. i < NUM \<and> v_free d i}"

lemma free_set_finite [simp]: "finite (free_set d)"
  by (simp add: free_set_def)

lemma free_desc_run: "i < NUM \<Longrightarrow> \<not> v_free d i \<Longrightarrow> free_desc i d = Ok () (released {i} d)"
  by (simp add: free_desc_def released_def vwakeup_def desc0_def fun_upd_def imp_conv_disj cong: if_cong)

lemma released_empty [simp]: "released {} d = d"
  by (simp add: released_def)

lemma released_released: "released J (released I d) = released (I \<union> J) d"
  by (rule vdisk.equality) (auto simp: released_def fun_eq_iff)

lemma free_descs_run:
  assumes "set is \<subseteq> {..<NUM}" "\<forall>i\<in>set is. \<not> v_free d i" "distinct is"
  shows "free_descs is d = Ok () (released (set is) d)"
  using assms
proof (induction "is" arbitrary: d)
  case (Cons i "is")
  then have "free_desc i d = Ok () (released {i} d)" by (intro free_desc_run) auto
  moreover have "free_descs is (released {i} d) = Ok () (released (set is) (released {i} d))"
    using Cons.prems by (intro Cons.IH) (auto simp: released_def)
  ultimately show ?case by (simp add: seq_Ok released_released insert_commute)
qed simp

lemma alloc_desc_run:
  "alloc_desc d = (case find (v_free d) [0..<NUM] of
     Some i \<Rightarrow> Ok (int i) (d\<lparr>v_free := (v_free d)(i := False)\<rparr>) | None \<Rightarrow> Ok (- 1) d)"
  by (simp add: alloc_desc_def split: option.split)

lemma alloc3_loop_run:
  assumes "set idx \<subseteq> {..<NUM}" "\<forall>i\<in>set idx. \<not> v_free d i" "distinct idx"
  shows "(\<exists>is. alloc3_loop k idx d = Ok (Some (idx @ is)) (d\<lparr>v_free := \<lambda>i. v_free d i \<and> i \<notin> set is\<rparr>) \<and>
      length is = k \<and> distinct (idx @ is) \<and> set is \<subseteq> free_set d) \<or>
    (\<exists>I \<subseteq> free_set d. alloc3_loop k idx d = Ok None (released (set idx \<union> I) d) \<and> card (free_set d) < k)"
  using assms
proof (induction k arbitrary: idx d)
  case 0
  have "alloc3_loop 0 idx d = Ok (Some (idx @ [])) (d\<lparr>v_free := \<lambda>i. v_free d i \<and> i \<notin> set []\<rparr>)" by simp
  then show ?case using 0 by (intro disjI1) fastforce
next
  case (Suc k)
  show ?case
  proof (cases "find (v_free d) [0..<NUM]")
    case None
    then have "free_set d = {}" by (auto simp: find_None_iff free_set_def)
    moreover have "alloc3_loop (Suc k) idx d = Ok None (released (set idx) d)"
      using None free_descs_run [OF Suc.prems] by (simp add: alloc_desc_run bnd_Ok seq_Ok)
    ultimately show ?thesis by (intro disjI2 exI [of _ "{}"]) auto
  next
    case (Some i)
    then have i: "i < NUM" "v_free d i" by (auto simp: find_Some_iff)
    let ?d = "d\<lparr>v_free := (v_free d)(i := False)\<rparr>"
    have eq: "alloc3_loop (Suc k) idx d = alloc3_loop k (idx @ [i]) ?d" using Some by (simp add: alloc_desc_run bnd_Ok)
    have fs: "free_set ?d = free_set d - {i}" "i \<in> free_set d" using i by (auto simp: free_set_def)
    have ni: "i \<notin> set idx" using Suc.prems(2) i by auto
    have "(\<exists>is. alloc3_loop k (idx @ [i]) ?d = Ok (Some ((idx @ [i]) @ is)) (?d\<lparr>v_free := \<lambda>j. v_free ?d j \<and> j \<notin> set is\<rparr>) \<and>
        length is = k \<and> distinct ((idx @ [i]) @ is) \<and> set is \<subseteq> free_set ?d) \<or>
      (\<exists>I \<subseteq> free_set ?d. alloc3_loop k (idx @ [i]) ?d = Ok None (released (set (idx @ [i]) \<union> I) ?d) \<and> card (free_set ?d) < k)"
      using Suc.prems i ni by (intro Suc.IH) auto
    then show ?thesis
    proof (elim disjE exE conjE)
      fix "is" assume a: "alloc3_loop k (idx @ [i]) ?d = Ok (Some ((idx @ [i]) @ is)) (?d\<lparr>v_free := \<lambda>j. v_free ?d j \<and> j \<notin> set is\<rparr>)"
        "length is = k" "distinct ((idx @ [i]) @ is)" "set is \<subseteq> free_set ?d"
      have "?d\<lparr>v_free := \<lambda>j. v_free ?d j \<and> j \<notin> set is\<rparr> = d\<lparr>v_free := \<lambda>j. v_free d j \<and> j \<notin> set (i # is)\<rparr>"
        by (rule vdisk.equality) (auto simp: fun_eq_iff)
      then show ?thesis using a eq fs by (intro disjI1 exI [of _ "i # is"]) auto
    next
      fix I assume a: "I \<subseteq> free_set ?d" "alloc3_loop k (idx @ [i]) ?d = Ok None (released (set (idx @ [i]) \<union> I) ?d)"
        "card (free_set ?d) < k"
      have "released (set (idx @ [i]) \<union> I) ?d = released (set idx \<union> insert i I) d"
        by (rule vdisk.equality) (auto simp: released_def fun_eq_iff)
      moreover have "card (free_set d) < Suc k" using a(3) fs by (simp add: card_Diff_singleton)
      ultimately show ?thesis using a(1,2) eq fs by (intro disjI2 exI [of _ "insert i I"]) auto
    qed
  qed
qed

text \<open>Starting a request: three free descriptors are taken, or fewer than three are free.\<close>

lemma vd_start_run:
  obtains (got) i0 i1 i2 where "vd_start b w d = Ok (Some i0)
      (publish i0 (format_request b w i0 i1 i2 (d\<lparr>v_free := \<lambda>i. v_free d i \<and> i \<notin> {i0, i1, i2}\<rparr>)))"
    "distinct [i0, i1, i2]" "{i0, i1, i2} \<subseteq> free_set d"
  | (none) I where "vd_start b w d = Ok None (released I d)" "I \<subseteq> free_set d" "card (free_set d) < 3"
proof -
  from alloc3_loop_run [of "[]" d 3] consider
    (a) "is" where "alloc3_desc d = Ok (Some is) (d\<lparr>v_free := \<lambda>i. v_free d i \<and> i \<notin> set is\<rparr>)" "length is = 3" "distinct is"
      "set is \<subseteq> free_set d"
    | (b) I where "alloc3_desc d = Ok None (released I d)" "I \<subseteq> free_set d" "card (free_set d) < 3"
    by (auto simp: alloc3_desc_def)
  then show thesis
  proof cases
    case a
    then obtain i0 i1 i2 where "is": "is = [i0, i1, i2]" by (auto simp: numeral_3_eq_3 length_Suc_conv)
    then show thesis using got [of i0 i1 i2] a by (simp add: vd_start_def bnd_Ok seq_Ok)
  next
    case b
    then show thesis using none by (simp add: vd_start_def bnd_Ok)
  qed
qed

section \<open>Rings\<close>

text \<open>The entries of a ring of \<open>NUM\<close> slots between two free-running 16-bit indices.\<close>

definition ring_list :: "(nat \<Rightarrow> nat) \<Rightarrow> u16 \<Rightarrow> u16 \<Rightarrow> nat list" where
  "ring_list f a z = map (\<lambda>k. f ((unat a + k) mod NUM)) [0..<unat (z - a)]"

lemma ring_wrap: "(unat a + unat (z - a)) mod NUM = unat (z :: u16) mod NUM"
proof -
  have "unat z = unat (a + (z - a))" by simp
  also have "\<dots> = (unat a + unat (z - a)) mod 65536" unfolding unat_word_ariths(1) [of a "z - a"] by simp
  finally show ?thesis by (simp add: NUM_def mod_mod_cancel)
qed

lemma ring_dist: "a \<noteq> (z :: u16) \<Longrightarrow> unat (z - a) = Suc (unat (z - (a + 1)))"
proof -
  assume "a \<noteq> z"
  then have "z - a \<noteq> 0" by simp
  then have "unat (z - a - 1) = unat (z - a) - 1" "unat (z - a) \<noteq> 0" by (simp_all add: unat_minus_one unat_eq_zero)
  then show ?thesis by (simp add: algebra_simps)
qed

lemma ring_push:
  assumes "length (ring_list f a z) < NUM"
  shows "ring_list (f(unat z mod NUM := x)) a (z + 1) = ring_list f a z @ [x]"
proof -
  let ?n = "unat (z - a)"
  have n: "?n < NUM" using assms by (simp add: ring_list_def)
  have "z + 1 - a = (z - a) + 1" by simp
  moreover have "unat (z - a + 1) = Suc ?n" using n unat_word_ariths(1) [of "z - a" 1] by (simp add: NUM_def)
  ultimately have z1: "unat (z + 1 - a) = Suc ?n" by (simp only:)
  have "(unat a + k) mod NUM \<noteq> unat z mod NUM" if "k < ?n" for k
  proof
    assume "(unat a + k) mod NUM = unat z mod NUM"
    then have "(unat a + k) mod NUM = (unat a + ?n) mod NUM" by (simp add: ring_wrap)
    then have "NUM dvd (unat a + ?n) - (unat a + k)" using that by (subst (asm) eq_commute) (simp add: mod_eq_dvd_iff_nat)
    then show False using that n by (auto dest: dvd_imp_le)
  qed
  then show ?thesis by (auto simp: ring_list_def z1 ring_wrap)
qed

lemma ring_pop:
  assumes "a \<noteq> z"
  shows "ring_list f a z = f (unat a mod NUM) # ring_list f (a + 1) z"
proof -
  have s: "unat (a + 1) mod NUM = Suc (unat a) mod NUM" using ring_wrap [of a "a + 1"] by simp
  have "(unat (a + 1) + k) mod NUM = (unat a + Suc k) mod NUM" for k
    using mod_add_cong [OF s refl, of k] by simp
  then show ?thesis using ring_dist [OF assms] by (simp add: ring_list_def upt_conv_Cons map_Suc_upt [symmetric] del: upt_Suc)
qed

lemma ring_nil: "ring_list f a z = [] \<longleftrightarrow> a = z"
  by (auto simp: ring_list_def unat_eq_zero)

section \<open>The invariant\<close>

definition nx :: "vdisk \<Rightarrow> nat \<Rightarrow> nat" where
  "nx d i = unat (d_next (v_desc d i))"

definition foot :: "vdisk \<Rightarrow> nat \<Rightarrow> nat set" where
  "foot d i = {i, nx d i, nx d (nx d i)}"

text \<open>The three descriptors and the header of a request.\<close>

definition descs :: "vdisk \<Rightarrow> nat \<Rightarrow> bool \<Rightarrow> nat \<Rightarrow> bool" where
  "descs d b w i \<longleftrightarrow> distinct [i, nx d i, nx d (nx d i)] \<and> foot d i \<subseteq> {..<NUM} \<and>
     d_addr (v_desc d i) = DmaOps i \<and> d_flags (v_desc d i) = VRING_DESC_F_NEXT \<and>
     d_addr (v_desc d (nx d i)) = DmaData b \<and> d_len (v_desc d (nx d i)) = of_nat BSIZE \<and>
     d_flags (v_desc d (nx d i)) = (if w then 0 else VRING_DESC_F_WRITE) OR VRING_DESC_F_NEXT \<and>
     d_addr (v_desc d (nx d (nx d i))) = DmaStatus i \<and> d_flags (v_desc d (nx d (nx d i))) = VRING_DESC_F_WRITE"

definition chain :: "vdisk \<Rightarrow> nat \<Rightarrow> bool \<Rightarrow> nat \<Rightarrow> bool" where
  "chain d b w i \<longleftrightarrow> descs d b w i \<and>
     v_ops d i = \<lparr>r_type = if w then VIRTIO_BLK_T_OUT else VIRTIO_BLK_T_IN, r_reserved = 0, r_sector = sector_of (v_blockno d b)\<rparr> \<and>
     in_b (v_info d i) = Some b"

lemma descs_cong:
  assumes "\<And>k. k \<in> foot d i \<Longrightarrow> v_desc d' k = v_desc d k"
  shows "descs d' b w i = descs d b w i" "foot d' i = foot d i"
proof -
  have n: "nx d' i = nx d i" "nx d' (nx d i) = nx d (nx d i)" using assms(1) by (simp_all add: nx_def foot_def)
  then show "foot d' i = foot d i" by (simp add: foot_def)
  then show "descs d' b w i = descs d b w i" using n assms by (simp add: descs_def) (simp add: foot_def)
qed

lemma chain_cong:
  assumes "\<And>k. k \<in> foot d i \<Longrightarrow> v_desc d' k = v_desc d k" "v_ops d' i = v_ops d i" "v_blockno d' b = v_blockno d b"
    "in_b (v_info d' i) = in_b (v_info d i)"
  shows "chain d' b w i = chain d b w i"
  using assms descs_cong(1) [of d i d' b w] by (simp add: chain_def)

text \<open>The requests the device has still to fetch or to serve, and the completions the driver has still to see.\<close>

definition unfetched :: "vdisk \<Rightarrow> nat list" where
  "unfetched d = ring_list (\<lambda>k. unat (v_avail_ring d k)) (v_last d) (v_avail_idx d)"

definition pending :: "vdisk \<Rightarrow> nat set" where
  "pending d = set (unfetched d) \<union> v_taken d"

definition unseen :: "vdisk \<Rightarrow> nat list" where
  "unseen d = ring_list (\<lambda>k. unat (u_id (v_used_ring d k))) (v_seen d) (v_used_idx d)"

definition block_at :: "vdisk \<Rightarrow> u32 \<Rightarrow> u8 list" where
  "block_at d n = v_media d (sector_of n) @ v_media d (sector_of n + 1)"

text \<open>A request is queued, then served, then seen by the interrupt handler.\<close>

definition wait_ok :: "vdisk \<Rightarrow> nat \<Rightarrow> bool \<Rightarrow> nat \<Rightarrow> u8 list \<Rightarrow> bool" where
  "wait_ok d b w i bs \<longleftrightarrow> chain d b w i \<and> (w \<longrightarrow> v_data d b = bs) \<and>
     (if i \<in> pending d then i \<notin> set (unseen d) \<and> v_disk d b
      else in_status (v_info d i) = 0 \<and> v_data d b = block_at d (v_blockno d b) \<and> (v_disk d b \<longleftrightarrow> i \<in> set (unseen d)))"

fun vhead :: "vthread \<Rightarrow> nat option" where
  "vhead (VWait b w i bs) = Some i"
| "vhead _ = None"

definition heads :: "(nat \<Rightarrow> vthread) \<Rightarrow> nat set" where
  "heads T = {i. \<exists>t. vhead (T t) = Some i}"

definition rings_ok :: "vdisk \<Rightarrow> nat set \<Rightarrow> bool" where
  "rings_ok d H \<longleftrightarrow> distinct (unfetched d) \<and> set (unfetched d) \<inter> v_taken d = {} \<and> distinct (unseen d) \<and>
     pending d \<subseteq> H \<and> set (unseen d) \<subseteq> H"

definition bufs_apart :: "vdisk \<Rightarrow> (nat \<Rightarrow> vthread) \<Rightarrow> bool" where
  "bufs_apart d T \<longleftrightarrow> (\<forall>t u b c. t \<noteq> u \<and> vbuf (T t) = Some b \<and> vbuf (T u) = Some c \<longrightarrow>
     b \<noteq> c \<and> v_blockno d b \<noteq> v_blockno d c)"

definition feet_apart :: "vdisk \<Rightarrow> (nat \<Rightarrow> vthread) \<Rightarrow> bool" where
  "feet_apart d T \<longleftrightarrow> (\<forall>t u i j. t \<noteq> u \<and> vhead (T t) = Some i \<and> vhead (T u) = Some j \<longrightarrow> foot d i \<inter> foot d j = {})"

definition sleep_ok :: "vdisk \<Rightarrow> vthread \<Rightarrow> chan option \<Rightarrow> bool" where
  "sleep_ok d x c \<longleftrightarrow> c = None \<or> (\<exists>b w. x = VTry b w \<and> c = Some ChDisk \<and> card (free_set d) < 3) \<or>
     (\<exists>b w i bs. x = VWait b w i bs \<and> c = Some (ChBuf b) \<and> v_disk d b)"

definition vinv :: "vdisk \<Rightarrow> (nat \<Rightarrow> vthread) \<Rightarrow> bool" where
  "vinv d T \<longleftrightarrow> (\<forall>t b w i bs. T t = VWait b w i bs \<longrightarrow> wait_ok d b w i bs) \<and>
     bufs_apart d T \<and> feet_apart d T \<and> rings_ok d (heads T) \<and> free_set d = {..<NUM} - (\<Union>i\<in>heads T. foot d i) \<and>
     (\<forall>t. sleep_ok d (T t) (v_chan d t)) \<and>
     (\<forall>b. length (v_data d b) = BSIZE \<and> unat (v_blockno d b) < 2 ^ 31) \<and> (\<forall>x. length (v_media d x) = 512)"

lemma vinvD:
  assumes "vinv d T"
  shows "T t = VWait b w i bs \<Longrightarrow> wait_ok d b w i bs" "rings_ok d (heads T)" "bufs_apart d T" "feet_apart d T"
    "free_set d = {..<NUM} - (\<Union>i\<in>heads T. foot d i)" "sleep_ok d (T t) (v_chan d t)"
    "length (v_data d b) = BSIZE" "unat (v_blockno d b) < 2 ^ 31" "length (v_media d x) = 512"
  using assms by (simp_all add: vinv_def)

lemma headsI: "T t = VWait b w i bs \<Longrightarrow> i \<in> heads T"
  unfolding heads_def by (metis (mono_tags) mem_Collect_eq vhead.simps(1))

lemma vhead_Some: "vhead x = Some i \<longleftrightarrow> (\<exists>b w bs. x = VWait b w i bs)"
  by (cases x) auto

lemma heads_upd: "vhead (T t) = None \<Longrightarrow> heads (T(t := x)) = heads T \<union> set_option (vhead x)"
  by (auto simp: heads_def split: if_splits; metis option.distinct(1))

lemma vinv_boot:
  assumes "\<forall>b. length (data b) = BSIZE \<and> unat (blockno b) < 2 ^ 31" "\<forall>x. length (media x) = 512"
  shows "vinv (vdisk_boot blockno data media) (\<lambda>_. VOut)"
  using assms by (auto simp: vinv_def vdisk_boot_def bufs_apart_def feet_apart_def rings_ok_def heads_def free_set_def sleep_ok_def
    unfetched_def unseen_def pending_def ring_list_def)

section \<open>Every step keeps it\<close>

lemma wait_ok_cong:
  assumes "wait_ok d b w i bs" "\<And>k. k \<in> foot d i \<Longrightarrow> v_desc d' k = v_desc d k" "v_ops d' i = v_ops d i"
    "v_blockno d' b = v_blockno d b" "v_info d' i = v_info d i" "v_data d' b = v_data d b" "v_disk d' b = v_disk d b"
    "i \<in> pending d' \<longleftrightarrow> i \<in> pending d" "i \<in> set (unseen d') \<longleftrightarrow> i \<in> set (unseen d)"
    "block_at d' (v_blockno d b) = block_at d (v_blockno d b)"
  shows "wait_ok d' b w i bs"
  using assms chain_cong [of d i d' b w] by (auto simp: wait_ok_def)

lemma head_feet:
  assumes "vinv d T" "i \<in> heads T"
  shows "foot d i \<subseteq> {..<NUM}" "i \<in> foot d i" "i < NUM" "foot d i \<inter> free_set d = {}"
proof -
  obtain t b w bs where "T t = VWait b w i bs" using assms(2) by (auto simp: heads_def vhead_Some)
  then have "chain d b w i" using vinvD(1) [OF assms(1)] by (simp add: wait_ok_def)
  then show f: "foot d i \<subseteq> {..<NUM}" by (simp add: chain_def descs_def)
  show "i \<in> foot d i" by (simp add: foot_def)
  then show "i < NUM" using f by auto
  show "foot d i \<inter> free_set d = {}" using assms(2) vinvD(5) [OF assms(1)] by auto
qed

lemma vinv_cong:
  assumes inv: "vinv d T" and f: "\<And>i k. i \<in> heads T \<Longrightarrow> k \<in> foot d i \<Longrightarrow> v_desc d' k = v_desc d k" "free_set d' = free_set d"
    "v_ops d' = v_ops d" "v_blockno d' = v_blockno d" "v_info d' = v_info d" "v_data d' = v_data d" "v_disk d' = v_disk d"
    "pending d' = pending d" "unseen d' = unseen d" "v_media d' = v_media d" "rings_ok d' (heads T)"
    and c: "\<And>t. sleep_ok d (T t) (v_chan d' t)"
  shows "vinv d' T"
proof -
  have ft: "foot d' i = foot d i" if "i \<in> heads T" for i by (rule descs_cong) (use f(1) that in auto)
  have "wait_ok d' b w i bs" if "T t = VWait b w i bs" for t b w i bs
  proof (rule wait_ok_cong [OF vinvD(1) [OF inv that]])
    have "i \<in> heads T" by (rule headsI [of T, OF that])
    then show "v_desc d' k = v_desc d k" if "k \<in> foot d i" for k using f(1) that by auto
  qed (use f in \<open>auto simp: block_at_def\<close>)
  moreover have "bufs_apart d' T" using vinvD(3) [OF inv] f(4) by (simp add: bufs_apart_def)
  moreover have "feet_apart d' T" using vinvD(4) [OF inv] ft unfolding feet_apart_def heads_def by simp blast
  moreover have "sleep_ok d' x y = sleep_ok d x y" for x y using f by (simp add: sleep_ok_def)
  ultimately show ?thesis using inv f c ft unfolding vinv_def by auto
qed

lemma vinv_full:
  assumes inv: "vinv d T" and I: "I \<subseteq> free_set d" "card (free_set d) < 3" and t: "T t = VTry b w"
  shows "vinv (vsleep t ChDisk (released I d)) T"
proof (rule vinv_cong [OF inv])
  show fs: "free_set (vsleep t ChDisk (released I d)) = free_set d"
    using I(1) by (auto simp: free_set_def vsleep_def released_def)
  show "v_desc (vsleep t ChDisk (released I d)) k = v_desc d k" if "i \<in> heads T" "k \<in> foot d i" for i k
    using head_feet(4) [OF inv that(1)] that(2) I(1) by (auto simp: vsleep_def released_def)
  show "sleep_ok d (T u) (v_chan (vsleep t ChDisk (released I d)) u)" for u
    using vinvD(6) [OF inv, of u] I(2) t by (auto simp: vsleep_def released_def sleep_ok_def)
qed (use vinvD(2) [OF inv] in \<open>simp_all add: vsleep_def released_def unfetched_def unseen_def pending_def rings_ok_def\<close>)

lemma vinv_again:
  assumes "vinv d T" "T t = VWait b w i bs" "v_disk d b"
  shows "vinv (vsleep t (ChBuf b) d) T"
  by (rule vinv_cong [OF assms(1)])
    (use vinvD(2,6) [OF assms(1)] assms(2,3) in
      \<open>auto simp: vsleep_def free_set_def unfetched_def unseen_def pending_def rings_ok_def sleep_ok_def\<close>)

lemma vinv_call:
  assumes inv: "vinv d T" and t: "T t = VOut" and b: "\<forall>u c. vbuf (T u) = Some c \<longrightarrow> c \<noteq> b \<and> v_blockno d c \<noteq> v_blockno d b"
  shows "vinv d (T(t := VTry b w))"
proof -
  have h: "heads (T(t := VTry b w)) = heads T" using heads_upd [of T t "VTry b w"] t by simp
  have "bufs_apart d (T(t := VTry b w))" using vinvD(3) [OF inv] b unfolding bufs_apart_def by auto metis
  moreover have "feet_apart d (T(t := VTry b w))" using vinvD(4) [OF inv] unfolding feet_apart_def by auto
  moreover have "sleep_ok d ((T(t := VTry b w)) u) (v_chan d u)" for u
    using vinvD(6) [OF inv, of u] t by (auto simp: sleep_ok_def)
  ultimately show ?thesis using inv unfolding vinv_def h by auto
qed

lemma vinv_own:
  assumes inv: "vinv d T" and b: "\<forall>t. vbuf (T t) \<noteq> Some b" and l: "length bs = BSIZE" "unat n < 2 ^ 31"
  shows "vinv (d\<lparr>v_data := (v_data d)(b := bs), v_blockno := (v_blockno d)(b := n)\<rparr>) T" (is "vinv ?d T")
proof -
  have ft: "foot ?d i = foot d i" for i by (rule descs_cong) simp
  have u: "unfetched ?d = unfetched d" "unseen ?d = unseen d" "pending ?d = pending d" "free_set ?d = free_set d"
    by (simp_all add: unfetched_def unseen_def pending_def free_set_def)
  have "wait_ok ?d c w i cs" if "T t = VWait c w i cs" for t c w i cs
  proof (rule wait_ok_cong [OF vinvD(1) [OF inv that]])
    have "c \<noteq> b" using b that by (metis vbuf.simps(3))
    then show "v_blockno ?d c = v_blockno d c" "v_data ?d c = v_data d c" by simp_all
  qed (simp_all add: u block_at_def)
  moreover have "bufs_apart ?d T" using vinvD(3) [OF inv] b unfolding bufs_apart_def by auto
  moreover have "feet_apart ?d T" using vinvD(4) [OF inv] by (simp add: feet_apart_def ft)
  moreover have "rings_ok ?d (heads T)" using vinvD(2) [OF inv] by (simp add: rings_ok_def u)
  moreover have "sleep_ok ?d x y = sleep_ok d x y" for x y by (simp add: sleep_ok_def u)
  ultimately show ?thesis using inv l unfolding vinv_def ft u by simp
qed

text \<open>A new request.\<close>

lemma card_heads:
  assumes "vinv d T" "distinct is" "set is \<subseteq> heads T - {i}" "i < NUM"
  shows "length is < NUM"
proof -
  have "set is \<subseteq> {..<NUM} - {i}" using assms(3) head_feet(3) [OF assms(1)] by auto
  then have "card (set is) \<le> card ({..<NUM} - {i})" by (intro card_mono) auto
  then show ?thesis using assms(2,4) by (simp add: distinct_card)
qed

lemma unat_slot: "i < NUM \<Longrightarrow> unat (of_nat i :: 'a::len word) = i" if "4 \<le> LENGTH('a)"
proof -
  assume "i < NUM"
  then have "i < 2 ^ 4" by (simp add: NUM_def)
  also have "(2::nat) ^ 4 \<le> 2 ^ LENGTH('a)" using that by (intro power_increasing) auto
  finally show ?thesis by (simp add: unsigned_of_nat take_bit_nat_eq_self)
qed

lemma feet_apart_upd:
  assumes f: "feet_apart d T" "\<And>j. j \<in> heads T \<Longrightarrow> foot d' j = foot d j"
    and x: "\<And>i j. vhead x = Some i \<Longrightarrow> j \<in> heads T \<Longrightarrow> foot d' i \<inter> foot d j = {}"
  shows "feet_apart d' (T(t := x))"
  unfolding feet_apart_def
proof (intro allI impI)
  fix r u i j assume a: "r \<noteq> u \<and> vhead ((T(t := x)) r) = Some i \<and> vhead ((T(t := x)) u) = Some j"
  have h: "vhead (T u) = Some j \<Longrightarrow> j \<in> heads T" for u j by (auto simp: heads_def)
  consider "r = t" "u \<noteq> t" | "r \<noteq> t" "u = t" | "r \<noteq> t" "u \<noteq> t" using a by blast
  then show "foot d' i \<inter> foot d' j = {}"
  proof cases
    case 1
    then show ?thesis using a x [of i j] f(2) [of j] h [of u j] by auto
  next
    case 2
    then show ?thesis using a x [of j i] f(2) [of i] h [of r i] by (auto simp: Int_commute)
  next
    case 3
    then show ?thesis using a f(1) f(2) [of i] f(2) [of j] h [of r i] h [of u j] unfolding feet_apart_def by auto
  qed
qed

lemma vinv_start:
  assumes inv: "vinv d T" and t: "T t = VTry b w" and i: "distinct [i0, i1, i2]" "{i0, i1, i2} \<subseteq> free_set d"
    and d': "d' = vsleep t (ChBuf b) (publish i0 (format_request b w i0 i1 i2 (d\<lparr>v_free := \<lambda>i. v_free d i \<and> i \<notin> {i0, i1, i2}\<rparr>)))"
  shows "vinv d' (T(t := VWait b w i0 (v_data d b)))" (is "vinv d' ?T")
proof -
  have n: "i0 < NUM" "i1 < NUM" "i2 < NUM" using i(2) by (auto simp: free_set_def)
  have h: "heads ?T = insert i0 (heads T)" using heads_upd [of T t "VWait b w i0 (v_data d b)"] t by auto
  have nh: "i0 \<notin> heads T" using head_feet(2,4) [OF inv] i(2) by auto
  note r = vinvD(2) [OF inv, unfolded rings_ok_def]
  have len: "length (unfetched d) < NUM"
    by (rule card_heads [OF inv _ _ n(1)]) (use r nh in \<open>auto simp: pending_def\<close>)
  have "(\<lambda>k. unat (v_avail_ring d' k)) = (\<lambda>k. unat (v_avail_ring d k))(unat (v_avail_idx d) mod NUM := i0)"
    using n(1) by (auto simp: d' vsleep_def publish_def format_request_def unat_slot)
  then have uf: "unfetched d' = unfetched d @ [i0]"
    using ring_push len unfolding unfetched_def by (simp add: d' vsleep_def publish_def format_request_def)
  have us: "unseen d' = unseen d" by (simp add: unseen_def d' vsleep_def publish_def format_request_def)
  have tk: "v_taken d' = v_taken d" by (simp add: d' vsleep_def publish_def format_request_def)
  have pd: "pending d' = insert i0 (pending d)" by (auto simp: pending_def uf tk)
  have fld: "v_blockno d' = v_blockno d" "v_data d' = v_data d" "v_media d' = v_media d" "v_disk d' = (v_disk d)(b := True)"
    "v_chan d' = (v_chan d)(t := Some (ChBuf b))"
    by (simp_all add: d' vsleep_def publish_def format_request_def)
  have fs: "free_set d' = free_set d - {i0, i1, i2}" by (auto simp: free_set_def d' vsleep_def publish_def format_request_def)
  have old: "v_desc d' k = v_desc d k" "v_ops d' k = v_ops d k" "v_info d' k = v_info d k" if "k \<notin> {i0, i1, i2}" for k
    using that by (simp_all add: d' vsleep_def publish_def format_request_def)
  have oh: "k \<notin> {i0, i1, i2}" if "j \<in> heads T" "k \<in> foot d j" for j k
    using head_feet(4) [OF inv that(1)] that(2) i(2) by auto
  have ft: "foot d' j = foot d j" if "j \<in> heads T" for j by (rule descs_cong) (use old(1) oh that in auto)
  have nw: "nx d' i0 = i1" "nx d' i1 = i2"
    using i(1) n by (simp_all add: nx_def d' vsleep_def publish_def format_request_def unat_slot)
  have f0: "foot d' i0 = {i0, i1, i2}" by (simp add: foot_def nw)
  have "chain d' b w i0"
    unfolding chain_def descs_def f0 nw using i(1) n by (auto simp: d' vsleep_def publish_def format_request_def)
  then have wt: "wait_ok d' b w i0 (v_data d b)" using r nh by (auto simp: wait_ok_def pd us fld)
  have "wait_ok d' c v j cs" if u: "?T u = VWait c v j cs" for u c v j cs
  proof (cases "u = t")
    case False
    then have j: "T u = VWait c v j cs" using u by simp
    then have jh: "j \<in> heads T" by (rule headsI [of T])
    have jn: "j \<notin> {i0, i1, i2}" using oh [OF jh] head_feet(2) [OF inv jh] by auto
    have "c \<noteq> b" using vinvD(3) [OF inv] False t j unfolding bufs_apart_def by (metis vbuf.simps(2,3))
    then show ?thesis
      by (intro wait_ok_cong [OF vinvD(1) [OF inv j]]) (use old jn oh [OF jh] in \<open>auto simp: fld pd us block_at_def\<close>)
  qed (use u wt in auto)
  moreover have "bufs_apart d' ?T" using vinvD(3) [OF inv] t unfolding bufs_apart_def fld by (auto split: if_splits) (metis vbuf.simps(2))+
  moreover have "feet_apart d' ?T"
    by (rule feet_apart_upd [OF vinvD(4) [OF inv] ft]) (use oh f0 in auto)
  moreover have "rings_ok d' (heads ?T)" unfolding rings_ok_def uf us tk pd h using r nh by (auto simp: pending_def)
  moreover have "free_set d' = {..<NUM} - (\<Union>j\<in>heads ?T. foot d' j)"
    unfolding h fs using f0 ft vinvD(5) [OF inv] by auto
  moreover have "sleep_ok d' (?T u) (v_chan d' u)" for u
    using vinvD(6) [OF inv, of u] fs card_mono [of "free_set d" "free_set d'"] by (auto simp: fld sleep_ok_def)
  ultimately show ?thesis using vinvD(7-9) [OF inv] by (auto simp: vinv_def fld)
qed

text \<open>The end of a request: its chain is freed.\<close>

lemma free_chain_run:
  assumes c: "descs d b w i" and f: "foot d i \<inter> free_set d = {}"
  shows "free_chain i d = Ok () (released (foot d i) d)"
proof -
  let ?j = "nx d i" and ?k = "nx d (nx d i)"
  have n: "i < NUM" "?j < NUM" "?k < NUM" and ds: "i \<noteq> ?j" "i \<noteq> ?k" "?j \<noteq> ?k"
    using c by (auto simp: descs_def foot_def)
  have nf: "\<not> v_free d i" "\<not> v_free d ?j" "\<not> v_free d ?k" using f n by (auto simp: foot_def free_set_def)
  have fl: "d_flags (v_desc d i) AND 1 \<noteq> 0" "d_flags (v_desc d ?j) AND 1 \<noteq> 0" "d_flags (v_desc d ?k) AND 1 = 0"
    using c by (auto simp: descs_def VRING_DESC_F_NEXT_def VRING_DESC_F_WRITE_def)
  have small: "\<not> 256 \<le> m" if "m < NUM" for m using that by (simp add: NUM_def)
  have 1: "free_desc i d = Ok () (released {i} d)" by (rule free_desc_run) (use n nf in auto)
  have 2: "free_desc ?j (released {i} d) = Ok () (released {i, ?j} d)"
    by (subst free_desc_run) (use n nf ds in \<open>auto simp: released_released insert_commute, simp add: released_def\<close>)
  have 3: "free_desc ?k (released {i, ?j} d) = Ok () (released {i, ?j, ?k} d)"
    by (subst free_desc_run) (use n nf ds in \<open>auto simp: released_released insert_commute, simp add: released_def\<close>)
  have r: "v_desc (released {i} d) ?j = v_desc d ?j" "v_desc (released {i, ?j} d) ?k = v_desc d ?k"
    using ds by (auto simp: released_def)
  have e: "unat (d_next (v_desc d i)) = ?j" "unat (d_next (v_desc d ?j)) = ?k" by (simp_all add: nx_def)
  have "free_chain_loop (Suc (Suc (Suc m))) i d = Ok () (released {i, ?j, ?k} d)" for m
    using 1 2 3 fl small n by (simp add: seq_Ok r e VRING_DESC_F_NEXT_def)
  then show ?thesis by (simp add: free_chain_def NUM_def foot_def eval_nat_numeral)
qed

lemma heads_drop:
  assumes inv: "vinv d T" and t: "T t = VWait b w i bs"
  shows "heads (T(t := VOut)) = heads T - {i}"
proof -
  have u: "vhead (T u) \<noteq> Some i" if "u \<noteq> t" for u
  proof
    assume "vhead (T u) = Some i"
    then have "foot d i \<inter> foot d i = {}" using vinvD(4) [OF inv] that t unfolding feet_apart_def by (metis vhead.simps(1))
    then show False by (simp add: foot_def)
  qed
  have "j \<in> heads (T(t := VOut))" if j: "j \<in> heads T" "j \<noteq> i" for j
  proof -
    obtain u where "vhead (T u) = Some j" using j(1) by (auto simp: heads_def)
    then have "vhead ((T(t := VOut)) u) = Some j" using j(2) t by auto
    then show ?thesis unfolding heads_def by blast
  qed
  moreover have "heads (T(t := VOut)) \<subseteq> heads T - {i}" using u by (auto simp: heads_def split: if_splits)
  ultimately show ?thesis by blast
qed

definition forgotten :: "nat \<Rightarrow> vdisk \<Rightarrow> vdisk" where
  "forgotten i d = d\<lparr>v_info := (v_info d)(i := (v_info d i)\<lparr>in_b := None\<rparr>)\<rparr>"

lemma vd_finish_run:
  assumes inv: "vinv d T" and t: "T t = VWait b w i bs"
  shows "vd_finish i d = Ok () (released (foot d i) (forgotten i d))"
proof -
  have h: "i \<in> heads T" by (rule headsI [of T, OF t])
  have c: "chain d b w i" using vinvD(1) [OF inv t] by (simp add: wait_ok_def)
  have ft: "foot (forgotten i d) = foot d" by (rule ext, rule descs_cong) (simp add: forgotten_def)
  have "descs (forgotten i d) b w i" using c descs_cong(1) [of d i "forgotten i d"] by (simp add: chain_def forgotten_def)
  moreover have "foot d i \<inter> free_set (forgotten i d) = {}" using head_feet(4) [OF inv h] by (simp add: forgotten_def free_set_def)
  ultimately have "free_chain i (forgotten i d) = Ok () (released (foot d i) (forgotten i d))"
    using free_chain_run [of "forgotten i d"] by (simp add: ft)
  then show ?thesis by (simp add: vd_finish_def forgotten_def)
qed

lemma vinv_finish:
  assumes inv: "vinv d T" and t: "T t = VWait b w i bs" "\<not> v_disk d b" "v_chan d t = None"
    and d': "d' = released (foot d i) (forgotten i d)"
  shows "vinv d' (T(t := VOut))" (is "vinv _ ?T")
proof -
  have h: "i \<in> heads T" by (rule headsI [of T, OF t(1)])
  have hd: "heads ?T = heads T - {i}" by (rule heads_drop [OF inv t(1)])
  have no: "i \<notin> pending d" "i \<notin> set (unseen d)" using vinvD(1) [OF inv t(1)] t(2) by (auto simp: wait_ok_def split: if_splits)
  have u: "unfetched d' = unfetched d" "unseen d' = unseen d" "pending d' = pending d" "v_taken d' = v_taken d"
    "v_blockno d' = v_blockno d" "v_data d' = v_data d" "v_media d' = v_media d" "v_disk d' = v_disk d" "v_ops d' = v_ops d"
    by (simp_all add: unfetched_def unseen_def pending_def d' released_def forgotten_def)
  have fs: "free_set d' = free_set d \<union> foot d i"
    using head_feet(1) [OF inv h] by (auto simp: free_set_def d' released_def forgotten_def)
  have ap: "foot d j \<inter> foot d i = {}" if j: "j \<in> heads T - {i}" for j
  proof -
    obtain r where r: "vhead (T r) = Some j" using j by (auto simp: heads_def)
    then have "r \<noteq> t" using j t(1) by auto
    then show ?thesis using vinvD(4) [OF inv] r t(1) unfolding feet_apart_def by (metis vhead.simps(1))
  qed
  have old: "v_desc d' k = v_desc d k" if "j \<in> heads T - {i}" "k \<in> foot d j" for j k
    using ap [OF that(1)] that(2) by (auto simp: d' released_def forgotten_def)
  have inf: "v_info d' j = v_info d j" if "j \<noteq> i" for j using that by (simp add: d' released_def forgotten_def)
  have ft: "foot d' j = foot d j" if "j \<in> heads T - {i}" for j by (rule descs_cong) (use old that in auto)
  have "wait_ok d' c v j cs" if a: "?T r = VWait c v j cs" for r c v j cs
  proof -
    have "T r = VWait c v j cs" using a by (auto split: if_splits)
    moreover have "j \<in> heads T - {i}" using headsI [of ?T, OF a] by (simp add: hd)
    ultimately show ?thesis
      by (intro wait_ok_cong [OF vinvD(1) [OF inv]]) (use old inf in \<open>auto simp: u block_at_def\<close>)
  qed
  moreover have "bufs_apart d' ?T" using vinvD(3) [OF inv] unfolding bufs_apart_def u by auto
  moreover have "feet_apart d' ?T"
  proof -
    have "vhead (T r) = Some j \<and> foot d' j = foot d j" if a: "vhead (?T r) = Some j" for r j
    proof -
      have "j \<in> heads ?T" using a unfolding heads_def by blast
      then show ?thesis using ft [of j] a by (auto simp: hd split: if_splits)
    qed
    then show ?thesis using vinvD(4) [OF inv] unfolding feet_apart_def by metis
  qed
  moreover have "rings_ok d' (heads ?T)" using vinvD(2) [OF inv] no unfolding rings_ok_def u hd by (auto simp: pending_def)
  moreover have "free_set d' = {..<NUM} - (\<Union>j\<in>heads ?T. foot d' j)"
  proof -
    have "(\<Union>j\<in>heads ?T. foot d' j) = (\<Union>j\<in>heads T - {i}. foot d j)" using ft unfolding hd by auto
    moreover have "(\<Union>j\<in>heads T. foot d j) = foot d i \<union> (\<Union>j\<in>heads T - {i}. foot d j)" using h by auto
    ultimately show ?thesis unfolding fs vinvD(5) [OF inv] using ap head_feet(1) [OF inv h] by auto
  qed
  moreover have "sleep_ok d' (?T r) (v_chan d' r)" for r
    using vinvD(6) [OF inv, of r] t(3) by (auto simp: sleep_ok_def d' released_def forgotten_def foot_def)
  ultimately show ?thesis using vinvD(7-9) [OF inv] by (auto simp: vinv_def u)
qed

text \<open>The device takes a request.\<close>

lemma vinv_fetch:
  assumes inv: "vinv d T" and d': "device_fetches d = Some d'"
  shows "vinv d' T"
proof -
  let ?i = "unat (v_avail_ring d (unat (v_last d) mod NUM))"
  have ne: "v_last d \<noteq> v_avail_idx d" and e: "d' = d\<lparr>v_taken := insert ?i (v_taken d), v_last := v_last d + 1\<rparr>"
    using d' by (auto simp: device_fetches_def split: if_splits)
  have uf: "unfetched d = ?i # unfetched d'" using ring_pop [OF ne] by (simp add: unfetched_def e)
  have tk: "v_taken d' = insert ?i (v_taken d)" by (simp add: e)
  have pd: "pending d' = pending d" by (simp add: pending_def uf tk)
  have us: "unseen d' = unseen d" by (simp add: unseen_def e)
  show ?thesis
  proof (rule vinv_cong [OF inv])
    show "rings_ok d' (heads T)" using vinvD(2) [OF inv] unfolding rings_ok_def pd us tk by (auto simp: uf)
    show "sleep_ok d (T t) (v_chan d' t)" for t using vinvD(6) [OF inv, of t] by (simp add: e)
  qed (simp_all add: pd us, simp_all add: e free_set_def)
qed

text \<open>The interrupt handler sees a completion.\<close>

lemma other_request:
  assumes inv: "vinv d T" and t: "T t = VWait b w i bs" "T u = VWait c v j cs" "u \<noteq> t"
  shows "c \<noteq> b" "v_blockno d c \<noteq> v_blockno d b" "j \<noteq> i" "foot d j \<inter> foot d i = {}"
proof -
  show "c \<noteq> b" "v_blockno d c \<noteq> v_blockno d b" using vinvD(3) [OF inv] t unfolding bufs_apart_def by (metis vbuf.simps(3))+
  show f: "foot d j \<inter> foot d i = {}" using vinvD(4) [OF inv] t unfolding feet_apart_def by (metis vhead.simps(1))
  then show "j \<noteq> i" by (auto simp: foot_def)
qed

lemma head_thread:
  assumes "i \<in> heads T"
  obtains t b w bs where "T t = VWait b w i bs"
  using assms by (auto simp: heads_def vhead_Some)

definition noticed :: "nat \<Rightarrow> vdisk \<Rightarrow> vdisk" where
  "noticed b d = (vwakeup (ChBuf b) (d\<lparr>v_disk := (v_disk d)(b := False)\<rparr>))\<lparr>v_seen := v_seen d + 1\<rparr>"

lemma vd_intr_turn_run:
  assumes inv: "vinv d T"
  shows "v_seen d = v_used_idx d \<Longrightarrow> vd_intr_turn d = Ok False d"
    and "v_seen d \<noteq> v_used_idx d \<Longrightarrow>
      \<exists>t b w i bs. T t = VWait b w i bs \<and> unseen d = i # unseen (noticed b d) \<and> vd_intr_turn d = Ok True (noticed b d)"
proof -
  show "v_seen d = v_used_idx d \<Longrightarrow> vd_intr_turn d = Ok False d" by (simp add: vd_intr_turn_def)
  assume ne: "v_seen d \<noteq> v_used_idx d"
  let ?i = "unat (u_id (v_used_ring d (unat (v_seen d) mod NUM)))"
  have us: "unseen d = ?i # unseen (noticed b d)" for b using ring_pop [OF ne] by (simp add: unseen_def noticed_def vwakeup_def)
  have i: "?i \<in> set (unseen d)" "?i \<in> heads T" using vinvD(2) [OF inv] us [of 0] by (auto simp: rings_ok_def)
  obtain t b w bs where t: "T t = VWait b w ?i bs" by (rule head_thread [OF i(2)])
  have w: "in_status (v_info d ?i) = 0" "in_b (v_info d ?i) = Some b"
    using vinvD(1) [OF inv t] i(1) by (auto simp: wait_ok_def chain_def split: if_splits)
  have "\<not> NUM \<le> ?i" using head_feet(3) [OF inv i(2)] by simp
  then have "vd_intr_turn d = Ok True (noticed b d)" using ne w by (simp add: vd_intr_turn_def noticed_def vwakeup_def)
  then show "\<exists>t b w i bs. T t = VWait b w i bs \<and> unseen d = i # unseen (noticed b d) \<and> vd_intr_turn d = Ok True (noticed b d)"
    using t us by blast
qed

lemma vinv_notice:
  assumes inv: "vinv d T" and t: "T t = VWait b w i bs" and us: "unseen d = i # unseen d'" and d': "d' = noticed b d"
  shows "vinv d' T"
proof -
  have f: "v_desc d' = v_desc d" "v_ops d' = v_ops d" "v_blockno d' = v_blockno d" "v_info d' = v_info d" "v_data d' = v_data d"
    "v_media d' = v_media d" "unfetched d' = unfetched d" "v_taken d' = v_taken d" "pending d' = pending d"
    "free_set d' = free_set d" "v_disk d' = (v_disk d)(b := False)"
    "v_chan d' = (\<lambda>u. if v_chan d u = Some (ChBuf b) then None else v_chan d u)"
    by (simp_all add: d' noticed_def vwakeup_def unfetched_def pending_def free_set_def cong: if_cong)
  have ft: "foot d' j = foot d j" for j by (rule descs_cong) (simp add: f)
  note r = vinvD(2) [OF inv, unfolded rings_ok_def]
  have i: "i \<notin> set (unseen d')" using r us by simp
  have "wait_ok d' c v j cs" if u: "T u = VWait c v j cs" for u c v j cs
  proof (cases "u = t")
    case True
    then have "wait_ok d b w i bs" "c = b" "v = w" "j = i" "cs = bs" using vinvD(1) [OF inv u] u t by auto
    then show ?thesis using i us chain_cong [of d i d' b w] by (auto simp: wait_ok_def f block_at_def split: if_splits)
  next
    case False
    note o = other_request [OF inv t u False]
    show ?thesis by (rule wait_ok_cong [OF vinvD(1) [OF inv u]]) (use o us in \<open>auto simp: f block_at_def\<close>)
  qed
  moreover have "rings_ok d' (heads T)" using r us unfolding rings_ok_def f by auto
  moreover have "sleep_ok d' (T u) (v_chan d' u)" for u
    using vinvD(6) [OF inv, of u] by (auto simp: sleep_ok_def f)
  ultimately show ?thesis using inv by (simp add: vinv_def f ft bufs_apart_def feet_apart_def)
qed

text \<open>The device serves a request: the sectors of a block are its own.\<close>

lemma unat_sector: "unat n < 2 ^ 31 \<Longrightarrow> unat (sector_of n) = 2 * unat n"
  by (simp add: sector_of_def const_defs unsigned_ucast_eq unat_word_ariths take_bit_nat_eq_self)

lemma sectors_apart:
  assumes "unat n < 2 ^ 31" "unat m < 2 ^ 31" "n \<noteq> m"
  shows "sector_of n \<noteq> sector_of m" "sector_of n \<noteq> sector_of m + 1" "sector_of n + 1 \<noteq> sector_of m"
    "sector_of n + 1 \<noteq> sector_of m + 1"
proof -
  have u: "unat (sector_of k + 1) = 2 * unat k + 1" if "unat k < 2 ^ 31" for k
    using that unat_sector [OF that] by (simp add: unat_word_ariths)
  have ne: "unat n \<noteq> unat m" using assms(3) by (simp add: word_unat_eq_iff)
  show "sector_of n \<noteq> sector_of m" using unat_sector [OF assms(1)] unat_sector [OF assms(2)] ne by auto
  then show "sector_of n + 1 \<noteq> sector_of m + 1" by simp
  show "sector_of n \<noteq> sector_of m + 1"
  proof
    assume "sector_of n = sector_of m + 1"
    then have "2 * unat n = 2 * unat m + 1" using unat_sector [OF assms(1)] u [OF assms(2)] by metis
    then show False by presburger
  qed
  show "sector_of n + 1 \<noteq> sector_of m"
  proof
    assume "sector_of n + 1 = sector_of m"
    then have "2 * unat n + 1 = 2 * unat m" using unat_sector [OF assms(2)] u [OF assms(1)] by metis
    then show False by presburger
  qed
qed

lemma two_sectors: "unat (x - y :: u64) < 2 \<longleftrightarrow> x = y \<or> x = y + 1"
proof -
  have "unat (x - y) < 2 \<longleftrightarrow> unat (x - y) = 0 \<or> unat (x - y) = 1" by auto
  also have "\<dots> \<longleftrightarrow> x - y = 0 \<or> x - y = 1" by (simp add: word_unat_eq_iff)
  finally show ?thesis by (auto simp: diff_eq_eq add.commute)
qed

definition served :: "nat \<Rightarrow> bool \<Rightarrow> nat \<Rightarrow> vdisk \<Rightarrow> vdisk" where
  "served b w i d = (let s = sector_of (v_blockno d b) in
     (if w then d\<lparr>v_media := (v_media d)(s := take 512 (v_data d b), s + 1 := drop 512 (v_data d b))\<rparr>
      else d\<lparr>v_data := (v_data d)(b := block_at d (v_blockno d b))\<rparr>)
     \<lparr>v_info := (v_info d)(i := (v_info d i)\<lparr>in_status := 0\<rparr>),
      v_used_ring := (v_used_ring d)(unat (v_used_idx d) mod NUM := \<lparr>u_id = of_nat i, u_len = of_nat BSIZE\<rparr>),
      v_used_idx := v_used_idx d + 1, v_taken := v_taken d - {i}\<rparr>)"

lemma device_completes_run:
  assumes inv: "vinv d T" and t: "T t = VWait b w i bs"
  shows "device_completes i d = Some (served b w i d)"
proof -
  let ?s = "sector_of (v_blockno d b)"
  have c: "chain d b w i" using vinvD(1) [OF inv t] by (simp add: wait_ok_def)
  then have ops: "v_ops d i = \<lparr>r_type = if w then VIRTIO_BLK_T_OUT else VIRTIO_BLK_T_IN, r_reserved = 0, r_sector = ?s\<rparr>"
    by (simp add: chain_def)
  have len: "length (v_data d b) = 1024" using vinvD(7) [OF inv] by (simp add: const_defs)
  have ty: "VIRTIO_BLK_T_OUT \<noteq> VIRTIO_BLK_T_IN" by (simp add: VIRTIO_BLK_T_OUT_def VIRTIO_BLK_T_IN_def)
  have tw: "(\<lambda>x. if unat (x - ?s) < 2 then take 512 (drop (512 * unat (x - ?s)) (v_data d b)) else v_media d x) =
      (v_media d)(?s := take 512 (v_data d b), ?s + 1 := drop 512 (v_data d b))"
    using len by (auto simp: fun_eq_iff two_sectors)
  have rd: "concat (map (\<lambda>k. v_media d (?s + of_nat k)) [0..<2]) = block_at d (v_blockno d b)"
    by (simp add: upt_rec block_at_def)
  have tr: "dma_transfer (v_ops d i) b 2 d =
      (if w then d\<lparr>v_media := (v_media d)(?s := take 512 (v_data d b), ?s + 1 := drop 512 (v_data d b))\<rparr>
       else d\<lparr>v_data := (v_data d)(b := block_at d (v_blockno d b))\<rparr>)"
    by (cases w) (simp_all only: dma_transfer_def ops tw rd ty if_True if_False virtio_blk_req.simps simp_thms)
  show ?thesis
    using c by (simp add: device_completes_def chain_def descs_def nx_def [symmetric] Let_def served_def const_defs tr [unfolded ops])
qed

text \<open>One block moves, between the buffer of the request and its place on the medium.\<close>

lemma served_view:
  assumes inv: "vinv d T" and t: "T t = VWait b w i bs"
  shows "v_data (served b w i d) = (if w then v_data d else (v_data d)(b := block_at d (v_blockno d b)))"
    "unat n < 2 ^ 31 \<Longrightarrow>
      block_at (served b w i d) n = (if w \<and> n = v_blockno d b then v_data d b else block_at d n)"
proof -
  show "v_data (served b w i d) = (if w then v_data d else (v_data d)(b := block_at d (v_blockno d b)))"
    by (simp add: served_def Let_def)
  assume n: "unat n < 2 ^ 31"
  let ?m = "v_blockno d b"
  have "block_at (served b w i d) n = block_at d n" if "n \<noteq> ?m"
    using sectors_apart [OF n vinvD(8) [OF inv] that] by (simp add: block_at_def served_def Let_def)
  then show "block_at (served b w i d) n = (if w \<and> n = ?m then v_data d b else block_at d n)"
    by (auto simp: block_at_def served_def Let_def)
qed

lemma vinv_served:
  assumes inv: "vinv d T" and t: "T t = VWait b w i bs" and tk: "i \<in> v_taken d" and d': "d' = served b w i d"
  shows "vinv d' T"
proof -
  have f: "v_desc d' = v_desc d" "v_ops d' = v_ops d" "v_blockno d' = v_blockno d" "v_disk d' = v_disk d" "v_chan d' = v_chan d"
    "v_info d' = (v_info d)(i := (v_info d i)\<lparr>in_status := 0\<rparr>)" "v_taken d' = v_taken d - {i}" "unfetched d' = unfetched d"
    "free_set d' = free_set d"
    by (simp_all add: d' served_def Let_def unfetched_def free_set_def)
  note v = served_view [OF inv t, folded d']
  note r = vinvD(2) [OF inv, unfolded rings_ok_def]
  have h: "i \<in> heads T" by (rule headsI [of T, OF t])
  have iu: "i \<notin> set (unfetched d)" "i \<in> pending d" using r tk by (auto simp: pending_def)
  then have ns: "i \<notin> set (unseen d)" using vinvD(1) [OF inv t] by (simp add: wait_ok_def)
  have pd: "pending d' = pending d - {i}" using iu by (auto simp: pending_def f)
  have "length (unseen d) < NUM" by (rule card_heads [OF inv _ _ head_feet(3) [OF inv h]]) (use r ns in auto)
  moreover have "(\<lambda>k. unat (u_id (v_used_ring d' k))) = (\<lambda>k. unat (u_id (v_used_ring d k)))(unat (v_used_idx d) mod NUM := i)"
    using head_feet(3) [OF inv h] by (auto simp: d' served_def Let_def unat_slot)
  ultimately have us: "unseen d' = unseen d @ [i]"
    using ring_push unfolding unseen_def by (simp add: d' served_def Let_def)
  have ft: "foot d' j = foot d j" for j by (rule descs_cong) (simp add: f)
  have bn: "unat (v_blockno d c) < 2 ^ 31" for c by (rule vinvD(8) [OF inv])
  have "wait_ok d' c x j cs" if u: "T u = VWait c x j cs" for u c x j cs
  proof (cases "u = t")
    case True
    then have e: "c = b" "x = w" "j = i" "cs = bs" using u t by auto
    have ch: "chain d' b w i = chain d b w i" by (rule chain_cong) (simp_all add: f)
    show ?thesis unfolding e using vinvD(1) [OF inv t] iu(2) bn [of b] by (auto simp: wait_ok_def ch pd us f v)
  next
    case False
    note o = other_request [OF inv t u False]
    show ?thesis
      by (rule wait_ok_cong [OF vinvD(1) [OF inv u]]) (use o bn [of c] in \<open>auto simp: f v pd us\<close>)
  qed
  moreover have "rings_ok d' (heads T)" using r ns iu h unfolding rings_ok_def f us pd by (auto simp: pending_def)
  moreover have "length (block_at d (v_blockno d b)) = BSIZE" using vinvD(9) [OF inv] by (simp add: block_at_def const_defs)
  moreover have "length (v_media d' x) = 512" for x
    using vinvD(7) [OF inv, of b] vinvD(9) [OF inv, of x] by (simp add: d' served_def Let_def const_defs)
  moreover have "sleep_ok d' x y = sleep_ok d x y" for x y by (simp add: sleep_ok_def f)
  ultimately show ?thesis using inv unfolding vinv_def by (simp add: f v ft bufs_apart_def feet_apart_def)
qed

lemma vinv_device:
  assumes inv: "vinv d T" and dev: "device_step d d'"
  shows "vinv d' T"
    "device_fetches d = Some d' \<or> (\<exists>t b w i bs. T t = VWait b w i bs \<and> i \<in> v_taken d \<and> d' = served b w i d)"
proof -
  show c: "device_fetches d = Some d' \<or> (\<exists>t b w i bs. T t = VWait b w i bs \<and> i \<in> v_taken d \<and> d' = served b w i d)"
  proof (cases "device_fetches d = Some d'")
    case False
    then obtain i where i: "i \<in> v_taken d" "device_completes i d = Some d'" using dev by (auto simp: device_step_def)
    then have "i \<in> heads T" using vinvD(2) [OF inv] by (auto simp: rings_ok_def pending_def)
    then obtain t b w bs where t: "T t = VWait b w i bs" by (rule head_thread)
    moreover have "d' = served b w i d" using i(2) device_completes_run [OF inv t] by simp
    ultimately show ?thesis using i(1) by blast
  qed simp
  from c show "vinv d' T" using vinv_fetch [OF inv] vinv_served [OF inv] by blast
qed

lemma vreach_inv:
  assumes "serves dev" "vreach dev g"
  shows "vinv (sd g) (thr g)"
  using assms(2)
proof (induction rule: vreach.induct)
  case (boot data blockno media)
  then show ?case using vinv_boot by auto
next
  case (step g g')
  note inv = step.IH
  from step.hyps(2) show ?case
  proof (cases rule: vstep.cases)
    case (start t b w i d)
    show ?thesis
    proof (cases rule: vd_start_run [of b w "sd g"])
      case (got i0 i1 i2)
      have "i = i0" and d: "d = publish i0 (format_request b w i0 i1 i2 ((sd g)\<lparr>v_free := \<lambda>i. v_free (sd g) i \<and> i \<notin> {i0, i1, i2}\<rparr>))"
        using start(5) got(1) by auto
      then show ?thesis using start(1) vinv_start [OF inv start(2) got(2,3), of "vsleep t (ChBuf b) d"] by (simp add: fun_upd_def)
    next
      case (none I)
      then show ?thesis using start by auto
    qed
  next
    case (full t b w d)
    show ?thesis
    proof (cases rule: vd_start_run [of b w "sd g"])
      case (got i0 i1 i2)
      then show ?thesis using full by auto
    next
      case (none I)
      then show ?thesis using full vinv_full [OF inv none(2,3) full(2)] by auto
    qed
  next
    case (finish t b w i bs d)
    then show ?thesis using vinv_finish [OF inv finish(2) _ _ refl] vd_finish_run [OF inv finish(2)] by (simp add: fun_upd_def)
  next
    case (intr_turn m d)
    then show ?thesis using vd_intr_turn_run [OF inv] vinv_notice [OF inv _ _ refl] inv
      by (cases "v_seen (sd g) = v_used_idx (sd g)") fastforce+
  next
    case (device d)
    then show ?thesis using assms(1) vinv_device(1) [OF inv] by (auto simp: serves_def)
  next
    case (call t b w)
    then show ?thesis using vinv_call [OF inv call(2,3)] by (simp add: fun_upd_def)
  qed (use inv vinv_own vinv_again in auto)
qed

end
