(* ===== verification/Xv6_Rw.thy ===== *)
theory Xv6_Rw
  imports Xv6_Vdisk
begin

text \<open>
  What the callers of the disk driver of kernel/virtio_disk.c get from its invariant: it never panics, each transfer is
  atomic, and a request can always complete.
\<close>

section \<open>What the driver promises\<close>

lemma length_unseen: "length (unseen d) = unat (v_used_idx d - v_seen d)"
  by (simp add: unseen_def ring_list_def)

lemma vd_intr_loop_run:
  assumes "vinv d T" "length (unseen d) < n"
  shows "\<exists>d'. vd_intr_loop n d = Ok () d' \<and> v_seen d' = v_used_idx d' \<and> vinv d' T \<and> pending d' = pending d"
  using assms
proof (induction n arbitrary: d)
  case (Suc n)
  show ?case
  proof (cases "v_seen d = v_used_idx d")
    case True
    then show ?thesis using Suc.prems vd_intr_turn_run(1) [of d T] by (auto simp: bnd_def)
  next
    case False
    obtain t b w i bs where t: "T t = VWait b w i bs" "unseen d = i # unseen (noticed b d)" "vd_intr_turn d = Ok True (noticed b d)"
      using vd_intr_turn_run(2) [OF Suc.prems(1) False] by blast
    have "vinv (noticed b d) T" by (rule vinv_notice [OF Suc.prems(1) t(1,2) refl])
    moreover have "pending (noticed b d) = pending d" by (simp add: noticed_def vwakeup_def pending_def unfetched_def)
    ultimately show ?thesis using Suc.IH [of "noticed b d"] Suc.prems(2) t(2,3) by (auto simp: bnd_def)
  qed
qed simp

text \<open>No operation of the driver panics, and the interrupt handler handles every completion.\<close>

lemma vdisk_no_panic:
  assumes "serves dev" "vreach dev g"
  shows "(\<exists>r d. vd_start b w (sd g) = Ok r d) \<and> (\<exists>d. vd_intr (sd g) = Ok () d \<and> v_seen d = v_used_idx d) \<and>
    (thr g t = VWait b w i bs \<longrightarrow> (\<exists>d. vd_finish i (sd g) = Ok () d \<and> card (free_set d) = card (free_set (sd g)) + 3))"
proof (intro conjI impI)
  note inv = vreach_inv [OF assms]
  show "\<exists>r d. vd_start b w (sd g) = Ok r d" by (cases rule: vd_start_run [of b w "sd g"]) blast+
  show "\<exists>d. vd_intr (sd g) = Ok () d \<and> v_seen d = v_used_idx d"
    using vd_intr_loop_run [OF inv, of "Suc (length (unseen (sd g)))"] unfolding length_unseen by (auto simp: vd_intr_def)
  assume t: "thr g t = VWait b w i bs"
  have h: "i \<in> heads (thr g)" by (rule headsI [of "thr g", OF t])
  let ?d = "released (foot (sd g) i) (forgotten i (sd g))"
  have fs: "free_set ?d = free_set (sd g) \<union> foot (sd g) i"
    using head_feet(1) [OF inv h] by (auto simp: free_set_def released_def forgotten_def)
  have "chain (sd g) b w i" using vinvD(1) [OF inv t] by (simp add: wait_ok_def)
  then have "card (foot (sd g) i) = 3" by (auto simp: chain_def descs_def foot_def)
  then have "card (free_set ?d) = card (free_set (sd g)) + 3"
    unfolding fs using head_feet(4) [OF inv h] by (subst card_Un_disjoint) (auto simp: foot_def)
  then show "\<exists>d. vd_finish i (sd g) = Ok () d \<and> card (free_set d) = card (free_set (sd g)) + 3"
    using vd_finish_run [OF inv t] by blast
qed

text \<open>The transfer as its callers see it: one block, between a buffer and the disk.\<close>

definition blocks :: "vdisk \<Rightarrow> u32 \<Rightarrow> u8 list" where
  "blocks d n = (if unat n < 2 ^ 31 then block_at d n else [])"

definition transfer :: "nat \<Rightarrow> bool \<Rightarrow> u32 \<Rightarrow> (u32 \<Rightarrow> u8 list) \<times> (nat \<Rightarrow> u8 list) \<Rightarrow> (u32 \<Rightarrow> u8 list) \<times> (nat \<Rightarrow> u8 list)" where
  "transfer b w n = (\<lambda>(D, A). if w then (D(n := A b), A) else (D, A(b := D n)))"

lemma served_transfer:
  assumes inv: "vinv d T" and t: "T t = VWait b w i bs"
  shows "(blocks (served b w i d), v_data (served b w i d)) = transfer b w (v_blockno d b) (blocks d, v_data d)"
  using served_view [OF inv t] vinvD(8) [OF inv, of b] by (auto simp: transfer_def blocks_def fun_eq_iff)

text \<open>What a step other than the device's leaves alone.\<close>

lemma blocks_media: "v_media d' = v_media d \<Longrightarrow> blocks d' = blocks d"
  by (simp add: fun_eq_iff blocks_def block_at_def)

lemma step_quiet:
  assumes "serves dev" "vreach dev g" "vstep dev g g'" "\<not> dev (sd g) (sd g')"
  shows "v_media (sd g') = v_media (sd g) \<and> (vbuf (thr g t) = Some b \<longrightarrow> v_data (sd g') b = v_data (sd g) b)"
  using assms(3)
proof (cases rule: vstep.cases)
  case (start t b w i d)
  then show ?thesis by (cases rule: vd_start_run [of b w "sd g"])
    (auto simp: vsleep_def publish_def format_request_def)
next
  case (full t b w d)
  then show ?thesis by (cases rule: vd_start_run [of b w "sd g"]) (auto simp: vsleep_def released_def)
next
  case (finish t b w i bs d)
  then show ?thesis using vd_finish_run [OF vreach_inv [OF assms(1,2)] finish(2)] by (auto simp: released_def forgotten_def)
next
  case (intr_turn m d)
  then show ?thesis using vd_intr_turn_run [OF vreach_inv [OF assms(1,2)]]
    by (cases "v_seen (sd g) = v_used_idx (sd g)") (auto simp: noticed_def vwakeup_def)
qed (use assms(4) in \<open>auto simp: vsleep_def\<close>)

lemma transfer_step:
  assumes inv: "vinv (sd g) T" and d: "device_step (sd g) d'"
  shows "(\<exists>t b w i bs. T t = VWait b w i bs \<and> i \<in> pending (sd g) \<and> i \<notin> pending d' \<and>
      (blocks d', v_data d') = transfer b w (v_blockno (sd g) b) (blocks (sd g), v_data (sd g))) \<or>
    blocks d' = blocks (sd g) \<and> v_data d' = v_data (sd g)"
proof -
  from vinv_device(2) [OF inv d] show ?thesis
  proof (elim disjE exE conjE)
    assume "device_fetches (sd g) = Some d'"
    then have "v_media d' = v_media (sd g)" "v_data d' = v_data (sd g)" by (auto simp: device_fetches_def split: if_splits)
    then show ?thesis using blocks_media by blast
  next
    fix t b w i bs assume t: "T t = VWait b w i bs" "i \<in> v_taken (sd g)" "d' = served b w i (sd g)"
    have "unfetched d' = unfetched (sd g)" "v_taken d' = v_taken (sd g) - {i}" by (simp_all add: t(3) served_def Let_def unfetched_def)
    then have "i \<notin> pending d'" "i \<in> pending (sd g)" using vinvD(2) [OF inv] t(2) by (auto simp: pending_def rings_ok_def)
    then show ?thesis using served_transfer [OF inv t(1)] t by blast
  qed
qed

lemma finished:
  assumes inv: "vinv (sd g) (thr g)" and "vstep dev g g'" "thr g t = VWait b w i bs" "thr g' t = VOut"
  shows "v_data (sd g') b = blocks (sd g') (v_blockno (sd g') b) \<and> (w \<longrightarrow> v_data (sd g') b = bs)"
  using assms(2)
proof (cases rule: vstep.cases)
  case (finish u c v j cs d)
  then have e: "u = t" "c = b" "v = w" "j = i" "cs = bs" using assms(3,4) by (auto split: if_splits)
  have "wait_ok (sd g) b w i bs" by (rule vinvD(1) [OF inv assms(3)])
  then have "v_data (sd g) b = block_at (sd g) (v_blockno (sd g) b) \<and> (w \<longrightarrow> v_data (sd g) b = bs)"
    using finish(5) e by (auto simp: wait_ok_def split: if_splits)
  moreover have "d = released (foot (sd g) i) (forgotten i (sd g))" using finish(6) vd_finish_run [OF inv assms(3)] e by simp
  then have "v_data d = v_data (sd g)" "v_blockno d = v_blockno (sd g)" "v_media d = v_media (sd g)"
    by (simp_all add: released_def forgotten_def)
  moreover from this(3) have "blocks d = blocks (sd g)" by (rule blocks_media)
  ultimately show ?thesis using finish(1) vinvD(8) [OF inv, of b] by (auto simp: blocks_def [of "sd g"])
qed (use assms(3,4) in \<open>auto split: if_splits\<close>)

text \<open>
  Property C10. The driver makes each transfer atomic for its callers: a step of the system either moves the one block of a request
  that has not been served yet, between its buffer and its block on the disk, or changes no block of the disk and no buffer
  in transit; and when \<open>virtio_disk_rw\<close> returns, buffer and block agree and a written buffer is what it was at the call.
\<close>

theorem vdisk_atomic:
  assumes "serves dev" "vreach dev g" "vstep dev g g'"
  shows "((\<exists>t b w i bs. thr g t = VWait b w i bs \<and> i \<in> pending (sd g) \<and> i \<notin> pending (sd g') \<and>
      (blocks (sd g'), v_data (sd g')) = transfer b w (v_blockno (sd g) b) (blocks (sd g), v_data (sd g))) \<or>
      blocks (sd g') = blocks (sd g) \<and> (\<forall>t b. vbuf (thr g t) = Some b \<longrightarrow> v_data (sd g') b = v_data (sd g) b)) \<and>
    (thr g t = VWait b w i bs \<and> thr g' t = VOut \<longrightarrow>
      v_data (sd g') b = blocks (sd g') (v_blockno (sd g') b) \<and> (w \<longrightarrow> v_data (sd g') b = bs))"
proof (intro conjI)
  note inv = vreach_inv [OF assms(1,2)]
  show "(\<exists>t b w i bs. thr g t = VWait b w i bs \<and> i \<in> pending (sd g) \<and> i \<notin> pending (sd g') \<and>
      (blocks (sd g'), v_data (sd g')) = transfer b w (v_blockno (sd g) b) (blocks (sd g), v_data (sd g))) \<or>
      blocks (sd g') = blocks (sd g) \<and> (\<forall>t b. vbuf (thr g t) = Some b \<longrightarrow> v_data (sd g') b = v_data (sd g) b)"
  proof (cases "dev (sd g) (sd g')")
    case True
    then have "device_step (sd g) (sd g')" using assms(1) by (simp add: serves_def)
    from transfer_step [OF inv this] show ?thesis by auto
  next
    case False
    then show ?thesis using step_quiet [OF assms False] blocks_media by blast
  qed
  show "thr g t = VWait b w i bs \<and> thr g' t = VOut \<longrightarrow>
      v_data (sd g') b = blocks (sd g') (v_blockno (sd g') b) \<and> (w \<longrightarrow> v_data (sd g') b = bs)"
    using finished [OF inv assms(3)] by blast
qed

section \<open>Requests can always complete\<close>

text \<open>The interrupt handler runs to its end, the device takes all requests, and serves one.\<close>

lemma drain:
  assumes "vinv (sd g) (thr g)" "intr g"
  shows "\<exists>d. (vstep dev)\<^sup>*\<^sup>* g (g\<lparr>sd := d, intr := False\<rparr>) \<and> vinv d (thr g) \<and> unseen d = [] \<and> pending d = pending (sd g)"
  using assms
proof (induction "length (unseen (sd g))" arbitrary: g)
  case 0
  then have e: "v_seen (sd g) = v_used_idx (sd g)" by (simp add: length_unseen unat_eq_zero)
  then have "vstep dev g (g\<lparr>sd := sd g, intr := False\<rparr>)" using vd_intr_turn_run(1) [OF 0(2)] 0(3) by (intro vstep.intr_turn)
  then show ?case using 0 by (intro exI [of _ "sd g"]) auto
next
  case (Suc n)
  then have ne: "v_seen (sd g) \<noteq> v_used_idx (sd g)" by (auto simp: length_unseen)
  obtain t b w i bs where t: "thr g t = VWait b w i bs" "unseen (sd g) = i # unseen (noticed b (sd g))"
      "vd_intr_turn (sd g) = Ok True (noticed b (sd g))"
    using vd_intr_turn_run(2) [OF Suc.prems(1) ne] by blast
  let ?g = "g\<lparr>sd := noticed b (sd g), intr := True\<rparr>"
  have 1: "vstep dev g ?g" by (rule vstep.intr_turn) (use Suc.prems(2) t(3) in auto)
  have inv: "vinv (sd ?g) (thr ?g)" using vinv_notice [OF Suc.prems(1) t(1,2) refl] by simp
  have "pending (noticed b (sd g)) = pending (sd g)" by (simp add: noticed_def vwakeup_def pending_def unfetched_def)
  moreover obtain d where "(vstep dev)\<^sup>*\<^sup>* ?g (?g\<lparr>sd := d, intr := False\<rparr>)" "vinv d (thr ?g)" "unseen d = []"
      "pending d = pending (sd ?g)"
    using Suc.hyps(1) [of ?g] Suc.hyps(2) inv t(2) by auto
  ultimately show ?case using 1 by (intro exI [of _ d]) (auto intro: converse_rtranclp_into_rtranclp)
qed

lemma fetch_all:
  assumes w: "willing dev" and "vinv (sd g) (thr g)"
  shows "\<exists>d. (vstep dev)\<^sup>*\<^sup>* g (g\<lparr>sd := d\<rparr>) \<and> vinv d (thr g) \<and> unfetched d = [] \<and> pending d = pending (sd g)"
  using assms(2)
proof (induction "length (unfetched (sd g))" arbitrary: g)
  case 0
  then show ?case by (intro exI [of _ "sd g"]) auto
next
  case (Suc n)
  then have ne: "v_last (sd g) \<noteq> v_avail_idx (sd g)" by (auto simp: unfetched_def ring_list_def)
  then obtain d where d: "device_fetches (sd g) = Some d" by (simp add: device_fetches_def)
  have p: "pending d = pending (sd g)" "length (unfetched d) = n"
    using d ne ring_pop [OF ne, of "\<lambda>k. unat (v_avail_ring (sd g) k)"] Suc.hyps(2)
    by (auto simp: device_fetches_def pending_def unfetched_def)
  have "vstep dev g (g\<lparr>sd := d\<rparr>)" using w d by (intro vstep.device) (auto simp: willing_def device_step_def)
  moreover have "vinv d (thr g)" by (rule vinv_fetch [OF Suc.prems d])
  then obtain e where "(vstep dev)\<^sup>*\<^sup>* (g\<lparr>sd := d\<rparr>) (g\<lparr>sd := e\<rparr>)" "vinv e (thr g)" "unfetched e = []" "pending e = pending d"
    using Suc.hyps(1) [of "g\<lparr>sd := d\<rparr>"] p(2) by auto
  ultimately show ?case using p(1) by (intro exI [of _ e]) (auto intro: converse_rtranclp_into_rtranclp)
qed

text \<open>The request of chain \<open>i\<close> is served, if it has not been yet.\<close>

lemma serve_one:
  assumes w: "willing dev" and inv: "vinv (sd g) (thr g)" and t: "thr g t = VWait b w i bs"
  shows "\<exists>d. (vstep dev)\<^sup>*\<^sup>* g (g\<lparr>sd := d\<rparr>) \<and> vinv d (thr g) \<and> i \<notin> pending d"
proof -
  obtain d where d: "(vstep dev)\<^sup>*\<^sup>* g (g\<lparr>sd := d\<rparr>)" "vinv d (thr g)" "unfetched d = []"
    using fetch_all [OF w inv] by blast
  show ?thesis
  proof (cases "i \<in> v_taken d")
    case True
    let ?e = "served b w i d"
    have "device_completes i d = Some ?e" by (rule device_completes_run [OF d(2) t])
    then have "dev d ?e" using w True by (auto simp: willing_def device_step_def)
    then have "vstep dev (g\<lparr>sd := d\<rparr>) (g\<lparr>sd := d\<rparr>\<lparr>sd := ?e\<rparr>)" by (intro vstep.device) simp
    moreover have "vinv ?e (thr g)" by (rule vinv_served [OF d(2) t True refl])
    moreover have "i \<notin> pending ?e" using d(3) by (simp add: served_def Let_def pending_def unfetched_def)
    ultimately show ?thesis using d(1) by (intro exI [of _ ?e]) (auto intro: rtranclp.rtrancl_into_rtrancl)
  next
    case False
    then show ?thesis using d by (intro exI [of _ d]) (auto simp: pending_def)
  qed
qed

lemma request_completes:
  assumes w: "willing dev" and inv: "vinv (sd g) (thr g)" and t: "thr g t = VWait b w i bs"
  shows "\<exists>g'. (vstep dev)\<^sup>*\<^sup>* g g' \<and> thr g' t = VOut"
proof -
  obtain d1 where 1: "(vstep dev)\<^sup>*\<^sup>* g (g\<lparr>sd := d1\<rparr>)" "vinv d1 (thr g)" "i \<notin> pending d1"
    using serve_one [OF w inv t] by blast
  let ?g = "g\<lparr>sd := d1, intr := True\<rparr>"
  have 2: "(vstep dev)\<^sup>*\<^sup>* (g\<lparr>sd := d1\<rparr>) ?g"
  proof (cases "intr g")
    case True
    then have "?g = g\<lparr>sd := d1\<rparr>" by simp
    then show ?thesis by simp
  next
    case False
    then show ?thesis using vstep.intr_on [of "g\<lparr>sd := d1\<rparr>"] by auto
  qed
  obtain d where 3: "(vstep dev)\<^sup>*\<^sup>* ?g (g\<lparr>sd := d, intr := False\<rparr>)" "vinv d (thr g)" "unseen d = []" "pending d = pending d1"
    using drain [of ?g dev] 1(2) by auto
  have nd: "\<not> v_disk d b" using vinvD(1) [OF 3(2) t] 1(3) 3(3,4) by (simp add: wait_ok_def)
  then have "v_chan d t = None" using vinvD(6) [OF 3(2), of t] t by (auto simp: sleep_ok_def)
  then have 4: "vstep dev (g\<lparr>sd := d, intr := False\<rparr>) (g\<lparr>sd := d, intr := False\<rparr>
      \<lparr>sd := released (foot d i) (forgotten i d), thr := (thr g)(t := VOut)\<rparr>)"
    using vstep.finish [of "g\<lparr>sd := d, intr := False\<rparr>" t b w i bs _ dev] nd t vd_finish_run [OF 3(2) t] by simp
  have "(vstep dev)\<^sup>*\<^sup>* g (g\<lparr>sd := d, intr := False\<rparr>)" using 1(1) 2 3(1) by (meson rtranclp_trans)
  from rtranclp.rtrancl_into_rtrancl [OF this 4] show ?thesis by (intro exI conjI) (assumption, simp)
qed

text \<open>
  Property C11. Whatever the interleaving of threads, interrupts and device, with any number of threads inside the driver:
  the driver never panics or touches an array out of bounds, so that starting a request returns, freeing the chain of a
  request returns the three descriptors, and the interrupt handler, whose indices run freely modulo 65536, ends with every
  completion handled; no wakeup is lost, so that a thread asleep for descriptors finds fewer than three free, and one asleep for its
  request has it still queued, or completed but not seen by the handler; and from every state
  the system can go on to the return of any \<open>virtio_disk_rw\<close> that has made its request. The device is one that
  serves the requests of the ring, and may do so at any time.
\<close>

theorem vdisk_live:
  assumes "serves dev" "willing dev" "vreach dev g"
  shows "(\<exists>r d. vd_start b w (sd g) = Ok r d) \<and> (\<exists>d. vd_intr (sd g) = Ok () d \<and> v_seen d = v_used_idx d) \<and>
    (thr g t = VTry b w \<and> v_chan (sd g) t \<noteq> None \<longrightarrow> card (free_set (sd g)) < 3) \<and>
    (thr g t = VWait b w i bs \<longrightarrow>
      (\<exists>d. vd_finish i (sd g) = Ok () d \<and> card (free_set d) = card (free_set (sd g)) + 3) \<and>
      (v_chan (sd g) t \<noteq> None \<longrightarrow> i \<in> pending (sd g) \<or> i \<in> set (unseen (sd g))) \<and>
      (\<exists>g'. (vstep dev)\<^sup>*\<^sup>* g g' \<and> thr g' t = VOut))"
proof -
  note inv = vreach_inv [OF assms(1,3)]
  have "card (free_set (sd g)) < 3" if "thr g t = VTry b w" "v_chan (sd g) t \<noteq> None"
    using vinvD(6) [OF inv, of t] that by (auto simp: sleep_ok_def)
  moreover have "i \<in> pending (sd g) \<or> i \<in> set (unseen (sd g))" if "thr g t = VWait b w i bs" "v_chan (sd g) t \<noteq> None"
    using vinvD(6) [OF inv, of t] vinvD(1) [OF inv that(1)] that by (auto simp: sleep_ok_def wait_ok_def split: if_splits)
  ultimately show ?thesis using vdisk_no_panic [OF assms(1,3)] request_completes [OF assms(2) inv] by blast
qed

section \<open>An example run\<close>

text \<open>
  One thread reads block 1 into buffer 0, with the device \<open>device_step\<close>: the states after the call, the start of the
  request, the device's two steps, the handler's two turns and the return.
\<close>

definition ex_vdisk :: vdisk where
  "ex_vdisk = vdisk_boot (\<lambda>_. 1) (\<lambda>_. replicate 1024 0) (\<lambda>_. replicate 512 7)"

definition ex_boot :: vsys where
  "ex_boot = \<lparr>sd = ex_vdisk, thr = \<lambda>_. VOut, intr = False\<rparr>"

definition ex_started :: vdisk where
  "ex_started = vsleep 0 (ChBuf 0) (publish 0 (format_request 0 False 0 1 2 (ex_vdisk\<lparr>v_free := \<lambda>i. 2 < i \<and> i < 8\<rparr>)))"

definition ex_wait :: vsys where
  "ex_wait = \<lparr>sd = ex_started, thr = (\<lambda>_. VOut)(0 := VWait 0 False 0 (replicate 1024 0)), intr = False\<rparr>"

lemma ex_serves: "serves device_step" "willing device_step"
  by (simp_all add: serves_def willing_def)

lemma ex_boot_reach: "vreach dev ex_boot"
  unfolding ex_boot_def ex_vdisk_def by (rule vreach.boot) (simp_all add: const_defs)

lemma ex_start: "vd_start 0 False ex_vdisk =
  Ok (Some 0) (publish 0 (format_request 0 False 0 1 2 (ex_vdisk\<lparr>v_free := \<lambda>i. 2 < i \<and> i < 8\<rparr>)))"
proof -
  have "alloc3_desc ex_vdisk = Ok (Some [0, 1, 2]) (ex_vdisk\<lparr>v_free := \<lambda>i. 2 < i \<and> i < 8\<rparr>)"
    by (simp add: alloc3_desc_def alloc_desc_run numeral_3_eq_3 bnd_Ok ex_vdisk_def vdisk_boot_def NUM_def upt_rec fun_upd_def)
      (auto simp: fun_eq_iff)
  then show ?thesis by (simp add: vd_start_def bnd_Ok seq_Ok)
qed

lemma ex_wait_reach: "vreach dev ex_wait"
proof -
  let ?g = "ex_boot\<lparr>thr := (thr ex_boot)(0 := VTry 0 False)\<rparr>"
  have "vstep dev ex_boot ?g" by (rule vstep.call) (simp_all add: ex_boot_def)
  then have g: "vreach dev ?g" by (rule vreach.step [OF ex_boot_reach])
  have "vstep dev ?g (?g\<lparr>sd := ex_started, thr := (thr ?g)(0 := VWait 0 False 0 (v_data (sd ?g) 0))\<rparr>)"
    unfolding ex_started_def by (rule vstep.start) (simp_all add: ex_boot_def ex_start, simp add: ex_vdisk_def vdisk_boot_def)
  from vreach.step [OF g this] show ?thesis
    by (simp add: ex_wait_def ex_boot_def ex_vdisk_def vdisk_boot_def)
qed

definition ex_taken :: vdisk where
  "ex_taken = ex_started\<lparr>v_taken := {0}, v_last := 1\<rparr>"

definition ex_seen :: vdisk where
  "ex_seen = noticed 0 (served 0 False 0 ex_taken)"

lemma ex_seen_reach: "vreach device_step (ex_wait\<lparr>sd := ex_seen\<rparr>)"
proof -
  have t: "thr ex_wait 0 = VWait 0 False 0 (replicate 1024 0)" "sd ex_wait = ex_started" by (simp_all add: ex_wait_def)
  have "device_fetches ex_started = Some ex_taken"
    by (simp add: device_fetches_def ex_taken_def ex_started_def vsleep_def publish_def format_request_def ex_vdisk_def vdisk_boot_def)
  then have 1: "vreach device_step (ex_wait\<lparr>sd := ex_taken\<rparr>)"
    by (intro vreach.step [OF ex_wait_reach vstep.device]) (simp add: device_step_def t)
  have inv: "vinv ex_taken (thr ex_wait)" using vreach_inv [OF ex_serves(1) 1] by simp
  let ?d = "served 0 False 0 ex_taken"
  have "device_step ex_taken ?d" using device_completes_run [OF inv t(1)] by (auto simp: device_step_def ex_taken_def)
  then have 2: "vreach device_step (ex_wait\<lparr>sd := ?d\<rparr>)" using vreach.step [OF 1 vstep.device, of ?d] by simp
  have 3: "vreach device_step (ex_wait\<lparr>sd := ?d, intr := True\<rparr>)"
    using vreach.step [OF 2 vstep.intr_on] by (simp add: ex_wait_def)
  have f: "v_seen ?d = 0" "v_used_idx ?d = 1" "u_id (v_used_ring ?d 0) = 0" "v_info ?d 0 = \<lparr>in_b = Some 0, in_status = 0\<rparr>"
    by (simp_all add: served_def Let_def ex_taken_def ex_started_def vsleep_def publish_def format_request_def ex_vdisk_def vdisk_boot_def)
  then have "vd_intr_turn ?d = Ok True ex_seen"
    by (simp add: vd_intr_turn_def NUM_def bnd_def ex_seen_def noticed_def vwakeup_def)
  then have 4: "vreach device_step (ex_wait\<lparr>sd := ex_seen, intr := True\<rparr>)"
    using vreach.step [OF 3 vstep.intr_turn, of True ex_seen] by simp
  have "vd_intr_turn ex_seen = Ok False ex_seen"
    using f by (simp add: vd_intr_turn_def bnd_def ex_seen_def noticed_def vwakeup_def)
  then show ?thesis using vreach.step [OF 4 vstep.intr_turn, of False ex_seen] by (simp add: ex_wait_def)
qed

theorem vdisk_live_witness:
  "\<exists>g'. (vstep device_step)\<^sup>*\<^sup>* ex_wait g' \<and> thr g' 0 = VOut"
  using vdisk_live [OF ex_serves ex_wait_reach, of 0 False 0 0 "replicate 1024 0"] by (simp add: ex_wait_def)

theorem vdisk_atomic_witness:
  "\<exists>d. vstep device_step (ex_wait\<lparr>sd := ex_seen\<rparr>) (ex_wait\<lparr>sd := d, thr := \<lambda>_. VOut\<rparr>) \<and> v_data d 0 = replicate 1024 7"
proof -
  have t: "thr ex_wait 0 = VWait 0 False 0 (replicate 1024 0)" "\<not> intr ex_wait" "(thr ex_wait)(0 := VOut) = (\<lambda>_. VOut)"
    by (auto simp: ex_wait_def)
  have inv: "vinv ex_seen (thr ex_wait)" using vreach_inv [OF ex_serves(1) ex_seen_reach] by simp
  define d where "d = released (foot ex_seen 0) (forgotten 0 ex_seen)"
  have c: "v_chan ex_seen 0 = None" "\<not> v_disk ex_seen 0" "v_blockno d 0 = 1" "v_media d = (\<lambda>_. replicate 512 7)"
    by (simp_all add: d_def released_def forgotten_def ex_seen_def noticed_def vwakeup_def served_def Let_def ex_taken_def ex_started_def
        vsleep_def publish_def format_request_def ex_vdisk_def vdisk_boot_def)
  have st: "vstep device_step (ex_wait\<lparr>sd := ex_seen\<rparr>) (ex_wait\<lparr>sd := d, thr := \<lambda>_. VOut\<rparr>)"
    using vstep.finish [of "ex_wait\<lparr>sd := ex_seen\<rparr>" 0 0 False 0 "replicate 1024 0" d] t c(1,2) vd_finish_run [OF inv t(1)]
    by (simp add: d_def)
  have "blocks d 1 = replicate 1024 7" using c(4) by (simp add: blocks_def block_at_def replicate_add [symmetric])
  then show ?thesis
    using vdisk_atomic [OF ex_serves(1) ex_seen_reach st, of 0 0 False 0 "replicate 1024 0"] st t(1) c(3) by auto
qed

end
