(* ===== verification/Spec2Isabelle.thy ===== *)
theory Spec2Isabelle
  imports Xv6_Line Xv6_Grep Xv6_Printf Xv6_Fileio Xv6_Swap_Outside Xv6_Rw
begin

text \<open>
  A verification development of an xv6 kernel for RISC-V whose user memory is demand paged: pages are mapped on first touch,
  tracked per process in a FIFO resident set, and written to a per-process swap file when physical memory runs out.

  \<^bold>\<open>The program.\<close> A user access to a page that is not mapped traps; \<open>usertrap\<close> (trap.c) classifies the fault and calls
  \<open>vmfault\<close> (vm.c), which reads the page from the executable or fills it with zeros, or reads it back from swap. Pages
  come from \<open>kalloc\<close> (kalloc.c), which calls \<open>do_page_replacement\<close> (proc.c) when the free list is empty: the oldest page
  of the running process is dropped, or written to the swap file through \<open>writei\<close> (fs.c), whose blocks go through the redo
  log (log.c), the buffer cache (bio.c) and the disk driver (virtio_disk.c). Files, pipes, the console, processes, exec and
  the system calls are those of xv6, with the copies between kernel and user memory faulting pages in.

  \<^bold>\<open>Style.\<close> A kernel function is a function from \<open>kstate\<close> (the global variables, physical memory and the disk) to an
  \<open>outcome\<close>: a return with a value and a new state (\<open>Ok\<close>), a panic with its message, a thread that goes to sleep or
  never returns, a loop that exceeds its bound (\<open>Diverge\<close>), or an access C leaves undefined. Machine integers keep their
  width. Physical memory is a function from 64-bit addresses to bytes, so that page tables, free-list nodes, tracking
  nodes and pipes are the bytes the code sees, and aliasing is visible. A pointer to an element of a static array is
  its index.

  \<^bold>\<open>Foundations.\<close>
  \<^item> \<open>Xv6_Prelude\<close>: outcomes, combinators, the judgements \<open>keeps\<close> and \<open>ensures\<close> and their rule collections.
  \<^item> \<open>Xv6_Machine\<close>: kernel/riscv.h, memlayout.h, param.h; little-endian memory access and page arithmetic.
  \<^item> \<open>Xv6_String\<close>: kernel/string.c, each byte loop with its closed form. \<open>Xv6_State\<close>: the structs and globals.
  \<^item> \<open>Xv6_Locks\<close>: spinlock.c, sleeplock.c, and sched, sleep, wakeup, yield of proc.c.

  \<^bold>\<open>Disk, log and files.\<close>
  \<^item> \<open>Xv6_Virtio\<close>: virtio_disk.c and virtio.h, as pieces of code under the driver's lock and a step relation in which threads,
    interrupt handler and device interleave. \<open>Xv6_Vdisk\<close> is its invariant, kept by every step; \<open>Xv6_Rw\<close> shows that
    transfers are atomic, that nothing panics, that no wakeup is lost and that requests can complete. The device is
    a parameter, with the hypotheses \<open>serves\<close> (it does only what the ring asks for) and \<open>willing\<close> (it may do so at any time).
  \<^item> \<open>Xv6_Bio\<close>, \<open>Xv6_Log\<close>, \<open>Xv6_Fs\<close>: bio.c, log.c, fs.c and \<open>create\<close> of sysfile.c. \<open>Xv6_Frame\<close> holds the locales \<open>fs_frame\<close> and
    \<open>trans_frame\<close>: which observations of the state the file system keeps.
  \<^item> \<open>Xv6_Cache\<close>: the invariant of the buffer cache, under which bread, bwrite and brelse act on one map from block numbers to
    contents. \<open>Xv6_Commit\<close>, \<open>Xv6_Crash\<close>: least-recently-used replacement, atomicity of a commit and of recovery under a
    crash at any write, and the panic of a full log.
  \<^item> \<open>Xv6_Blocks\<close>, \<open>Xv6_Inode\<close>, \<open>Xv6_Fileio\<close>: balloc, bmap, iupdate, readi and writei inside a transaction; a file is an array of
    bytes of which writei replaces a range, with the locale \<open>byte_file\<close> as the contract.

  \<^bold>\<open>Memory.\<close>
  \<^item> \<open>Xv6_Kalloc\<close>, \<open>Xv6_Evict\<close>: kalloc.c and \<open>do_page_replacement\<close>; the invariant \<open>vm_inv\<close> ties together page table, free list and resident
    set, and replacement keeps it. \<open>Xv6_Evict_Example\<close> is a concrete state for its properties.
  \<^item> \<open>Xv6_Swap\<close>: the swap-slot bitmap, with the locale \<open>slot_allocator\<close>. \<open>Xv6_Resident\<close>: the linked resident set as a queue, with the
    locale \<open>page_tracker\<close>.
  \<^item> \<open>Xv6_Pagetable\<close>, \<open>Xv6_Vm\<close>, \<open>Xv6_Map\<close>: walk, mapping and unmapping of vm.c, and the resident-set operations of proc.c;
    \<open>mappages\<close> is correct over any allocator that satisfies the locale \<open>page_allocator\<close>.
  \<^item> \<open>Xv6_Fault\<close>: vmfault, copyin, copyout, copyinstr. \<open>Xv6_Demand\<close>: what each kind of page fault does. \<open>Xv6_Copy\<close>: the copies on
    user memory as the process sees it.
  \<^item> \<open>Xv6_Swapio\<close>: a page swapped out comes back unchanged at the next fault, inside a transaction; \<open>Xv6_Swap_Outside\<close>: outside one
    the kernel panics.

  \<^bold>\<open>Devices, processes, system calls.\<close>
  \<^item> \<open>Xv6_Console\<close>: uart.c and console.c, whose line editing \<open>Xv6_Line\<close> compares with a line discipline on lists. \<open>Xv6_File\<close>: file.c, pipe.c
    and \<open>stati\<close> of fs.c; \<open>Xv6_Pipe\<close> shows that a pipe is a bounded queue.
  \<^item> \<open>Xv6_Proc\<close>, \<open>Xv6_Exec\<close>, \<open>Xv6_Syscall\<close>, \<open>Xv6_Trap\<close>: proc.c, exec.c, syscall.c with sysproc.c and sysfile.c, trap.c and the boot sequence
    of main.c. They are definitions only, used by the properties of faults; no property is stated of fork, exec or wait.
  \<^item> \<open>Xv6_Grep\<close>, \<open>Xv6_Printf\<close>: user/grep.c; the printf of kernel and user library, and \<open>atoi\<close>.

  \<^bold>\<open>Bounds.\<close> Loops that are not structural recursions take fuel, and running out of it is \<open>Diverge\<close>, never a result. The fuel covers what
  the data allow: the scans of the resident set take \<open>RS_FUEL\<close> = 557057 nodes, one more than there are pages below
  \<open>PHYSTOP\<close>; the scans of the buffer list one more than its buffers; loops over a range of addresses or bytes one turn
  for each page, block or byte; \<open>freewalk\<close> the three levels of a page table; \<open>free_chain\<close> one turn more than there are descriptors;
  the interrupt handler one more than the completions between its index and the device's. The correctness properties
  conclude with an \<open>Ok\<close> outcome, so they include that the loops end.

  \<^bold>\<open>Not modelled.\<close> Spinlocks are those of one CPU: another CPU never runs between two steps of a function, except where the
  code sleeps. Only the disk driver has an interleaving semantics, in which each stretch of code under its lock is a step.
  Not modelled are the assembly files (entry.S, swtch.S, kernelvec.S, trampoline.S) and start.c, plic.c, the control registers,
  the initialisation of the UART, mkfs, the shell and the other user programs, which are clients of the system calls,
  \<open>malloc\<close>, and the test programs.
\<close>

end
